(* ===== verification/Prelude.thy ===== *)
theory Prelude
  imports Main "HOL-Library.Word"
begin

text \<open>
  The vocabulary every component shares: the C integer types as words, the outcomes a kernel
  function can have, and the state monad in which handlers are written.

  A kernel function either returns, calls \<^verbatim>\<open>panic\<close> (which never returns), goes to sleep on a
  wait channel with nobody left to wake it, or spins forever on a spinlock that another hart
  holds.  The last three are values of \<open>kerr\<close>; \<open>kbind\<close> stops at the first of them, as the C
  code does.  \<open>Out_of_fuel\<close> is the outcome of a recursion on in-memory structures that is deeper
  than the bound its definition is given; the theorems about such a function show that it
  does not occur.
\<close>

unbundle bit_operations_syntax

section \<open>C integer types\<close>

type_synonym uint64 = "64 word"
type_synonym uint32 = "32 word"
type_synonym uint16 = "16 word"
type_synonym uint8 = "8 word"
type_synonym addr = "64 word"

section \<open>Locks and wait channels, by name\<close>

text \<open>
  A spinlock is named by the C object that embeds it; a wait channel is named by the object
  whose address the C code passes to \<^verbatim>\<open>sleep\<close> and \<^verbatim>\<open>wakeup\<close>.
\<close>

datatype lockid =
    Kmem_lock | Krefs_lock | Pid_lock | Wait_lock | Proc_lock nat
  | Tickslock | Cons_lock | Uart_tx_lock | Pr_lock | Bcache_lock | Buf_lk nat
  | Log_lock | Itable_lock | Inode_lk nat | Ftable_lock | Pipe_lock addr | Vdisk_lock

datatype chan =
    Chan_proc nat | Chan_ticks | Chan_cons_r | Chan_uart_tx_r | Chan_buf nat
  | Chan_buf_lock nat | Chan_inode_lock nat | Chan_log | Chan_pipe_nread addr
  | Chan_pipe_nwrite addr | Chan_disk_free

section \<open>Outcomes and the kernel monad\<close>

datatype kerr =
    Panic string
  | Asleep chan
  | Spinning lockid
  | Out_of_fuel

type_synonym 'a result = "kerr + 'a"
type_synonym ('s, 'a) km = "'s \<Rightarrow> ('a \<times> 's) result"

definition kret :: "'a \<Rightarrow> ('s, 'a) km" where
  "kret x = (\<lambda>s. Inr (x, s))"

definition kbind :: "('s, 'a) km \<Rightarrow> ('a \<Rightarrow> ('s, 'b) km) \<Rightarrow> ('s, 'b) km" where
  "kbind m f = (\<lambda>s. case m s of Inl e \<Rightarrow> Inl e | Inr (x, s') \<Rightarrow> f x s')"

definition kseq :: "('s, 'a) km \<Rightarrow> ('s, 'b) km \<Rightarrow> ('s, 'b) km" where
  "kseq m n = kbind m (\<lambda>_. n)"

definition kgets :: "('s \<Rightarrow> 'a) \<Rightarrow> ('s, 'a) km" where
  "kgets f = (\<lambda>s. Inr (f s, s))"

definition kmod :: "('s \<Rightarrow> 's) \<Rightarrow> ('s, unit) km" where
  "kmod f = (\<lambda>s. Inr ((), f s))"

definition kfail :: "kerr \<Rightarrow> ('s, 'a) km" where
  "kfail e = (\<lambda>s. Inl e)"

abbreviation kpanic :: "string \<Rightarrow> ('s, 'a) km" where
  "kpanic msg \<equiv> kfail (Panic msg)"

definition kwhen :: "bool \<Rightarrow> ('s, unit) km \<Rightarrow> ('s, unit) km" where
  "kwhen b m = (if b then m else kret ())"

named_theorems kmonad

lemma kret_apply [simp, kmonad]: "kret x s = Inr (x, s)"
  by (simp add: kret_def)

lemma kgets_apply [simp, kmonad]: "kgets f s = Inr (f s, s)"
  by (simp add: kgets_def)

lemma kmod_apply [simp, kmonad]: "kmod f s = Inr ((), f s)"
  by (simp add: kmod_def)

lemma kfail_apply [simp, kmonad]: "kfail e s = Inl e"
  by (simp add: kfail_def)

lemma kwhen_apply [simp, kmonad]: "kwhen b m s = (if b then m s else Inr ((), s))"
  by (simp add: kwhen_def)

lemma kbind_apply [kmonad]:
  "kbind m f s = (case m s of Inl e \<Rightarrow> Inl e | Inr (x, s') \<Rightarrow> f x s')"
  by (simp add: kbind_def)

lemma kseq_apply [kmonad]:
  "kseq m n s = (case m s of Inl e \<Rightarrow> Inl e | Inr (x, s') \<Rightarrow> n s')"
  by (simp add: kseq_def kbind_def)

lemma kbind_Inr: "m s = Inr (x, s') \<Longrightarrow> kbind m f s = f x s'"
  by (simp add: kbind_def)

lemma kbind_Inl: "m s = Inl e \<Longrightarrow> kbind m f s = Inl e"
  by (simp add: kbind_def)

lemma kseq_Inr: "m s = Inr (x, s') \<Longrightarrow> kseq m n s = n s'"
  by (simp add: kseq_apply)

lemma kseq_Inl: "m s = Inl e \<Longrightarrow> kseq m n s = Inl e"
  by (simp add: kseq_apply)

lemma kbind_prim [simp]:
  "kbind (kgets g) f1 s = f1 (g s) s"
  "kbind (kret x) f2 s = f2 x s"
  "kbind (kmod h) f3 s = f3 () (h s)"
  "kbind (kfail e) f4 s = Inl e"
  "kseq (kgets g) n s = n s"
  "kseq (kret x) n s = n s"
  "kseq (kmod h) n s = n (h s)"
  "kseq (kfail e) n s = Inl e"
  by (simp_all add: kmonad)

lemma kbind_eq_Inr:
  "kbind m f s = Inr (y, t) \<longleftrightarrow> (\<exists>x u. m s = Inr (x, u) \<and> f x u = Inr (y, t))"
  by (auto simp: kbind_def split: sum.splits)

lemma kseq_eq_Inr:
  "kseq m n s = Inr (y, t) \<longleftrightarrow> (\<exists>x u. m s = Inr (x, u) \<and> n u = Inr (y, t))"
  by (auto simp: kseq_def kbind_eq_Inr)

lemma kbind_if: "kbind (if b then m else n) f s = (if b then kbind m f s else kbind n f s)"
  by simp

lemma kseq_if: "kseq (if b then m else n) k s = (if b then kseq m k s else kseq n k s)"
  by simp

text \<open>The same operation \<open>n\<close> times, collecting the results.\<close>

primrec ktimes :: "nat \<Rightarrow> ('s, 'a) km \<Rightarrow> ('s, 'a list) km" where
  "ktimes 0 m = kret []"
| "ktimes (Suc n) m = kbind m (\<lambda>x. kbind (ktimes n m) (\<lambda>xs. kret (x # xs)))"

text \<open>C loops over a range: \<open>kfor\<close> runs the body for every index, \<open>kscan\<close> stops at the first
  index whose body returns a value.\<close>

primrec kfor :: "'i list \<Rightarrow> ('i \<Rightarrow> ('s, unit) km) \<Rightarrow> ('s, unit) km" where
  "kfor [] f = kret ()"
| "kfor (i # is) f = kseq (f i) (kfor is f)"

primrec kscan :: "'i list \<Rightarrow> ('i \<Rightarrow> ('s, 'a option) km) \<Rightarrow> ('s, 'a option) km" where
  "kscan [] f = kret None"
| "kscan (i # is) f = kbind (f i) (\<lambda>r. case r of None \<Rightarrow> kscan is f | Some x \<Rightarrow> kret (Some x))"

text \<open>Following a null pointer faults; the handler of kernel faults (\<^verbatim>\<open>kerneltrap\<close>) panics.\<close>

definition deref :: "'p option \<Rightarrow> ('s, 'p) km" where
  "deref p = (case p of None \<Rightarrow> kpanic ''kerneltrap'' | Some x \<Rightarrow> kret x)"

lemma deref_simps [simp]: "deref (Some x) = kret x" "deref None = kpanic ''kerneltrap''"
  by (simp_all add: deref_def)

lemma kfor_append: "kfor (xs @ ys) f s = kseq (kfor xs f) (kfor ys f) s"
  by (induction xs arbitrary: s) (auto simp: kmonad split: sum.splits)

lemma kfor_fold:
  assumes "\<And>i s. i \<in> set is \<Longrightarrow> P s \<Longrightarrow> f i s = Inr ((), g i s) \<and> P (g i s)" "P s"
  shows "kfor is f s = Inr ((), fold g is s) \<and> P (fold g is s)"
  using assms by (induction "is" arbitrary: s) (simp_all add: kmonad)

lemma kscan_none:
  assumes "\<And>i s. i \<in> set is \<Longrightarrow> P s \<Longrightarrow> \<exists>s'. f i s = Inr (None, s') \<and> P s'" "P s"
  shows "\<exists>s'. kscan is f s = Inr (None, s') \<and> P s'"
  using assms
proof (induction "is" arbitrary: s)
  case (Cons i "is")
  obtain s' where "f i s = Inr (None, s')" "P s'" using Cons.prems by force
  moreover from this obtain s'' where "kscan is f s' = Inr (None, s'')" "P s''" using Cons by force
  ultimately show ?case by (auto simp: kmonad)
qed auto

lemma kscan_append:
  "kscan (xs @ ys) f s = kbind (kscan xs f) (\<lambda>r. case r of None \<Rightarrow> kscan ys f | Some x \<Rightarrow> kret (Some x)) s"
  by (induction xs arbitrary: s) (auto simp: kmonad split: sum.splits option.splits)

section \<open>Words as natural numbers\<close>

lemma unat_lt64: "unat (x :: uint64) < 2 ^ 64"
  using unsigned_less [of x, where ?'a = nat] by simp

lemma unat_lt32: "unat (x :: uint32) < 2 ^ 32"
  using unsigned_less [of x, where ?'a = nat] by simp

lemma unat_m1: "unat (- 1 :: uint64) = 2 ^ 64 - 1"
  by (simp add: unsigned_minus_1_eq_mask mask_eq_exp_minus_1)

lemma unat_ucast_32_64 [simp]: "unat (ucast (n :: uint32) :: uint64) = unat n"
  using unat_lt32 [of n] by (simp add: unsigned_ucast_eq take_bit_nat_eq_self)

lemma unat_add_lt: "unat a + unat b < 2 ^ 64 \<Longrightarrow> unat (a + b) = unat a + unat (b :: uint64)"
  by (simp add: unat_word_ariths)

end
