(* ===== verification/Layout.thy ===== *)
theory Layout
  imports Prelude
begin

text \<open>
  Constants and macros of \<^verbatim>\<open>kernel/param.h\<close>, \<^verbatim>\<open>kernel/memlayout.h\<close> and \<^verbatim>\<open>kernel/riscv.h\<close>:
  the physical memory map, the page size, the Sv39 page-table-entry format (with the
  software-defined copy-on-write bit) and the address arithmetic on them, as 64-bit words.
  The lemmas are the bit-level facts the allocator and the virtual-memory code rest on.
\<close>

section \<open>kernel/param.h\<close>

abbreviation (input) NPROC :: nat where "NPROC \<equiv> 64"
abbreviation (input) NCPU :: nat where "NCPU \<equiv> 8"
abbreviation (input) NOFILE :: nat where "NOFILE \<equiv> 16"
abbreviation (input) NFILE :: nat where "NFILE \<equiv> 100"
abbreviation (input) NINODE :: nat where "NINODE \<equiv> 50"
abbreviation (input) NDEV :: nat where "NDEV \<equiv> 10"
abbreviation (input) ROOTDEV :: uint32 where "ROOTDEV \<equiv> 1"
abbreviation (input) MAXARG :: nat where "MAXARG \<equiv> 32"
abbreviation (input) MAXOPBLOCKS :: int where "MAXOPBLOCKS \<equiv> 10"
abbreviation (input) LOGSIZE :: int where "LOGSIZE \<equiv> MAXOPBLOCKS * 3"
abbreviation (input) NBUF :: nat where "NBUF \<equiv> 30"
abbreviation (input) MAXPATH :: nat where "MAXPATH \<equiv> 128"

section \<open>kernel/riscv.h and kernel/memlayout.h\<close>

abbreviation (input) PGSIZE :: uint64 where "PGSIZE \<equiv> 4096"
abbreviation (input) PGSHIFT :: nat where "PGSHIFT \<equiv> 12"
abbreviation (input) MAXVA :: uint64 where "MAXVA \<equiv> 0x4000000000"
abbreviation (input) KERNBASE :: uint64 where "KERNBASE \<equiv> 0x80000000"
abbreviation (input) PHYSTOP :: uint64 where "PHYSTOP \<equiv> 0x88000000"
abbreviation (input) UART0 :: uint64 where "UART0 \<equiv> 0x10000000"
abbreviation (input) VIRTIO0 :: uint64 where "VIRTIO0 \<equiv> 0x10001000"
abbreviation (input) PLIC :: uint64 where "PLIC \<equiv> 0x0c000000"
abbreviation (input) TRAMPOLINE :: uint64 where "TRAMPOLINE \<equiv> MAXVA - PGSIZE"
abbreviation (input) TRAPFRAME :: uint64 where "TRAPFRAME \<equiv> TRAMPOLINE - PGSIZE"

definition KSTACK :: "nat \<Rightarrow> uint64" where
  "KSTACK p = TRAMPOLINE - (of_nat p + 1) * 2 * PGSIZE"

abbreviation (input) PTE_V :: uint64 where "PTE_V \<equiv> 1"
abbreviation (input) PTE_R :: uint64 where "PTE_R \<equiv> 2"
abbreviation (input) PTE_W :: uint64 where "PTE_W \<equiv> 4"
abbreviation (input) PTE_X :: uint64 where "PTE_X \<equiv> 8"
abbreviation (input) PTE_U :: uint64 where "PTE_U \<equiv> 16"
abbreviation (input) PTE_COW :: uint64 where "PTE_COW \<equiv> 256"

definition PGROUNDUP :: "uint64 \<Rightarrow> uint64" where
  "PGROUNDUP sz = (sz + PGSIZE - 1) AND NOT (PGSIZE - 1)"

definition PGROUNDDOWN :: "uint64 \<Rightarrow> uint64" where
  "PGROUNDDOWN a = a AND NOT (PGSIZE - 1)"

definition PA2PTE :: "uint64 \<Rightarrow> uint64" where
  "PA2PTE pa = push_bit 10 (drop_bit 12 pa)"

definition PTE2PA :: "uint64 \<Rightarrow> uint64" where
  "PTE2PA pte = push_bit 12 (drop_bit 10 pte)"

definition PTE_FLAGS :: "uint64 \<Rightarrow> uint64" where
  "PTE_FLAGS pte = pte AND 0x3FF"

definition PXSHIFT :: "nat \<Rightarrow> nat" where
  "PXSHIFT level = PGSHIFT + 9 * level"

definition PX :: "nat \<Rightarrow> uint64 \<Rightarrow> uint64" where
  "PX level va = drop_bit (PXSHIFT level) va AND 0x1FF"

section \<open>Page arithmetic\<close>

text \<open>A page address is a multiple of the page size; \<open>aligned\<close> is the test the C code writes
  as \<^verbatim>\<open>addr % PGSIZE == 0\<close>.\<close>

definition aligned :: "uint64 \<Rightarrow> bool" where
  "aligned a \<longleftrightarrow> a mod PGSIZE = 0"

lemma bit_4095 [simp]: "bit (4095 :: uint64) n \<longleftrightarrow> n < 12"
proof -
  have "(4095 :: uint64) = mask 12"
    by (simp add: mask_eq_exp_minus_1)
  moreover have "bit (mask 12 :: uint64) n \<longleftrightarrow> n < 12"
    by (auto simp: bit_mask_iff)
  ultimately show ?thesis by (simp only:)
qed

lemma lt_page_bits:
  assumes "off < PGSIZE" and "12 \<le> n"
  shows "\<not> bit off n"
proof -
  have "off div 2 ^ 12 = 0"
    using assms(1) by (simp add: word_less_nat_alt word_unat_eq_iff unat_div)
  then have "drop_bit 12 off = 0"
    by (simp add: drop_bit_eq_div)
  then have "\<not> bit (drop_bit 12 off) (n - 12)"
    by simp
  then show ?thesis using assms(2) by (simp add: bit_drop_bit_eq)
qed

lemma bit_PGROUNDDOWN [bit_simps]: "bit (PGROUNDDOWN a) n \<longleftrightarrow> 12 \<le> n \<and> bit a n"
proof -
  have "PGSIZE - 1 = 4095"
    by simp
  then show ?thesis
    by (simp only: PGROUNDDOWN_def bit_and_iff bit_not_iff bit_4095)
      (auto dest: bit_imp_le_length)
qed

lemma aligned_bits: "aligned a \<longleftrightarrow> (\<forall>n<12. \<not> bit a n)"
proof -
  have "a mod PGSIZE = take_bit 12 a"
    by (simp add: take_bit_eq_mod)
  moreover have "take_bit 12 a = 0 \<longleftrightarrow> (\<forall>n<12. \<not> bit a n)"
    by (auto simp: bit_eq_iff bit_simps)
  ultimately show ?thesis by (simp add: aligned_def)
qed

lemma aligned_PGROUNDDOWN [simp, intro]: "aligned (PGROUNDDOWN a)"
  by (simp add: aligned_bits bit_simps)

lemma PGROUNDDOWN_aligned: "aligned a \<Longrightarrow> PGROUNDDOWN a = a"
  by (rule bit_word_eqI) (auto simp: aligned_bits bit_simps not_less)

lemma PGROUNDDOWN_idem [simp]: "PGROUNDDOWN (PGROUNDDOWN a) = PGROUNDDOWN a"
  by (rule PGROUNDDOWN_aligned) simp

lemma PGROUNDDOWN_shift: "PGROUNDDOWN a = push_bit 12 (drop_bit 12 a)"
  by (rule bit_word_eqI) (auto simp: bit_simps)

lemma PGROUNDDOWN_mod: "PGROUNDDOWN a = a - a mod PGSIZE"
  by (simp add: PGROUNDDOWN_shift push_bit_eq_mult drop_bit_eq_div minus_mod_eq_div_mult
      mult.commute)

lemma unat_PGROUNDDOWN: "unat (PGROUNDDOWN a) = unat a - unat a mod 4096"
proof -
  have "a mod PGSIZE \<le> a"
    by (simp add: word_le_nat_alt unat_mod)
  then show ?thesis
    by (simp add: PGROUNDDOWN_mod unat_sub unat_mod)
qed

lemma aligned_unat: "aligned a \<longleftrightarrow> 4096 dvd unat a"
  by (simp add: aligned_def word_unat_eq_iff unat_mod dvd_eq_mod_eq_0)

lemma page_add_bits:
  assumes "aligned p" and "off < PGSIZE"
  shows "p + off = p OR off"
proof (rule disjunctive_add)
  fix n show "\<not> bit p n \<or> \<not> bit off n"
    using assms by (cases "n < 12") (auto simp: aligned_bits not_less dest: lt_page_bits)
qed

text \<open>The workhorse of every separation argument: an address within a page determines the page,
  so accesses to two different pages never meet.\<close>

lemma PGROUNDDOWN_add [simp]:
  assumes "aligned p" and "off < PGSIZE"
  shows "PGROUNDDOWN (p + off) = p"
proof (rule bit_word_eqI)
  fix n assume "n < LENGTH(64)"
  show "bit (PGROUNDDOWN (p + off)) n = bit p n"
    using assms by (auto simp: page_add_bits bit_simps aligned_bits not_less dest: lt_page_bits)
qed

lemma page_offset:
  assumes "aligned p"
  shows "PGROUNDDOWN a = p \<longleftrightarrow> a - p < PGSIZE"
proof
  assume "PGROUNDDOWN a = p"
  then have "a - p = a mod PGSIZE"
    by (auto simp: PGROUNDDOWN_mod)
  then show "a - p < PGSIZE"
    by (simp add: word_less_nat_alt unat_mod)
next
  assume "a - p < PGSIZE"
  with assms have "PGROUNDDOWN (p + (a - p)) = p"
    by (rule PGROUNDDOWN_add)
  then show "PGROUNDDOWN a = p" by simp
qed

lemma aligned_add: "aligned a \<Longrightarrow> aligned b \<Longrightarrow> aligned (a + b)"
  by (simp add: aligned_unat unat_word_ariths dvd_mod)

lemma PGROUNDDOWN_le: "PGROUNDDOWN a \<le> a"
  by (simp add: word_le_nat_alt unat_PGROUNDDOWN)

lemma page_offset_lt [simp]: "a - PGROUNDDOWN a < PGSIZE"
  using page_offset [of "PGROUNDDOWN a" a] by simp

section \<open>Page-table entries\<close>

lemma bit_1023: "bit (0x3FF :: uint64) n \<longleftrightarrow> n < 10"
proof -
  have "(0x3FF :: uint64) = mask 10"
    by (simp add: mask_eq_exp_minus_1)
  moreover have "bit (mask 10 :: uint64) n \<longleftrightarrow> n < 10"
    by (auto simp: bit_mask_iff)
  ultimately show ?thesis by (simp only:)
qed

lemma bit_511: "bit (0x1FF :: uint64) n \<longleftrightarrow> n < 9"
proof -
  have "(0x1FF :: uint64) = mask 9"
    by (simp add: mask_eq_exp_minus_1)
  moreover have "bit (mask 9 :: uint64) n \<longleftrightarrow> n < 9"
    by (auto simp: bit_mask_iff)
  ultimately show ?thesis by (simp only:)
qed

lemma lt_flag_bits:
  assumes "f < 0x400" and "10 \<le> n"
  shows "\<not> bit (f :: uint64) n"
proof -
  have "f div 2 ^ 10 = 0"
    using assms(1) by (simp add: word_less_nat_alt word_unat_eq_iff unat_div)
  then have "drop_bit 10 f = 0"
    by (simp add: drop_bit_eq_div)
  then have "\<not> bit (drop_bit 10 f) (n - 10)"
    by simp
  then show ?thesis using assms(2) by (simp add: bit_drop_bit_eq)
qed

lemma bit_PA2PTE [bit_simps]:
  "bit (PA2PTE pa) n \<longleftrightarrow> 10 \<le> n \<and> n < 64 \<and> bit pa (n + 2)"
  by (auto simp: PA2PTE_def bit_simps add.commute)

lemma bit_PTE2PA [bit_simps]:
  "bit (PTE2PA pte) n \<longleftrightarrow> 12 \<le> n \<and> n < 64 \<and> bit pte (n - 2)"
proof -
  have "12 \<le> n \<Longrightarrow> 10 + (n - 12) = n - 2" by simp
  then show ?thesis by (auto simp: PTE2PA_def bit_simps)
qed

lemma bit_PTE_FLAGS [bit_simps]: "bit (PTE_FLAGS pte) n \<longleftrightarrow> n < 10 \<and> bit pte n"
  unfolding PTE_FLAGS_def bit_and_iff bit_1023 by auto

lemma aligned_PTE2PA [simp, intro]: "aligned (PTE2PA pte)"
  by (simp add: aligned_bits bit_simps)

lemma PTE2PA_PA2PTE:
  assumes "aligned pa" and "f < 0x400"
  shows "PTE2PA (PA2PTE pa OR f) = pa"
proof (rule bit_word_eqI)
  fix n :: nat assume n: "n < LENGTH(64)"
  show "bit (PTE2PA (PA2PTE pa OR f)) n = bit pa n"
  proof (cases "12 \<le> n")
    case True
    then have "n - 2 + 2 = n" "10 \<le> n - 2" by auto
    with True n lt_flag_bits [OF assms(2), of "n - 2"] show ?thesis
      by (simp add: bit_PTE2PA bit_or_iff bit_PA2PTE)
  next
    case False
    with assms(1) show ?thesis by (simp add: bit_PTE2PA aligned_bits)
  qed
qed

lemma PTE_FLAGS_PA2PTE:
  assumes "f < 0x400"
  shows "PTE_FLAGS (PA2PTE pa OR f) = f"
proof (rule bit_word_eqI)
  fix n :: nat
  show "bit (PTE_FLAGS (PA2PTE pa OR f)) n = bit f n"
    using lt_flag_bits [OF assms, of n] by (cases "10 \<le> n") (auto simp: bit_simps)
qed

lemma PTE_FLAGS_lt [simp]: "PTE_FLAGS pte < 0x400"
proof -
  have "PTE_FLAGS pte \<le> 0x3FF"
    by (simp add: PTE_FLAGS_def word_and_le1)
  then show ?thesis by (simp add: word_le_nat_alt word_less_nat_alt)
qed

lemma PTE_FLAGS_test:
  assumes "g < 0x400"
  shows "PTE_FLAGS pte AND g = pte AND g"
proof (rule bit_word_eqI)
  fix n :: nat
  show "bit (PTE_FLAGS pte AND g) n = bit (pte AND g) n"
    using lt_flag_bits [OF assms, of n] by (cases "10 \<le> n") (auto simp: bit_simps)
qed

lemma flags_or_lt: "f < 0x400 \<Longrightarrow> g < 0x400 \<Longrightarrow> f OR g < (0x400 :: uint64)"
proof -
  assume "f < 0x400" "g < 0x400"
  then have "PTE_FLAGS (f OR g) = f OR g"
    by (intro bit_word_eqI) (auto simp: bit_simps not_less dest: lt_flag_bits)
  then show ?thesis using PTE_FLAGS_lt [of "f OR g"] by simp
qed

section \<open>Page-table indices\<close>

lemma bit_PX [bit_simps]: "bit (PX l va) n \<longleftrightarrow> n < 9 \<and> bit va (12 + 9 * l + n)"
  unfolding PX_def PXSHIFT_def bit_and_iff bit_511 bit_drop_bit_eq by auto

lemma PX_lt: "PX l va < 0x200"
proof -
  have "PX l va \<le> 0x1FF"
    by (simp add: PX_def word_and_le1)
  then show ?thesis by (simp add: word_le_nat_alt word_less_nat_alt)
qed

lemma lt_MAXVA_bits:
  assumes "va < MAXVA" and "38 \<le> n"
  shows "\<not> bit va n"
proof -
  have "va div 2 ^ 38 = 0"
    using assms(1) by (simp add: word_less_nat_alt word_unat_eq_iff unat_div)
  then have "drop_bit 38 va = 0"
    by (simp add: drop_bit_eq_div)
  then have "\<not> bit (drop_bit 38 va) (n - 38)"
    by simp
  then show ?thesis using assms(2) by (simp add: bit_drop_bit_eq)
qed

text \<open>Below \<open>MAXVA\<close> the three indices determine the virtual page, so two virtual pages never
  share a leaf entry.\<close>

lemma PX_determines_page:
  assumes "a < MAXVA" "b < MAXVA"
    and "PX 2 a = PX 2 b" "PX 1 a = PX 1 b" "PX 0 a = PX 0 b"
  shows "PGROUNDDOWN a = PGROUNDDOWN b"
proof (rule bit_word_eqI)
  fix n :: nat
  have px: "\<And>l k. l \<le> 2 \<Longrightarrow> bit (PX l a) k = bit (PX l b) k"
    using assms(3-5) by (metis One_nat_def le_SucE le_zero_eq numeral_2_eq_2)
  consider "n < 12" | "12 \<le> n" "n < 21" | "21 \<le> n" "n < 30" | "30 \<le> n" "n < 39" | "39 \<le> n"
    by linarith
  then show "bit (PGROUNDDOWN a) n = bit (PGROUNDDOWN b) n"
  proof cases
    case 2
    then have "n - 12 < 9" by linarith
    with 2 show ?thesis using px [of 0 "n - 12"] by (simp add: bit_simps)
  next
    case 3
    then have "n - 21 < 9" by linarith
    with 3 show ?thesis using px [of 1 "n - 21"] by (simp add: bit_simps)
  next
    case 4
    then have "n - 30 < 9" by linarith
    with 4 show ?thesis using px [of 2 "n - 30"] by (simp add: bit_simps)
  qed (auto simp: bit_simps assms lt_MAXVA_bits)
qed

lemma PX_PGROUNDDOWN [simp]: "PX l (PGROUNDDOWN a) = PX l a"
  by (rule bit_word_eqI) (auto simp: bit_simps)

end
