(* ===== verification/Ram.thy ===== *)
theory Ram
  imports Layout
begin

text \<open>
  Physical memory as a map from addresses to bytes, little-endian loads and stores of the C
  integer widths, and the memory and string routines of \<^verbatim>\<open>kernel/string.c\<close>.  Each routine is
  the loop of the C source; the lemmas give its closed form, which is what the rest of the
  development rewrites with.
\<close>

type_synonym ram = "addr \<Rightarrow> uint8"

section \<open>Loads and stores\<close>

primrec ldw :: "nat \<Rightarrow> ram \<Rightarrow> addr \<Rightarrow> 'a::len word" where
  "ldw 0 m a = 0"
| "ldw (Suc k) m a = ucast (m a) OR push_bit 8 (ldw k m (a + 1))"

definition stw :: "nat \<Rightarrow> ram \<Rightarrow> addr \<Rightarrow> 'a::len word \<Rightarrow> ram" where
  "stw k m a v =
     (\<lambda>x. if unat (x - a) < k then ucast (drop_bit (8 * unat (x - a)) v) else m x)"

abbreviation ld64 :: "ram \<Rightarrow> addr \<Rightarrow> uint64" where "ld64 \<equiv> ldw 8"
abbreviation ld32 :: "ram \<Rightarrow> addr \<Rightarrow> uint32" where "ld32 \<equiv> ldw 4"
abbreviation ld16 :: "ram \<Rightarrow> addr \<Rightarrow> uint16" where "ld16 \<equiv> ldw 2"
abbreviation st64 :: "ram \<Rightarrow> addr \<Rightarrow> uint64 \<Rightarrow> ram" where "st64 \<equiv> stw 8"
abbreviation st32 :: "ram \<Rightarrow> addr \<Rightarrow> uint32 \<Rightarrow> ram" where "st32 \<equiv> stw 4"
abbreviation st16 :: "ram \<Rightarrow> addr \<Rightarrow> uint16 \<Rightarrow> ram" where "st16 \<equiv> stw 2"

lemma bit_ldw:
  "bit (ldw k m a :: 'a::len word) n \<longleftrightarrow>
     n < LENGTH('a) \<and> n < 8 * k \<and> bit (m (a + of_nat (n div 8))) (n mod 8)"
proof (induction k arbitrary: a n)
  case 0
  then show ?case by simp
next
  case (Suc k)
  show ?case
  proof (cases "n < 8")
    case True
    then show ?thesis by (auto simp: bit_simps)
  next
    case False
    then have "n div 8 = Suc ((n - 8) div 8)" "n mod 8 = (n - 8) mod 8"
      by (simp_all add: le_div_geq le_mod_geq)
    with False show ?thesis
      by (auto simp: bit_simps Suc.IH algebra_simps dest: bit_imp_le_length)
  qed
qed

lemma ldw_cong:
  assumes "\<And>i. i < k \<Longrightarrow> m (a + of_nat i) = m' (a + of_nat i)"
  shows "ldw k m a = ldw k m' a"
  by (rule bit_word_eqI) (auto simp: bit_ldw assms)

lemma unat_of_nat_small: "i < k \<Longrightarrow> k \<le> 8 \<Longrightarrow> unat (of_nat i :: uint64) = i"
  by (simp add: unat_of_nat)

lemma ldw_stw_same:
  assumes "8 * k = LENGTH('a::len)" "k \<le> 8"
  shows "ldw k (stw k m a v) a = (v :: 'a word)"
proof (rule bit_word_eqI)
  fix n assume n: "n < LENGTH('a)"
  then have "n div 8 < k" using assms(1) by auto
  then show "bit (ldw k (stw k m a v) a :: 'a word) n = bit v n"
    using n assms unat_of_nat_small [of "n div 8" k]
    by (simp add: bit_ldw stw_def bit_simps)
qed

lemma ld64_st64 [simp]: "ld64 (st64 m a v) a = v"
  by (rule ldw_stw_same) simp_all

lemma ld32_st32 [simp]: "ld32 (st32 m a v) a = v"
  by (rule ldw_stw_same) simp_all

lemma ld16_st16 [simp]: "ld16 (st16 m a v) a = v"
  by (rule ldw_stw_same) simp_all

lemma stw_other: "k \<le> unat (x - a) \<Longrightarrow> stw k m a v x = m x"
  by (simp add: stw_def)

section \<open>kernel/string.c: memory\<close>

text \<open>\<^verbatim>\<open>memset\<close>: the loop over \<open>i\<close>; \<open>k\<close> counts the iterations that are left.\<close>

primrec memset_loop :: "ram \<Rightarrow> addr \<Rightarrow> uint8 \<Rightarrow> nat \<Rightarrow> nat \<Rightarrow> ram" where
  "memset_loop m cdst c i 0 = m"
| "memset_loop m cdst c i (Suc k) = memset_loop (m(cdst + of_nat i := c)) cdst c (Suc i) k"

definition memset :: "ram \<Rightarrow> addr \<Rightarrow> uint32 \<Rightarrow> uint32 \<Rightarrow> ram" where
  "memset m dst c n = memset_loop m dst (ucast c) 0 (unat n)"

lemma memset_loop_eq:
  assumes "i + k \<le> 2 ^ 64"
  shows "memset_loop m d c i k = (\<lambda>x. if i \<le> unat (x - d) \<and> unat (x - d) < i + k then c else m x)"
  using assms
proof (induction k arbitrary: m i)
  case 0
  then show ?case by (auto simp: fun_eq_iff)
next
  case (Suc k)
  have hit: "x = d + of_nat i \<longleftrightarrow> unat (x - d) = i" for x
  proof -
    have "i < 2 ^ 64" using Suc.prems by simp
    then have "unat (of_nat i :: uint64) = i"
      by (simp add: unat_of_nat)
    moreover have "x = d + of_nat i \<longleftrightarrow> x - d = of_nat i"
      by (auto simp: algebra_simps)
    ultimately show ?thesis
      by (simp add: word_unat_eq_iff)
  qed
  have "memset_loop m d c i (Suc k) =
      (\<lambda>x. if Suc i \<le> unat (x - d) \<and> unat (x - d) < Suc i + k then c else (m(d + of_nat i := c)) x)"
    using Suc.prems by (simp add: Suc.IH)
  then show ?case by (auto simp: fun_eq_iff hit)
qed

lemma memset_eq:
  "memset m dst c n = (\<lambda>x. if unat (x - dst) < unat n then ucast c else m x)"
proof -
  have "unat n < 2 ^ 32"
    using unat_lt32 [of n] by simp
  then have "0 + unat n \<le> (2::nat) ^ 64" by simp
  from memset_loop_eq [OF this, of m dst "ucast c"] show ?thesis
    by (simp add: memset_def)
qed

text \<open>\<^verbatim>\<open>memmove\<close>: the forward loop, and the backward loop for an overlapping destination.\<close>

primrec memmove_fwd :: "ram \<Rightarrow> addr \<Rightarrow> addr \<Rightarrow> nat \<Rightarrow> ram" where
  "memmove_fwd m d s 0 = m"
| "memmove_fwd m d s (Suc n) = memmove_fwd (m(d := m s)) (d + 1) (s + 1) n"

primrec memmove_bwd :: "ram \<Rightarrow> addr \<Rightarrow> addr \<Rightarrow> nat \<Rightarrow> ram" where
  "memmove_bwd m d s 0 = m"
| "memmove_bwd m d s (Suc n) = memmove_bwd (m(d - 1 := m (s - 1))) (d - 1) (s - 1) n"

definition memmove :: "ram \<Rightarrow> addr \<Rightarrow> addr \<Rightarrow> uint32 \<Rightarrow> ram" where
  "memmove m dst src n =
     (if n = 0 then m
      else if src < dst \<and> src + ucast n > dst
      then memmove_bwd m (dst + ucast n) (src + ucast n) (unat n)
      else memmove_fwd m dst src (unat n))"


text \<open>Both loops compute the simultaneous copy, whatever the overlap: the direction chosen by
  \<^verbatim>\<open>memmove\<close> never reads a byte it has already overwritten.\<close>

definition copied :: "ram \<Rightarrow> addr \<Rightarrow> addr \<Rightarrow> nat \<Rightarrow> ram" where
  "copied m dst src n = (\<lambda>x. if unat (x - dst) < n then m (src + (x - dst)) else m x)"

lemma memmove_fwd_eq:
  assumes "unat d + n < 2 ^ 64" "unat s + n < 2 ^ 64" "d \<le> s \<or> unat s + n \<le> unat d"
  shows "memmove_fwd m d s n = copied m d s n"
  using assms
proof (induction n arbitrary: m d s)
  case 0
  then show ?case by (simp add: copied_def)
next
  case (Suc n)
  have u: "unat (d + 1) = unat d + 1" "unat (s + 1) = unat s + 1"
    using Suc.prems by (simp_all add: unat_add_lt)
  then have pre: "unat (d + 1) + n < 2 ^ 64" "unat (s + 1) + n < 2 ^ 64"
    "d + 1 \<le> s + 1 \<or> unat (s + 1) + n \<le> unat (d + 1)"
    using Suc.prems by (auto simp: word_le_nat_alt)
  have "memmove_fwd m d s (Suc n) = copied (m(d := m s)) (d + 1) (s + 1) n"
    by (simp only: memmove_fwd.simps Suc.IH [OF pre])
  also have "\<dots> = copied m d s (Suc n)"
  proof (rule ext)
    fix x
    let ?k = "x - d"
    show "copied (m(d := m s)) (d + 1) (s + 1) n x = copied m d s (Suc n) x"
    proof (cases "?k = 0")
      case True
      then have "x = d" by simp
      moreover have "\<not> unat (- 1 :: uint64) < n"
        using Suc.prems by (simp add: unat_m1)
      ultimately show ?thesis by (simp add: copied_def)
    next
      case False
      have e: "x - (d + 1) = ?k - 1" by simp
      have lt: "unat (x - (d + 1)) < n \<longleftrightarrow> unat ?k < Suc n"
        using False unat_minus_one [OF False] by (auto simp: e word_unat_eq_iff)
      have "s + ?k \<noteq> d" if "unat ?k < Suc n"
      proof
        assume "s + ?k = d"
        then have "unat d = unat (s + ?k)" by (rule arg_cong [OF sym])
        also have "\<dots> = unat s + unat ?k"
          using that Suc.prems by (intro unat_add_lt) simp
        finally have "unat d = unat s + unat ?k" .
        moreover have "unat ?k \<noteq> 0" using False by (simp add: word_unat_eq_iff)
        ultimately show False
          using that Suc.prems(3) unfolding word_le_nat_alt by linarith
      qed
      moreover have "x \<noteq> d" using False by auto
      ultimately show ?thesis
        using lt by (auto simp: copied_def algebra_simps)
    qed
  qed
  finally show ?case .
qed

lemma memmove_bwd_eq:
  assumes "n \<le> unat d" "n \<le> unat s" "s \<le> d"
  shows "memmove_bwd m d s n = (\<lambda>x. if unat (d - 1 - x) < n then m (s - (d - x)) else m x)"
  using assms
proof (induction n arbitrary: m d s)
  case 0
  then show ?case by simp
next
  case (Suc n)
  have nz: "d \<noteq> 0" "s \<noteq> 0" using Suc.prems by auto
  then have u: "unat (d - 1) = unat d - 1" "unat (s - 1) = unat s - 1"
    by (simp_all add: unat_minus_one)
  then have pre: "n \<le> unat (d - 1)" "n \<le> unat (s - 1)" "s - 1 \<le> d - 1"
    using Suc.prems by (auto simp: word_le_nat_alt)
  have nn: "n < 2 ^ 64"
    using Suc.prems(1) unat_lt64 [of d] by simp
  let ?m = "m(d - 1 := m (s - 1))"
  have "memmove_bwd m d s (Suc n) =
      (\<lambda>x. if unat (d - 1 - 1 - x) < n then ?m (s - 1 - (d - 1 - x)) else ?m x)"
    by (simp only: memmove_bwd.simps Suc.IH [OF pre])
  also have "\<dots> = (\<lambda>x. if unat (d - 1 - x) < Suc n then m (s - (d - x)) else m x)"
  proof (rule ext)
    fix x
    let ?k = "d - 1 - x"
    show "(if unat (d - 1 - 1 - x) < n then ?m (s - 1 - (d - 1 - x)) else ?m x) =
        (if unat ?k < Suc n then m (s - (d - x)) else m x)"
    proof (cases "?k = 0")
      case True
      then have x: "x = d - 1" by simp
      have "\<not> unat (- 1 :: uint64) < n" using nn by (simp add: unat_m1)
      then show ?thesis by (simp add: x)
    next
      case False
      have e: "d - 1 - 1 - x = ?k - 1" by simp
      have "unat (d - 1 - 1 - x) = unat ?k - 1"
        unfolding e by (rule unat_minus_one [OF False])
      moreover have k0: "unat ?k \<noteq> 0" using False by (simp add: word_unat_eq_iff)
      ultimately have lt: "unat (d - 1 - 1 - x) < n \<longleftrightarrow> unat ?k < Suc n"
        by linarith
      have e2: "s - 1 - ?k = s - (d - x)" by simp
      have "s - 1 - ?k \<noteq> d - 1" if "unat ?k < Suc n"
      proof
        assume "s - 1 - ?k = d - 1"
        then have "unat (d - 1) = unat (s - 1 - ?k)" by (rule arg_cong [OF sym])
        also have "\<dots> = unat (s - 1) - unat ?k"
          using that pre by (intro unat_sub) (simp add: word_le_nat_alt)
        finally have "unat (d - 1) = unat (s - 1) - unat ?k" .
        moreover have "unat (s - 1) \<le> unat (d - 1)" using pre by (simp add: word_le_nat_alt)
        moreover have "unat ?k \<le> unat (s - 1)" using that pre by simp
        ultimately show False using k0 by linarith
      qed
      moreover have "x \<noteq> d - 1" using False by auto
      ultimately show ?thesis
        using lt by (simp add: e2)
    qed
  qed
  finally show ?case .
qed

lemma unat_mirror:
  assumes "unat (j :: uint64) < unat n"
  shows "unat (n - 1 - j) < unat n"
proof -
  have "n \<noteq> 0" using assms by auto
  then have "unat (n - 1) = unat n - 1" by (simp add: unat_minus_one)
  moreover from this assms have "unat (n - 1 - j) = unat (n - 1) - unat j"
    by (intro unat_sub) (simp add: word_le_nat_alt)
  ultimately show ?thesis using assms by simp
qed

lemma memmove_eq:
  assumes "unat dst + unat n < 2 ^ 64" "unat src + unat n < 2 ^ 64"
  shows "memmove m dst src n = copied m dst src (unat n)"
proof (cases "src < dst \<and> src + ucast n > dst")
  case False
  let ?N = "ucast n :: uint64"
  have N: "unat ?N = unat n" by simp
  then have "unat (src + ?N) = unat src + unat n"
    using assms by (simp add: unat_add_lt)
  with False have "dst \<le> src \<or> unat src + unat n \<le> unat dst"
    by (auto simp: word_less_nat_alt word_le_nat_alt)
  with assms False show ?thesis
    by (auto simp: memmove_def memmove_fwd_eq copied_def)
next
  case True
  let ?N = "ucast n :: uint64"
  have N: "unat ?N = unat n" by simp
  have u: "unat (dst + ?N) = unat dst + unat n" "unat (src + ?N) = unat src + unat n"
    using assms N by (simp_all add: unat_add_lt)
  have lt: "unat (dst + ?N - 1 - x) < unat n \<longleftrightarrow> unat (x - dst) < unat n" for x
  proof -
    have "dst + ?N - 1 - x = ?N - 1 - (x - dst)" "x - dst = ?N - 1 - (dst + ?N - 1 - x)"
      by simp_all
    then show ?thesis
      using unat_mirror [of "x - dst" ?N] unat_mirror [of "dst + ?N - 1 - x" ?N] N by metis
  qed
  have e: "src + ?N - (dst + ?N - x) = src + (x - dst)" for x by simp
  have "memmove_bwd m (dst + ?N) (src + ?N) (unat n) = copied m dst src (unat n)"
    using u True
    by (subst memmove_bwd_eq) (auto simp: word_le_nat_alt word_less_nat_alt copied_def lt e)
  with True show ?thesis by (auto simp: memmove_def copied_def)
qed

definition memcpy :: "ram \<Rightarrow> addr \<Rightarrow> addr \<Rightarrow> uint32 \<Rightarrow> ram" where
  "memcpy m dst src n = memmove m dst src n"

primrec memcmp_loop :: "ram \<Rightarrow> addr \<Rightarrow> addr \<Rightarrow> nat \<Rightarrow> int" where
  "memcmp_loop m s1 s2 0 = 0"
| "memcmp_loop m s1 s2 (Suc n) =
     (if m s1 \<noteq> m s2 then uint (m s1) - uint (m s2) else memcmp_loop m (s1 + 1) (s2 + 1) n)"

definition memcmp :: "ram \<Rightarrow> addr \<Rightarrow> addr \<Rightarrow> uint32 \<Rightarrow> int" where
  "memcmp m v1 v2 n = memcmp_loop m v1 v2 (unat n)"

section \<open>kernel/string.c: strings\<close>

primrec strncmp_loop :: "ram \<Rightarrow> addr \<Rightarrow> addr \<Rightarrow> nat \<Rightarrow> int" where
  "strncmp_loop m p q 0 = 0"
| "strncmp_loop m p q (Suc n) =
     (if m p \<noteq> 0 \<and> m p = m q then strncmp_loop m (p + 1) (q + 1) n
      else uint (m p) - uint (m q))"

definition strncmp :: "ram \<Rightarrow> addr \<Rightarrow> addr \<Rightarrow> uint32 \<Rightarrow> int" where
  "strncmp m p q n = strncmp_loop m p q (unat n)"

primrec strncpy_pad :: "ram \<Rightarrow> addr \<Rightarrow> nat \<Rightarrow> ram" where
  "strncpy_pad m s 0 = m"
| "strncpy_pad m s (Suc n) = strncpy_pad (m(s := 0)) (s + 1) n"

primrec strncpy_loop :: "ram \<Rightarrow> addr \<Rightarrow> addr \<Rightarrow> nat \<Rightarrow> ram" where
  "strncpy_loop m s t 0 = m"
| "strncpy_loop m s t (Suc n) =
     (let m' = m(s := m t)
      in if m t \<noteq> 0 then strncpy_loop m' (s + 1) (t + 1) n else strncpy_pad m' (s + 1) n)"

definition strncpy :: "ram \<Rightarrow> addr \<Rightarrow> addr \<Rightarrow> int \<Rightarrow> ram" where
  "strncpy m s t n = strncpy_loop m s t (nat n)"

primrec safestrcpy_loop :: "ram \<Rightarrow> addr \<Rightarrow> addr \<Rightarrow> nat \<Rightarrow> ram" where
  "safestrcpy_loop m s t 0 = m(s := 0)"
| "safestrcpy_loop m s t (Suc n) =
     (let m' = m(s := m t)
      in if m t \<noteq> 0 then safestrcpy_loop m' (s + 1) (t + 1) n else m'(s + 1 := 0))"

definition safestrcpy :: "ram \<Rightarrow> addr \<Rightarrow> addr \<Rightarrow> int \<Rightarrow> ram" where
  "safestrcpy m s t n = (if n \<le> 0 then m else safestrcpy_loop m s t (nat n - 1))"

text \<open>\<^verbatim>\<open>strlen\<close> does not return on memory with no NUL after \<open>s\<close>: \<open>None\<close>.\<close>

partial_function (option) strlen_loop :: "ram \<Rightarrow> addr \<Rightarrow> nat \<Rightarrow> nat option" where
  "strlen_loop m s n = (if m (s + of_nat n) = 0 then Some n else strlen_loop m s (Suc n))"

definition strlen :: "ram \<Rightarrow> addr \<Rightarrow> nat option" where
  "strlen m s = strlen_loop m s 0"

text \<open>\<open>cstrn m p n\<close> is the C string at \<open>p\<close> read through at most \<open>n\<close> bytes.\<close>

primrec cstrn :: "ram \<Rightarrow> addr \<Rightarrow> nat \<Rightarrow> uint8 list" where
  "cstrn m p 0 = []"
| "cstrn m p (Suc n) = (if m p = 0 then [] else m p # cstrn m (p + 1) n)"

lemma strncmp_loop_0: "strncmp_loop m p q n = 0 \<longleftrightarrow> cstrn m p n = cstrn m q n"
  by (induction n arbitrary: p q) (auto simp: word_uint_eq_iff)

lemma strncmp_eq_0: "strncmp m p q n = 0 \<longleftrightarrow> cstrn m p (unat n) = cstrn m q (unat n)"
  by (simp add: strncmp_def strncmp_loop_0)

lemma memcmp_loop_0:
  "memcmp_loop m p q n = 0 \<longleftrightarrow> (\<forall>i<n. m (p + of_nat i) = m (q + of_nat i))"
proof (induction n arbitrary: p q)
  case 0
  then show ?case by simp
next
  case (Suc n)
  have "(\<forall>i<Suc n. m (p + of_nat i) = m (q + of_nat i)) \<longleftrightarrow>
      m p = m q \<and> (\<forall>i<n. m (p + 1 + of_nat i) = m (q + 1 + of_nat i))"
    by (auto simp: All_less_Suc2 add.assoc)
  then show ?case using Suc.IH by (simp add: word_uint_eq_iff)
qed

lemma length_cstrn: "length (cstrn m p n) \<le> n"
  by (induction n arbitrary: p) (auto simp: le_SucI)

lemma cstrn_nonzero: "c \<in> set (cstrn m p n) \<Longrightarrow> c \<noteq> 0"
  by (induction n arbitrary: p) (auto split: if_splits)

lemma cstrn_cong:
  "(\<And>i. i < n \<Longrightarrow> m (p + of_nat i) = m' (p + of_nat i)) \<Longrightarrow> cstrn m p n = cstrn m' p n"
proof (induction n arbitrary: p)
  case 0
  then show ?case by simp
next
  case (Suc n)
  have "m p = m' p" using Suc.prems [of 0] by simp
  moreover have "cstrn m (p + 1) n = cstrn m' (p + 1) n"
    using Suc.prems [of "Suc i" for i] by (intro Suc.IH) (simp add: add.assoc)
  ultimately show ?case by simp
qed

section \<open>Terminated copies\<close>

text \<open>\<open>apart s t n\<close>: the \<open>n\<close> bytes at \<open>s\<close> and the \<open>n\<close> bytes at \<open>t\<close> do not overlap.\<close>

definition apart :: "addr \<Rightarrow> addr \<Rightarrow> nat \<Rightarrow> bool" where
  "apart s t n \<longleftrightarrow> (\<forall>i<n. \<forall>j<n. s + of_nat i \<noteq> t + of_nat j)"

lemma apart_Suc:
  assumes "apart s t (Suc n)"
  shows "apart (s + 1) (t + 1) n"
  unfolding apart_def
proof (intro allI impI)
  fix i j assume "i < n" "j < n"
  then have "s + of_nat (Suc i) \<noteq> t + of_nat (Suc j)"
    using assms unfolding apart_def by blast
  then show "s + 1 + of_nat i \<noteq> t + 1 + of_nat j"
    by (simp add: add.assoc)
qed

lemma apart_tail:
  assumes "apart s t (Suc n)"
  shows "cstrn (m(s := c)) (t + 1) n = cstrn m (t + 1) n"
proof (rule cstrn_cong)
  fix i assume "i < n"
  then have "s + of_nat 0 \<noteq> t + of_nat (Suc i)"
    using assms unfolding apart_def by blast
  then have "t + 1 + of_nat i \<noteq> s"
    by (auto simp: add.assoc)
  then show "(m(s := c)) (t + 1 + of_nat i) = m (t + 1 + of_nat i)" by simp
qed

text \<open>The bytes a write at \<open>s + 1\<close> and beyond leaves alone.\<close>

lemma shift_out:
  assumes "n < 2 ^ 64 - 1" "\<not> unat (x - s) < Suc n"
  shows "\<not> unat (x - (s + 1)) < n" "x \<noteq> s"
proof -
  show ne: "x \<noteq> s" using assms(2) by auto
  then have "x - s \<noteq> 0" by simp
  then have "unat (x - (s + 1)) = unat (x - s) - 1"
    by (metis diff_diff_eq unat_minus_one)
  then show "\<not> unat (x - (s + 1)) < n" using assms(2) by linarith
qed

lemma strncpy_pad_frame:
  "n < 2 ^ 64 \<Longrightarrow> \<not> unat (x - s) < n \<Longrightarrow> strncpy_pad m s n x = m x"
proof (induction n arbitrary: m s)
  case 0
  then show ?case by simp
next
  case (Suc n)
  then show ?case using shift_out [of n x s] by simp
qed

lemma strncpy_pad_head: "n < 2 ^ 64 \<Longrightarrow> strncpy_pad m (s + 1) n s = m s"
  by (rule strncpy_pad_frame) (simp_all add: unat_m1)

lemma strncpy_loop_frame:
  "n < 2 ^ 64 \<Longrightarrow> \<not> unat (x - s) < n \<Longrightarrow> strncpy_loop m s t n x = m x"
proof (induction n arbitrary: m s t)
  case 0
  then show ?case by simp
next
  case (Suc n)
  then show ?case using shift_out [of n x s]
    by (simp add: Let_def strncpy_pad_frame)
qed

lemma strncpy_loop_head: "n < 2 ^ 64 \<Longrightarrow> strncpy_loop m (s + 1) t n s = m s"
  by (rule strncpy_loop_frame) (simp_all add: unat_m1)

lemma strncpy_loop_cstrn:
  "n < 2 ^ 64 \<Longrightarrow> apart s t n \<Longrightarrow> cstrn (strncpy_loop m s t n) s n = cstrn m t n"
proof (induction n arbitrary: m s t)
  case 0
  then show ?case by simp
next
  case (Suc n)
  then show ?case
    by (simp add: Let_def strncpy_loop_head strncpy_pad_head apart_Suc apart_tail)
qed

lemma safestrcpy_loop_frame:
  "n < 2 ^ 64 - 1 \<Longrightarrow> \<not> unat (x - s) < Suc n \<Longrightarrow> safestrcpy_loop m s t n x = m x"
proof (induction n arbitrary: m s t)
  case 0
  then show ?case by auto
next
  case (Suc n)
  then have "\<not> unat (x - (s + 1)) < Suc n" "x \<noteq> s"
    using shift_out [of "Suc n" x s] by simp_all
  moreover from this have "x \<noteq> s + 1" by auto
  ultimately show ?case
    using Suc by (simp add: Let_def)
qed

lemma safestrcpy_loop_head: "n < 2 ^ 64 - 1 \<Longrightarrow> safestrcpy_loop m (s + 1) t n s = m s"
  by (rule safestrcpy_loop_frame) (simp_all add: unat_m1)

lemma safestrcpy_loop_cstrn:
  "n < 2 ^ 64 - 1 \<Longrightarrow> apart s t (Suc n) \<Longrightarrow>
     cstrn (safestrcpy_loop m s t n) s (Suc n) = cstrn m t n"
proof (induction n arbitrary: m s t)
  case 0
  then show ?case by simp
next
  case (Suc n)
  have tl: "cstrn (m(s := c)) (t + 1) n = cstrn m (t + 1) n" for c
    using Suc.prems(2) by (intro apart_tail) (auto simp: apart_def)
  have hd: "safestrcpy_loop (m(s := c)) (s + 1) (t + 1) n s = c" for c
    using Suc.prems(1) by (simp add: safestrcpy_loop_head)
  have nul: "(m(s := 0, s + 1 := 0)) s = 0" by simp
  show ?case
    using Suc.IH [of "s + 1" "t + 1"] Suc.prems tl hd nul
    by (simp add: Let_def apart_Suc del: fun_upd_apply)
qed

lemma strlen_loop_Some:
  assumes "m (s + of_nat k) = 0" "\<And>i. n \<le> i \<Longrightarrow> i < k \<Longrightarrow> m (s + of_nat i) \<noteq> 0" "n \<le> k"
  shows "strlen_loop m s n = Some k"
  using assms
proof (induction "k - n" arbitrary: n)
  case 0
  then have "n = k" by simp
  with 0 show ?case by (subst strlen_loop.simps) simp
next
  case (Suc d)
  then have "n < k" by linarith
  then have "m (s + of_nat n) \<noteq> 0" using Suc.prems(2) [of n] by simp
  moreover have "strlen_loop m s (Suc n) = Some k"
    using Suc.hyps(2) Suc.prems \<open>n < k\<close> by (intro Suc.hyps(1)) auto
  ultimately show ?case
    by (subst strlen_loop.simps) simp
qed

section \<open>Properties\<close>

text \<open>C32: \<^verbatim>\<open>memmove\<close> copies \<open>n\<close> bytes correctly for every overlap of source and destination: each
  destination byte is the source byte as it was before the call, every other byte is unchanged.\<close>

theorem memmove_overlap:
  assumes "unat dst + unat n < 2 ^ 64" "unat src + unat n < 2 ^ 64"
  shows "(\<forall>i. unat i < unat n \<longrightarrow> memmove m dst src n (dst + i) = m (src + i))
    \<and> (\<forall>x. unat n \<le> unat (x - dst) \<longrightarrow> memmove m dst src n x = m x)"
  using memmove_eq [OF assms] by (simp add: copied_def)

theorem memmove_overlap_witness:
  "memmove (\<lambda>a. ucast a) 101 100 3 103 = 102 \<and> memmove (\<lambda>a. ucast a) 101 100 3 104 = 104"
proof -
  have "(\<forall>i. unat i < 3 \<longrightarrow> memmove (\<lambda>a. ucast a) 101 100 3 (101 + i) = ucast (100 + i))
    \<and> (\<forall>x. 3 \<le> unat (x - 101) \<longrightarrow> memmove (\<lambda>a. ucast a) 101 100 3 x = ucast x)"
    using memmove_overlap [of 101 3 100 "\<lambda>a. ucast a"] by simp
  from conjunct1 [OF this, THEN spec, of 2] conjunct2 [OF this, THEN spec, of 104]
  show ?thesis by simp
qed

text \<open>\<^verbatim>\<open>safestrcpy\<close> into a buffer of \<open>n > 0\<close> bytes apart from its source leaves there the source
  string cut to \<open>n - 1\<close> characters, so a NUL lies inside the buffer, and writes nothing outside
  the buffer.\<close>

theorem safestrcpy_terminates_string:
  assumes "0 < n" "n < 2 ^ 31" "apart s t (nat n)"
  shows "cstrn (safestrcpy m s t n) s (nat n) = cstrn m t (nat n - 1)
    \<and> length (cstrn (safestrcpy m s t n) s (nat n)) < nat n
    \<and> (\<forall>x. nat n \<le> unat (x - s) \<longrightarrow> safestrcpy m s t n x = m x)"
proof -
  obtain k where k: "nat n = Suc k" "k < 2 ^ 31" using assms(1,2) by (cases "nat n") auto
  have e: "safestrcpy m s t n = safestrcpy_loop m s t k"
    using assms(1) k by (simp add: safestrcpy_def)
  have "cstrn (safestrcpy_loop m s t k) s (Suc k) = cstrn m t k"
    using k assms(3) by (intro safestrcpy_loop_cstrn) auto
  moreover have "length (cstrn m t k) < Suc k"
    using length_cstrn [of m t k] by simp
  moreover have "\<forall>x. Suc k \<le> unat (x - s) \<longrightarrow> safestrcpy_loop m s t k x = m x"
    using k by (auto intro!: safestrcpy_loop_frame)
  ultimately show ?thesis by (simp add: e k(1))
qed

lemma apart_example: "apart 0 100 (nat 3)"
proof -
  have "\<lbrakk>i < 3; j < 3\<rbrakk> \<Longrightarrow> (of_nat i :: addr) \<noteq> 100 + of_nat j" for i j :: nat
    by (auto simp: word_unat_eq_iff unat_word_ariths unat_of_nat)
  then show ?thesis by (simp add: apart_def)
qed

theorem safestrcpy_terminates_string_witness:
  "cstrn (safestrcpy (\<lambda>_. 65) 0 100 3) 0 3 = [65, 65]"
proof -
  have "cstrn (\<lambda>_. 65) 100 (Suc (Suc 0)) = [65, 65]" by simp
  moreover have "nat 3 - 1 = Suc (Suc 0)" by simp
  ultimately show ?thesis
    using safestrcpy_terminates_string [of 3 0 100 "\<lambda>_. 65"] apart_example
    by (simp only: nat_numeral) simp
qed

text \<open>\<^verbatim>\<open>strncmp\<close> returns zero exactly for equal strings, up to \<open>n\<close> characters, and \<^verbatim>\<open>strncpy\<close>
  into a field apart from its source makes them equal.\<close>

theorem strncmp_strncpy:
  assumes "apart s t (unat n)" "unat n < 2 ^ 31"
  shows "(strncmp m p q n = 0 \<longleftrightarrow> cstrn m p (unat n) = cstrn m q (unat n))
    \<and> strncmp (strncpy m s t (uint n)) s t n = 0"
proof -
  let ?m = "strncpy_loop m s t (unat n)"
  have n: "unat n < 2 ^ 64" using assms(2) by simp
  have "cstrn ?m t (unat n) = cstrn m t (unat n)"
  proof (rule cstrn_cong)
    fix i assume i: "i < unat n"
    have "\<not> unat (t + of_nat i - s) < unat n"
    proof
      assume lt: "unat (t + of_nat i - s) < unat n"
      have "s + of_nat (unat (t + of_nat i - s)) = t + of_nat i" by simp
      with assms(1) i lt show False unfolding apart_def by blast
    qed
    then show "?m (t + of_nat i) = m (t + of_nat i)" by (rule strncpy_loop_frame [OF n])
  qed
  moreover have "nat (uint n) = unat n" by simp
  ultimately show ?thesis
    using strncpy_loop_cstrn [OF n assms(1)] by (simp add: strncmp_eq_0 strncpy_def)
qed

theorem strncmp_strncpy_witness:
  "strncmp (strncpy (\<lambda>a. ucast a) 0 100 3) 0 100 3 = 0"
  using strncmp_strncpy [of 0 100 3 "\<lambda>a. ucast a"] apart_example by simp

end
