(* ===== verification/Spinlock.thy ===== *)
theory Spinlock
  imports Ram
begin

text \<open>
  \<^verbatim>\<open>kernel/spinlock.c\<close> with the per-CPU state of \<^verbatim>\<open>kernel/proc.h\<close> it works on.  The first part is
  the sequential behaviour one hart sees: \<open>acquire\<close>, \<open>release\<close>, \<open>holding\<close>, \<open>push_off\<close> and
  \<open>pop_off\<close> on the record \<open>machine\<close>.  The second part is the protocol that several harts run
  at once, one atomic memory access per step, with mutual exclusion as an invariant.
\<close>

section \<open>State\<close>

text \<open>\<open>lk_cpu\<close> is the C field \<^verbatim>\<open>cpu\<close>: the index of the hart that holds the lock, \<open>None\<close> for the
  null pointer.\<close>

record spinlock =
  locked :: bool
  lk_name :: string
  lk_cpu :: "nat option"

text \<open>The part of \<^verbatim>\<open>struct cpu\<close> that locking uses, and the process it runs (an index into the
  process table).\<close>

record cpu =
  noff :: int
  intena :: bool
  cpu_proc :: "nat option"

text \<open>\<open>tp\<close> is the hart that executes, \<open>sie\<close> the interrupt-enable bit of its \<^verbatim>\<open>sstatus\<close>.\<close>

record machine =
  tp :: nat
  sie :: bool
  cpus :: "nat \<Rightarrow> cpu"
  lks :: "lockid \<Rightarrow> spinlock"

definition cpuid :: "machine \<Rightarrow> nat" where
  "cpuid m = tp m"

definition mycpu :: "machine \<Rightarrow> cpu" where
  "mycpu m = cpus m (cpuid m)"

definition upd_cpu :: "(cpu \<Rightarrow> cpu) \<Rightarrow> machine \<Rightarrow> machine" where
  "upd_cpu f m = m\<lparr>cpus := (cpus m)(cpuid m := f (mycpu m))\<rparr>"

definition upd_lk :: "lockid \<Rightarrow> (spinlock \<Rightarrow> spinlock) \<Rightarrow> machine \<Rightarrow> machine" where
  "upd_lk l f m = m\<lparr>lks := (lks m)(l := f (lks m l))\<rparr>"

definition intr_get :: "machine \<Rightarrow> bool" where
  "intr_get m = sie m"

definition intr_on :: "(machine, unit) km" where
  "intr_on = kmod (\<lambda>m. m\<lparr>sie := True\<rparr>)"

definition intr_off :: "(machine, unit) km" where
  "intr_off = kmod (\<lambda>m. m\<lparr>sie := False\<rparr>)"

section \<open>Operations\<close>

definition initlock :: "lockid \<Rightarrow> string \<Rightarrow> (machine, unit) km" where
  "initlock l name =
     kmod (upd_lk l (\<lambda>lk. lk\<lparr>lk_name := name, locked := False, lk_cpu := None\<rparr>))"

definition holding :: "lockid \<Rightarrow> machine \<Rightarrow> bool" where
  "holding l m \<longleftrightarrow> locked (lks m l) \<and> lk_cpu (lks m l) = Some (cpuid m)"

definition push_off :: "(machine, unit) km" where
  "push_off =
     kbind (kgets intr_get) (\<lambda>old.
     kseq intr_off
    (kbind (kgets mycpu) (\<lambda>c.
     kseq (kwhen (noff c = 0) (kmod (upd_cpu (\<lambda>c. c\<lparr>intena := old\<rparr>))))
          (kmod (upd_cpu (\<lambda>c. c\<lparr>noff := noff c + 1\<rparr>))))))"

definition pop_off :: "(machine, unit) km" where
  "pop_off =
     kbind (kgets intr_get) (\<lambda>on.
     if on then kpanic ''pop_off - interruptible''
     else kbind (kgets mycpu) (\<lambda>c.
     if noff c < 1 then kpanic ''pop_off''
     else kseq (kmod (upd_cpu (\<lambda>c. c\<lparr>noff := noff c - 1\<rparr>)))
         (kbind (kgets mycpu) (\<lambda>c. kwhen (noff c = 0 \<and> intena c) intr_on))))"

text \<open>The loop around \<^verbatim>\<open>__sync_lock_test_and_set\<close> leaves at once when the lock is free; when
  another hart holds it, this hart spins.\<close>

definition acquire :: "lockid \<Rightarrow> (machine, unit) km" where
  "acquire l =
     kseq push_off
    (kbind (kgets (holding l)) (\<lambda>h.
     if h then kpanic ''acquire''
     else kbind (kgets (\<lambda>m. locked (lks m l))) (\<lambda>busy.
     if busy then kfail (Spinning l)
     else kseq (kmod (upd_lk l (\<lambda>lk. lk\<lparr>locked := True\<rparr>)))
               (kmod (\<lambda>m. upd_lk l (\<lambda>lk. lk\<lparr>lk_cpu := Some (cpuid m)\<rparr>) m)))))"

definition release :: "lockid \<Rightarrow> (machine, unit) km" where
  "release l =
     kbind (kgets (holding l)) (\<lambda>h.
     if \<not> h then kpanic ''release''
     else kseq (kmod (upd_lk l (\<lambda>lk. lk\<lparr>lk_cpu := None\<rparr>)))
         (kseq (kmod (upd_lk l (\<lambda>lk. lk\<lparr>locked := False\<rparr>)))
               pop_off))"

section \<open>What a balanced acquire and release leave behind\<close>

text \<open>\<open>lk_free\<close>: the lock as \<open>initlock\<close> and \<open>release\<close> leave it.  \<open>irq_ok\<close>: inside a
  \<open>push_off\<close> interrupts are off.\<close>

definition lk_free :: "machine \<Rightarrow> lockid \<Rightarrow> bool" where
  "lk_free m l \<longleftrightarrow> \<not> locked (lks m l) \<and> lk_cpu (lks m l) = None"

definition irq_ok :: "machine \<Rightarrow> bool" where
  "irq_ok m \<longleftrightarrow> 0 \<le> noff (mycpu m) \<and> (0 < noff (mycpu m) \<longrightarrow> \<not> sie m)"

definition pushed :: "machine \<Rightarrow> machine" where
  "pushed m = upd_cpu (\<lambda>c. c\<lparr>intena := (if noff c = 0 then sie m else intena c),
                             noff := noff c + 1\<rparr>) (m\<lparr>sie := False\<rparr>)"

definition taken :: "lockid \<Rightarrow> machine \<Rightarrow> machine" where
  "taken l m = upd_lk l (\<lambda>lk. lk\<lparr>locked := True, lk_cpu := Some (cpuid m)\<rparr>) (pushed m)"

text \<open>The one trace of a balanced pair: the outermost \<open>push_off\<close> recorded in \<open>intena\<close> whether
  interrupts were on.\<close>

definition settle :: "machine \<Rightarrow> machine" where
  "settle m = upd_cpu (\<lambda>c. c\<lparr>intena := (if noff c = 0 then sie m else intena c)\<rparr>) m"

lemmas machine_defs = upd_cpu_def upd_lk_def mycpu_def cpuid_def intr_get_def intr_on_def
  intr_off_def

lemma push_off_eq: "push_off m = Inr ((), pushed m)"
  by (simp add: push_off_def pushed_def machine_defs kmonad)

lemma acquire_eq: "lk_free m l \<Longrightarrow> acquire l m = Inr ((), taken l m)"
  by (simp add: acquire_def push_off_eq taken_def pushed_def holding_def lk_free_def machine_defs
      kmonad)

lemma pop_off_pushed:
  assumes "irq_ok m"
  shows "pop_off (pushed m) = Inr ((), settle m)"
proof (cases "noff (mycpu m) = 0")
  case True
  then show ?thesis
    by (cases m; cases "cpus m (tp m)"; cases "sie m")
      (simp_all add: pop_off_def pushed_def settle_def machine_defs kmonad)
next
  case False
  with assms have "\<not> sie m" "0 < noff (mycpu m)" by (auto simp: irq_ok_def)
  then show ?thesis
    by (simp add: pop_off_def pushed_def settle_def machine_defs kmonad)
qed

lemma release_taken:
  assumes "lk_free m l" "irq_ok m"
  shows "release l (taken l m) = Inr ((), settle m)"
proof -
  have h: "holding l (taken l m)"
    by (simp add: holding_def taken_def pushed_def machine_defs)
  have "upd_lk l (\<lambda>lk. lk\<lparr>locked := False\<rparr>) (upd_lk l (\<lambda>lk. lk\<lparr>lk_cpu := None\<rparr>) (taken l m)) =
      pushed m"
    using assms(1) by (cases m; cases "lks m l")
      (simp add: taken_def pushed_def lk_free_def machine_defs fun_upd_idem)
  with h pop_off_pushed [OF assms(2)] show ?thesis
    by (simp add: release_def)
qed

named_theorems lockfree

lemma settle_settle [simp]: "settle (settle m) = settle m"
  by (simp add: settle_def machine_defs)

lemma lk_free_settle [simp, lockfree]: "lk_free (settle m) l = lk_free m l"
  by (simp add: lk_free_def settle_def machine_defs)

lemma irq_ok_settle [simp, lockfree]: "irq_ok (settle m) = irq_ok m"
  by (simp add: irq_ok_def settle_def machine_defs)

lemma lk_free_taken [simp, lockfree]: "lk_free (taken l m) l' = (l' \<noteq> l \<and> lk_free m l')"
  by (auto simp: lk_free_def taken_def pushed_def machine_defs)

lemma irq_ok_taken [simp, lockfree]: "irq_ok m \<Longrightarrow> irq_ok (taken l m)"
  by (auto simp: irq_ok_def taken_def pushed_def machine_defs)

lemma settle_taken [simp]: "irq_ok m \<Longrightarrow> settle (taken l m) = taken l m"
  by (cases m; cases "cpus m (tp m)")
    (auto simp: irq_ok_def settle_def taken_def pushed_def machine_defs)

lemma tp_settle [simp]: "tp (settle m) = tp m"
  by (simp add: settle_def machine_defs)

lemma tp_taken [simp]: "tp (taken l m) = tp m"
  by (simp add: taken_def pushed_def machine_defs)

lemma cpu_proc_settle [simp]: "cpu_proc (cpus (settle m) h) = cpu_proc (cpus m h)"
  by (simp add: settle_def machine_defs)

lemma cpu_proc_taken [simp]: "cpu_proc (cpus (taken l m) h) = cpu_proc (cpus m h)"
  by (simp add: taken_def pushed_def machine_defs)

lemma sie_settle [simp]: "sie (settle m) = sie m"
  by (simp add: settle_def machine_defs)

lemma noff_settle [simp]: "noff (cpus (settle m) h) = noff (cpus m h)"
  by (simp add: settle_def machine_defs)

lemma lks_settle [simp]: "lks (settle m) = lks m"
  by (simp add: settle_def machine_defs)

lemma acquire_held: "holding l m \<Longrightarrow> acquire l m = Inl (Panic ''acquire'')"
  by (simp add: acquire_def push_off_eq pushed_def holding_def machine_defs kmonad)

lemma release_unheld: "\<not> holding l m \<Longrightarrow> release l m = Inl (Panic ''release'')"
  by (simp add: release_def)

section \<open>Several harts at one lock\<close>

text \<open>
  One lock and any number of harts.  A step is one access to the lock word or to the \<^verbatim>\<open>cpu\<close>
  field, as \<open>acquire\<close> and \<open>release\<close> make them: the \<open>holding\<close> check that starts \<open>acquire\<close>, one
  \<^verbatim>\<open>__sync_lock_test_and_set\<close> of the spin loop (it fails or succeeds), recording the owner; the
  \<open>holding\<close> check and clearing the owner in \<open>release\<close>, then \<^verbatim>\<open>__sync_lock_release\<close>.
\<close>

datatype lpc = Outside | Spin | Won | Critical | Leaving

record lproto =
  pcs :: "nat \<Rightarrow> lpc"
  lkw :: spinlock

definition holds :: "lproto \<Rightarrow> nat \<Rightarrow> bool" where
  "holds p h \<longleftrightarrow> locked (lkw p) \<and> lk_cpu (lkw p) = Some h"

inductive lstep :: "nat \<Rightarrow> lproto \<Rightarrow> lproto \<Rightarrow> bool" where
  enter: "pcs p h = Outside \<Longrightarrow> \<not> holds p h \<Longrightarrow>
    lstep h p (p\<lparr>pcs := (pcs p)(h := Spin)\<rparr>)"
| swap_busy: "pcs p h = Spin \<Longrightarrow> locked (lkw p) \<Longrightarrow>
    lstep h p (p\<lparr>lkw := (lkw p)\<lparr>locked := True\<rparr>\<rparr>)"
| swap_free: "pcs p h = Spin \<Longrightarrow> \<not> locked (lkw p) \<Longrightarrow>
    lstep h p (p\<lparr>pcs := (pcs p)(h := Won), lkw := (lkw p)\<lparr>locked := True\<rparr>\<rparr>)"
| set_owner: "pcs p h = Won \<Longrightarrow>
    lstep h p (p\<lparr>pcs := (pcs p)(h := Critical), lkw := (lkw p)\<lparr>lk_cpu := Some h\<rparr>\<rparr>)"
| clear_owner: "pcs p h = Critical \<Longrightarrow> holds p h \<Longrightarrow>
    lstep h p (p\<lparr>pcs := (pcs p)(h := Leaving), lkw := (lkw p)\<lparr>lk_cpu := None\<rparr>\<rparr>)"
| unlock: "pcs p h = Leaving \<Longrightarrow>
    lstep h p (p\<lparr>pcs := (pcs p)(h := Outside), lkw := (lkw p)\<lparr>locked := False\<rparr>\<rparr>)"

inductive lreach :: "lproto \<Rightarrow> bool" where
  init: "lreach \<lparr>pcs = (\<lambda>_. Outside), lkw = \<lparr>locked = False, lk_name = nm, lk_cpu = None\<rparr>\<rparr>"
| step: "lreach p \<Longrightarrow> lstep h p q \<Longrightarrow> lreach q"

definition inside :: "lproto \<Rightarrow> nat \<Rightarrow> bool" where
  "inside p h \<longleftrightarrow> pcs p h \<in> {Won, Critical, Leaving}"

definition linv :: "lproto \<Rightarrow> bool" where
  "linv p \<longleftrightarrow> (\<forall>h h'. inside p h \<longrightarrow> inside p h' \<longrightarrow> h = h')
     \<and> (locked (lkw p) \<longleftrightarrow> (\<exists>h. inside p h))
     \<and> (\<forall>h. lk_cpu (lkw p) = Some h \<longleftrightarrow> pcs p h = Critical)"

lemma linv_init: "linv \<lparr>pcs = (\<lambda>_. Outside), lkw = \<lparr>locked = False, lk_name = nm, lk_cpu = None\<rparr>\<rparr>"
  by (simp add: linv_def inside_def)

lemma linv_step: "lstep h p q \<Longrightarrow> linv p \<Longrightarrow> linv q"
proof (induction rule: lstep.induct)
  case (enter p h)
  let ?q = "p\<lparr>pcs := (pcs p)(h := Spin)\<rparr>"
  have "inside ?q = inside p" "\<And>i. pcs ?q i = Critical \<longleftrightarrow> pcs p i = Critical"
    using enter by (auto simp: inside_def fun_eq_iff)
  with enter show ?case by (simp add: linv_def)
next
  case (swap_busy p h)
  then show ?case by (simp add: linv_def inside_def)
next
  case (swap_free p h)
  let ?q = "p\<lparr>pcs := (pcs p)(h := Won), lkw := (lkw p)\<lparr>locked := True\<rparr>\<rparr>"
  have "\<And>i. \<not> inside p i" using swap_free by (simp add: linv_def)
  then have "\<And>i. inside ?q i \<longleftrightarrow> i = h" "\<And>i. pcs ?q i = Critical \<longleftrightarrow> pcs p i = Critical"
    using swap_free by (auto simp: inside_def)
  with swap_free show ?case by (auto simp: linv_def)
next
  case (set_owner p h)
  let ?q = "p\<lparr>pcs := (pcs p)(h := Critical), lkw := (lkw p)\<lparr>lk_cpu := Some h\<rparr>\<rparr>"
  have only: "\<And>i. inside p i \<longleftrightarrow> i = h"
    using set_owner by (auto simp: linv_def inside_def)
  then have "\<And>i. inside ?q i \<longleftrightarrow> i = h" "\<And>i. pcs ?q i = Critical \<longleftrightarrow> i = h"
    by (auto simp: inside_def)
  with only set_owner show ?case by (auto simp: linv_def)
next
  case (clear_owner p h)
  let ?q = "p\<lparr>pcs := (pcs p)(h := Leaving), lkw := (lkw p)\<lparr>lk_cpu := None\<rparr>\<rparr>"
  have only: "\<And>i. inside p i \<longleftrightarrow> i = h"
    using clear_owner by (auto simp: linv_def inside_def)
  then have "\<And>i. inside ?q i \<longleftrightarrow> i = h" "\<And>i. pcs ?q i \<noteq> Critical"
    by (auto simp: inside_def)
  with only clear_owner show ?case by (auto simp: linv_def)
next
  case (unlock p h)
  let ?q = "p\<lparr>pcs := (pcs p)(h := Outside), lkw := (lkw p)\<lparr>locked := False\<rparr>\<rparr>"
  have only: "\<And>i. inside p i \<longleftrightarrow> i = h"
    using unlock by (auto simp: linv_def inside_def)
  then have "\<And>i. \<not> inside ?q i" "\<And>i. pcs ?q i = Critical \<longleftrightarrow> pcs p i = Critical"
    using unlock by (auto simp: inside_def)
  with unlock show ?case by (auto simp: linv_def)
qed

lemma lreach_linv: "lreach p \<Longrightarrow> linv p"
  by (induction rule: lreach.induct) (auto intro: linv_init linv_step)

text \<open>The sequential \<open>acquire\<close> and \<open>release\<close> are the uninterrupted runs of these steps: what a
  hart does to a free lock in three steps is what \<open>acquire\<close> does to it, and two steps of
  \<open>release\<close> undo it.\<close>

lemma acquire_is_run:
  assumes "lk_free m l" "pcs p h = Outside" "lkw p = lks m l" "h = tp m"
  shows "\<exists>q. (\<exists>a b. lstep h p a \<and> lstep h a b \<and> lstep h b q)
    \<and> lkw q = lks (taken l m) l \<and> pcs q h = Critical"
proof -
  let ?a = "p\<lparr>pcs := (pcs p)(h := Spin)\<rparr>"
  let ?b = "?a\<lparr>pcs := (pcs ?a)(h := Won), lkw := (lkw ?a)\<lparr>locked := True\<rparr>\<rparr>"
  let ?q = "?b\<lparr>pcs := (pcs ?b)(h := Critical), lkw := (lkw ?b)\<lparr>lk_cpu := Some h\<rparr>\<rparr>"
  have "lstep h p ?a" by (rule lstep.enter) (use assms in \<open>auto simp: holds_def lk_free_def\<close>)
  moreover have "lstep h ?a ?b" by (rule lstep.swap_free) (use assms in \<open>auto simp: lk_free_def\<close>)
  moreover have "lstep h ?b ?q" by (rule lstep.set_owner) simp
  moreover have "lkw ?q = lks (taken l m) l" "pcs ?q h = Critical"
    using assms by (simp_all add: taken_def pushed_def machine_defs)
  ultimately show ?thesis by blast
qed

section \<open>Nested interrupt disabling\<close>

lemma irq_ok_pushed [simp]: "irq_ok m \<Longrightarrow> irq_ok (pushed m)"
  by (auto simp: irq_ok_def pushed_def machine_defs)

lemma irq_ok_pushed_pow: "irq_ok m \<Longrightarrow> irq_ok ((pushed ^^ n) m)"
  by (induction n) simp_all

lemma settle_pushed: "irq_ok m \<Longrightarrow> settle (pushed m) = pushed m"
  by (cases m; cases "cpus m (tp m)") (auto simp: irq_ok_def settle_def pushed_def machine_defs)

lemma push_times: "ktimes n push_off m = Inr (replicate n (), (pushed ^^ n) m)"
  by (induction n arbitrary: m) (simp_all add: kmonad push_off_eq funpow_swap1)

lemma pop_times:
  "irq_ok m \<Longrightarrow> ktimes (Suc n) pop_off ((pushed ^^ Suc n) m) = Inr (replicate (Suc n) (), settle m)"
proof (induction n)
  case 0
  then show ?case by (simp add: kmonad pop_off_pushed)
next
  case (Suc n)
  have "pop_off (pushed ((pushed ^^ Suc n) m)) = Inr ((), (pushed ^^ Suc n) m)"
    using Suc.prems by (simp only: pop_off_pushed irq_ok_pushed_pow)
      (simp add: settle_pushed irq_ok_pushed_pow)
  with Suc show ?case by (simp add: kmonad)
qed

section \<open>Properties\<close>

text \<open>C27: whatever the interleaving of the harts' accesses, at most one hart is between winning
  \<open>acquire\<close>'s swap and clearing the lock word in \<open>release\<close>, and \<^verbatim>\<open>holding\<close> is true for a hart exactly
  in its critical section.\<close>

theorem spinlock_mutual_exclusion:
  assumes "lreach p"
  shows "(inside p h \<and> inside p h' \<longrightarrow> h = h') \<and> (holds p h \<longleftrightarrow> pcs p h = Critical)"
  using lreach_linv [OF assms] by (auto simp: linv_def holds_def inside_def)

definition lproto0 :: lproto where
  "lproto0 = \<lparr>pcs = (\<lambda>_. Outside), lkw = \<lparr>locked = False, lk_name = ''kmem'', lk_cpu = None\<rparr>\<rparr>"

text \<open>Harts 0 and 1 both entered \<open>acquire\<close>; hart 1 won the swap.\<close>

definition lproto1 :: lproto where
  "lproto1 = lproto0\<lparr>pcs := ((\<lambda>_. Outside)(0 := Spin, 1 := Critical)),
     lkw := \<lparr>locked = True, lk_name = ''kmem'', lk_cpu = Some 1\<rparr>\<rparr>"

lemma lproto1_reach: "lreach lproto1"
proof -
  let ?a = "lproto0\<lparr>pcs := (pcs lproto0)(0 := Spin)\<rparr>"
  let ?b = "?a\<lparr>pcs := (pcs ?a)(1 := Spin)\<rparr>"
  let ?c = "?b\<lparr>pcs := (pcs ?b)(1 := Won), lkw := (lkw ?b)\<lparr>locked := True\<rparr>\<rparr>"
  let ?d = "?c\<lparr>pcs := (pcs ?c)(1 := Critical), lkw := (lkw ?c)\<lparr>lk_cpu := Some 1\<rparr>\<rparr>"
  have "lreach lproto0" by (simp add: lproto0_def lreach.init)
  then have "lreach ?a"
    by (rule lreach.step) (rule lstep.enter, simp_all add: lproto0_def holds_def)
  then have "lreach ?b"
    by (rule lreach.step) (rule lstep.enter, simp_all add: lproto0_def holds_def)
  then have "lreach ?c"
    by (rule lreach.step) (rule lstep.swap_free, simp_all add: lproto0_def)
  then have "lreach ?d" by (rule lreach.step) (rule lstep.set_owner, simp)
  then show ?thesis by (simp add: lproto1_def lproto0_def)
qed

theorem spinlock_mutual_exclusion_witness:
  "inside lproto1 1 \<and> \<not> inside lproto1 0 \<and> holds lproto1 1"
  using spinlock_mutual_exclusion [OF lproto1_reach, of 1 0] by (simp add: lproto1_def inside_def)

text \<open>\<open>n + 1\<close> nested calls of \<^verbatim>\<open>push_off\<close> turn interrupts off, the matching calls of \<^verbatim>\<open>pop_off\<close>
  return without a panic, and interrupts, nesting depth, locks and processes are then what they
  were before.\<close>

theorem push_off_pop_off_nest:
  assumes "irq_ok m"
  shows "\<exists>m1 m2. ktimes (Suc n) push_off m = Inr (replicate (Suc n) (), m1) \<and> \<not> sie m1
    \<and> noff (mycpu m1) = noff (mycpu m) + int (Suc n)
    \<and> ktimes (Suc n) pop_off m1 = Inr (replicate (Suc n) (), m2)
    \<and> sie m2 = sie m \<and> noff (mycpu m2) = noff (mycpu m) \<and> lks m2 = lks m"
proof -
  have d: "noff (mycpu ((pushed ^^ k) m)) = noff (mycpu m) + int k" for k
    by (induction k) (simp_all add: pushed_def machine_defs)
  have "\<not> sie ((pushed ^^ Suc n) m)" by (simp add: pushed_def upd_cpu_def)
  with pop_times [OF assms] push_times [of "Suc n" m] d [of "Suc n"] show ?thesis
    by (intro exI [of _ "(pushed ^^ Suc n) m"] exI [of _ "settle m"])
      (simp add: mycpu_def cpuid_def)
qed

definition machine0 :: machine where
  "machine0 = \<lparr>tp = 0, sie = True, cpus = (\<lambda>_. \<lparr>noff = 0, intena = False, cpu_proc = None\<rparr>),
               lks = (\<lambda>_. \<lparr>locked = False, lk_name = [], lk_cpu = None\<rparr>)\<rparr>"

lemma machine0_ok [simp]: "irq_ok machine0" "lk_free machine0 l" "sie machine0"
  by (simp_all add: machine0_def irq_ok_def lk_free_def machine_defs)

theorem push_off_pop_off_nest_witness:
  "\<exists>m1 m2. ktimes 2 push_off machine0 = Inr ([(), ()], m1) \<and> \<not> sie m1
    \<and> ktimes 2 pop_off m1 = Inr ([(), ()], m2) \<and> sie m2"
  using push_off_pop_off_nest [OF machine0_ok(1), of 1] by (auto simp: numeral_2_eq_2)

text \<open>C31: on a free lock \<open>acquire\<close> returns holding it; a second \<open>acquire\<close> by the same hart panics
  instead of deadlocking; \<open>release\<close> gives back a free lock and the caller's interrupt state; a
  \<open>release\<close> without holding panics.\<close>

theorem acquire_release_contract:
  assumes "lk_free m l" "irq_ok m"
  shows "\<exists>m1 m2. acquire l m = Inr ((), m1) \<and> holding l m1 \<and> \<not> sie m1
    \<and> acquire l m1 = Inl (Panic ''acquire'')
    \<and> release l m1 = Inr ((), m2) \<and> lks m2 = lks m \<and> sie m2 = sie m
    \<and> noff (mycpu m2) = noff (mycpu m) \<and> release l m2 = Inl (Panic ''release'')"
proof -
  have h: "holding l (taken l m)" "\<not> sie (taken l m)"
    by (simp_all add: holding_def taken_def pushed_def machine_defs)
  have "\<not> holding l (settle m)" using assms by (simp add: holding_def lk_free_def)
  with h acquire_eq [OF assms(1)] acquire_held [OF h(1)] release_taken [OF assms]
    release_unheld [of l "settle m"]
  show ?thesis
    by (intro exI [of _ "taken l m"] exI [of _ "settle m"]) (simp add: mycpu_def cpuid_def)
qed

theorem acquire_release_contract_witness:
  "\<exists>m1 m2. acquire Kmem_lock machine0 = Inr ((), m1) \<and> holding Kmem_lock m1
    \<and> acquire Kmem_lock m1 = Inl (Panic ''acquire'') \<and> release Kmem_lock m1 = Inr ((), m2)
    \<and> release Kmem_lock m2 = Inl (Panic ''release'')"
  using acquire_release_contract [of machine0 Kmem_lock] by auto

end
