(* ===== verification/Kalloc.thy ===== *)
theory Kalloc
  imports Spinlock
begin

text \<open>
  \<^verbatim>\<open>kernel/kalloc.c\<close>: the physical page allocator with the per-page reference counts that
  copy-on-write needs.  Free pages are linked through their own first eight bytes, so the free
  list lives in the modelled memory; \<open>chain\<close> reads it back.  \<open>kinv\<close> is the allocator's
  invariant: the list is a duplicate-free list of usable pages, and a page is on it exactly
  when its reference count is zero.
\<close>

section \<open>State\<close>

text \<open>\<open>kend\<close> is the linker symbol \<^verbatim>\<open>end\<close>, the first address after the kernel image.  \<open>refcnt\<close> is
  the array \<^verbatim>\<open>krefs.count\<close>; every index into it comes from \<open>refindex\<close>, which bounds it.\<close>

record pmem =
  mach :: machine
  ram :: ram
  freelist :: addr
  refcnt :: "nat \<Rightarrow> int"
  kend :: addr

definition on_mach :: "(machine, 'x) km \<Rightarrow> ('a pmem_scheme, 'x) km" where
  "on_mach f s = (case f (mach s) of Inl e \<Rightarrow> Inl e | Inr (x, m) \<Rightarrow> Inr (x, s\<lparr>mach := m\<rparr>))"

abbreviation lock_k :: "lockid \<Rightarrow> ('a pmem_scheme, unit) km" where
  "lock_k l \<equiv> on_mach (acquire l)"

abbreviation unlock_k :: "lockid \<Rightarrow> ('a pmem_scheme, unit) km" where
  "unlock_k l \<equiv> on_mach (release l)"

abbreviation upd_ram :: "(ram \<Rightarrow> ram) \<Rightarrow> ('a pmem_scheme, unit) km" where
  "upd_ram f \<equiv> kmod (\<lambda>s. s\<lparr>ram := f (ram s)\<rparr>)"

section \<open>Operations\<close>

definition refindex :: "addr \<Rightarrow> ('s, nat) km" where
  "refindex pa =
     (if pa < KERNBASE \<or> pa \<ge> PHYSTOP \<or> pa mod PGSIZE \<noteq> 0 then kpanic ''refindex''
      else kret (unat ((pa - KERNBASE) div PGSIZE)))"

definition set_count :: "nat \<Rightarrow> int \<Rightarrow> ('a pmem_scheme, unit) km" where
  "set_count i c = kmod (\<lambda>s. s\<lparr>refcnt := (refcnt s)(i := c)\<rparr>)"

definition kfree :: "addr \<Rightarrow> ('a pmem_scheme, unit) km" where
  "kfree pa =
     kbind (kgets kend) (\<lambda>end.
     if pa mod PGSIZE \<noteq> 0 \<or> pa < end \<or> pa \<ge> PHYSTOP then kpanic ''kfree''
     else kbind (refindex pa) (\<lambda>index.
     kseq (lock_k Krefs_lock)
    (kbind (kgets (\<lambda>s. refcnt s index)) (\<lambda>c.
     if c < 1 then kseq (unlock_k Krefs_lock) (kpanic ''kfree ref'')
     else kseq (set_count index (c - 1))
    (kbind (kgets (\<lambda>s. refcnt s index)) (\<lambda>c.
     if c > 0 then unlock_k Krefs_lock
     else kseq (unlock_k Krefs_lock)
    (kseq (upd_ram (\<lambda>m. memset m pa 1 4096))
    (kseq (lock_k Kmem_lock)
    (kseq (kmod (\<lambda>s. s\<lparr>ram := st64 (ram s) pa (freelist s)\<rparr>))
    (kseq (kmod (\<lambda>s. s\<lparr>freelist := pa\<rparr>))
          (unlock_k Kmem_lock)))))))))))"

definition krefinc :: "addr \<Rightarrow> ('a pmem_scheme, unit) km" where
  "krefinc pa =
     kbind (refindex pa) (\<lambda>index.
     kseq (lock_k Krefs_lock)
    (kbind (kgets (\<lambda>s. refcnt s index)) (\<lambda>c.
     if c < 1 then kseq (unlock_k Krefs_lock) (kpanic ''krefinc'')
     else kseq (set_count index (c + 1))
               (unlock_k Krefs_lock))))"

definition krefcount :: "addr \<Rightarrow> ('a pmem_scheme, int) km" where
  "krefcount pa =
     kbind (refindex pa) (\<lambda>index.
     kseq (lock_k Krefs_lock)
    (kbind (kgets (\<lambda>s. refcnt s index)) (\<lambda>count.
     kseq (unlock_k Krefs_lock)
          (kret count))))"

text \<open>\<^verbatim>\<open>kalloc\<close> returns the null pointer \<open>0\<close> when no page is left.\<close>

definition kalloc :: "('a pmem_scheme, addr) km" where
  "kalloc =
     kseq (lock_k Kmem_lock)
    (kbind (kgets freelist) (\<lambda>r.
     kseq (kwhen (r \<noteq> 0) (kmod (\<lambda>s. s\<lparr>freelist := ld64 (ram s) r\<rparr>)))
    (kseq (unlock_k Kmem_lock)
    (if r \<noteq> 0
     then kseq (lock_k Krefs_lock)
         (kbind (refindex r) (\<lambda>index.
          kbind (kgets (\<lambda>s. refcnt s index)) (\<lambda>c.
          if c \<noteq> 0 then kseq (unlock_k Krefs_lock) (kpanic ''kalloc ref'')
          else kseq (set_count index 1)
              (kseq (unlock_k Krefs_lock)
              (kseq (upd_ram (\<lambda>m. memset m r 5 4096))
                    (kret r))))))
     else kret 0))))"

definition freerange_body :: "addr \<Rightarrow> ('a pmem_scheme, unit) km" where
  "freerange_body p = kseq (kbind (refindex p) (\<lambda>i. set_count i 1)) (kfree p)"

lemma freerange_body_bound: "freerange_body p s = Inr r \<Longrightarrow> p < PHYSTOP"
  by (auto simp: freerange_body_def refindex_def kmonad split: if_splits)

function freerange_loop :: "addr \<Rightarrow> addr \<Rightarrow> ('a pmem_scheme, unit) km" where
  "freerange_loop p pa_end s =
     (if p + PGSIZE \<le> pa_end
      then (case freerange_body p s of
              Inl e \<Rightarrow> Inl e
            | Inr (_, s') \<Rightarrow> freerange_loop (p + PGSIZE) pa_end s')
      else Inr ((), s))"
  by pat_completeness auto
termination
proof (relation "measure (\<lambda>(p, e, s). unat e - unat p)")
  fix p e :: addr and s s' :: "'a pmem_scheme" and r x
  assume le: "p + PGSIZE \<le> e" and "freerange_body p s = Inr r"
  then have "p < PHYSTOP" by (simp add: freerange_body_bound)
  then have "unat (p + PGSIZE) = unat p + 4096"
    by (simp add: unat_word_ariths word_less_nat_alt)
  with le show "((p + PGSIZE, e, s'), (p, e, s)) \<in> measure (\<lambda>(p, e, s). unat e - unat p)"
    by (simp add: word_le_nat_alt)
qed simp

definition freerange :: "addr \<Rightarrow> addr \<Rightarrow> ('a pmem_scheme, unit) km" where
  "freerange pa_start pa_end = freerange_loop (PGROUNDUP pa_start) pa_end"

definition kinit :: "('a pmem_scheme, unit) km" where
  "kinit =
     kseq (on_mach (initlock Kmem_lock ''kmem''))
    (kseq (on_mach (initlock Krefs_lock ''krefs''))
    (kbind (kgets kend) (\<lambda>end. freerange end PHYSTOP)))"

section \<open>The effect of each operation when its locks are free\<close>

text \<open>\<open>quiet L s\<close>: this hart can take every lock of \<open>L\<close> without spinning.\<close>

definition quiet :: "lockid set \<Rightarrow> 'a pmem_scheme \<Rightarrow> bool" where
  "quiet L s \<longleftrightarrow> irq_ok (mach s) \<and> (\<forall>l\<in>L. lk_free (mach s) l)"

abbreviation alloc_locks :: "lockid set" where
  "alloc_locks \<equiv> {Kmem_lock, Krefs_lock}"

abbreviation settled :: "'a pmem_scheme \<Rightarrow> 'a pmem_scheme" where
  "settled s \<equiv> s\<lparr>mach := settle (mach s)\<rparr>"

lemma lock_k_eq: "lk_free (mach s) l \<Longrightarrow> lock_k l s = Inr ((), s\<lparr>mach := taken l (mach s)\<rparr>)"
  by (simp add: on_mach_def acquire_eq)

lemma unlock_k_eq:
  "mach s = taken l m \<Longrightarrow> lk_free m l \<Longrightarrow> irq_ok m \<Longrightarrow> unlock_k l s = Inr ((), s\<lparr>mach := settle m\<rparr>)"
  by (simp add: on_mach_def release_taken)

lemmas locking = lock_k_eq unlock_k_eq

text \<open>A page the allocator manages.\<close>

definition usable :: "addr \<Rightarrow> addr \<Rightarrow> bool" where
  "usable end p \<longleftrightarrow> p mod PGSIZE = 0 \<and> end \<le> p \<and> KERNBASE \<le> p \<and> p < PHYSTOP"

definition pidx :: "addr \<Rightarrow> nat" where
  "pidx p = unat ((p - KERNBASE) div PGSIZE)"

lemma refindex_usable: "usable e p \<Longrightarrow> refindex p s = Inr (pidx p, s)"
  by (auto simp: refindex_def usable_def pidx_def)

lemma kalloc_none: "quiet alloc_locks s \<Longrightarrow> freelist s = 0 \<Longrightarrow> kalloc s = Inr (0, settled s)"
  by (simp add: kalloc_def kmonad locking quiet_def)

lemma kalloc_some:
  assumes "quiet alloc_locks s" "freelist s = p" "p \<noteq> 0" "usable e p" "refcnt s (pidx p) = 0"
  shows "kalloc s = Inr (p, (settled s)\<lparr>freelist := ld64 (ram s) p,
    refcnt := (refcnt s)(pidx p := 1), ram := memset (ram s) p 5 4096\<rparr>)"
  using assms by (simp add: kalloc_def kmonad locking quiet_def refindex_usable set_count_def)

lemma kfree_shared:
  assumes "quiet alloc_locks s" "usable (kend s) p" "1 < refcnt s (pidx p)"
  shows "kfree p s = Inr ((), (settled s)\<lparr>refcnt := (refcnt s)(pidx p := refcnt s (pidx p) - 1)\<rparr>)"
  using assms
  by (simp add: kfree_def kmonad locking quiet_def refindex_usable set_count_def)
    (simp add: usable_def not_less not_le)

lemma kfree_last:
  assumes "quiet alloc_locks s" "usable (kend s) p" "refcnt s (pidx p) = 1"
  shows "kfree p s = Inr ((), (settled s)\<lparr>refcnt := (refcnt s)(pidx p := 0),
    ram := st64 (memset (ram s) p 1 4096) p (freelist s), freelist := p\<rparr>)"
  using assms
  by (simp add: kfree_def kmonad locking quiet_def refindex_usable set_count_def)
    (simp add: usable_def not_less not_le)

lemma kfree_unreferenced:
  assumes "quiet alloc_locks s" "usable (kend s) p" "refcnt s (pidx p) < 1"
  shows "kfree p s = Inl (Panic ''kfree ref'')"
  using assms
  by (simp add: kfree_def kmonad locking quiet_def refindex_usable set_count_def)
    (simp add: usable_def not_less not_le)

lemma krefinc_eq:
  assumes "quiet alloc_locks s" "usable e p" "1 \<le> refcnt s (pidx p)"
  shows "krefinc p s = Inr ((), (settled s)\<lparr>refcnt := (refcnt s)(pidx p := refcnt s (pidx p) + 1)\<rparr>)"
  using assms by (simp add: krefinc_def kmonad locking quiet_def refindex_usable set_count_def)

lemma krefcount_eq:
  assumes "quiet alloc_locks s" "usable e p"
  shows "krefcount p s = Inr (refcnt s (pidx p), settled s)"
  using assms by (simp add: krefcount_def kmonad locking quiet_def refindex_usable)

section \<open>The free list in memory\<close>

text \<open>\<open>chain m h fl\<close>: following the \<^verbatim>\<open>next\<close> pointers from \<open>h\<close> visits the pages \<open>fl\<close> and ends at the
  null pointer.\<close>

primrec chain :: "ram \<Rightarrow> addr \<Rightarrow> addr list \<Rightarrow> bool" where
  "chain m h [] \<longleftrightarrow> h = 0"
| "chain m h (p # ps) \<longleftrightarrow> h = p \<and> p \<noteq> 0 \<and> chain m (ld64 m p) ps"

definition same_page :: "ram \<Rightarrow> ram \<Rightarrow> addr \<Rightarrow> bool" where
  "same_page m m' p \<longleftrightarrow> (\<forall>x. PGROUNDDOWN x = p \<longrightarrow> m x = m' x)"

lemma same_page_refl [simp]: "same_page m m p"
  by (simp add: same_page_def)

lemma same_page_trans: "same_page a b p \<Longrightarrow> same_page b c p \<Longrightarrow> same_page a c p"
  by (simp add: same_page_def)

lemma in_page: "aligned p \<Longrightarrow> off + k \<le> 4096 \<Longrightarrow> i < k \<Longrightarrow> k \<le> 8 \<Longrightarrow>
  PGROUNDDOWN (p + of_nat off + of_nat i) = p"
proof -
  assume "aligned p" "off + k \<le> 4096" "i < k" "k \<le> 8"
  moreover from this have "of_nat (off + i) < (4096 :: uint64)"
    by (simp add: word_less_nat_alt unat_of_nat del: of_nat_add)
  ultimately show ?thesis
    using PGROUNDDOWN_add [of p "of_nat (off + i)"] by (simp add: add.assoc)
qed

lemma ldw_same_page:
  assumes "same_page m m' p" "aligned p" "off + k \<le> 4096" "k \<le> 8"
  shows "ldw k m (p + of_nat off) = ldw k m' (p + of_nat off)"
  by (rule ldw_cong) (use assms in_page in \<open>auto simp: same_page_def\<close>)

lemma ld64_same_page: "same_page m m' p \<Longrightarrow> aligned p \<Longrightarrow> ld64 m p = ld64 m' p"
  using ldw_same_page [of m m' p 0 8] by simp

lemma chain_same_page:
  "chain m h fl \<Longrightarrow> \<forall>p\<in>set fl. same_page m m' p \<and> aligned p \<Longrightarrow> chain m' h fl"
  by (induction fl arbitrary: h) (auto simp: ld64_same_page)

lemma chain_det: "chain m h fl \<Longrightarrow> chain m h fl' \<Longrightarrow> fl = fl'"
proof (induction fl arbitrary: h fl')
  case Nil
  then show ?case by (cases fl') auto
next
  case (Cons p ps)
  then show ?case by (cases fl') auto
qed

lemma memset_same_page:
  assumes "aligned p" "q \<noteq> p"
  shows "same_page m (memset m p c 4096) q"
  unfolding same_page_def
proof (intro allI impI)
  fix x assume "PGROUNDDOWN x = q"
  with assms have "\<not> x - p < PGSIZE" by (simp flip: page_offset)
  then show "m x = memset m p c 4096 x"
    by (simp add: memset_eq word_less_nat_alt)
qed

lemma stw_same_page:
  assumes "aligned p" "q \<noteq> p" "off + k \<le> 4096"
  shows "same_page m (stw k m (p + of_nat off) v) q"
  unfolding same_page_def
proof (intro allI impI)
  fix x assume x: "PGROUNDDOWN x = q"
  have "k \<le> unat (x - (p + of_nat off))"
  proof (rule ccontr)
    assume "\<not> ?thesis"
    then have lt: "unat (x - (p + of_nat off)) < k" by simp
    let ?d = "x - (p + of_nat off)"
    have "unat (of_nat off + ?d) = off + unat ?d"
      using lt assms(3) by (subst unat_add_lt) (simp_all add: unat_of_nat)
    moreover have "x - p = of_nat off + ?d" by simp
    ultimately have "unat (x - p) = off + unat ?d" by (simp only:)
    then have "x - p < PGSIZE"
      using lt assms(3) by (simp add: word_less_nat_alt)
    with page_offset [OF assms(1), of x] x assms(2) show False by simp
  qed
  then show "m x = stw k m (p + of_nat off) v x" by (simp add: stw_def)
qed

lemma st64_same_page: "aligned p \<Longrightarrow> q \<noteq> p \<Longrightarrow> same_page m (st64 m p v) q"
  using stw_same_page [of p q 0 8 m v] by simp

section \<open>Invariant\<close>

definition kinv :: "addr list \<Rightarrow> 'a pmem_scheme \<Rightarrow> bool" where
  "kinv fl s \<longleftrightarrow> chain (ram s) (freelist s) fl \<and> distinct fl
     \<and> KERNBASE \<le> kend s
     \<and> (\<forall>p\<in>set fl. usable (kend s) p)
     \<and> (\<forall>p. usable (kend s) p \<longrightarrow> 0 \<le> refcnt s (pidx p) \<and> (refcnt s (pidx p) = 0 \<longleftrightarrow> p \<in> set fl))"

lemma usable_aligned: "usable e p \<Longrightarrow> aligned p"
  by (simp add: usable_def aligned_def)

lemma usable_ge: "usable e p \<Longrightarrow> e \<le> p"
  by (simp add: usable_def)

lemma usable_nonzero: "usable e p \<Longrightarrow> p \<noteq> 0"
  by (auto simp: usable_def)

lemma pidx_inj:
  assumes "usable e p" "usable e q" "pidx p = pidx q"
  shows "p = q"
proof -
  have k: "\<And>x. usable e x \<Longrightarrow> unat (x - KERNBASE) = unat x - unat KERNBASE"
    by (rule unat_sub) (simp add: usable_def)
  have m: "\<And>x. usable e x \<Longrightarrow> 4096 dvd unat x \<and> 2147483648 \<le> unat x"
    by (auto simp: usable_def word_le_nat_alt simp flip: aligned_def aligned_unat)
  have "(unat p - 2147483648) div 4096 = (unat q - 2147483648) div 4096"
    using assms(3) k [OF assms(1)] k [OF assms(2)] by (simp add: pidx_def unat_div)
  with m [OF assms(1)] m [OF assms(2)] have "unat p = unat q"
    by (auto elim!: dvdE)
  then show ?thesis by (simp add: word_unat_eq_iff)
qed

lemma kinvD:
  assumes "kinv fl s"
  shows "chain (ram s) (freelist s) fl" "distinct fl" "KERNBASE \<le> kend s"
    "\<And>p. p \<in> set fl \<Longrightarrow> usable (kend s) p"
    "\<And>p. usable (kend s) p \<Longrightarrow> 0 \<le> refcnt s (pidx p)"
    "\<And>p. usable (kend s) p \<Longrightarrow> refcnt s (pidx p) = 0 \<longleftrightarrow> p \<in> set fl"
  using assms by (auto simp: kinv_def)

text \<open>Allocation: the head of the free list comes back with one reference and leaves the list;
  no other page changes.\<close>

lemma kalloc_cons:
  assumes inv: "kinv (p # fl) s" and q: "quiet alloc_locks s"
  shows "\<exists>s'. kalloc s = Inr (p, s') \<and> kinv fl s' \<and> quiet alloc_locks s'
    \<and> s' = (settled s)\<lparr>freelist := ld64 (ram s) p, refcnt := (refcnt s)(pidx p := 1),
                        ram := memset (ram s) p 5 4096\<rparr>"
proof -
  have p: "usable (kend s) p" "freelist s = p" "p \<noteq> 0" "p \<notin> set fl" "refcnt s (pidx p) = 0"
    using inv by (auto simp: kinv_def)
  let ?s' = "(settled s)\<lparr>freelist := ld64 (ram s) p, refcnt := (refcnt s)(pidx p := 1),
                          ram := memset (ram s) p 5 4096\<rparr>"
  have "kalloc s = Inr (p, ?s')"
    using q p by (intro kalloc_some) auto
  moreover have "kinv fl ?s'"
  proof -
    have "chain (memset (ram s) p 5 4096) (ld64 (ram s) p) fl"
    proof (rule chain_same_page)
      show "chain (ram s) (ld64 (ram s) p) fl" using inv by (auto simp: kinv_def)
      show "\<forall>q\<in>set fl. same_page (ram s) (memset (ram s) p 5 4096) q \<and> aligned q"
        using p inv by (auto simp: kinv_def intro!: memset_same_page dest: usable_aligned)
    qed
    moreover have "\<And>x. usable (kend s) x \<Longrightarrow> pidx x = pidx p \<longleftrightarrow> x = p"
      using p pidx_inj by blast
    ultimately show ?thesis
      using inv p by (auto simp: kinv_def)
  qed
  moreover have "quiet alloc_locks ?s'" using q by (simp add: quiet_def)
  ultimately show ?thesis by blast
qed

lemma kalloc_nil: "kinv [] s \<Longrightarrow> quiet alloc_locks s \<Longrightarrow> kalloc s = Inr (0, settled s)"
  by (rule kalloc_none) (auto simp: kinv_def)

lemma kinv_refcnt_upd:
  assumes "kinv fl s" "usable (kend s) p" "p \<notin> set fl" "0 < c"
  shows "kinv fl (s\<lparr>mach := m, refcnt := (refcnt s)(pidx p := c)\<rparr>)"
proof -
  have "\<And>x. usable (kend s) x \<Longrightarrow> pidx x = pidx p \<longleftrightarrow> x = p"
    using assms(2) pidx_inj by blast
  with assms show ?thesis by (auto simp: kinv_def)
qed

text \<open>Dropping the last reference puts the page at the head of the free list.\<close>

lemma kinv_kfree_last:
  assumes inv: "kinv fl s" and p: "usable (kend s) p" "refcnt s (pidx p) = 1"
  shows "kinv (p # fl) ((settled s)\<lparr>refcnt := (refcnt s)(pidx p := 0),
    ram := st64 (memset (ram s) p 1 4096) p (freelist s), freelist := p\<rparr>)"
proof -
  let ?m = "st64 (memset (ram s) p 1 4096) p (freelist s)"
  have nin: "p \<notin> set fl" using inv p by (auto simp: kinv_def)
  have al: "aligned p" using p(1) by (rule usable_aligned)
  have "chain ?m (freelist s) fl"
  proof (rule chain_same_page)
    show "chain (ram s) (freelist s) fl" using inv by (auto simp: kinv_def)
    show "\<forall>q\<in>set fl. same_page (ram s) ?m q \<and> aligned q"
    proof
      fix q assume q: "q \<in> set fl"
      then have "q \<noteq> p" using nin by auto
      then have "same_page (ram s) ?m q"
        using al by (blast intro: same_page_trans memset_same_page st64_same_page)
      moreover have "aligned q"
        using inv q by (auto simp: kinv_def dest: usable_aligned)
      ultimately show "same_page (ram s) ?m q \<and> aligned q" ..
    qed
  qed
  moreover have "\<And>x. usable (kend s) x \<Longrightarrow> pidx x = pidx p \<longleftrightarrow> x = p"
    using p pidx_inj by blast
  ultimately show ?thesis
    using inv p nin usable_nonzero [OF p(1)] by (auto simp: kinv_def)
qed

section \<open>Initialisation\<close>

text \<open>The loop of \<open>freerange\<close> at page \<open>p\<close>: every usable page below \<open>p\<close> is on the list, no page
  has a reference.\<close>

definition range_inv :: "addr \<Rightarrow> addr list \<Rightarrow> 'a pmem_scheme \<Rightarrow> bool" where
  "range_inv p fl s \<longleftrightarrow> chain (ram s) (freelist s) fl \<and> distinct fl \<and> KERNBASE \<le> kend s
     \<and> set fl = {q. usable (kend s) q \<and> q < p} \<and> (\<forall>i. refcnt s i = 0)
     \<and> quiet alloc_locks s \<and> aligned p \<and> kend s \<le> p"

lemma freerange_body_step:
  assumes inv: "range_inv p fl s" and p: "p < PHYSTOP"
  shows "\<exists>s'. freerange_body p s = Inr ((), s') \<and> range_inv (p + PGSIZE) (p # fl) s'
    \<and> kend s' = kend s"
proof -
  have al: "aligned p" and ke: "kend s \<le> p" and q: "quiet alloc_locks s"
    using inv by (auto simp: range_inv_def)
  have us: "usable (kend s) p"
    using inv p by (auto simp: range_inv_def usable_def aligned_def)
  let ?t = "s\<lparr>refcnt := (refcnt s)(pidx p := 1)\<rparr>"
  let ?m = "st64 (memset (ram s) p 1 4096) p (freelist s)"
  let ?s' = "(settled s)\<lparr>refcnt := (refcnt s)(pidx p := 0), ram := ?m, freelist := p\<rparr>"
  have "quiet alloc_locks ?t" using q by (simp add: quiet_def)
  then have "freerange_body p s = Inr ((), ?s')"
    using us by (simp add: freerange_body_def kmonad refindex_usable set_count_def kfree_last)
  moreover have "range_inv (p + PGSIZE) (p # fl) ?s'"
  proof -
    have nin: "p \<notin> set fl" using inv by (simp add: range_inv_def)
    have "chain ?m (freelist s) fl"
    proof (rule chain_same_page)
      show "chain (ram s) (freelist s) fl" using inv by (simp add: range_inv_def)
      show "\<forall>q\<in>set fl. same_page (ram s) ?m q \<and> aligned q"
      proof
        fix q assume qf: "q \<in> set fl"
        then have "q \<noteq> p" using nin by auto
        moreover have "aligned q"
          using inv qf by (auto simp: range_inv_def dest: usable_aligned)
        ultimately show "same_page (ram s) ?m q \<and> aligned q"
          using al by (blast intro: same_page_trans memset_same_page st64_same_page)
      qed
    qed
    moreover have "insert p {q. usable (kend s) q \<and> q < p} = {q. usable (kend s) q \<and> q < p + PGSIZE}"
    proof -
      have "unat (p + PGSIZE) = unat p + 4096"
        using p by (simp add: unat_word_ariths word_less_nat_alt)
      moreover have "q < p + PGSIZE \<longleftrightarrow> q < p \<or> q = p" if "usable (kend s) q" for q
      proof -
        have "4096 dvd unat q" "4096 dvd unat p"
          using usable_aligned [OF that] al by (simp_all add: aligned_unat)
        then have "unat q < unat p + 4096 \<longleftrightarrow> unat q < unat p \<or> unat q = unat p"
          by (auto elim!: dvdE)
        with calculation show ?thesis
          by (simp add: word_less_nat_alt word_unat_eq_iff)
      qed
      ultimately show ?thesis using us by auto
    qed
    moreover have "aligned (p + PGSIZE)"
      by (rule aligned_add [OF al]) (simp add: aligned_def)
    moreover have "kend s \<le> p + PGSIZE"
      using ke p by (simp add: word_le_nat_alt word_less_nat_alt unat_word_ariths)
    ultimately show ?thesis
      using inv nin usable_nonzero [OF us] by (auto simp: range_inv_def quiet_def)
  qed
  ultimately show ?thesis by simp
qed

lemma freerange_loop_inv:
  assumes "range_inv p fl s" "p \<le> PHYSTOP"
  shows "\<exists>fl' s'. freerange_loop p PHYSTOP s = Inr ((), s') \<and> range_inv PHYSTOP fl' s' \<and> kend s' = kend s"
  using assms
proof (induction p "PHYSTOP" s arbitrary: fl rule: freerange_loop.induct)
  case (1 p s)
  have al: "4096 dvd unat p" using "1.prems" by (simp add: range_inv_def aligned_unat)
  have u: "unat (p + PGSIZE) = unat p + 4096"
    using "1.prems" by (simp add: unat_word_ariths word_le_nat_alt)
  show ?case
  proof (cases "p = PHYSTOP")
    case True
    then have "\<not> p + PGSIZE \<le> PHYSTOP" by simp
    with True "1.prems" show ?thesis by (auto simp: freerange_loop.simps [of p])
  next
    case False
    then have lt: "p < PHYSTOP" using "1.prems" by simp
    then have le: "p + PGSIZE \<le> PHYSTOP"
      using al u by (auto simp: word_le_nat_alt word_less_nat_alt elim!: dvdE)
    from freerange_body_step [OF "1.prems"(1) lt] obtain s' where
      s': "freerange_body p s = Inr ((), s')" "range_inv (p + PGSIZE) (p # fl) s'" "kend s' = kend s"
      by blast
    from "1.hyps" [OF le s'(1) refl s'(2) le] le s' show ?thesis
      by (auto simp: freerange_loop.simps [of p])
  qed
qed

lemma range_inv_final: "range_inv PHYSTOP fl s \<Longrightarrow> kinv fl s \<and> set fl = {p. usable (kend s) p}"
  by (auto simp: range_inv_def kinv_def usable_def)

lemma PGROUNDUP_bounds:
  assumes "a \<le> PHYSTOP"
  shows "a \<le> PGROUNDUP a" "PGROUNDUP a \<le> PHYSTOP" "aligned (PGROUNDUP a)"
    "\<And>q. aligned q \<Longrightarrow> a \<le> q \<longleftrightarrow> PGROUNDUP a \<le> q"
proof -
  have u: "unat (a + 4095) = unat a + 4095"
    using assms by (simp add: unat_word_ariths word_le_nat_alt)
  have "PGROUNDUP a = PGROUNDDOWN (a + 4095)"
    by (simp add: PGROUNDUP_def PGROUNDDOWN_def add_diff_eq [symmetric])
  then have e: "unat (PGROUNDUP a) = (unat a + 4095) - (unat a + 4095) mod 4096"
    by (simp add: unat_PGROUNDDOWN u)
  show al: "aligned (PGROUNDUP a)"
    using \<open>PGROUNDUP a = _\<close> by simp
  have "(unat a + 4095) mod 4096 \<le> 4095" by simp
  then show "a \<le> PGROUNDUP a" unfolding word_le_nat_alt e by linarith
  show iff: "\<And>q. aligned q \<Longrightarrow> a \<le> q \<longleftrightarrow> PGROUNDUP a \<le> q"
  proof -
    fix q assume "aligned q"
    then obtain k where k: "unat q = 4096 * k" by (auto simp: aligned_unat)
    have "unat a \<le> 4096 * k \<longleftrightarrow> (unat a + 4095) - (unat a + 4095) mod 4096 \<le> 4096 * k"
      by (simp add: minus_mod_eq_mult_div) linarith
    then show "a \<le> q \<longleftrightarrow> PGROUNDUP a \<le> q" by (simp add: word_le_nat_alt e k)
  qed
  have "aligned PHYSTOP" by (simp add: aligned_def)
  with iff assms show "PGROUNDUP a \<le> PHYSTOP" by blast
qed

lemma kinit_range_inv:
  assumes "irq_ok (mach s)" "freelist s = 0" "\<forall>i. refcnt s i = 0" "KERNBASE \<le> kend s" "kend s \<le> PHYSTOP"
  defines "m \<equiv> upd_lk Krefs_lock (\<lambda>lk. lk\<lparr>lk_name := ''krefs'', locked := False, lk_cpu := None\<rparr>)
     (upd_lk Kmem_lock (\<lambda>lk. lk\<lparr>lk_name := ''kmem'', locked := False, lk_cpu := None\<rparr>) (mach s))"
  shows "kinit s = freerange_loop (PGROUNDUP (kend s)) PHYSTOP (s\<lparr>mach := m\<rparr>)"
    and "range_inv (PGROUNDUP (kend s)) [] (s\<lparr>mach := m\<rparr>)"
proof -
  show "kinit s = freerange_loop (PGROUNDUP (kend s)) PHYSTOP (s\<lparr>mach := m\<rparr>)"
    by (simp add: kinit_def kmonad on_mach_def initlock_def freerange_def m_def)
  have "irq_ok m" using assms(1) by (simp add: m_def irq_ok_def machine_defs)
  then have "quiet alloc_locks (s\<lparr>mach := m\<rparr>)"
    by (simp add: quiet_def lk_free_def m_def upd_lk_def)
  moreover have "\<not> (usable (kend s) q \<and> q < PGROUNDUP (kend s))" for q
    using PGROUNDUP_bounds(4) [OF assms(5), of q] usable_aligned [of "kend s" q] usable_ge [of "kend s" q]
    by auto
  ultimately show "range_inv (PGROUNDUP (kend s)) [] (s\<lparr>mach := m\<rparr>)"
    using assms PGROUNDUP_bounds [OF assms(5)] by (auto simp: range_inv_def)
qed

section \<open>The allocator as an interface\<close>

text \<open>What the clients of the allocator rely on: the free pages as a list, the number of
  references of every managed page, and the effect of the operations on both.\<close>

locale page_alloc =
  fixes inv :: "addr list \<Rightarrow> 's \<Rightarrow> bool"
    and managed :: "'s \<Rightarrow> addr \<Rightarrow> bool"
    and refs :: "'s \<Rightarrow> addr \<Rightarrow> int"
    and alloc :: "('s, addr) km"
    and share :: "addr \<Rightarrow> ('s, unit) km"
    and free :: "addr \<Rightarrow> ('s, unit) km"
  assumes distinct_free: "inv fl s \<Longrightarrow> distinct fl \<and> 0 \<notin> set fl"
    and free_refs: "inv fl s \<Longrightarrow> managed s p \<Longrightarrow> refs s p = 0 \<longleftrightarrow> p \<in> set fl"
    and alloc_cons: "inv (p # fl) s \<Longrightarrow>
      \<exists>s'. alloc s = Inr (p, s') \<and> inv fl s' \<and> managed s' = managed s \<and> managed s p
        \<and> refs s' = (refs s)(p := 1)"
    and alloc_nil: "inv [] s \<Longrightarrow> \<exists>s'. alloc s = Inr (0, s') \<and> inv [] s' \<and> refs s' = refs s"
    and share_ok: "inv fl s \<Longrightarrow> managed s p \<Longrightarrow> 1 \<le> refs s p \<Longrightarrow>
      \<exists>s'. share p s = Inr ((), s') \<and> inv fl s' \<and> managed s' = managed s
        \<and> refs s' = (refs s)(p := refs s p + 1)"
    and free_shared: "inv fl s \<Longrightarrow> managed s p \<Longrightarrow> 1 < refs s p \<Longrightarrow>
      \<exists>s'. free p s = Inr ((), s') \<and> inv fl s' \<and> managed s' = managed s
        \<and> refs s' = (refs s)(p := refs s p - 1)"
    and free_last: "inv fl s \<Longrightarrow> managed s p \<Longrightarrow> refs s p = 1 \<Longrightarrow>
      \<exists>s'. free p s = Inr ((), s') \<and> inv (p # fl) s' \<and> managed s' = managed s
        \<and> refs s' = (refs s)(p := 0)"
begin

lemma alloc_times:
  "inv fl s \<Longrightarrow> n \<le> length fl \<Longrightarrow>
    \<exists>s'. ktimes n alloc s = Inr (take n fl, s') \<and> inv (drop n fl) s'"
proof (induction n arbitrary: fl s)
  case 0
  then show ?case by simp
next
  case (Suc n)
  then obtain p ps where fl: "fl = p # ps" by (cases fl) auto
  with Suc.prems alloc_cons obtain s1 where "alloc s = Inr (p, s1)" "inv ps s1" by blast
  with Suc.IH [of ps s1] Suc.prems fl show ?case by (auto simp: kmonad)
qed

lemma share_times:
  assumes "inv fl s" "managed s p" "1 \<le> refs s p"
  shows "\<exists>xs s'. ktimes n (share p) s = Inr (xs, s') \<and> inv fl s' \<and> managed s' p
    \<and> refs s' p = refs s p + int n"
  using assms
proof (induction n arbitrary: s)
  case 0
  then show ?case by simp
next
  case (Suc n)
  from share_ok [OF Suc.prems] obtain s1 where
    s1: "share p s = Inr ((), s1)" "inv fl s1" "managed s1 = managed s"
      "refs s1 = (refs s)(p := refs s p + 1)" by blast
  then have "1 \<le> refs s1 p" "managed s1 p" using Suc.prems by simp_all
  from Suc.IH [OF s1(2) this(2,1)] s1 show ?case by (auto simp: kmonad algebra_simps)
qed

lemma free_times:
  assumes "inv fl s" "managed s p" "refs s p = int (Suc n)"
  shows "\<exists>xs s'. ktimes n (free p) s = Inr (xs, s') \<and> inv fl s' \<and> managed s' p \<and> refs s' p = 1"
  using assms
proof (induction n arbitrary: s)
  case 0
  then show ?case by simp
next
  case (Suc n)
  from free_shared [OF Suc.prems(1,2)] Suc.prems(3) obtain s1 where
    s1: "free p s = Inr ((), s1)" "inv fl s1" "managed s1 = managed s"
      "refs s1 = (refs s)(p := refs s p - 1)" by auto
  then have "refs s1 p = int (Suc n)" "managed s1 p" using Suc.prems by simp_all
  from Suc.IH [OF s1(2) this(2,1)] s1 show ?case by (auto simp: kmonad)
qed

lemma alloc_share_free:
  assumes "inv (p # fl) s"
  shows "\<exists>s1 xs s2 ys s3 s4. alloc s = Inr (p, s1)
    \<and> ktimes n (share p) s1 = Inr (xs, s2) \<and> inv fl s2
    \<and> ktimes n (free p) s2 = Inr (ys, s3) \<and> inv fl s3
    \<and> free p s3 = Inr ((), s4) \<and> inv (p # fl) s4"
proof -
  from alloc_cons [OF assms] obtain s1 where
    s1: "alloc s = Inr (p, s1)" "inv fl s1" "managed s1 p" "refs s1 p = 1" by auto
  from share_times [OF s1(2,3), of n] s1 obtain xs s2 where
    s2: "ktimes n (share p) s1 = Inr (xs, s2)" "inv fl s2" "managed s2 p" "refs s2 p = 1 + int n"
    by auto
  from free_times [OF s2(2,3), of n] s2 obtain ys s3 where
    s3: "ktimes n (free p) s2 = Inr (ys, s3)" "inv fl s3" "managed s3 p" "refs s3 p = 1"
    by auto
  from free_last [OF s3(2-4)] obtain s4 where "free p s3 = Inr ((), s4)" "inv (p # fl) s4"
    by blast
  with s1 s2 s3 show ?thesis by blast
qed

end

definition page_refs :: "'a pmem_scheme \<Rightarrow> addr \<Rightarrow> int" where
  "page_refs s p = (if usable (kend s) p then refcnt s (pidx p) else 0)"

abbreviation kready :: "addr list \<Rightarrow> 'a pmem_scheme \<Rightarrow> bool" where
  "kready fl s \<equiv> kinv fl s \<and> quiet alloc_locks s"

lemma page_refs_upd:
  "usable (kend s) p \<Longrightarrow> kend s' = kend s \<Longrightarrow> refcnt s' = (refcnt s)(pidx p := c) \<Longrightarrow>
    page_refs s' = (page_refs s)(p := c)"
  by (auto simp: page_refs_def fun_eq_iff dest: pidx_inj)

lemma page_refs_at: "usable (kend s) p \<Longrightarrow> page_refs s p = refcnt s (pidx p)"
  by (simp add: page_refs_def)

lemma kready_refcnt_upd:
  assumes "kready fl s" "usable (kend s) p" "p \<notin> set fl" "0 < c"
  shows "kready fl ((settled s)\<lparr>refcnt := (refcnt s)(pidx p := c)\<rparr>)"
  using kinv_refcnt_upd [of fl s p c "settle (mach s)"] assms by (simp add: quiet_def)

interpretation ka: page_alloc kready "\<lambda>s. usable (kend s)" page_refs kalloc krefinc kfree
proof unfold_locales
  fix fl and s :: "'a pmem_scheme" and p
  show "kready fl s \<Longrightarrow> distinct fl \<and> 0 \<notin> set fl"
    by (auto simp: kinv_def dest: usable_nonzero)
  show "kready fl s \<Longrightarrow> usable (kend s) p \<Longrightarrow> page_refs s p = 0 \<longleftrightarrow> p \<in> set fl"
    by (simp add: page_refs_def kinv_def)
  show "kready [] s \<Longrightarrow> \<exists>s'. kalloc s = Inr (0, s') \<and> kready [] s' \<and> page_refs s' = page_refs s"
    by (auto simp: kalloc_nil kinv_def quiet_def page_refs_def fun_eq_iff)
  show "\<exists>s'. kalloc s = Inr (p, s') \<and> kready fl s' \<and> usable (kend s') = usable (kend s)
      \<and> usable (kend s) p \<and> page_refs s' = (page_refs s)(p := 1)" if k: "kready (p # fl) s"
  proof -
    have "usable (kend s) p" using k by (simp add: kinv_def)
    with kalloc_cons [of p fl s] k show ?thesis
      by (auto intro!: page_refs_upd)
  qed
  show "\<exists>s'. krefinc p s = Inr ((), s') \<and> kready fl s' \<and> usable (kend s') = usable (kend s)
      \<and> page_refs s' = (page_refs s)(p := page_refs s p + 1)"
    if k: "kready fl s" "usable (kend s) p" "1 \<le> page_refs s p"
  proof -
    have r: "1 \<le> refcnt s (pidx p)" "p \<notin> set fl" using k by (auto simp: page_refs_def kinv_def)
    with krefinc_eq [of s "kend s" p] k kready_refcnt_upd [of fl s p "refcnt s (pidx p) + 1"]
    show ?thesis by (auto simp: page_refs_at intro!: page_refs_upd)
  qed
  show "\<exists>s'. kfree p s = Inr ((), s') \<and> kready fl s' \<and> usable (kend s') = usable (kend s)
      \<and> page_refs s' = (page_refs s)(p := page_refs s p - 1)"
    if k: "kready fl s" "usable (kend s) p" "1 < page_refs s p"
  proof -
    have r: "1 < refcnt s (pidx p)" "p \<notin> set fl" using k by (auto simp: page_refs_def kinv_def)
    with kfree_shared [of s p] k kready_refcnt_upd [of fl s p "refcnt s (pidx p) - 1"]
    show ?thesis by (auto simp: page_refs_at intro!: page_refs_upd)
  qed
  show "\<exists>s'. kfree p s = Inr ((), s') \<and> kready (p # fl) s' \<and> usable (kend s') = usable (kend s)
      \<and> page_refs s' = (page_refs s)(p := 0)"
    if k: "kready fl s" "usable (kend s) p" "page_refs s p = 1"
  proof -
    have r: "refcnt s (pidx p) = 1" using k by (simp add: page_refs_def)
    with kfree_last [of s p] kinv_kfree_last [of fl s p] k show ?thesis
      by (auto simp: quiet_def intro!: page_refs_upd)
  qed
qed

section \<open>Properties\<close>

text \<open>C29: from the state the loader leaves (counts and list head zero), \<^verbatim>\<open>kinit\<close> returns and
  establishes the allocator invariant with every page between \<^verbatim>\<open>end\<close> and \<^verbatim>\<open>PHYSTOP\<close> on the free
  list.\<close>

theorem kinit_frees_all_pages:
  assumes "irq_ok (mach s)" "freelist s = 0" "\<forall>i. refcnt s i = 0"
    and "KERNBASE \<le> kend s" "kend s \<le> PHYSTOP"
  shows "\<exists>fl s'. kinit s = Inr ((), s') \<and> kinv fl s' \<and> quiet alloc_locks s'
    \<and> set fl = {p. usable (kend s) p}"
proof -
  note init = kinit_range_inv [OF assms]
  from freerange_loop_inv [OF init(2)] PGROUNDUP_bounds(2) [OF assms(5)] init(1)
  obtain fl s' where "kinit s = Inr ((), s')" "range_inv PHYSTOP fl s'" "kend s' = kend s" by auto
  with range_inv_final [of fl s'] show ?thesis by (auto simp: range_inv_def)
qed

definition boot0 :: pmem where
  "boot0 = \<lparr>mach = machine0, ram = (\<lambda>_. 0), freelist = 0, refcnt = (\<lambda>_. 0), kend = 0x80024000\<rparr>"

theorem kinit_frees_all_pages_witness:
  "\<exists>fl s'. kinit boot0 = Inr ((), s') \<and> kinv fl s' \<and> quiet alloc_locks s'
    \<and> set fl = {p. usable 0x80024000 p}"
  using kinit_frees_all_pages [of boot0] by (simp add: boot0_def)

text \<open>\<open>n\<close> calls of \<^verbatim>\<open>kalloc\<close> in a row return the first \<open>n\<close> pages of the free list, which are
  pairwise distinct and none of them null, and leave the rest as the free list; when the list is
  empty \<^verbatim>\<open>kalloc\<close> returns the null pointer and changes no count.\<close>

theorem kalloc_distinct_pages:
  assumes "kinv fl s" "quiet alloc_locks s" "n \<le> length fl"
  shows "\<exists>s'. ktimes n kalloc s = Inr (take n fl, s') \<and> distinct (take n fl) \<and> 0 \<notin> set (take n fl)
    \<and> kinv (drop n fl) s' \<and> (n = length fl \<longrightarrow> (\<exists>s''. kalloc s' = Inr (0, s'') \<and> kinv [] s''))"
proof -
  obtain s' where s': "ktimes n kalloc s = Inr (take n fl, s')" "kready (drop n fl) s'"
    using ka.alloc_times [of fl s n] assms by blast
  have "n = length fl \<longrightarrow> (\<exists>s''. kalloc s' = Inr (0, s'') \<and> kinv [] s'')"
    using ka.alloc_nil [of s'] s'(2) by auto
  with s' ka.distinct_free [of fl s] assms show ?thesis
    by (auto dest: in_set_takeD)
qed

text \<open>A machine with one page of memory left to allocate.\<close>

definition last_page :: addr where "last_page = 0x87FFF000"

definition one_page :: pmem where
  "one_page = \<lparr>mach = machine0, ram = (\<lambda>_. 0), freelist = last_page, refcnt = (\<lambda>_. 0),
               kend = last_page\<rparr>"

lemma usable_last_page: "usable last_page p \<longleftrightarrow> p = last_page"
proof
  assume u: "usable last_page p"
  then have "4096 dvd unat p" by (simp add: usable_aligned flip: aligned_unat)
  moreover have "unat p < 2281701376" "2281697280 \<le> unat p"
    using u by (simp_all add: usable_def last_page_def word_less_nat_alt word_le_nat_alt)
  ultimately have "unat p = 2281697280" by (auto elim!: dvdE)
  then show "p = last_page" by (simp add: last_page_def word_unat_eq_iff)
qed (simp add: usable_def last_page_def)

lemma ldw_zero [simp]: "ldw k (\<lambda>_. 0) a = 0"
  by (induction k arbitrary: a) simp_all

lemma one_page_ready: "kinv [last_page] one_page" "quiet alloc_locks one_page"
  by (simp_all add: kinv_def one_page_def usable_last_page quiet_def)
    (simp add: last_page_def)

theorem kalloc_distinct_pages_witness:
  "\<exists>s'. ktimes 1 kalloc one_page = Inr ([last_page], s') \<and> kinv [] s'
    \<and> (\<exists>s''. kalloc s' = Inr (0, s'') \<and> kinv [] s'')"
  using kalloc_distinct_pages [OF one_page_ready, of 1] by auto



text \<open>C30: freeing a page that is already free, and freeing an address the allocator does not
  manage, panic; they never corrupt the free list.\<close>

theorem kfree_rejects:
  assumes "kinv fl s" "quiet alloc_locks s"
  shows "(p \<in> set fl \<longrightarrow> kfree p s = Inl (Panic ''kfree ref''))
    \<and> (\<not> usable (kend s) q \<longrightarrow> kfree q s = Inl (Panic ''kfree''))"
proof (intro conjI impI)
  show "p \<in> set fl \<Longrightarrow> kfree p s = Inl (Panic ''kfree ref'')"
    using assms by (intro kfree_unreferenced) (auto simp: kinv_def)
  assume "\<not> usable (kend s) q"
  then have "q mod PGSIZE \<noteq> 0 \<or> q < kend s \<or> q \<ge> PHYSTOP"
    using kinvD(3) [OF assms(1)] unfolding usable_def by (meson not_le order_trans)
  then show "kfree q s = Inl (Panic ''kfree'')"
    by (simp only: kfree_def kbind_prim if_True kfail_apply)
qed

theorem kfree_rejects_witness:
  "kfree last_page one_page = Inl (Panic ''kfree ref'')
    \<and> kfree 0x80000000 one_page = Inl (Panic ''kfree'')"
  using kfree_rejects [OF one_page_ready, of last_page "0x80000000"]
  by (simp add: one_page_def usable_last_page) (simp add: last_page_def)

end
