(* ===== verification/Pagetable.thy ===== *)
theory Pagetable
  imports Kalloc
begin

text \<open>
  The page-table half of \<^verbatim>\<open>kernel/vm.c\<close>: \<open>walk\<close>, \<open>walkaddr\<close>, \<open>mappages\<close>, \<open>uvmunmap\<close>, \<open>uvmclear\<close>,
  \<open>uvmcreate\<close> and \<open>freewalk\<close> on page tables in the modelled memory.  \<open>node\<close> reads the three-level
  radix tree back from memory, \<open>entry\<close> its leaf entries (zero where a table page is missing).
  The lemmas say which memory writes change which nodes and entries.
\<close>

section \<open>Operations\<close>

abbreviation peek64 :: "addr \<Rightarrow> ('a pmem_scheme, uint64) km" where
  "peek64 a \<equiv> kgets (\<lambda>s. ld64 (ram s) a)"

abbreviation poke64 :: "addr \<Rightarrow> uint64 \<Rightarrow> ('a pmem_scheme, unit) km" where
  "poke64 a v \<equiv> upd_ram (\<lambda>m. st64 m a v)"

text \<open>\<^verbatim>\<open>&pagetable[PX(level, va)]\<close>\<close>

definition slot :: "addr \<Rightarrow> nat \<Rightarrow> uint64 \<Rightarrow> addr" where
  "slot pt level va = pt + 8 * PX level va"

text \<open>The loop of \<^verbatim>\<open>walk\<close> from \<open>level\<close> down to 1; the null pointer is \<open>0\<close>.\<close>

primrec walk_loop :: "nat \<Rightarrow> addr \<Rightarrow> uint64 \<Rightarrow> bool \<Rightarrow> ('a pmem_scheme, addr) km" where
  "walk_loop 0 pagetable va alloc = kret (slot pagetable 0 va)"
| "walk_loop (Suc l) pagetable va alloc =
     kbind (peek64 (slot pagetable (Suc l) va)) (\<lambda>pte.
     if pte AND PTE_V \<noteq> 0 then walk_loop l (PTE2PA pte) va alloc
     else if \<not> alloc then kret 0
     else kbind kalloc (\<lambda>pt.
     if pt = 0 then kret 0
     else kseq (upd_ram (\<lambda>m. memset m pt 0 4096))
         (kseq (poke64 (slot pagetable (Suc l) va) (PA2PTE pt OR PTE_V))
               (walk_loop l pt va alloc))))"

definition walk :: "addr \<Rightarrow> uint64 \<Rightarrow> bool \<Rightarrow> ('a pmem_scheme, addr) km" where
  "walk pagetable va alloc =
     (if va \<ge> MAXVA then kpanic ''walk'' else walk_loop 2 pagetable va alloc)"

definition walkaddr :: "addr \<Rightarrow> uint64 \<Rightarrow> ('a pmem_scheme, uint64) km" where
  "walkaddr pagetable va =
     (if va \<ge> MAXVA then kret 0
      else kbind (walk pagetable va False) (\<lambda>pte.
      if pte = 0 then kret 0
      else kbind (peek64 pte) (\<lambda>e.
      if e AND PTE_V = 0 then kret 0
      else if e AND PTE_U = 0 then kret 0
      else kret (PTE2PA e))))"

text \<open>One turn of the loop of \<^verbatim>\<open>mappages\<close>: \<open>False\<close> when \<^verbatim>\<open>walk\<close> ran out of memory.\<close>

definition mappages_body :: "addr \<Rightarrow> uint64 \<Rightarrow> uint64 \<Rightarrow> uint64 \<Rightarrow> ('a pmem_scheme, bool) km" where
  "mappages_body pagetable a pa perm =
     kbind (walk pagetable a True) (\<lambda>pte.
     if pte = 0 then kret False
     else kbind (peek64 pte) (\<lambda>e.
     if e AND PTE_V \<noteq> 0 then kpanic ''mappages: remap''
     else kseq (poke64 pte (PA2PTE pa OR perm OR PTE_V)) (kret True)))"

lemma walk_bound: "walk pt va al s = Inr r \<Longrightarrow> va < MAXVA"
  by (auto simp: walk_def split: if_splits)

lemma mappages_body_bound: "mappages_body pt a pa perm s = Inr r \<Longrightarrow> a < MAXVA"
  by (auto simp: mappages_body_def kbind_def split: sum.splits prod.splits dest!: walk_bound)

lemma next_page_measure: "a < MAXVA \<Longrightarrow> 2 ^ 39 - unat (a + PGSIZE) < 2 ^ 39 - unat (a :: uint64)"
  by (simp add: word_less_nat_alt unat_word_ariths)

function mappages_loop ::
  "addr \<Rightarrow> uint64 \<Rightarrow> uint64 \<Rightarrow> uint64 \<Rightarrow> uint64 \<Rightarrow> ('a pmem_scheme, int) km" where
  "mappages_loop pagetable a last' pa perm s =
     (case mappages_body pagetable a pa perm s of
        Inl e \<Rightarrow> Inl e
      | Inr (ok, s') \<Rightarrow>
          if \<not> ok then Inr (-1, s')
          else if a = last' then Inr (0, s')
          else mappages_loop pagetable (a + PGSIZE) last' (pa + PGSIZE) perm s')"
  by pat_completeness auto
termination
  by (relation "measure (\<lambda>(pt, a, l, pa, perm, s). 2 ^ 39 - unat a)")
    (auto dest!: mappages_body_bound next_page_measure)

definition mappages :: "addr \<Rightarrow> uint64 \<Rightarrow> uint64 \<Rightarrow> uint64 \<Rightarrow> uint64 \<Rightarrow> ('a pmem_scheme, int) km" where
  "mappages pagetable va sz pa perm =
     (if sz = 0 then kpanic ''mappages: size''
      else mappages_loop pagetable (PGROUNDDOWN va) (PGROUNDDOWN (va + sz - 1)) pa perm)"

definition uvmunmap_body :: "addr \<Rightarrow> uint64 \<Rightarrow> bool \<Rightarrow> ('a pmem_scheme, unit) km" where
  "uvmunmap_body pagetable a do_free =
     kbind (walk pagetable a False) (\<lambda>pte.
     if pte = 0 then kpanic ''uvmunmap: walk''
     else kbind (peek64 pte) (\<lambda>e.
     if e AND PTE_V = 0 then kpanic ''uvmunmap: not mapped''
     else if PTE_FLAGS e = PTE_V then kpanic ''uvmunmap: not a leaf''
     else kseq (kwhen do_free (kfree (PTE2PA e)))
               (poke64 pte 0)))"

lemma uvmunmap_body_bound: "uvmunmap_body pt a f s = Inr r \<Longrightarrow> a < MAXVA"
  by (auto simp: uvmunmap_body_def kbind_def split: sum.splits prod.splits dest!: walk_bound)

function uvmunmap_loop :: "addr \<Rightarrow> uint64 \<Rightarrow> uint64 \<Rightarrow> bool \<Rightarrow> ('a pmem_scheme, unit) km" where
  "uvmunmap_loop pagetable a end do_free s =
     (if a < end
      then (case uvmunmap_body pagetable a do_free s of
              Inl e \<Rightarrow> Inl e
            | Inr (_, s') \<Rightarrow> uvmunmap_loop pagetable (a + PGSIZE) end do_free s')
      else Inr ((), s))"
  by pat_completeness auto
termination
  by (relation "measure (\<lambda>(pt, a, e, f, s). 2 ^ 39 - unat a)")
    (auto dest!: uvmunmap_body_bound next_page_measure)

definition uvmunmap :: "addr \<Rightarrow> uint64 \<Rightarrow> uint64 \<Rightarrow> bool \<Rightarrow> ('a pmem_scheme, unit) km" where
  "uvmunmap pagetable va npages do_free =
     (if va mod PGSIZE \<noteq> 0 then kpanic ''uvmunmap: not aligned''
      else uvmunmap_loop pagetable va (va + npages * PGSIZE) do_free)"

definition uvmcreate :: "('a pmem_scheme, addr) km" where
  "uvmcreate =
     kbind kalloc (\<lambda>pagetable.
     if pagetable = 0 then kret 0
     else kseq (upd_ram (\<lambda>m. memset m pagetable 0 4096)) (kret pagetable))"

definition uvmclear :: "addr \<Rightarrow> uint64 \<Rightarrow> ('a pmem_scheme, unit) km" where
  "uvmclear pagetable va =
     kbind (walk pagetable va False) (\<lambda>pte.
     if pte = 0 then kpanic ''uvmclear''
     else kbind (peek64 pte) (\<lambda>e. poke64 pte (e AND NOT PTE_U)))"

text \<open>\<^verbatim>\<open>freewalk\<close>: the bound \<open>depth\<close> is the number of table levels below and including this one; a
  three-level table needs 3.  \<open>freewalk_loop\<close> is the loop from index \<open>i\<close> with \<open>k\<close> entries left,
  \<open>rec\<close> the recursive call.\<close>

primrec freewalk_loop ::
  "(addr \<Rightarrow> ('a pmem_scheme, unit) km) \<Rightarrow> addr \<Rightarrow> nat \<Rightarrow> nat \<Rightarrow> ('a pmem_scheme, unit) km" where
  "freewalk_loop rec pagetable i 0 = kret ()"
| "freewalk_loop rec pagetable i (Suc k) =
     kbind (peek64 (pagetable + 8 * of_nat i)) (\<lambda>pte.
     kseq (if pte AND PTE_V \<noteq> 0 \<and> pte AND (PTE_R OR PTE_W OR PTE_X) = 0
           then kseq (rec (PTE2PA pte)) (poke64 (pagetable + 8 * of_nat i) 0)
           else if pte AND PTE_V \<noteq> 0 then kpanic ''freewalk: leaf''
           else kret ())
          (freewalk_loop rec pagetable (Suc i) k))"

primrec freewalk :: "nat \<Rightarrow> addr \<Rightarrow> ('a pmem_scheme, unit) km" where
  "freewalk 0 pagetable = kfail Out_of_fuel"
| "freewalk (Suc depth) pagetable =
     kseq (freewalk_loop (freewalk depth) pagetable 0 512) (kfree pagetable)"

section \<open>Slots\<close>

lemma slot_off: "8 * PX l va < PGSIZE" "unat (8 * PX l va) = 8 * unat (PX l va)"
proof -
  have "unat (PX l va) < 512" using PX_lt [of l va] by (simp add: word_less_nat_alt)
  then show "unat (8 * PX l va) = 8 * unat (PX l va)" "8 * PX l va < PGSIZE"
    by (simp_all add: unat_word_ariths word_less_nat_alt)
qed

lemma slot_as_off: "slot pt l va = pt + of_nat (8 * unat (PX l va))"
  by (simp add: slot_def)

lemma slot_off_nat: "8 * unat (PX l va) + 8 \<le> 4096"
  using PX_lt [of l va] by (simp add: word_less_nat_alt)

lemma slot_page [simp]: "aligned pt \<Longrightarrow> PGROUNDDOWN (slot pt l va) = pt"
  by (simp add: slot_def slot_off)

lemma slot_nonzero: "aligned pt \<Longrightarrow> pt \<noteq> 0 \<Longrightarrow> slot pt l va \<noteq> 0"
  using slot_page [of pt l va] by (auto simp: PGROUNDDOWN_def)

lemma ld64_slot_same_page: "same_page m m' pt \<Longrightarrow> aligned pt \<Longrightarrow> ld64 m (slot pt l va) = ld64 m' (slot pt l va)"
  unfolding slot_as_off by (rule ldw_same_page) (simp_all add: slot_off_nat)

lemma st64_slot_same_page: "aligned pt \<Longrightarrow> q \<noteq> pt \<Longrightarrow> same_page m (st64 m (slot pt l va) v) q"
  unfolding slot_as_off by (rule stw_same_page) (simp_all add: slot_off_nat)

lemma ld64_st64_index:
  assumes "i < 512" "j < 512" "i \<noteq> j"
  shows "ld64 (st64 m (p + of_nat (8 * i)) v) (p + of_nat (8 * j)) = ld64 m (p + of_nat (8 * j))"
proof (rule ldw_cong)
  fix b :: nat assume b: "b < 8"
  let ?x = "p + of_nat (8 * j) + of_nat b" and ?a = "p + of_nat (8 * i) :: addr"
  have "?x - ?a = of_nat (8 * j + b) - of_nat (8 * i)" by (simp add: algebra_simps)
  moreover have "8 \<le> unat (of_nat (8 * j + b) - of_nat (8 * i) :: addr)"
    using assms b by (cases "i < j")
      (auto simp: unat_word_ariths unat_of_nat unat_sub_if_size word_size simp del: of_nat_add of_nat_mult)
  ultimately show "st64 m ?a v ?x = m ?x" by (intro stw_other) (simp only:)
qed

lemma ld64_st64_slot:
  "ld64 (st64 m (slot pt l va) v) (slot pt l' va') =
     (if PX l va = PX l' va' then v else ld64 m (slot pt l' va'))"
proof (cases "PX l va = PX l' va'")
  case True
  then show ?thesis by (simp add: slot_def)
next
  case False
  then have "unat (PX l va) \<noteq> unat (PX l' va')" by (simp add: word_unat_eq_iff)
  with ld64_st64_index [of "unat (PX l va)" "unat (PX l' va')" m pt v] False show ?thesis
    using PX_lt [of l va] PX_lt [of l' va'] by (simp add: slot_as_off word_less_nat_alt)
qed

section \<open>The radix tree in memory\<close>

text \<open>\<open>node m r k va\<close>: the table page \<open>k\<close> levels below the root on the path of \<open>va\<close>.\<close>

primrec node :: "ram \<Rightarrow> addr \<Rightarrow> nat \<Rightarrow> uint64 \<Rightarrow> addr option" where
  "node m r 0 va = Some r"
| "node m r (Suc k) va =
     (case node m r k va of
        None \<Rightarrow> None
      | Some p \<Rightarrow> if ld64 m (slot p (2 - k) va) AND PTE_V \<noteq> 0
                  then Some (PTE2PA (ld64 m (slot p (2 - k) va))) else None)"

definition nodes :: "ram \<Rightarrow> addr \<Rightarrow> addr set" where
  "nodes m r = {p. \<exists>k\<le>2. \<exists>va. node m r k va = Some p}"

definition same_idx :: "nat \<Rightarrow> uint64 \<Rightarrow> uint64 \<Rightarrow> bool" where
  "same_idx k va va' \<longleftrightarrow> (\<forall>j<k. PX (2 - j) va = PX (2 - j) va')"

text \<open>Directory entries carry the flag \<^verbatim>\<open>PTE_V\<close> only, and the upper half of the root, which \<open>walk\<close>
  never reaches, is empty.\<close>

definition dirs_ok :: "ram \<Rightarrow> addr \<Rightarrow> bool" where
  "dirs_ok m r \<longleftrightarrow> (\<forall>k<2. \<forall>va p. node m r k va = Some p \<longrightarrow> ld64 m (slot p (2 - k) va) AND PTE_V \<noteq> 0 \<longrightarrow>
       PTE_FLAGS (ld64 m (slot p (2 - k) va)) = PTE_V)
     \<and> (\<forall>va. node m r (Suc 0) va \<noteq> None \<longrightarrow> PX 2 va < 256)"

text \<open>A well-formed table: no page is reached twice.\<close>

definition pt_ok :: "ram \<Rightarrow> addr \<Rightarrow> bool" where
  "pt_ok m r \<longleftrightarrow> aligned r \<and> dirs_ok m r \<and>
     (\<forall>k k' va va' p. k \<le> 2 \<longrightarrow> k' \<le> 2 \<longrightarrow> node m r k va = Some p \<longrightarrow> node m r k' va' = Some p \<longrightarrow>
        k = k' \<and> same_idx k va va')"

text \<open>The leaf entry of \<open>va\<close>; zero, an invalid entry, where the table has no leaf page.\<close>

definition entry :: "ram \<Rightarrow> addr \<Rightarrow> uint64 \<Rightarrow> uint64" where
  "entry m r va = (case node m r 2 va of None \<Rightarrow> 0 | Some p \<Rightarrow> ld64 m (slot p 0 va))"

lemma same_idx_Suc: "same_idx (Suc k) va va' \<longleftrightarrow> same_idx k va va' \<and> PX (2 - k) va = PX (2 - k) va'"
  by (auto simp: same_idx_def less_Suc_eq)

lemma same_idx_refl [simp]: "same_idx k va va"
  by (simp add: same_idx_def)

lemma same_idx_3: "same_idx 3 va va' \<longleftrightarrow> same_idx 2 va va' \<and> PX 0 va = PX 0 va'"
  using same_idx_Suc [of 2 va va'] by (simp add: numeral_3_eq_3 numeral_2_eq_2)

lemma same_idx_page:
  assumes "va < MAXVA" "va' < MAXVA" "aligned va" "aligned va'"
  shows "same_idx 3 va va' \<longleftrightarrow> va = va'"
proof
  assume "same_idx 3 va va'"
  then have "PX 2 va = PX 2 va'" "PX 1 va = PX 1 va'" "PX 0 va = PX 0 va'"
    by (auto simp: same_idx_def dest: spec [of _ 0] spec [of _ 1] spec [of _ 2])
  from PX_determines_page [OF assms(1,2) this] assms(3,4) show "va = va'"
    by (simp add: PGROUNDDOWN_aligned)
qed simp

lemma node_same_idx: "same_idx k va va' \<Longrightarrow> node m r k va = node m r k va'"
  by (induction k) (auto simp: same_idx_Suc slot_def split: option.splits)

lemma node_None_mono: "node m r k va = None \<Longrightarrow> k \<le> k' \<Longrightarrow> node m r k' va = None"
  by (induction k') (auto elim: le_SucE)

lemma node_aligned: "aligned r \<Longrightarrow> node m r k va = Some p \<Longrightarrow> aligned p"
  by (cases k) (auto split: option.splits if_splits)

lemma node_in_nodes: "node m r k va = Some p \<Longrightarrow> k \<le> 2 \<Longrightarrow> p \<in> nodes m r"
  by (auto simp: nodes_def)

lemma root_in_nodes [simp]: "r \<in> nodes m r"
  by (rule node_in_nodes [of m r 0 0]) simp_all

lemma nodes_aligned: "pt_ok m r \<Longrightarrow> p \<in> nodes m r \<Longrightarrow> aligned p"
  by (auto simp: nodes_def pt_ok_def intro: node_aligned)

lemma pt_ok_inj:
  "pt_ok m r \<Longrightarrow> node m r k va = Some p \<Longrightarrow> node m r k' va' = Some p \<Longrightarrow> k \<le> 2 \<Longrightarrow> k' \<le> 2 \<Longrightarrow>
     k = k' \<and> same_idx k va va'"
  unfolding pt_ok_def by blast

lemma dirs_ok_cong:
  assumes "dirs_ok m r" "\<And>k va. k \<le> 2 \<Longrightarrow> node m' r k va = node m r k va"
    and "\<And>k va p. k < 2 \<Longrightarrow> node m r k va = Some p \<Longrightarrow>
      ld64 m' (slot p (2 - k) va) = ld64 m (slot p (2 - k) va)"
  shows "dirs_ok m' r"
  using assms unfolding dirs_ok_def by (auto simp del: node.simps(2))

text \<open>Writes outside the table's own pages do not change the table.\<close>

lemma node_frame:
  assumes "pt_ok m r" "\<forall>p\<in>nodes m r. same_page m m' p" "k \<le> 2"
  shows "node m' r k va = node m r k va"
  using assms(3)
proof (induction k)
  case 0
  then show ?case by simp
next
  case (Suc k)
  show ?case
  proof (cases "node m r k va")
    case (Some p)
    then have "p \<in> nodes m r" using Suc.prems by (auto intro: node_in_nodes)
    then have "ld64 m' (slot p (2 - k) va) = ld64 m (slot p (2 - k) va)"
      using assms nodes_aligned by (metis ld64_slot_same_page)
    with Some Suc show ?thesis by simp
  qed (use Suc in simp)
qed

lemma table_frame:
  assumes "pt_ok m r" "\<forall>p\<in>nodes m r. same_page m m' p"
  shows "nodes m' r = nodes m r" "pt_ok m' r" "entry m' r va = entry m r va"
proof -
  note n = node_frame [OF assms]
  show "nodes m' r = nodes m r" by (simp add: nodes_def n cong: conj_cong)
  have "dirs_ok m' r"
  proof (rule dirs_ok_cong [of m])
    show "dirs_ok m r" using assms(1) by (simp add: pt_ok_def)
    fix k va p assume "k < (2 :: nat)" "node m r k va = Some p"
    then have "p \<in> nodes m r" by (auto intro: node_in_nodes)
    then show "ld64 m' (slot p (2 - k) va) = ld64 m (slot p (2 - k) va)"
      using assms nodes_aligned by (metis ld64_slot_same_page)
  qed (rule n)
  then show "pt_ok m' r" using assms(1) unfolding pt_ok_def by (simp add: n)
  show "entry m' r va = entry m r va"
  proof (cases "node m r 2 va")
    case (Some p)
    then have "p \<in> nodes m r" by (auto intro: node_in_nodes)
    then have "ld64 m' (slot p 0 va) = ld64 m (slot p 0 va)"
      using assms nodes_aligned by (metis ld64_slot_same_page)
    with Some n [of 2 va] show ?thesis by (simp add: entry_def)
  qed (simp add: entry_def n)
qed

text \<open>Writing a leaf entry changes that entry only.\<close>

lemma leaf_write_node:
  assumes ok: "pt_ok m r" and p: "node m r 2 va = Some p" and k: "k \<le> 2"
  shows "node (st64 m (slot p 0 va) e) r k va' = node m r k va'"
  using k
proof (induction k)
  case 0
  then show ?case by simp
next
  case (Suc k)
  show ?case
  proof (cases "node m r k va'")
    case (Some q)
    then have "q \<noteq> p" using pt_ok_inj [OF ok Some, of 2 va] p Suc.prems by auto
    moreover have "aligned p" "aligned q"
      using ok p Some node_aligned unfolding pt_ok_def by blast+
    ultimately have "ld64 (st64 m (slot p 0 va) e) (slot q (2 - k) va') = ld64 m (slot q (2 - k) va')"
      by (metis ld64_slot_same_page st64_slot_same_page)
    with Some Suc show ?thesis by simp
  qed (use Suc in simp)
qed

lemma leaf_write:
  fixes e :: uint64
  assumes ok: "pt_ok m r" and p: "node m r 2 va = Some p"
  defines "m' \<equiv> st64 m (slot p 0 va) e"
  shows "nodes m' r = nodes m r" "pt_ok m' r"
    "entry m' r va' = (if same_idx 3 va va' then e else entry m r va')"
proof -
  note n = leaf_write_node [OF ok p, of _ e, folded m'_def]
  show "nodes m' r = nodes m r" by (simp add: nodes_def n cong: conj_cong)
  have "dirs_ok m' r"
  proof (rule dirs_ok_cong [of m])
    show "dirs_ok m r" using ok by (simp add: pt_ok_def)
    fix k v q assume q: "k < (2 :: nat)" "node m r k v = Some q"
    then have "q \<noteq> p" using pt_ok_inj [OF ok q(2), of 2 va] p by auto
    moreover have "aligned p" "aligned q"
      using ok p q node_aligned unfolding pt_ok_def by blast+
    ultimately show "ld64 m' (slot q (2 - k) v) = ld64 m (slot q (2 - k) v)"
      unfolding m'_def by (metis ld64_slot_same_page st64_slot_same_page)
  qed (rule n)
  then show "pt_ok m' r" using ok unfolding pt_ok_def by (simp add: n)
  show "entry m' r va' = (if same_idx 3 va va' then e else entry m r va')"
  proof (cases "node m r 2 va'")
    case None
    then have "\<not> same_idx 2 va va'" using p node_same_idx by fastforce
    then have "\<not> same_idx 3 va va'" by (simp add: same_idx_3)
    with None n [of 2 va'] show ?thesis by (simp add: entry_def)
  next
    case (Some q)
    have al: "aligned p" "aligned q" using ok p Some node_aligned unfolding pt_ok_def by blast+
    have q: "q = p \<longleftrightarrow> same_idx 2 va va'"
      using pt_ok_inj [OF ok p, of 2 va'] node_same_idx [of 2 va va' m r] p Some by auto
    show ?thesis
    proof (cases "q = p")
      case True
      with Some n [of 2 va'] same_idx_3 [of va va'] q show ?thesis by (simp add: entry_def m'_def ld64_st64_slot)
    next
      case False
      then have "ld64 m' (slot q 0 va') = ld64 m (slot q 0 va')"
        unfolding m'_def using al by (metis ld64_slot_same_page st64_slot_same_page)
      with False Some n [of 2 va'] same_idx_3 [of va va'] q show ?thesis by (simp add: entry_def)
    qed
  qed
qed

text \<open>Linking a fresh zeroed page below a node with an invalid entry.\<close>

definition blank :: "ram \<Rightarrow> addr \<Rightarrow> bool" where
  "blank m q \<longleftrightarrow> (\<forall>x. PGROUNDDOWN x = q \<longrightarrow> m x = 0)"

lemma ld64_blank: "blank m q \<Longrightarrow> aligned q \<Longrightarrow> ld64 m (slot q l va) = 0"
proof -
  assume "blank m q" "aligned q"
  then have "same_page m (\<lambda>_. 0) q" by (simp add: blank_def same_page_def)
  from ld64_slot_same_page [OF this \<open>aligned q\<close>] show ?thesis by simp
qed

lemma blank_memset: "aligned q \<Longrightarrow> blank (memset m q 0 4096) q"
  by (simp add: blank_def memset_eq page_offset word_less_nat_alt)

lemma link_node:
  assumes ok: "pt_ok m r" and p: "node m r k va = Some p" "k < 2"
    and inv: "ld64 m (slot p (2 - k) va) AND PTE_V = 0"
    and q: "aligned q" "q \<notin> nodes m r" "blank m1 q" "\<forall>x. x \<noteq> q \<longrightarrow> same_page m m1 x"
  defines "m' \<equiv> st64 m1 (slot p (2 - k) va) (PA2PTE q OR PTE_V)"
  shows "k' \<le> 2 \<Longrightarrow> node m' r k' va' =
    (if k < k' \<and> same_idx (Suc k) va va' then if k' = Suc k then Some q else None
     else node m r k' va')"
proof (induction k')
  case 0
  then show ?case by simp
next
  case (Suc k')
  have al: "aligned r" "aligned p" using ok p node_aligned unfolding pt_ok_def by blast+
  have pin: "p \<in> nodes m r" using p by (auto intro: node_in_nodes)
  then have pq: "p \<noteq> q" using q by auto
  show ?case
  proof (cases "k < k' \<and> same_idx (Suc k) va va'")
    case True
    have "ld64 m' (slot q (2 - k') va') = ld64 m1 (slot q (2 - k') va')"
      unfolding m'_def using st64_slot_same_page [OF al(2), of q] pq q(1)
      by (metis ld64_slot_same_page)
    also have "\<dots> = 0" by (rule ld64_blank [OF q(3,1)])
    finally show ?thesis using True Suc by auto
  next
    case old: False
    then have ih: "node m' r k' va' = node m r k' va'" using Suc by auto
    show ?thesis
    proof (cases "node m r k' va'")
      case None
      then have "\<not> (k < Suc k' \<and> same_idx (Suc k) va va')"
        using old p(1) node_same_idx [of k va va' m r] by (auto simp: less_Suc_eq same_idx_Suc)
      then show ?thesis using ih None by simp
    next
      case (Some p')
      have p'in: "p' \<in> nodes m r" using Some Suc.prems by (auto intro: node_in_nodes)
      have alp': "aligned p'" using ok p'in by (rule nodes_aligned)
      have p'q: "p' \<noteq> q" using q(2) p'in by auto
      have e1: "ld64 m1 (slot p' (2 - k') va') = ld64 m (slot p' (2 - k') va')"
        using q(4) p'q alp' by (metis ld64_slot_same_page)
      have pp': "p' = p \<longleftrightarrow> k' = k \<and> same_idx k va va'"
        using pt_ok_inj [OF ok p(1), of k' va'] Some p node_same_idx [of k va va' m r] Suc.prems
        by auto
      show ?thesis
      proof (cases "p' = p")
        case True
        then have kk: "k' = k" "same_idx k va va'" using pp' by auto
        have "ld64 m' (slot p' (2 - k') va') =
            (if PX (2 - k) va = PX (2 - k) va' then PA2PTE q OR PTE_V
             else ld64 m (slot p' (2 - k') va'))"
          using True kk e1 by (simp add: m'_def ld64_st64_slot)
        moreover have "PTE2PA (PA2PTE q OR PTE_V) = q" by (rule PTE2PA_PA2PTE [OF q(1)]) simp
        moreover have "(PA2PTE q OR PTE_V) AND PTE_V \<noteq> 0"
          using PTE_FLAGS_test [of PTE_V "PA2PTE q OR PTE_V"] PTE_FLAGS_PA2PTE [of PTE_V q] by simp
        ultimately show ?thesis using Some ih kk by (simp add: same_idx_Suc)
      next
        case False
        then have "ld64 m' (slot p' (2 - k') va') = ld64 m (slot p' (2 - k') va')"
          unfolding m'_def using e1 al alp' by (metis ld64_slot_same_page st64_slot_same_page)
        moreover have "\<not> (k < Suc k' \<and> same_idx (Suc k) va va')"
          using False pp' old by (auto simp: less_Suc_eq same_idx_Suc)
        ultimately show ?thesis using Some ih by simp
      qed
    qed
  qed
qed

lemma PX2_lt:
  assumes "va < MAXVA"
  shows "PX 2 va < 256"
proof -
  have "drop_bit 8 (PX 2 va) = 0"
  proof (rule bit_word_eqI)
    fix n :: nat assume "n < LENGTH(64)"
    have "\<not> bit va 38" using lt_MAXVA_bits [OF assms] by simp
    then show "bit (drop_bit 8 (PX 2 va)) n = bit 0 n"
      by (cases n) (simp_all add: bit_drop_bit_eq bit_PX)
  qed
  then have "unat (PX 2 va) div 256 = 0"
    using unat_drop_bit_eq [of 8 "PX 2 va"] by (simp add: drop_bit_eq_div)
  then show ?thesis by (simp add: word_less_nat_alt div_eq_0_iff)
qed

text \<open>The directory entries after linking.\<close>

lemma link_dirs:
  assumes ok: "pt_ok m r" and p: "node m r k va = Some p" "k < 2" "va < MAXVA"
    and inv: "ld64 m (slot p (2 - k) va) AND PTE_V = 0"
    and q: "aligned q" "q \<notin> nodes m r" "blank m1 q" "\<forall>x. x \<noteq> q \<longrightarrow> same_page m m1 x"
  defines "m' \<equiv> st64 m1 (slot p (2 - k) va) (PA2PTE q OR PTE_V)"
  shows "dirs_ok m' r"
  unfolding dirs_ok_def
proof (intro conjI allI impI)
  note n = link_node [OF ok p(1,2) inv q, folded m'_def]
  have d: "dirs_ok m r" and al: "aligned p"
    using ok p node_aligned unfolding pt_ok_def by blast+
  have pin: "p \<in> nodes m r" using p by (auto intro: node_in_nodes)
  then have pq: "p \<noteq> q" using q(2) by auto
  fix v
  show "PX 2 v < 256" if nd: "node m' r (Suc 0) v \<noteq> None"
  proof (cases "k = 0 \<and> same_idx (Suc 0) va v")
    case True
    then have "PX 2 v = PX 2 va" by (simp add: same_idx_def)
    with PX2_lt [OF p(3)] show ?thesis by simp
  next
    case False
    then have "node m r (Suc 0) v \<noteq> None"
      using nd n [of "Suc 0" v] by (cases k) (simp_all del: node.simps(2))
    with d show ?thesis unfolding dirs_ok_def by blast
  qed
  fix k' p' assume k': "k' < 2" and np: "node m' r k' v = Some p'"
    and vld: "ld64 m' (slot p' (2 - k') v) AND PTE_V \<noteq> 0"
  have "p' \<noteq> q"
  proof
    assume "p' = q"
    then have "ld64 m' (slot p' (2 - k') v) = ld64 m1 (slot q (2 - k') v)"
      unfolding m'_def using al pq q(1) by (metis ld64_slot_same_page st64_slot_same_page)
    with vld ld64_blank [OF q(3,1)] show False by simp
  qed
  then have old: "node m r k' v = Some p'" using np n [of k' v] k' by (auto split: if_splits)
  then have "p' \<in> nodes m r" using k' by (auto intro: node_in_nodes)
  then have al': "aligned p'" using ok by (auto intro: nodes_aligned)
  have e1: "ld64 m1 (slot p' (2 - k') v) = ld64 m (slot p' (2 - k') v)"
    using q(4) \<open>p' \<noteq> q\<close> al' by (metis ld64_slot_same_page)
  show "PTE_FLAGS (ld64 m' (slot p' (2 - k') v)) = PTE_V"
  proof (cases "p' = p")
    case True
    then have "ld64 m' (slot p' (2 - k') v) = (if PX (2 - k) va = PX (2 - k') v then PA2PTE q OR PTE_V
        else ld64 m (slot p' (2 - k') v))"
      using e1 by (simp add: m'_def ld64_st64_slot)
    then show ?thesis
      using d old k' vld PTE_FLAGS_PA2PTE [of PTE_V q] unfolding dirs_ok_def by (auto split: if_splits)
  next
    case False
    then have "ld64 m' (slot p' (2 - k') v) = ld64 m (slot p' (2 - k') v)"
      unfolding m'_def using e1 al al' by (metis ld64_slot_same_page st64_slot_same_page)
    then show ?thesis using d old k' vld unfolding dirs_ok_def by auto
  qed
qed

lemma link_table:
  assumes ok: "pt_ok m r" and p: "node m r k va = Some p" "k < 2" "va < MAXVA"
    and inv: "ld64 m (slot p (2 - k) va) AND PTE_V = 0"
    and q: "aligned q" "q \<notin> nodes m r" "blank m1 q" "\<forall>x. x \<noteq> q \<longrightarrow> same_page m m1 x"
  defines "m' \<equiv> st64 m1 (slot p (2 - k) va) (PA2PTE q OR PTE_V)"
  shows "nodes m' r = insert q (nodes m r)" "pt_ok m' r" "entry m' r va' = entry m r va'"
    "node m' r (Suc k) va = Some q"
    "\<forall>x. x \<notin> nodes m r \<longrightarrow> x \<noteq> q \<longrightarrow> same_page m m' x"
proof -
  note n = link_node [OF ok p(1,2) inv q, folded m'_def]
  have al: "aligned p" using ok p node_aligned unfolding pt_ok_def by blast
  have pin: "p \<in> nodes m r" using p by (auto intro: node_in_nodes)
  have none: "node m r (Suc k) va' = None" if "same_idx (Suc k) va va'" for va'
    using that inv p node_same_idx [of k va va' m r] by (auto simp: same_idx_Suc slot_def)
  have none': "node m r k' va' = None" if "k < k'" "k' \<le> 2" "same_idx (Suc k) va va'" for k' va'
    by (rule node_None_mono [OF none]) (use that in simp_all)
  show new: "node m' r (Suc k) va = Some q" using n [of "Suc k" va] p(2) by simp
  show "nodes m' r = insert q (nodes m r)"
  proof (intro set_eqI iffI)
    fix x assume "x \<in> nodes m' r"
    then obtain k' va' where "k' \<le> 2" "node m' r k' va' = Some x" by (auto simp: nodes_def)
    then show "x \<in> insert q (nodes m r)"
      using n [of k' va'] node_in_nodes [of m r k' va' x] by (auto split: if_splits)
  next
    fix x assume "x \<in> insert q (nodes m r)"
    moreover have "q \<in> nodes m' r" using node_in_nodes [OF new] p(2) by simp
    moreover have "x \<in> nodes m' r" if x: "x \<in> nodes m r"
    proof -
      from x obtain k' va' where k': "k' \<le> 2" "node m r k' va' = Some x" by (auto simp: nodes_def)
      then have "node m' r k' va' = Some x" using n [of k' va'] none' [of k' va'] by auto
      then show ?thesis using k'(1) by (rule node_in_nodes)
    qed
    ultimately show "x \<in> nodes m' r" by auto
  qed
  show "pt_ok m' r"
    unfolding pt_ok_def
  proof (intro conjI allI impI)
    show "aligned r" using ok by (simp add: pt_ok_def)
    show "dirs_ok m' r" unfolding m'_def by (rule link_dirs [OF ok p inv q])
    fix k1 k2 v1 v2 x
    assume h: "k1 \<le> 2" "k2 \<le> 2" "node m' r k1 v1 = Some x" "node m' r k2 v2 = Some x"
    have c: "node m' r i v = Some x \<Longrightarrow> i \<le> 2 \<Longrightarrow>
      (x = q \<and> i = Suc k \<and> same_idx (Suc k) va v) \<or> (x \<noteq> q \<and> node m r i v = Some x)" for i v
      using n [of i v] node_in_nodes [of m r i v x] q(2) by (auto split: if_splits)
    from c [OF h(3,1)] c [OF h(4,2)] have
      "(k1 = Suc k \<and> same_idx (Suc k) va v1 \<and> k2 = Suc k \<and> same_idx (Suc k) va v2)
        \<or> (node m r k1 v1 = Some x \<and> node m r k2 v2 = Some x)" by auto
    then show "k1 = k2" "same_idx k1 v1 v2"
      using pt_ok_inj [OF ok, of k1 v1 x k2 v2] h by (auto simp: same_idx_def)
  qed
  show "entry m' r va' = entry m r va'"
  proof (cases "same_idx (Suc k) va va'")
    case True
    have "aligned q" "p \<noteq> q" using q pin by auto
    then have "ld64 m' (slot q 0 va') = ld64 m1 (slot q 0 va')"
      unfolding m'_def using al by (metis ld64_slot_same_page st64_slot_same_page)
    then have "ld64 m' (slot q 0 va') = 0" using ld64_blank [OF q(3,1)] by simp
    then show ?thesis using True n [of 2 va'] none' [of 2 va'] p(2) by (simp add: entry_def)
  next
    case False
    then have same: "node m' r 2 va' = node m r 2 va'" using n [of 2 va'] by auto
    show ?thesis
    proof (cases "node m r 2 va'")
      case (Some x)
      then have x: "x \<in> nodes m r" "x \<noteq> p"
        using pt_ok_inj [OF ok p(1), of 2 va'] p(2) node_in_nodes by auto
      then have "x \<noteq> q" "aligned x" using q(2) nodes_aligned [OF ok] by auto
      then have "ld64 m' (slot x 0 va') = ld64 m (slot x 0 va')"
        unfolding m'_def using x al q(4) by (metis ld64_slot_same_page st64_slot_same_page)
      with Some same show ?thesis by (simp add: entry_def)
    qed (simp add: entry_def same)
  qed
  show "\<forall>x. x \<notin> nodes m r \<longrightarrow> x \<noteq> q \<longrightarrow> same_page m m' x"
    unfolding m'_def using q(4) al pin st64_slot_same_page same_page_trans by metis
qed

section \<open>What walk does\<close>

lemma walk_lookup:
  "va < MAXVA \<Longrightarrow> walk r va False s =
     Inr (case node (ram s) r 2 va of None \<Rightarrow> 0 | Some p \<Rightarrow> slot p 0 va, s)"
  by (simp add: walk_def numeral_2_eq_2 not_le [symmetric])

text \<open>Everything but the physical memory, its allocator and the interrupt bookkeeping is unchanged.\<close>

definition mem_only :: "'a pmem_scheme \<Rightarrow> 'a pmem_scheme \<Rightarrow> bool" where
  "mem_only s s' \<longleftrightarrow> mach s' \<in> {mach s, settle (mach s)} \<and> kend s' = kend s
     \<and> pmem.more s' = pmem.more s"

lemma mem_only_refl [simp]: "mem_only s s"
  by (simp add: mem_only_def)

lemma mem_only_trans: "mem_only s t \<Longrightarrow> mem_only t u \<Longrightarrow> mem_only s u"
  by (auto simp: mem_only_def)

lemma mem_only_kend: "mem_only s s' \<Longrightarrow> kend s' = kend s"
  by (simp add: mem_only_def)

lemma mem_only_upd [simp]:
  "mem_only s (s'\<lparr>ram := m\<rparr>) = mem_only s s'"
  "mem_only s (s'\<lparr>freelist := f\<rparr>) = mem_only s s'"
  "mem_only s (s'\<lparr>refcnt := c\<rparr>) = mem_only s s'"
  "mem_only s (settled s)"
  by (simp_all add: mem_only_def)

lemma kinv_ram:
  "kinv fl s \<Longrightarrow> \<forall>p\<in>set fl. same_page (ram s) m p \<Longrightarrow> kinv fl (s\<lparr>ram := m\<rparr>)"
  using chain_same_page [of "ram s" "freelist s" fl m] usable_aligned unfolding kinv_def
  by fastforce

lemma kready_ram:
  "kready fl s \<Longrightarrow> \<forall>p\<in>set fl. same_page (ram s) m p \<Longrightarrow> kready fl (s\<lparr>ram := m\<rparr>)"
  by (simp add: kinv_ram quiet_def)

lemma kready_settled: "kready fl s \<Longrightarrow> kready fl (settled s)"
  by (simp add: kinv_def quiet_def)

text \<open>\<open>grown r fl s fl' s'\<close>: the table \<open>r\<close> got the pages that \<open>fl\<close> has before \<open>fl'\<close> as new table
  pages; its entries are what they were.\<close>

definition grown :: "addr \<Rightarrow> addr list \<Rightarrow> 'a pmem_scheme \<Rightarrow> addr list \<Rightarrow> 'a pmem_scheme \<Rightarrow> bool" where
  "grown r fl s fl' s' \<longleftrightarrow> mem_only s s' \<and> kready fl' s' \<and> pt_ok (ram s') r
     \<and> (\<forall>va. entry (ram s') r va = entry (ram s) r va)
     \<and> (\<exists>new. fl = new @ fl' \<and> nodes (ram s') r = nodes (ram s) r \<union> set new
         \<and> refcnt s' = (\<lambda>i. if i \<in> pidx ` set new then 1 else refcnt s i)
         \<and> (\<forall>x. x \<notin> nodes (ram s) r \<longrightarrow> x \<notin> set new \<longrightarrow> same_page (ram s) (ram s') x))"

lemma grown_same:
  "kready fl s' \<Longrightarrow> pt_ok (ram s) r \<Longrightarrow> mem_only s s' \<Longrightarrow> ram s' = ram s \<Longrightarrow> refcnt s' = refcnt s \<Longrightarrow>
    grown r fl s fl s'"
  by (auto simp: grown_def)

lemma grown_trans:
  assumes "grown r fl s fl1 t" "grown r fl1 t fl2 u"
  shows "grown r fl s fl2 u"
proof -
  from assms(1) obtain n1 where
    n1: "fl = n1 @ fl1" "nodes (ram t) r = nodes (ram s) r \<union> set n1"
      "refcnt t = (\<lambda>i. if i \<in> pidx ` set n1 then 1 else refcnt s i)"
      "\<forall>x. x \<notin> nodes (ram s) r \<longrightarrow> x \<notin> set n1 \<longrightarrow> same_page (ram s) (ram t) x"
    by (auto simp: grown_def)
  from assms(2) obtain n2 where
    n2: "fl1 = n2 @ fl2" "nodes (ram u) r = nodes (ram t) r \<union> set n2"
      "refcnt u = (\<lambda>i. if i \<in> pidx ` set n2 then 1 else refcnt t i)"
      "\<forall>x. x \<notin> nodes (ram t) r \<longrightarrow> x \<notin> set n2 \<longrightarrow> same_page (ram t) (ram u) x"
    by (auto simp: grown_def)
  have "\<forall>x. x \<notin> nodes (ram s) r \<longrightarrow> x \<notin> set (n1 @ n2) \<longrightarrow> same_page (ram s) (ram u) x"
    using n1 n2 by (auto intro: same_page_trans)
  moreover have "refcnt u = (\<lambda>i. if i \<in> pidx ` set (n1 @ n2) then 1 else refcnt s i)"
    using n1(3) n2(3) by (auto simp: fun_eq_iff)
  moreover have "nodes (ram u) r = nodes (ram s) r \<union> set (n1 @ n2)" using n1(2) n2(2) by auto
  moreover have "fl = (n1 @ n2) @ fl2" using n1(1) n2(1) by simp
  moreover have "mem_only s u" "kready fl2 u" "pt_ok (ram u) r"
    "\<forall>va. entry (ram u) r va = entry (ram s) r va"
    using assms by (auto simp: grown_def intro: mem_only_trans)
  ultimately show ?thesis unfolding grown_def by blast
qed

lemma grown_nodes:
  assumes "grown r fl s fl' s'" "kready fl s" "nodes (ram s) r \<inter> set fl = {}" "0 \<notin> nodes (ram s) r"
  shows "nodes (ram s') r \<inter> set fl' = {}" "0 \<notin> nodes (ram s') r"
  using assms ka.distinct_free [of fl s] unfolding grown_def by auto

text \<open>One table page linked by \<open>walk\<close>.\<close>

lemma walk_link:
  assumes rd: "kready (q # fl) s" and ok: "pt_ok (ram s) r" and dj: "nodes (ram s) r \<inter> set (q # fl) = {}"
    and p: "node (ram s) r k va = Some p" "k < 2" "va < MAXVA"
    and inv: "ld64 (ram s) (slot p (2 - k) va) AND PTE_V = 0"
  shows "\<exists>t. kalloc s = Inr (q, t) \<and>
    (let u = t\<lparr>ram := st64 (memset (ram t) q 0 4096) (slot p (2 - k) va) (PA2PTE q OR PTE_V)\<rparr>
     in grown r (q # fl) s fl u \<and> node (ram u) r (Suc k) va = Some q)"
proof -
  from kalloc_cons [of q fl s] rd obtain t where
    t: "kalloc s = Inr (q, t)" "kready fl t" and
    teq: "t = (settled s)\<lparr>freelist := ld64 (ram s) q, refcnt := (refcnt s)(pidx q := 1),
                          ram := memset (ram s) q 5 4096\<rparr>" by blast
  let ?m1 = "memset (ram t) q 0 4096"
  let ?m = "st64 ?m1 (slot p (2 - k) va) (PA2PTE q OR PTE_V)"
  have q: "aligned q" "q \<notin> set fl" "q \<notin> nodes (ram s) r"
    using rd dj by (auto simp: kinv_def dest: usable_aligned)
  have b: "blank ?m1 q" using q(1) by (rule blank_memset)
  have f: "\<forall>x. x \<noteq> q \<longrightarrow> same_page (ram s) ?m1 x"
    using q(1) teq by (auto intro: same_page_trans memset_same_page)
  note l = link_table [OF ok p inv q(1,3) b f]
  have al: "aligned p" "p \<in> nodes (ram s) r"
    using ok p node_aligned node_in_nodes unfolding pt_ok_def by (blast, auto)
  have "kready fl (t\<lparr>ram := ?m\<rparr>)"
  proof (rule kready_ram [OF t(2)], intro ballI)
    fix x assume "x \<in> set fl"
    then have "x \<noteq> p" "x \<noteq> q" using dj al q by auto
    then show "same_page (ram t) ?m x"
      using al(1) q(1) by (blast intro: same_page_trans memset_same_page st64_slot_same_page)
  qed
  moreover have "mem_only s (t\<lparr>ram := ?m\<rparr>)" by (simp add: teq)
  ultimately have "grown r (q # fl) s fl (t\<lparr>ram := ?m\<rparr>)"
    using l by (auto simp: grown_def teq intro!: exI [of _ "[q]"])
  with t(1) l(4) show ?thesis by (simp add: Let_def del: node.simps)
qed

lemma walk_alloc_loop:
  assumes "kready fl s" "pt_ok (ram s) r" "nodes (ram s) r \<inter> set fl = {}" "0 \<notin> nodes (ram s) r"
    and "node (ram s) r (2 - l) va = Some pt" "l \<le> 2" "va < MAXVA"
  shows "\<exists>a fl' s'. walk_loop l pt va True s = Inr (a, s') \<and> grown r fl s fl' s'
    \<and> (a = 0 \<and> fl' = [] \<or> a \<noteq> 0 \<and> (\<exists>p. node (ram s') r 2 va = Some p \<and> a = slot p 0 va))"
  using assms
proof (induction l arbitrary: pt fl s)
  case 0
  then have "pt \<in> nodes (ram s) r" by (auto intro: node_in_nodes)
  then have "aligned pt" "pt \<noteq> 0" using "0.prems" by (auto intro: nodes_aligned)
  then have "slot pt 0 va \<noteq> 0" by (rule slot_nonzero)
  with 0 show ?case by (auto intro!: exI [of _ fl] grown_same)
next
  case (Suc l)
  define k where "k = 2 - Suc l"
  have k: "2 - k = Suc l" "Suc k = 2 - l" "k < 2" using Suc.prems by (auto simp: k_def)
  let ?e = "ld64 (ram s) (slot pt (Suc l) va)"
  have nk: "node (ram s) r k va = Some pt" using Suc.prems by (simp add: k_def)
  show ?case
  proof (cases "?e AND PTE_V = 0")
    case False
    then have "node (ram s) r (2 - l) va = Some (PTE2PA ?e)"
      using nk k by (simp flip: k(2))
    from Suc.IH [OF Suc.prems(1-4) this] Suc.prems False show ?thesis by auto
  next
    case inv: True
    show ?thesis
    proof (cases fl)
      case Nil
      then have "kalloc s = Inr (0, settled s)" "kready [] (settled s)"
        using Suc.prems(1) kalloc_nil kready_settled by blast+
      with inv Nil Suc.prems show ?thesis
        by (auto simp: kmonad intro!: grown_same)
    next
      case (Cons q fl1)
      from walk_link [of q fl1 s r k va pt] Suc.prems Cons nk k inv obtain t where
        t: "kalloc s = Inr (q, t)" and
        g: "let u = t\<lparr>ram := st64 (memset (ram t) q 0 4096) (slot pt (Suc l) va) (PA2PTE q OR PTE_V)\<rparr>
            in grown r fl s fl1 u \<and> node (ram u) r (2 - l) va = Some q" by auto
      let ?u = "t\<lparr>ram := st64 (memset (ram t) q 0 4096) (slot pt (Suc l) va) (PA2PTE q OR PTE_V)\<rparr>"
      have u: "grown r fl s fl1 ?u" "node (ram ?u) r (2 - l) va = Some q"
        using g unfolding Let_def by blast+
      have q0: "q \<noteq> 0" using ka.distinct_free [of fl s] Suc.prems Cons by auto
      have pre: "kready fl1 ?u" "pt_ok (ram ?u) r" using u(1) by (simp_all add: grown_def)
      have le: "l \<le> 2" using Suc.prems by simp
      from Suc.IH [OF pre grown_nodes [OF u(1) Suc.prems(1,3,4)] u(2) le Suc.prems(7)] obtain a fl' s' where
        "walk_loop l q va True ?u = Inr (a, s')" "grown r fl1 ?u fl' s'"
        "a = 0 \<and> fl' = [] \<or> a \<noteq> 0 \<and> (\<exists>p. node (ram s') r 2 va = Some p \<and> a = slot p 0 va)"
        by blast
      moreover have "walk_loop (Suc l) pt va True s = walk_loop l q va True ?u"
        using inv t q0 by (simp add: kmonad)
      ultimately show ?thesis using grown_trans [OF u(1), of fl' s'] by auto
    qed
  qed
qed

lemma walk_alloc:
  assumes "kready fl s" "pt_ok (ram s) r" "nodes (ram s) r \<inter> set fl = {}" "0 \<notin> nodes (ram s) r"
    and "va < MAXVA"
  shows "\<exists>a fl' s'. walk r va True s = Inr (a, s') \<and> grown r fl s fl' s'
    \<and> (a = 0 \<and> fl' = [] \<or> a \<noteq> 0 \<and> (\<exists>p. node (ram s') r 2 va = Some p \<and> a = slot p 0 va))"
  using walk_alloc_loop [OF assms(1-4), of 2] assms(5) by (simp add: walk_def not_le)

section \<open>Changing entries\<close>

text \<open>The virtual pages.\<close>

definition vpages :: "uint64 set" where
  "vpages = {va. va < MAXVA \<and> aligned va}"

lemma vpages_lt: "va \<in> vpages \<Longrightarrow> va < MAXVA"
  by (simp add: vpages_def)

lemma PGROUNDDOWN_vpages: "va < MAXVA \<Longrightarrow> PGROUNDDOWN va \<in> vpages"
  using PGROUNDDOWN_le [of va] by (auto simp: vpages_def)

text \<open>\<open>retabled r E fl s fl' s'\<close>: the entries of table \<open>r\<close> became \<open>E\<close>, possibly with the help of
  new table pages taken from the front of \<open>fl\<close>; no page outside the table was written.\<close>

definition retabled ::
  "addr \<Rightarrow> (uint64 \<Rightarrow> uint64) \<Rightarrow> addr list \<Rightarrow> 'a pmem_scheme \<Rightarrow> addr list \<Rightarrow> 'a pmem_scheme \<Rightarrow> bool" where
  "retabled r E fl s fl' s' \<longleftrightarrow> mem_only s s' \<and> kready fl' s' \<and> pt_ok (ram s') r
     \<and> (\<forall>va\<in>vpages. entry (ram s') r va = E va)
     \<and> (\<exists>new. fl = new @ fl' \<and> nodes (ram s') r = nodes (ram s) r \<union> set new
         \<and> refcnt s' = (\<lambda>i. if i \<in> pidx ` set new then 1 else refcnt s i)
         \<and> (\<forall>x. x \<notin> nodes (ram s) r \<longrightarrow> x \<notin> set new \<longrightarrow> same_page (ram s) (ram s') x))"

lemma grown_retabled: "grown r fl s fl' s' \<Longrightarrow> retabled r (entry (ram s) r) fl s fl' s'"
  by (auto simp: grown_def retabled_def)

lemma retabledE:
  assumes "retabled r E fl s fl' s'"
  obtains new where "mem_only s s'" "kready fl' s'" "pt_ok (ram s') r"
    "\<And>va. va \<in> vpages \<Longrightarrow> entry (ram s') r va = E va"
    "fl = new @ fl'" "nodes (ram s') r = nodes (ram s) r \<union> set new"
    "refcnt s' = (\<lambda>i. if i \<in> pidx ` set new then 1 else refcnt s i)"
    "\<And>x. x \<notin> nodes (ram s) r \<Longrightarrow> x \<notin> set new \<Longrightarrow> same_page (ram s) (ram s') x"
  using assms unfolding retabled_def by blast

lemma retabledI:
  assumes "mem_only s s'" "kready fl' s'" "pt_ok (ram s') r"
    "\<And>va. va \<in> vpages \<Longrightarrow> entry (ram s') r va = E va"
    "fl = new @ fl'" "nodes (ram s') r = nodes (ram s) r \<union> set new"
    "refcnt s' = (\<lambda>i. if i \<in> pidx ` set new then 1 else refcnt s i)"
    "\<And>x. x \<notin> nodes (ram s) r \<Longrightarrow> x \<notin> set new \<Longrightarrow> same_page (ram s) (ram s') x"
  shows "retabled r E fl s fl' s'"
  using assms unfolding retabled_def by blast

lemma retabled_trans:
  assumes "retabled r E fl s fl1 t" "retabled r E' fl1 t fl2 u"
  shows "retabled r E' fl s fl2 u"
proof -
  from assms(1) obtain n1 where n1: "mem_only s t" "fl = n1 @ fl1"
      "nodes (ram t) r = nodes (ram s) r \<union> set n1"
      "refcnt t = (\<lambda>i. if i \<in> pidx ` set n1 then 1 else refcnt s i)"
      "\<And>x. x \<notin> nodes (ram s) r \<Longrightarrow> x \<notin> set n1 \<Longrightarrow> same_page (ram s) (ram t) x"
    by (rule retabledE) blast
  from assms(2) obtain n2 where n2: "mem_only t u" "kready fl2 u" "pt_ok (ram u) r"
      "\<And>va. va \<in> vpages \<Longrightarrow> entry (ram u) r va = E' va"
      "fl1 = n2 @ fl2" "nodes (ram u) r = nodes (ram t) r \<union> set n2"
      "refcnt u = (\<lambda>i. if i \<in> pidx ` set n2 then 1 else refcnt t i)"
      "\<And>x. x \<notin> nodes (ram t) r \<Longrightarrow> x \<notin> set n2 \<Longrightarrow> same_page (ram t) (ram u) x"
    by (rule retabledE) blast
  show ?thesis
  proof (rule retabledI [of _ _ _ _ _ _ "n1 @ n2"])
    show "mem_only s u" using n1(1) n2(1) by (rule mem_only_trans)
    show "refcnt u = (\<lambda>i. if i \<in> pidx ` set (n1 @ n2) then 1 else refcnt s i)"
      using n1(4) n2(7) by (auto simp: fun_eq_iff)
    show "\<And>x. x \<notin> nodes (ram s) r \<Longrightarrow> x \<notin> set (n1 @ n2) \<Longrightarrow> same_page (ram s) (ram u) x"
      using n1(3,5) n2(8) by (auto intro: same_page_trans)
  qed (use n1 n2 in auto)
qed

lemma retabled_cong: "retabled r E fl s fl' s' \<Longrightarrow> (\<And>va. va \<in> vpages \<Longrightarrow> E va = E' va) \<Longrightarrow>
    retabled r E' fl s fl' s'"
  by (auto simp: retabled_def)

lemma poke_leaf:
  assumes rd: "kready fl s" and ok: "pt_ok (ram s) r" and dj: "nodes (ram s) r \<inter> set fl = {}"
    and p: "node (ram s) r 2 va = Some p" and va: "va \<in> vpages"
  shows "retabled r ((entry (ram s) r)(va := e)) fl s fl (s\<lparr>ram := st64 (ram s) (slot p 0 va) e\<rparr>)"
proof (rule retabledI [of _ _ _ _ _ _ "[]"])
  let ?m = "st64 (ram s) (slot p 0 va) e"
  have pin: "p \<in> nodes (ram s) r" using p by (auto intro: node_in_nodes)
  then have al: "aligned p" using ok by (auto intro: nodes_aligned)
  note l = leaf_write [OF ok p, of e]
  show "kready fl (s\<lparr>ram := ?m\<rparr>)"
    using pin dj al by (intro kready_ram [OF rd]) (auto intro!: st64_slot_same_page)
  show "entry (ram (s\<lparr>ram := ?m\<rparr>)) r v = ((entry (ram s) r)(va := e)) v" if "v \<in> vpages" for v
    using l(3) [of v] that va by (auto simp: vpages_def same_idx_page)
  show "same_page (ram s) (ram (s\<lparr>ram := ?m\<rparr>)) x" if "x \<notin> nodes (ram s) r" for x
    using that pin al by (auto intro!: st64_slot_same_page)
qed (use leaf_write [OF ok p, of e] in auto)

text \<open>The tables a caller may hand to \<open>walk\<close>.\<close>

definition table :: "addr list \<Rightarrow> 'a pmem_scheme \<Rightarrow> addr \<Rightarrow> bool" where
  "table fl s r \<longleftrightarrow> pt_ok (ram s) r \<and> nodes (ram s) r \<inter> set fl = {} \<and> 0 \<notin> nodes (ram s) r"

lemma retabled_table:
  assumes "retabled r E fl s fl' s'" "kready fl s" "table fl s r"
  shows "table fl' s' r"
  using assms(1)
proof (rule retabledE)
  fix new assume "fl = new @ fl'" "nodes (ram s') r = nodes (ram s) r \<union> set new" "pt_ok (ram s') r"
  with assms ka.distinct_free [of fl s] show ?thesis by (auto simp: table_def)
qed

text \<open>\<open>mappages\<close> of one page: the entry is installed, or \<open>walk\<close> found no memory and the entries
  are what they were.\<close>

lemma mappages_body_ok:
  assumes rd: "kready fl s" "table fl s r" and va: "va \<in> vpages"
    and free: "entry (ram s) r va AND PTE_V = 0"
  shows "(\<exists>fl' s'. mappages_body r va pa perm s = Inr (True, s')
            \<and> retabled r ((entry (ram s) r)(va := PA2PTE pa OR perm OR PTE_V)) fl s fl' s')
    \<or> (\<exists>s'. mappages_body r va pa perm s = Inr (False, s') \<and> retabled r (entry (ram s) r) fl s [] s')"
proof -
  from walk_alloc [of fl s r va] rd va obtain a fl' t where
    w: "walk r va True s = Inr (a, t)" and g: "grown r fl s fl' t" and
    c: "a = 0 \<and> fl' = [] \<or> a \<noteq> 0 \<and> (\<exists>p. node (ram t) r 2 va = Some p \<and> a = slot p 0 va)"
    by (auto simp: table_def vpages_def)
  note gr = grown_retabled [OF g]
  from c show ?thesis
  proof (elim disjE conjE exE)
    assume "a = 0" "fl' = []"
    with w gr show ?thesis by (auto simp: mappages_body_def kmonad)
  next
    fix p assume a: "a \<noteq> 0" "node (ram t) r 2 va = Some p" "a = slot p 0 va"
    have "ld64 (ram t) a = entry (ram t) r va" using a by (simp add: entry_def)
    also have "\<dots> = entry (ram s) r va" using g by (simp add: grown_def)
    finally have run: "mappages_body r va pa perm s =
        Inr (True, t\<lparr>ram := st64 (ram t) (slot p 0 va) (PA2PTE pa OR perm OR PTE_V)\<rparr>)"
      using w a free by (simp add: mappages_body_def kmonad)
    have "table fl' t r" using gr rd by (rule retabled_table)
    then have "retabled r ((entry (ram t) r)(va := PA2PTE pa OR perm OR PTE_V)) fl' t fl'
        (t\<lparr>ram := st64 (ram t) (slot p 0 va) (PA2PTE pa OR perm OR PTE_V)\<rparr>)"
      using a va g by (intro poke_leaf) (auto simp: table_def grown_def)
    from retabled_trans [OF gr this] have "retabled r
        ((entry (ram s) r)(va := PA2PTE pa OR perm OR PTE_V)) fl s fl'
        (t\<lparr>ram := st64 (ram t) (slot p 0 va) (PA2PTE pa OR perm OR PTE_V)\<rparr>)"
      by (rule retabled_cong) (use g in \<open>auto simp: grown_def\<close>)
    with run show ?thesis by blast
  qed
qed

lemma mappages_page: "aligned va \<Longrightarrow> mappages r va PGSIZE pa perm s =
    (case mappages_body r va pa perm s of Inl e \<Rightarrow> Inl e
     | Inr (ok, s') \<Rightarrow> Inr (if ok then 0 else - 1, s'))"
proof -
  assume "aligned va"
  then have "PGROUNDDOWN (va + PGSIZE - 1) = va"
    using PGROUNDDOWN_add [of va 4095] by (simp add: add_diff_eq [symmetric])
  with \<open>aligned va\<close> show ?thesis
    by (simp add: mappages_def PGROUNDDOWN_aligned split: sum.split)
qed

text \<open>The loop: the first \<open>j\<close> pages of the range are mapped.\<close>

definition map_range :: "(uint64 \<Rightarrow> uint64) \<Rightarrow> uint64 \<Rightarrow> uint64 \<Rightarrow> uint64 \<Rightarrow> nat \<Rightarrow> uint64 \<Rightarrow> uint64" where
  "map_range E a pa perm j = (\<lambda>v.
     if unat a \<le> unat v \<and> unat v < unat a + 4096 * j
     then PA2PTE (pa + (v - a)) OR perm OR PTE_V else E v)"

lemma map_range_0 [simp]: "map_range E a pa perm 0 = E"
  by (auto simp: map_range_def fun_eq_iff)

lemma map_range_cong: "E v = E' v \<Longrightarrow> map_range E a pa perm j v = map_range E' a pa perm j v"
  by (simp add: map_range_def)

lemma vpage_step:
  assumes "a \<in> vpages" "unat a + 4096 * Suc n < 2 ^ 38"
  shows "unat (a + PGSIZE) = unat a + 4096" "a + PGSIZE \<in> vpages"
proof -
  show u: "unat (a + PGSIZE) = unat a + 4096"
    using assms(2) by (simp add: unat_word_ariths)
  show "a + PGSIZE \<in> vpages"
    using assms u aligned_add [of a PGSIZE] by (simp add: vpages_def word_less_nat_alt aligned_def)
qed

lemma vpage_range_Suc:
  assumes "a \<in> vpages" "v \<in> vpages"
  shows "unat a \<le> unat v \<and> unat v < unat a + 4096 * Suc j \<longleftrightarrow>
    v = a \<or> unat a + 4096 \<le> unat v \<and> unat v < unat a + 4096 + 4096 * j"
proof -
  have "4096 dvd unat a" "4096 dvd unat v" using assms by (simp_all add: vpages_def aligned_unat)
  then show ?thesis by (auto simp: word_unat_eq_iff elim!: dvdE)
qed

lemma map_range_Suc:
  assumes "a \<in> vpages" "v \<in> vpages" "unat (a + PGSIZE) = unat a + 4096"
  shows "map_range (E(a := PA2PTE pa OR perm OR PTE_V)) (a + PGSIZE) (pa + PGSIZE) perm j v =
    map_range E a pa perm (Suc j) v"
proof -
  have "pa + PGSIZE + (v - (a + PGSIZE)) = pa + (v - a)" by simp
  then show ?thesis
    using vpage_range_Suc [OF assms(1,2), of j] by (simp add: map_range_def assms(3))
qed

lemma mappages_loop_ok:
  assumes "kready fl s" "table fl s r" "a \<in> vpages" "unat a + 4096 * n < 2 ^ 38"
    and "\<forall>v\<in>vpages. unat a \<le> unat v \<and> unat v \<le> unat a + 4096 * n \<longrightarrow> entry (ram s) r v AND PTE_V = 0"
    and "unat lst = unat a + 4096 * n"
  shows "\<exists>res fl' s' j. mappages_loop r a lst pa perm s = Inr (res, s')
    \<and> retabled r (map_range (entry (ram s) r) a pa perm j) fl s fl' s'
    \<and> (res = 0 \<and> j = Suc n \<or> res = - 1 \<and> j \<le> n \<and> fl' = [])"
  using assms
proof (induction n arbitrary: a pa fl s)
  case 0
  then have al: "a = lst" by (simp add: word_unat_eq_iff)
  have one: "map_range E a pa perm (Suc 0) v = (E(a := PA2PTE pa OR perm OR PTE_V)) v"
    if "v \<in> vpages" for E v
    using vpage_range_Suc [OF "0.prems"(3) that, of 0] by (auto simp: map_range_def)
  have free: "entry (ram s) r a AND PTE_V = 0" using "0.prems" by auto
  from mappages_body_ok [OF "0.prems"(1-3) free, of pa perm] show ?case
  proof (elim disjE exE conjE)
    fix fl' s' assume b: "mappages_body r a pa perm s = Inr (True, s')"
      "retabled r ((entry (ram s) r)(a := PA2PTE pa OR perm OR PTE_V)) fl s fl' s'"
    have "retabled r (map_range (entry (ram s) r) a pa perm (Suc 0)) fl s fl' s'"
      by (rule retabled_cong [OF b(2)]) (simp add: one)
    with b(1) al show ?thesis by (auto simp: mappages_loop.simps [of r a])
  next
    fix s' assume b: "mappages_body r a pa perm s = Inr (False, s')"
      "retabled r (entry (ram s) r) fl s [] s'"
    have "retabled r (map_range (entry (ram s) r) a pa perm 0) fl s [] s'"
      using b(2) by simp
    with b(1) show ?thesis by (auto simp: mappages_loop.simps [of r a])
  qed
next
  case (Suc n)
  have ne: "a \<noteq> lst" using Suc.prems(6) by auto
  note nx = vpage_step [OF Suc.prems(3,4)]
  have free: "entry (ram s) r a AND PTE_V = 0" using Suc.prems by auto
  from mappages_body_ok [OF Suc.prems(1-3) free, of pa perm] show ?case
  proof (elim disjE exE conjE)
    fix fl1 t assume b: "mappages_body r a pa perm s = Inr (True, t)"
      "retabled r ((entry (ram s) r)(a := PA2PTE pa OR perm OR PTE_V)) fl s fl1 t"
    from b(2) have t: "kready fl1 t" "\<And>v. v \<in> vpages \<Longrightarrow>
        entry (ram t) r v = ((entry (ram s) r)(a := PA2PTE pa OR perm OR PTE_V)) v"
      by (auto elim: retabledE)
    have "\<forall>v\<in>vpages. unat (a + PGSIZE) \<le> unat v \<and> unat v \<le> unat (a + PGSIZE) + 4096 * n \<longrightarrow>
        entry (ram t) r v AND PTE_V = 0"
      using Suc.prems(5) t(2) nx by auto
    from Suc.IH [OF t(1) retabled_table [OF b(2) Suc.prems(1,2)] nx(2) _ this, of "pa + PGSIZE"]
      Suc.prems(4,6) nx(1) obtain res fl' s' j where
      l: "mappages_loop r (a + PGSIZE) lst (pa + PGSIZE) perm t = Inr (res, s')"
        "retabled r (map_range (entry (ram t) r) (a + PGSIZE) (pa + PGSIZE) perm j) fl1 t fl' s'"
        "res = 0 \<and> j = Suc n \<or> res = - 1 \<and> j \<le> n \<and> fl' = []" by auto
    have "retabled r (map_range (entry (ram s) r) a pa perm (Suc j)) fl s fl' s'"
    proof (rule retabled_cong [OF retabled_trans [OF b(2) l(2)]])
      fix v assume v: "v \<in> vpages"
      have "map_range (entry (ram t) r) (a + PGSIZE) (pa + PGSIZE) perm j v =
        map_range ((entry (ram s) r)(a := PA2PTE pa OR perm OR PTE_V)) (a + PGSIZE) (pa + PGSIZE)
          perm j v"
        by (rule map_range_cong) (rule t(2) [OF v])
      also have "\<dots> = map_range (entry (ram s) r) a pa perm (Suc j) v"
        using map_range_Suc Suc.prems(3) v nx(1) .
      finally show "map_range (entry (ram t) r) (a + PGSIZE) (pa + PGSIZE) perm j v =
        map_range (entry (ram s) r) a pa perm (Suc j) v" .
    qed
    with l(1,3) b(1) ne show ?thesis
      by (intro exI [of _ res] exI [of _ fl'] exI [of _ s'] exI [of _ "Suc j"])
        (auto simp: mappages_loop.simps [of r a])
  next
    fix s' assume b: "mappages_body r a pa perm s = Inr (False, s')"
      "retabled r (entry (ram s) r) fl s [] s'"
    have "retabled r (map_range (entry (ram s) r) a pa perm 0) fl s [] s'"
      using b(2) by simp
    with b(1) show ?thesis
      by (intro exI [of _ "- 1"] exI [of _ "[]"] exI [of _ s'] exI [of _ 0])
        (auto simp: mappages_loop.simps [of r a])
  qed
qed

end
