(* ===== verification/Freewalk.thy ===== *)
theory Freewalk
  imports Pagetable
begin

text \<open>
  \<open>freewalk\<close> of \<^verbatim>\<open>kernel/vm.c\<close>: on a table whose leaf entries are all invalid it returns every
  table page to the allocator and touches nothing else.
\<close>

section \<open>Subtables\<close>

abbreviation pte_at :: "ram \<Rightarrow> addr \<Rightarrow> nat \<Rightarrow> uint64" where
  "pte_at m p i \<equiv> ld64 m (p + 8 * of_nat i)"

abbreviation child :: "ram \<Rightarrow> addr \<Rightarrow> nat \<Rightarrow> addr" where
  "child m p i \<equiv> PTE2PA (pte_at m p i)"

abbreviation used :: "ram \<Rightarrow> addr \<Rightarrow> nat \<Rightarrow> bool" where
  "used m p i \<equiv> pte_at m p i AND PTE_V \<noteq> 0"

primrec sub_pages :: "nat \<Rightarrow> ram \<Rightarrow> addr \<Rightarrow> addr set" where
  "sub_pages 0 m p = {}"
| "sub_pages (Suc d) m p =
     insert p (\<Union>i\<in>{i. i < 512 \<and> used m p i}. sub_pages d m (child m p i))"

text \<open>A subtable of \<open>d\<close> levels with no leaf left.\<close>

primrec leafless :: "nat \<Rightarrow> ram \<Rightarrow> addr \<Rightarrow> bool" where
  "leafless 0 m p = False"
| "leafless (Suc d) m p \<longleftrightarrow> aligned p \<and> (\<forall>i<512. used m p i \<longrightarrow>
     pte_at m p i AND (PTE_R OR PTE_W OR PTE_X) = 0 \<and> leafless d m (child m p i)
     \<and> p \<notin> sub_pages d m (child m p i)
     \<and> (\<forall>j<512. used m p j \<longrightarrow> j \<noteq> i \<longrightarrow>
          sub_pages d m (child m p i) \<inter> sub_pages d m (child m p j) = {}))"

lemma pte_at_same_page: "same_page m m' p \<Longrightarrow> aligned p \<Longrightarrow> i < 512 \<Longrightarrow> pte_at m' p i = pte_at m p i"
proof -
  assume "same_page m m' p" "aligned p" "i < 512"
  then have "ld64 m (p + of_nat (8 * i)) = ld64 m' (p + of_nat (8 * i))"
    by (intro ldw_same_page) auto
  then show ?thesis by simp
qed

lemma sub_pages_frame:
  "leafless d m p \<Longrightarrow> \<forall>x\<in>sub_pages d m p. same_page m m' x \<Longrightarrow>
     sub_pages d m' p = sub_pages d m p \<and> leafless d m' p"
proof (induction d arbitrary: p)
  case 0
  then show ?case by simp
next
  case (Suc d)
  have e: "pte_at m' p i = pte_at m p i" if "i < 512" for i
    using Suc.prems that by (intro pte_at_same_page) auto
  have c: "sub_pages d m' (child m p i) = sub_pages d m (child m p i) \<and> leafless d m' (child m p i)"
    if "i < 512" "used m p i" for i
    using Suc.prems that by (intro Suc.IH) auto
  have "(\<Union>i\<in>{i. i < 512 \<and> used m' p i}. sub_pages d m' (child m' p i)) =
      (\<Union>i\<in>{i. i < 512 \<and> used m p i}. sub_pages d m (child m p i))"
    using e c by (intro SUP_cong) auto
  then show ?case using Suc.prems(1) e c by auto
qed

lemma leafless_root: "leafless d m p \<Longrightarrow> aligned p \<and> p \<in> sub_pages d m p"
  by (cases d) auto

section \<open>Releasing pages\<close>

text \<open>\<open>released P X fl s fl' s'\<close>: the pages \<open>P\<close> went back to the free list; besides them only \<open>X\<close>
  was written.\<close>

definition released ::
  "addr set \<Rightarrow> addr set \<Rightarrow> addr list \<Rightarrow> 'a pmem_scheme \<Rightarrow> addr list \<Rightarrow> 'a pmem_scheme \<Rightarrow> bool" where
  "released P X fl s fl' s' \<longleftrightarrow> mem_only s s' \<and> kready fl' s' \<and> set fl' = P \<union> set fl
     \<and> refcnt s' = (\<lambda>i. if i \<in> pidx ` P then 0 else refcnt s i)
     \<and> (\<forall>x. x \<notin> P \<union> X \<longrightarrow> same_page (ram s) (ram s') x)"

lemma released_trans:
  assumes "released P X fl s fl1 t" "released Q X fl1 t fl2 u"
  shows "released (P \<union> Q) X fl s fl2 u"
proof -
  have "same_page (ram s) (ram u) x" if "x \<notin> P \<union> Q \<union> X" for x
    using assms that by (auto simp: released_def intro: same_page_trans)
  moreover have "refcnt u = (\<lambda>i. if i \<in> pidx ` (P \<union> Q) then 0 else refcnt s i)"
    using assms by (auto simp: released_def fun_eq_iff)
  ultimately show ?thesis
    using assms by (auto simp: released_def intro: mem_only_trans)
qed

lemma released_weaken: "released P X fl s fl' s' \<Longrightarrow> X \<subseteq> Y \<Longrightarrow> released P Y fl s fl' s'"
  by (auto simp: released_def)

definition owned :: "'a pmem_scheme \<Rightarrow> addr set \<Rightarrow> bool" where
  "owned s P \<longleftrightarrow> (\<forall>p\<in>P. usable (kend s) p \<and> refcnt s (pidx p) = 1)"

lemma owned_released:
  assumes "owned s Q" "released P X fl s fl' s'" "P \<inter> Q = {}" "\<forall>p\<in>P. usable (kend s) p"
  shows "owned s' Q"
  unfolding owned_def
proof
  fix q assume q: "q \<in> Q"
  then have "pidx q \<notin> pidx ` P" using assms pidx_inj unfolding owned_def by blast
  with q assms show "usable (kend s') q \<and> refcnt s' (pidx q) = 1"
    by (auto simp: owned_def released_def mem_only_def)
qed

lemma kfree_released:
  assumes "kready fl s" "usable (kend s) p" "refcnt s (pidx p) = 1"
  shows "\<exists>s'. kfree p s = Inr ((), s') \<and> released {p} {} fl s (p # fl) s'"
proof -
  let ?s' = "(settled s)\<lparr>refcnt := (refcnt s)(pidx p := 0),
    ram := st64 (memset (ram s) p 1 4096) p (freelist s), freelist := p\<rparr>"
  have al: "aligned p" using assms(2) by (rule usable_aligned)
  have "kfree p s = Inr ((), ?s')" using assms by (intro kfree_last) auto
  moreover have "kready (p # fl) ?s'"
    using kinv_kfree_last [of fl s p] assms by (simp add: quiet_def)
  moreover have "same_page (ram s) (ram ?s') x" if "x \<noteq> p" for x
    using al that by (auto intro: same_page_trans memset_same_page st64_same_page)
  ultimately show ?thesis by (auto simp: released_def fun_eq_iff)
qed

lemma poke_released:
  assumes "kready fl s" "aligned p" "p \<notin> set fl" "i < 512"
  shows "released {} {p} fl s fl (s\<lparr>ram := st64 (ram s) (p + 8 * of_nat i) v\<rparr>)"
proof -
  have f: "same_page (ram s) (st64 (ram s) (p + 8 * of_nat i) v) x" if "x \<noteq> p" for x
    using assms that stw_same_page [of p x "8 * i" 8 "ram s" v] by simp
  have "kready fl (s\<lparr>ram := st64 (ram s) (p + 8 * of_nat i) v\<rparr>)"
  proof (rule kready_ram [OF assms(1)], rule ballI)
    fix q assume "q \<in> set fl"
    with assms(3) have "q \<noteq> p" by auto
    then show "same_page (ram s) (st64 (ram s) (p + 8 * of_nat i) v) q" by (rule f)
  qed
  then show ?thesis using f by (simp add: released_def)
qed

section \<open>The loop and the recursion\<close>

definition rest_pages :: "nat \<Rightarrow> ram \<Rightarrow> addr \<Rightarrow> nat \<Rightarrow> addr set" where
  "rest_pages d m p i = (\<Union>j\<in>{j. i \<le> j \<and> j < 512 \<and> used m p j}. sub_pages d m (child m p j))"

text \<open>What the loop of \<open>freewalk\<close> needs of the entries from index \<open>i\<close> on.\<close>

definition loop_ok :: "nat \<Rightarrow> ram \<Rightarrow> addr \<Rightarrow> nat \<Rightarrow> bool" where
  "loop_ok d m p i \<longleftrightarrow> aligned p \<and> (\<forall>j<512. i \<le> j \<longrightarrow> used m p j \<longrightarrow>
     pte_at m p j AND (PTE_R OR PTE_W OR PTE_X) = 0 \<and> leafless d m (child m p j)
     \<and> p \<notin> sub_pages d m (child m p j)
     \<and> (\<forall>j'<512. i \<le> j' \<longrightarrow> used m p j' \<longrightarrow> j' \<noteq> j \<longrightarrow>
          sub_pages d m (child m p j) \<inter> sub_pages d m (child m p j') = {}))"

lemma loop_ok_step:
  assumes ok: "loop_ok d m p i" and e: "\<And>j. i < j \<Longrightarrow> j < 512 \<Longrightarrow> pte_at m' p j = pte_at m p j"
    and f: "\<And>j x. i < j \<Longrightarrow> j < 512 \<Longrightarrow> used m p j \<Longrightarrow> x \<in> sub_pages d m (child m p j) \<Longrightarrow> same_page m m' x"
  shows "loop_ok d m' p (Suc i)" "rest_pages d m' p (Suc i) = rest_pages d m p (Suc i)"
proof -
  have s: "sub_pages d m' (child m' p j) = sub_pages d m (child m p j) \<and> leafless d m' (child m' p j)"
    if "i < j" "j < 512" "used m p j" for j
  proof -
    have "leafless d m (child m p j)" using ok that by (simp add: loop_ok_def)
    then show ?thesis using sub_pages_frame [of d m "child m p j" m'] f [OF that] e [OF that(1,2)] by simp
  qed
  show "rest_pages d m' p (Suc i) = rest_pages d m p (Suc i)"
    unfolding rest_pages_def using e s by (intro SUP_cong) auto
  show "loop_ok d m' p (Suc i)"
    using ok e s unfolding loop_ok_def by (auto simp: Suc_le_eq)
qed

lemma rest_pages_Suc:
  "i < 512 \<Longrightarrow> rest_pages d m p i =
     (if used m p i then sub_pages d m (child m p i) else {}) \<union> rest_pages d m p (Suc i)"
proof -
  assume "i < 512"
  then have "{j. i \<le> j \<and> j < 512 \<and> used m p j} =
      (if used m p i then {i} else {}) \<union> {j. Suc i \<le> j \<and> j < 512 \<and> used m p j}"
    by (auto simp: Suc_le_eq order.order_iff_strict)
  then show ?thesis by (simp add: rest_pages_def)
qed

text \<open>One turn of the loop at a used entry.\<close>

lemma freewalk_turn:
  fixes s :: "'a pmem_scheme"
  assumes rec: "\<And>p fl (s :: 'a pmem_scheme). leafless d (ram s) p \<Longrightarrow> kready fl s \<Longrightarrow> owned s (sub_pages d (ram s) p) \<Longrightarrow>
      sub_pages d (ram s) p \<inter> set fl = {} \<Longrightarrow>
      \<exists>fl' s'. freewalk d p s = Inr ((), s') \<and> released (sub_pages d (ram s) p) {} fl s fl' s'"
    and ok: "loop_ok d (ram s) p i" and i: "i < 512" "used (ram s) p i"
    and rd: "kready fl s" "p \<notin> set fl"
    and own: "owned s (rest_pages d (ram s) p i)" "rest_pages d (ram s) p i \<inter> set fl = {}"
  shows "\<exists>fl' s'. kseq (freewalk d (child (ram s) p i)) (poke64 (p + 8 * of_nat i) 0) s = Inr ((), s')
    \<and> released (sub_pages d (ram s) (child (ram s) p i)) {p} fl s fl' s'
    \<and> loop_ok d (ram s') p (Suc i) \<and> rest_pages d (ram s') p (Suc i) = rest_pages d (ram s) p (Suc i)"
proof -
  let ?S = "sub_pages d (ram s) (child (ram s) p i)"
  have sub: "?S \<subseteq> rest_pages d (ram s) p i" using rest_pages_Suc [OF i(1), of d "ram s" p] i by auto
  have al: "aligned p" and lf: "leafless d (ram s) (child (ram s) p i)" and pn: "p \<notin> ?S"
    using ok i by (auto simp: loop_ok_def)
  have "owned s ?S" using own(1) sub by (auto simp: owned_def)
  moreover have "?S \<inter> set fl = {}" using own(2) sub by blast
  ultimately obtain fl1 t where
    t: "freewalk d (child (ram s) p i) s = Inr ((), t)" "released ?S {} fl s fl1 t"
    using rec [OF lf rd(1)] by blast
  let ?u = "t\<lparr>ram := st64 (ram t) (p + 8 * of_nat i) 0\<rparr>"
  have "kready fl1 t" "p \<notin> set fl1" using t(2) rd(2) pn by (auto simp: released_def)
  then have u: "released {} {p} fl1 t fl1 ?u" using al i(1) by (intro poke_released) auto
  have rel: "released ?S {p} fl s fl1 ?u"
    using released_trans [OF released_weaken [OF t(2), of "{p}"] u] by simp
  have pt: "same_page (ram s) (ram t) p" using t(2) pn by (simp add: released_def)
  have e: "pte_at (ram ?u) p j = pte_at (ram s) p j" if "i < j" "j < 512" for j
    using that ld64_st64_index [of i j "ram t" p 0] pte_at_same_page [OF pt al, of j] by simp
  have f: "same_page (ram s) (ram ?u) x"
    if j: "i < j" "j < 512" "used (ram s) p j" and x: "x \<in> sub_pages d (ram s) (child (ram s) p j)" for j x
  proof -
    have "x \<notin> ?S" "x \<noteq> p" using ok i j x unfolding loop_ok_def by fastforce+
    then show ?thesis using rel by (simp add: released_def)
  qed
  have st: "loop_ok d (ram ?u) p (Suc i)"
    "rest_pages d (ram ?u) p (Suc i) = rest_pages d (ram s) p (Suc i)"
    by (rule loop_ok_step [OF ok]; use e f in blast)+
  have "kseq (freewalk d (child (ram s) p i)) (poke64 (p + 8 * of_nat i) 0) s = Inr ((), ?u)"
    using t(1) by (simp add: kmonad)
  with rel st show ?thesis by blast
qed

lemma freewalk_loop_ok:
  fixes s :: "'a pmem_scheme"
  assumes rec: "\<And>p fl (s :: 'a pmem_scheme). leafless d (ram s) p \<Longrightarrow> kready fl s \<Longrightarrow>
      owned s (sub_pages d (ram s) p) \<Longrightarrow> sub_pages d (ram s) p \<inter> set fl = {} \<Longrightarrow>
      \<exists>fl' s'. freewalk d p s = Inr ((), s') \<and> released (sub_pages d (ram s) p) {} fl s fl' s'"
    and "loop_ok d (ram s) p i" "i + k = 512" "kready fl s" "p \<notin> set fl"
    and "owned s (rest_pages d (ram s) p i)" "rest_pages d (ram s) p i \<inter> set fl = {}"
    and "p \<notin> rest_pages d (ram s) p i"
  shows "\<exists>fl' s'. freewalk_loop (freewalk d) p i k s = Inr ((), s')
    \<and> released (rest_pages d (ram s) p i) {p} fl s fl' s'"
  using assms(2-)
proof (induction k arbitrary: i fl s)
  case 0
  then have "rest_pages d (ram s) p i = {}" by (auto simp: rest_pages_def)
  moreover have "released {} {p} fl s fl s" using 0 by (simp add: released_def)
  ultimately show ?case by auto
next
  case (Suc k)
  let ?m = "ram s"
  let ?S = "if used ?m p i then sub_pages d ?m (child ?m p i) else {}"
  have i: "i < 512" using Suc.prems by simp
  note rest = rest_pages_Suc [OF i, of d ?m p]
  have step: "\<exists>fl1 t. (if used ?m p i \<and> pte_at ?m p i AND (PTE_R OR PTE_W OR PTE_X) = 0
         then kseq (freewalk d (child ?m p i)) (poke64 (p + 8 * of_nat i) 0)
         else if used ?m p i then kpanic ''freewalk: leaf'' else kret ()) s = Inr ((), t)
      \<and> released ?S {p} fl s fl1 t \<and> loop_ok d (ram t) p (Suc i)
      \<and> rest_pages d (ram t) p (Suc i) = rest_pages d ?m p (Suc i)"
  proof (cases "used ?m p i")
    case True
    then have "pte_at ?m p i AND (PTE_R OR PTE_W OR PTE_X) = 0"
      using Suc.prems(1) i by (simp add: loop_ok_def)
    with True show ?thesis
      using freewalk_turn [OF rec Suc.prems(1) i True Suc.prems(3,4,5,6)] by (simp only: simp_thms if_True)
  next
    case False
    moreover have "loop_ok d ?m p (Suc i)" using Suc.prems(1) unfolding loop_ok_def by auto
    moreover have "released {} {p} fl s fl s" using Suc.prems by (simp add: released_def)
    ultimately show ?thesis by auto
  qed
  then obtain fl1 t where
    run: "(if used ?m p i \<and> pte_at ?m p i AND (PTE_R OR PTE_W OR PTE_X) = 0
         then kseq (freewalk d (child ?m p i)) (poke64 (p + 8 * of_nat i) 0)
         else if used ?m p i then kpanic ''freewalk: leaf'' else kret ()) s = Inr ((), t)" and
    t: "released ?S {p} fl s fl1 t" "loop_ok d (ram t) p (Suc i)"
      "rest_pages d (ram t) p (Suc i) = rest_pages d ?m p (Suc i)"
    by blast
  have dj: "?S \<inter> rest_pages d ?m p (Suc i) = {}"
  proof (cases "used ?m p i")
    case True
    have "sub_pages d ?m (child ?m p i) \<inter> sub_pages d ?m (child ?m p j) = {}"
      if "Suc i \<le> j" "j < 512" "used ?m p j" for j
    proof -
      from that(1) have "i \<le> j" "j \<noteq> i" by simp_all
      with Suc.prems(1) i True that(2,3) show ?thesis unfolding loop_ok_def by blast
    qed
    then have "sub_pages d ?m (child ?m p i) \<inter> rest_pages d ?m p (Suc i) = {}"
      unfolding rest_pages_def Int_UN_distrib by (intro SUP_bot_conv(1) [THEN iffD2] ballI) simp
    with True show ?thesis by (simp only: if_True not_False_eq_True)
  qed (simp only: if_False not_True_eq_False Int_empty_left)
  have "owned t (rest_pages d (ram t) p (Suc i))"
    unfolding t(3)
  proof (rule owned_released [OF _ t(1) dj])
    show "owned s (rest_pages d ?m p (Suc i))" "\<forall>q\<in>?S. usable (kend s) q"
      using Suc.prems(5) rest unfolding owned_def by (auto split: if_splits)
  qed
  moreover have "rest_pages d (ram t) p (Suc i) \<inter> set fl1 = {}"
    using t(1,3) dj Suc.prems(6) rest by (auto simp: released_def)
  moreover have "kready fl1 t" "p \<notin> set fl1"
    using t(1) Suc.prems(4,7) rest by (auto simp: released_def split: if_splits)
  moreover have "p \<notin> rest_pages d (ram t) p (Suc i)" "Suc i + k = 512"
    using t(3) Suc.prems(2,7) rest by auto
  ultimately obtain fl' s' where
    l: "freewalk_loop (freewalk d) p (Suc i) k t = Inr ((), s')"
      "released (rest_pages d (ram t) p (Suc i)) {p} fl1 t fl' s'"
    using Suc.IH [OF t(2)] by blast
  have "freewalk_loop (freewalk d) p i (Suc k) s = Inr ((), s')"
    by (simp only: freewalk_loop.simps kbind_prim kseq_apply run l(1) sum.case prod.case)
  moreover have "released (rest_pages d ?m p i) {p} fl s fl' s'"
    using released_trans [OF t(1) l(2)] by (simp only: rest t(3))
  ultimately show ?case by blast
qed

lemma freewalk_ok:
  "leafless d (ram s) p \<Longrightarrow> kready fl s \<Longrightarrow> owned s (sub_pages d (ram s) p) \<Longrightarrow>
    sub_pages d (ram s) p \<inter> set fl = {} \<Longrightarrow>
    \<exists>fl' s'. freewalk d p s = Inr ((), s') \<and> released (sub_pages d (ram s) p) {} fl s fl' s'"
proof (induction d arbitrary: p fl s)
  case 0
  then show ?case by simp
next
  case (Suc d)
  let ?m = "ram s" let ?R = "rest_pages d ?m p 0"
  have sub: "sub_pages (Suc d) ?m p = insert p ?R" by (simp add: rest_pages_def)
  have lo: "loop_ok d ?m p 0" using Suc.prems(1) by (auto simp: loop_ok_def)
  have pR: "p \<notin> ?R" using Suc.prems(1) by (auto simp: rest_pages_def)
  have own: "owned s ?R" "?R \<inter> set fl = {}" "p \<notin> set fl" "usable (kend s) p" "refcnt s (pidx p) = 1"
    using Suc.prems(3,4) unfolding sub owned_def by auto
  obtain fl1 t where
    t: "freewalk_loop (freewalk d) p 0 512 s = Inr ((), t)" "released ?R {p} fl s fl1 t"
    using freewalk_loop_ok [OF Suc.IH lo _ Suc.prems(2) own(3,1,2) pR] add_0 by blast
  have "owned t {p}"
    using owned_released [OF _ t(2), of "{p}"] own pR by (auto simp: owned_def)
  then obtain s' where
    s': "kfree p t = Inr ((), s')" "released {p} {} fl1 t (p # fl1) s'"
    using kfree_released [of fl1 t p] t(2) by (auto simp: owned_def released_def)
  have "released (?R \<union> {p}) {p} fl s (p # fl1) s'"
    by (rule released_trans [OF t(2) released_weaken [OF s'(2)]]) simp
  then have "released (insert p ?R) {} fl s (p # fl1) s'" by (simp add: released_def)
  then show ?case using t(1) s'(1) sub by (auto simp: kmonad)
qed

section \<open>Indices and addresses\<close>

definition mkva :: "nat \<Rightarrow> nat \<Rightarrow> nat \<Rightarrow> uint64" where
  "mkva i j k = push_bit 30 (of_nat i) OR push_bit 21 (of_nat j) OR push_bit 12 (of_nat k)"

lemma small_index_bits: "i < 512 \<Longrightarrow> bit (of_nat i :: uint64) n \<Longrightarrow> n < 9"
proof (rule ccontr)
  assume i: "i < 512" and b: "bit (of_nat i :: uint64) n" and n: "\<not> n < 9"
  then have "bit i n" by (simp add: bit_of_nat_iff)
  moreover have "i div 2 ^ n = 0"
  proof -
    have "(2 :: nat) ^ 9 \<le> 2 ^ n" using n by (intro power_increasing) auto
    then show ?thesis using i by simp
  qed
  ultimately show False by (simp add: bit_iff_odd)
qed

lemma PX_mkva:
  assumes "i < 512" "j < 512" "k < 512"
  shows "PX 2 (mkva i j k) = of_nat i" "PX 1 (mkva i j k) = of_nat j" "PX 0 (mkva i j k) = of_nat k"
proof -
  note s = small_index_bits [OF assms(1)] small_index_bits [OF assms(2)] small_index_bits [OF assms(3)]
  show "PX 2 (mkva i j k) = of_nat i"
    by (rule bit_word_eqI) (auto simp: bit_PX mkva_def bit_or_iff bit_push_bit_iff dest: s)
  show "PX 1 (mkva i j k) = of_nat j"
    by (rule bit_word_eqI) (auto simp: bit_PX mkva_def bit_or_iff bit_push_bit_iff dest: s)
  show "PX 0 (mkva i j k) = of_nat k"
    by (rule bit_word_eqI) (auto simp: bit_PX mkva_def bit_or_iff bit_push_bit_iff dest: s)
qed

lemma bits_lt_MAXVA:
  assumes "\<And>n. 38 \<le> n \<Longrightarrow> \<not> bit (va :: uint64) n"
  shows "va < MAXVA"
proof -
  have "drop_bit 38 va = 0"
    by (rule bit_word_eqI) (simp add: bit_drop_bit_eq assms)
  then have "unat va div 2 ^ 38 = 0"
    using unat_drop_bit_eq [of 38 va] by (simp add: drop_bit_eq_div)
  then show ?thesis by (simp add: word_less_nat_alt div_eq_0_iff)
qed

lemma mkva_vpages:
  assumes "i < 256" "j < 512" "k < 512"
  shows "mkva i j k \<in> vpages"
proof -
  have i: "n < 8" if "bit (of_nat i :: uint64) n" for n
  proof -
    have "n < 9" using that assms(1) by (intro small_index_bits) auto
    moreover have "n \<noteq> 8"
    proof
      assume "n = 8"
      with that have "bit i 8" by (simp add: bit_of_nat_iff)
      then show False using assms(1) by (simp add: bit_iff_odd)
    qed
    ultimately show ?thesis by simp
  qed
  note s = i small_index_bits [OF assms(2)] small_index_bits [OF assms(3)]
  have "mkva i j k < MAXVA"
    by (rule bits_lt_MAXVA) (auto simp: mkva_def bit_or_iff bit_push_bit_iff dest!: s)
  moreover have "aligned (mkva i j k)"
    by (auto simp: aligned_bits mkva_def bit_or_iff bit_push_bit_iff)
  ultimately show ?thesis by (simp add: vpages_def)
qed

lemma slot_mkva:
  assumes "i < 512" "j < 512" "k < 512"
  shows "slot p 2 (mkva i j k) = p + 8 * of_nat i" "slot p 1 (mkva i j k) = p + 8 * of_nat j"
    "slot p 0 (mkva i j k) = p + 8 * of_nat k"
  by (simp_all only: slot_def PX_mkva [OF assms])

lemma node_mkva:
  assumes "i < 512" "j < 512" "k < 512" "used m r i"
  shows "node m r 1 (mkva i j k) = Some (child m r i)"
    "used m (child m r i) j \<Longrightarrow> node m r 2 (mkva i j k) = Some (child m (child m r i) j)"
  using assms(4) slot_mkva [OF assms(1-3)] by (simp_all add: numeral_2_eq_2)

lemma node1_index:
  assumes "node m r 1 va = Some p"
  shows "\<exists>i<512. used m r i \<and> p = child m r i \<and> PX 2 va = of_nat i"
proof -
  have "of_nat (unat (PX 2 va)) = PX 2 va" "unat (PX 2 va) < 512"
    using PX_lt [of 2 va] by (simp_all add: word_less_nat_alt)
  with assms show ?thesis
    by (intro exI [of _ "unat (PX 2 va)"]) (auto simp: slot_def split: if_splits)
qed

lemma node2_index:
  assumes "node m r 2 va = Some q"
  shows "\<exists>i<512. \<exists>j<512. used m r i \<and> used m (child m r i) j \<and> q = child m (child m r i) j"
proof -
  from assms obtain p where p: "node m r 1 va = Some p" "ld64 m (slot p 1 va) AND PTE_V \<noteq> 0"
    "q = PTE2PA (ld64 m (slot p 1 va))"
    by (auto simp: numeral_2_eq_2 split: option.splits if_splits)
  have "of_nat (unat (PX 1 va)) = PX 1 va" "unat (PX 1 va) < 512"
    using PX_lt [of 1 va] by (simp_all add: word_less_nat_alt)
  moreover from node1_index [OF p(1)] obtain i where "i < 512" "used m r i" "p = child m r i" by blast
  ultimately show ?thesis
    using p by (intro exI [of _ i] conjI exI [of _ "unat (PX 1 va)"]) (simp_all add: slot_def)
qed

section \<open>Tables without leaves\<close>

text \<open>A table is described by its used root indices and their used middle indices.\<close>

lemma nodes_index:
  "nodes m r = insert r ((\<Union>i\<in>{i. i < 512 \<and> used m r i}. insert (child m r i)
     (\<Union>j\<in>{j. j < 512 \<and> used m (child m r i) j}. {child m (child m r i) j})))" (is "_ = insert r ?C")
proof (intro set_eqI iffI)
  fix x assume "x \<in> nodes m r"
  then obtain k va where k: "k \<le> 2" "node m r k va = Some x" by (auto simp: nodes_def)
  then consider "k = 0" | "k = 1" | "k = 2" by linarith
  then show "x \<in> insert r ?C"
  proof cases
    case 2
    with k node1_index [of m r va x] show ?thesis by auto
  next
    case 3
    with k node2_index [of m r va x] show ?thesis by auto
  qed (use k in simp)
next
  fix x assume "x \<in> insert r ?C"
  then consider "x = r" | i where "i < 512" "used m r i" "x = child m r i"
    | i j where "i < 512" "used m r i" "j < 512" "used m (child m r i) j" "x = child m (child m r i) j"
    by auto
  then show "x \<in> nodes m r"
  proof cases
    case (2 i)
    with node_in_nodes [OF node_mkva(1) [of i 0 0 m r]] show ?thesis by simp
  next
    case (3 i j)
    with node_in_nodes [OF node_mkva(2) [of i j 0 m r]] show ?thesis by simp
  qed simp
qed

text \<open>All leaf entries are invalid.\<close>

definition no_leaves :: "ram \<Rightarrow> addr \<Rightarrow> bool" where
  "no_leaves m r \<longleftrightarrow> (\<forall>va\<in>vpages. entry m r va AND PTE_V = 0)"

lemma no_leaves_unused:
  assumes ok: "pt_ok m r" "no_leaves m r"
    and ij: "i < 512" "j < 512" "k < 512" "used m r i" "used m (child m r i) j"
  shows "\<not> used m (child m (child m r i) j) k"
proof -
  let ?va = "mkva i j k"
  have "PX 2 ?va < 256"
    using ok(1) node_mkva(1) [OF ij(1-4)] unfolding pt_ok_def dirs_ok_def by auto
  then have "i < 256"
    using PX_mkva(1) [OF ij(1-3)] ij(1) by (simp add: word_less_nat_alt unat_of_nat)
  then have "?va \<in> vpages" using ij by (intro mkva_vpages) auto
  then have "entry m r ?va AND PTE_V = 0" using ok(2) by (simp add: no_leaves_def)
  then show ?thesis
    using node_mkva(2) [OF ij(1-5)] slot_mkva(3) [OF ij(1-3)] by (simp add: entry_def)
qed

lemma dir_flags:
  assumes "PTE_FLAGS e = PTE_V"
  shows "e AND (PTE_R OR PTE_W OR PTE_X) = 0"
  using PTE_FLAGS_test [of "14" e] assms by simp

lemma child_inj:
  assumes ok: "pt_ok m r"
  shows "i < 512 \<Longrightarrow> used m r i \<Longrightarrow> child m r i \<noteq> r"
    and "i < 512 \<Longrightarrow> used m r i \<Longrightarrow> i' < 512 \<Longrightarrow> used m r i' \<Longrightarrow> child m r i = child m r i' \<Longrightarrow> i = i'"
proof -
  have eq: "of_nat i = (of_nat i' :: uint64) \<Longrightarrow> i = i'" if "i < 512" "i' < 512" for i i' :: nat
    using that by (simp add: word_unat_eq_iff unat_of_nat)
  show "child m r i \<noteq> r" if "i < 512" "used m r i"
    using pt_ok_inj [OF ok node_mkva(1) [of i 0 0 m r], of 0 0] that by auto
  show "i = i'" if "i < 512" "used m r i" "i' < 512" "used m r i'" "child m r i = child m r i'"
  proof -
    have "same_idx 1 (mkva i 0 0) (mkva i' 0 0)"
      using pt_ok_inj [OF ok node_mkva(1) [of i 0 0 m r] node_mkva(1) [of i' 0 0 m r, folded that(5)]] that
      by simp
    then show ?thesis using that eq PX_mkva(1) [of i 0 0] PX_mkva(1) [of i' 0 0]
      by (simp add: same_idx_def)
  qed
qed

lemma grandchild_inj:
  assumes ok: "pt_ok m r" and i: "i < 512" "used m r i" and j: "j < 512" "used m (child m r i) j"
  shows "child m (child m r i) j \<noteq> r"
    and "i' < 512 \<Longrightarrow> used m r i' \<Longrightarrow> child m (child m r i) j \<noteq> child m r i'"
    and "i' < 512 \<Longrightarrow> used m r i' \<Longrightarrow> j' < 512 \<Longrightarrow> used m (child m r i') j' \<Longrightarrow>
      child m (child m r i) j = child m (child m r i') j' \<Longrightarrow> i = i' \<and> j = j'"
proof -
  have eq: "of_nat i = (of_nat i' :: uint64) \<Longrightarrow> i = i'" if "i < 512" "i' < 512" for i i' :: nat
    using that by (simp add: word_unat_eq_iff unat_of_nat)
  note n2 = node_mkva(2) [OF i(1) j(1) _ i(2) j(2), of 0]
  show "child m (child m r i) j \<noteq> r"
    using pt_ok_inj [OF ok n2, of 0 0] by auto
  show "child m (child m r i) j \<noteq> child m r i'" if "i' < 512" "used m r i'"
    using pt_ok_inj [OF ok n2, of 1] node_mkva(1) [of i' 0 0 m r] that by auto
  show "i = i' \<and> j = j'" if "i' < 512" "used m r i'" "j' < 512" "used m (child m r i') j'"
    "child m (child m r i) j = child m (child m r i') j'"
  proof -
    have "same_idx 2 (mkva i j 0) (mkva i' j' 0)"
      using pt_ok_inj [OF ok n2 node_mkva(2) [of i' j' 0 m r, folded that(5)]] that by simp
    then have "PX 2 (mkva i j 0) = PX 2 (mkva i' j' 0)" "PX 1 (mkva i j 0) = PX 1 (mkva i' j' 0)"
      by (auto simp: same_idx_def dest: spec [of _ 0] spec [of _ 1])
    then show ?thesis
      using that i j eq PX_mkva(1,2) [of i j 0] PX_mkva(1,2) [of i' j' 0] by simp
  qed
qed

lemma dir_used:
  assumes d: "dirs_ok m r" and i: "i < 512" "used m r i"
  shows "pte_at m r i AND (PTE_R OR PTE_W OR PTE_X) = 0"
    and "j < 512 \<Longrightarrow> used m (child m r i) j \<Longrightarrow>
      pte_at m (child m r i) j AND (PTE_R OR PTE_W OR PTE_X) = 0"
proof -
  have "slot r 2 (mkva i 0 0) = r + 8 * of_nat i" using i by (intro slot_mkva) auto
  with d i have "PTE_FLAGS (pte_at m r i) = PTE_V"
    unfolding dirs_ok_def by (metis diff_zero node.simps(1) zero_less_numeral)
  then show "pte_at m r i AND (PTE_R OR PTE_W OR PTE_X) = 0" by (rule dir_flags)
  assume j: "j < 512" "used m (child m r i) j"
  have "slot (child m r i) (2 - 1) (mkva i j 0) = child m r i + 8 * of_nat j"
    using i j slot_mkva(2) [of i j 0 "child m r i"] by simp
  moreover have "node m r 1 (mkva i j 0) = Some (child m r i)" using i j by (intro node_mkva) auto
  ultimately have "PTE_FLAGS (pte_at m (child m r i) j) = PTE_V"
    using d j unfolding dirs_ok_def by (metis one_less_numeral_iff semiring_norm(76))
  then show "pte_at m (child m r i) j AND (PTE_R OR PTE_W OR PTE_X) = 0" by (rule dir_flags)
qed

lemma leafless_middle:
  assumes ok: "pt_ok m r" "no_leaves m r" and i: "i < 512" "used m r i"
  shows "sub_pages 2 m (child m r i) = insert (child m r i)
      (\<Union>j\<in>{j. j < 512 \<and> used m (child m r i) j}. {child m (child m r i) j})"
    and "leafless 2 m (child m r i)"
proof -
  let ?c = "child m r i"
  have l1: "sub_pages 1 m (child m ?c j) = {child m ?c j}" "leafless 1 m (child m ?c j)"
    if "j < 512" "used m ?c j" for j
    using no_leaves_unused [OF ok i(1) that(1) _ i(2) that(2)] by auto
  then show "sub_pages 2 m ?c = insert ?c (\<Union>j\<in>{j. j < 512 \<and> used m ?c j}. {child m ?c j})"
    by (auto simp: numeral_2_eq_2)
  have "dirs_ok m r" using ok(1) by (simp add: pt_ok_def)
  note f = dir_used(2) [OF this i]
  have "leafless (Suc 1) m ?c"
    unfolding leafless.simps
  proof (intro conjI allI impI)
    fix j assume j: "j < 512" "used m ?c j"
    show "pte_at m ?c j AND (PTE_R OR PTE_W OR PTE_X) = 0" using j by (rule f)
    show "leafless 1 m (child m ?c j)" using j by (rule l1)
    show "?c \<notin> sub_pages 1 m (child m ?c j)"
      using grandchild_inj(2) [OF ok(1) i j i] l1(1) [OF j] by (metis singletonD)
    fix j' assume j': "j' < 512" "used m ?c j'" "j' \<noteq> j"
    show "sub_pages 1 m (child m ?c j) \<inter> sub_pages 1 m (child m ?c j') = {}"
      using grandchild_inj(3) [OF ok(1) i j i j'(1,2)] j'(3) l1(1) [OF j] l1(1) [OF j'(1,2)]
      by (metis disjoint_insert(1) inf_bot_right singletonD)
  qed simp
  then show "leafless 2 m ?c" by (simp only: numeral_2_eq_2 One_nat_def)
qed

lemma leafless_table:
  assumes ok: "pt_ok m r" "no_leaves m r"
  shows "leafless 3 m r" "sub_pages 3 m r = nodes m r"
proof -
  have d: "dirs_ok m r" and al: "aligned r" using ok(1) by (auto simp: pt_ok_def)
  note mid = leafless_middle [OF ok]
  have "sub_pages (Suc 2) m r = insert r (\<Union>i\<in>{i. i < 512 \<and> used m r i}. sub_pages 2 m (child m r i))"
    by (rule sub_pages.simps)
  then show "sub_pages 3 m r = nodes m r"
    unfolding nodes_index using mid(1) by (simp add: numeral_3_eq_3 numeral_2_eq_2 del: sub_pages.simps)
  have "leafless (Suc 2) m r"
    unfolding leafless.simps
  proof (intro conjI allI impI)
    fix i assume i: "i < 512" "used m r i"
    show "pte_at m r i AND (PTE_R OR PTE_W OR PTE_X) = 0" using dir_used(1) [OF d i] .
    show "leafless 2 m (child m r i)" using i by (rule mid)
    show "r \<notin> sub_pages 2 m (child m r i)"
    proof
      assume "r \<in> sub_pages 2 m (child m r i)"
      then consider "child m r i = r"
        | j where "j < 512" "used m (child m r i) j" "child m (child m r i) j = r"
        unfolding mid(1) [OF i] by auto
      then show False using child_inj(1) [OF ok(1) i] grandchild_inj(1) [OF ok(1) i] by cases auto
    qed
    fix i' assume i': "i' < 512" "used m r i'" "i' \<noteq> i"
    show "sub_pages 2 m (child m r i) \<inter> sub_pages 2 m (child m r i') = {}"
    proof (rule equals0I, elim IntE)
      fix x assume x: "x \<in> sub_pages 2 m (child m r i)" "x \<in> sub_pages 2 m (child m r i')"
      have "x = child m r i \<or> (\<exists>j<512. used m (child m r i) j \<and> x = child m (child m r i) j)"
        using x(1) unfolding mid(1) [OF i] by auto
      moreover have "x = child m r i' \<or> (\<exists>j<512. used m (child m r i') j \<and> x = child m (child m r i') j)"
        using x(2) unfolding mid(1) [OF i'(1,2)] by auto
      ultimately show False
        using child_inj(2) [OF ok(1) i i'(1,2)] grandchild_inj(2) [OF ok(1) i _ _ i'(1,2)]
          grandchild_inj(2) [OF ok(1) i'(1,2) _ _ i] grandchild_inj(3) [OF ok(1) i _ _ i'(1,2)] i'(3)
        by metis
    qed
  qed (rule al)
  then show "leafless 3 m r" by (simp only: numeral_3_eq_3 numeral_2_eq_2)
qed

lemma freewalk_table:
  assumes "pt_ok (ram s) r" "no_leaves (ram s) r" "kready fl s" "owned s (nodes (ram s) r)"
    and "nodes (ram s) r \<inter> set fl = {}"
  shows "\<exists>fl' s'. freewalk 3 r s = Inr ((), s') \<and> released (nodes (ram s) r) {} fl s fl' s'"
  using freewalk_ok [OF leafless_table(1) [OF assms(1,2)] assms(3)] assms leafless_table(2) by metis

end
