(* ===== verification/Vm.thy ===== *)
theory Vm
  imports Freewalk
begin

text \<open>
  The address-space half of \<^verbatim>\<open>kernel/vm.c\<close>: growing and shrinking user memory, copy-on-write
  \<open>uvmcopy\<close> and \<open>cowalloc\<close>, and the copies between kernel and user memory.
\<close>

section \<open>Operations\<close>

text \<open>A value that passes through a variable of C type \<^verbatim>\<open>int\<close> on its way to a \<^verbatim>\<open>uint64\<close>.\<close>

definition c_int :: "uint64 \<Rightarrow> uint64" where
  "c_int x = scast (ucast x :: 32 word)"

definition uvmdealloc :: "addr \<Rightarrow> uint64 \<Rightarrow> uint64 \<Rightarrow> ('a pmem_scheme, uint64) km" where
  "uvmdealloc pagetable oldsz newsz =
     (if newsz \<ge> oldsz then kret oldsz
      else kseq (if PGROUNDUP newsz < PGROUNDUP oldsz
                 then uvmunmap pagetable (PGROUNDUP newsz)
                        (c_int ((PGROUNDUP oldsz - PGROUNDUP newsz) div PGSIZE)) True
                 else kret ())
                (kret newsz))"

definition uvminit :: "addr \<Rightarrow> addr \<Rightarrow> uint32 \<Rightarrow> ('a pmem_scheme, unit) km" where
  "uvminit pagetable src sz =
     (if sz \<ge> 4096 then kpanic ''inituvm: more than a page''
      else kbind kalloc (\<lambda>mem.
           kseq (upd_ram (\<lambda>m. memset m mem 0 4096))
          (kseq (mappages pagetable 0 PGSIZE mem (PTE_W OR PTE_R OR PTE_X OR PTE_U))
                (upd_ram (\<lambda>m. memmove m mem src sz)))))"

text \<open>One turn of the loop of \<^verbatim>\<open>uvmalloc\<close>: \<open>False\<close> when memory ran out and the pages allocated by
  earlier turns were given back.\<close>

definition uvmalloc_body :: "addr \<Rightarrow> uint64 \<Rightarrow> uint64 \<Rightarrow> ('a pmem_scheme, bool) km" where
  "uvmalloc_body pagetable a oldsz =
     kbind kalloc (\<lambda>mem.
     if mem = 0 then kseq (uvmdealloc pagetable a oldsz) (kret False)
     else kseq (upd_ram (\<lambda>m. memset m mem 0 4096))
         (kbind (mappages pagetable a PGSIZE mem (PTE_W OR PTE_X OR PTE_R OR PTE_U)) (\<lambda>r.
          if r \<noteq> 0 then kseq (kfree mem) (kseq (uvmdealloc pagetable a oldsz) (kret False))
          else kret True)))"

lemma mappages_bound: "mappages pt va sz pa perm s = Inr r \<Longrightarrow> PGROUNDDOWN va < MAXVA"
  by (auto simp: mappages_def mappages_loop.simps [of pt "PGROUNDDOWN va"]
      split: if_splits sum.splits dest!: mappages_body_bound)

lemma uvmalloc_body_bound: "uvmalloc_body pt a old s = Inr (True, s') \<Longrightarrow> PGROUNDDOWN a < MAXVA"
  by (auto simp: uvmalloc_body_def kbind_eq_Inr kseq_eq_Inr split: if_splits dest!: mappages_bound)

lemma next_page_measure': "PGROUNDDOWN a < MAXVA \<Longrightarrow> 2 ^ 39 - unat (a + PGSIZE) < 2 ^ 39 - unat (a :: uint64)"
proof -
  assume "PGROUNDDOWN a < MAXVA"
  then have "unat a - unat a mod 4096 < 2 ^ 38"
    by (simp add: word_less_nat_alt unat_PGROUNDDOWN)
  moreover have "unat a mod 4096 < 4096" by simp
  ultimately have "unat a < 2 ^ 38 + 4096" by linarith
  then show ?thesis by (simp add: unat_word_ariths)
qed

function uvmalloc_loop :: "addr \<Rightarrow> uint64 \<Rightarrow> uint64 \<Rightarrow> uint64 \<Rightarrow> ('a pmem_scheme, uint64) km" where
  "uvmalloc_loop pagetable a oldsz newsz s =
     (if a < newsz
      then (case uvmalloc_body pagetable a oldsz s of
              Inl e \<Rightarrow> Inl e
            | Inr (ok, s') \<Rightarrow>
                if ok then uvmalloc_loop pagetable (a + PGSIZE) oldsz newsz s' else Inr (0, s'))
      else Inr (newsz, s))"
  by pat_completeness auto
termination
  by (relation "measure (\<lambda>(pt, a, old, new, s). 2 ^ 39 - unat a)")
    (auto dest!: uvmalloc_body_bound next_page_measure')

definition uvmalloc :: "addr \<Rightarrow> uint64 \<Rightarrow> uint64 \<Rightarrow> ('a pmem_scheme, uint64) km" where
  "uvmalloc pagetable oldsz newsz =
     (if newsz < oldsz then kret oldsz
      else uvmalloc_loop pagetable (PGROUNDUP oldsz) (PGROUNDUP oldsz) newsz)"

text \<open>\<open>freewalk\<close> gets the depth of a three-level table.\<close>

definition uvmfree :: "addr \<Rightarrow> uint64 \<Rightarrow> ('a pmem_scheme, unit) km" where
  "uvmfree pagetable sz =
     kseq (kwhen (sz > 0) (uvmunmap pagetable 0 (PGROUNDUP sz div PGSIZE) True))
          (freewalk 3 pagetable)"

text \<open>One turn of the loop of \<^verbatim>\<open>uvmcopy\<close>: \<open>False\<close> for the jump to \<^verbatim>\<open>err\<close>.\<close>

definition uvmcopy_body :: "addr \<Rightarrow> addr \<Rightarrow> uint64 \<Rightarrow> ('a pmem_scheme, bool) km" where
  "uvmcopy_body old new i =
     kbind (walk old i False) (\<lambda>pte.
     if pte = 0 then kpanic ''uvmcopy: pte should exist''
     else kbind (peek64 pte) (\<lambda>e.
     if e AND PTE_V = 0 then kpanic ''uvmcopy: page not present''
     else (let pa = PTE2PA e;
               writable = PTE_FLAGS e AND (PTE_W OR PTE_U) = PTE_W OR PTE_U;
               flags = (if writable then (PTE_FLAGS e AND NOT PTE_W) OR PTE_COW else PTE_FLAGS e)
           in kseq (kwhen writable (poke64 pte (PA2PTE pa OR flags)))
             (kbind (mappages new i PGSIZE pa flags) (\<lambda>r.
              if r \<noteq> 0 then kret False
              else kseq (krefinc pa) (kret True))))))"

lemma uvmcopy_body_bound: "uvmcopy_body old new i s = Inr r \<Longrightarrow> i < MAXVA"
  by (auto simp: uvmcopy_body_def kbind_def split: sum.splits prod.splits dest!: walk_bound)

function uvmcopy_loop :: "addr \<Rightarrow> addr \<Rightarrow> uint64 \<Rightarrow> uint64 \<Rightarrow> ('a pmem_scheme, int) km" where
  "uvmcopy_loop old new sz i s =
     (if i < sz
      then (case uvmcopy_body old new i s of
              Inl e \<Rightarrow> Inl e
            | Inr (ok, s') \<Rightarrow>
                if ok then uvmcopy_loop old new sz (i + PGSIZE) s'
                else kseq (uvmunmap new 0 (i div PGSIZE) True) (kret (- 1)) s')
      else Inr (0, s))"
  by pat_completeness auto
termination
  by (relation "measure (\<lambda>(old, new, sz, i, s). 2 ^ 39 - unat i)")
    (auto dest!: uvmcopy_body_bound next_page_measure)

definition uvmcopy :: "addr \<Rightarrow> addr \<Rightarrow> uint64 \<Rightarrow> ('a pmem_scheme, int) km" where
  "uvmcopy old new sz = uvmcopy_loop old new sz 0"

definition cowalloc :: "addr \<Rightarrow> uint64 \<Rightarrow> ('a pmem_scheme, int) km" where
  "cowalloc pagetable va0 =
     (if va0 \<ge> MAXVA then kret (- 1)
      else (let va = PGROUNDDOWN va0; need = PTE_V OR PTE_U OR PTE_COW in
     kbind (walk pagetable va False) (\<lambda>pte.
     if pte = 0 then kret (- 1)
     else kbind (peek64 pte) (\<lambda>e.
     if e AND need \<noteq> need then kret (- 1)
     else (let pa = PTE2PA e; flags = (PTE_FLAGS e OR PTE_W) AND NOT PTE_COW in
     kbind (krefcount pa) (\<lambda>count.
     if count = 1 then kseq (poke64 pte (PA2PTE pa OR flags)) (kret 0)
     else kbind kalloc (\<lambda>mem.
     if mem = 0 then kret (- 1)
     else kseq (upd_ram (\<lambda>m. memmove m mem pa 4096))
         (kseq (poke64 pte (PA2PTE mem OR flags))
         (kseq (kfree pa)
               (kret 0))))))))))"

text \<open>The number of bytes of a copy that lie in the page of \<open>va\<close>.\<close>

definition chunk :: "uint64 \<Rightarrow> uint64 \<Rightarrow> uint64" where
  "chunk va len = (let n = PGSIZE - (va - PGROUNDDOWN va) in if n > len then len else n)"

lemma chunk_measure: "len \<noteq> 0 \<Longrightarrow> unat (len - chunk va len) < unat len"
proof -
  assume len: "len \<noteq> 0"
  have "va - PGROUNDDOWN va < PGSIZE" by simp
  then have "unat (PGSIZE - (va - PGROUNDDOWN va)) = 4096 - unat (va - PGROUNDDOWN va)"
    by (subst unat_sub) (simp_all add: word_le_nat_alt word_less_nat_alt)
  moreover have "unat (va - PGROUNDDOWN va) < 4096"
    using \<open>va - PGROUNDDOWN va < PGSIZE\<close> by (simp add: word_less_nat_alt)
  ultimately have "chunk va len \<noteq> 0" "chunk va len \<le> len"
    using len by (auto simp: chunk_def Let_def word_unat_eq_iff)
  then show ?thesis by (simp add: unat_sub word_le_nat_alt word_unat_eq_iff)
qed

text \<open>One turn of the loop of \<^verbatim>\<open>copyout\<close>: \<open>False\<close> for the return of \<open>-1\<close>.\<close>

definition copyout_body :: "addr \<Rightarrow> uint64 \<Rightarrow> addr \<Rightarrow> uint64 \<Rightarrow> ('a pmem_scheme, bool) km" where
  "copyout_body pagetable dstva src len =
     (let va0 = PGROUNDDOWN dstva in
      if va0 \<ge> MAXVA then kret False
      else kbind (walk pagetable va0 False) (\<lambda>pte.
      kbind (if pte = 0 then kret False
             else kbind (peek64 pte) (\<lambda>e.
                  if e AND PTE_COW = 0 then kret False
                  else kbind (cowalloc pagetable va0) (\<lambda>r. kret (r < 0)))) (\<lambda>failed.
      if failed then kret False
      else kbind (walkaddr pagetable va0) (\<lambda>pa0.
      if pa0 = 0 then kret False
      else kseq (upd_ram (\<lambda>m. memmove m (pa0 + (dstva - va0)) src (ucast (chunk dstva len))))
                (kret True)))))"

function copyout :: "addr \<Rightarrow> uint64 \<Rightarrow> addr \<Rightarrow> uint64 \<Rightarrow> ('a pmem_scheme, int) km" where
  "copyout pagetable dstva src len s =
     (if len = 0 then Inr (0, s)
      else (case copyout_body pagetable dstva src len s of
              Inl e \<Rightarrow> Inl e
            | Inr (ok, s') \<Rightarrow>
                if ok then copyout pagetable (PGROUNDDOWN dstva + PGSIZE) (src + chunk dstva len)
                             (len - chunk dstva len) s'
                else Inr (- 1, s')))"
  by pat_completeness auto
termination
  by (relation "measure (\<lambda>(pt, d, src, len, s). unat len)") (auto intro: chunk_measure)

definition copyin_body :: "addr \<Rightarrow> addr \<Rightarrow> uint64 \<Rightarrow> uint64 \<Rightarrow> ('a pmem_scheme, bool) km" where
  "copyin_body pagetable dst srcva len =
     (let va0 = PGROUNDDOWN srcva in
      kbind (walkaddr pagetable va0) (\<lambda>pa0.
      if pa0 = 0 then kret False
      else kseq (upd_ram (\<lambda>m. memmove m dst (pa0 + (srcva - va0)) (ucast (chunk srcva len))))
                (kret True)))"

function copyin :: "addr \<Rightarrow> addr \<Rightarrow> uint64 \<Rightarrow> uint64 \<Rightarrow> ('a pmem_scheme, int) km" where
  "copyin pagetable dst srcva len s =
     (if len = 0 then Inr (0, s)
      else (case copyin_body pagetable dst srcva len s of
              Inl e \<Rightarrow> Inl e
            | Inr (ok, s') \<Rightarrow>
                if ok then copyin pagetable (dst + chunk srcva len) (PGROUNDDOWN srcva + PGSIZE)
                             (len - chunk srcva len) s'
                else Inr (- 1, s')))"
  by pat_completeness auto
termination
  by (relation "measure (\<lambda>(pt, d, src, len, s). unat len)") (auto intro: chunk_measure)

text \<open>The inner loop of \<^verbatim>\<open>copyinstr\<close> over \<open>n\<close> bytes of one page: the memory and \<^verbatim>\<open>got_null\<close>.\<close>

primrec copyinstr_page :: "ram \<Rightarrow> addr \<Rightarrow> addr \<Rightarrow> nat \<Rightarrow> ram \<times> bool" where
  "copyinstr_page m dst p 0 = (m, False)"
| "copyinstr_page m dst p (Suc n) =
     (if m p = 0 then (m(dst := 0), True)
      else copyinstr_page (m(dst := m p)) (dst + 1) (p + 1) n)"

function copyinstr :: "addr \<Rightarrow> addr \<Rightarrow> uint64 \<Rightarrow> uint64 \<Rightarrow> ('a pmem_scheme, int) km" where
  "copyinstr pagetable dst srcva max' s =
     (if max' = 0 then Inr (- 1, s)
      else (case walkaddr pagetable (PGROUNDDOWN srcva) s of
              Inl e \<Rightarrow> Inl e
            | Inr (pa0, s') \<Rightarrow>
                if pa0 = 0 then Inr (- 1, s')
                else (let n = chunk srcva max';
                          (m, got_null) = copyinstr_page (ram s') dst
                             (pa0 + (srcva - PGROUNDDOWN srcva)) (unat n)
                      in if got_null then Inr (0, s'\<lparr>ram := m\<rparr>)
                         else copyinstr pagetable (dst + n) (PGROUNDDOWN srcva + PGSIZE) (max' - n)
                                (s'\<lparr>ram := m\<rparr>))))"
  by pat_completeness auto
termination
  by (relation "measure (\<lambda>(pt, d, src, len, s). unat len)") (auto intro: chunk_measure)

end
