(* ===== verification/Uspace.thy ===== *)
theory Uspace
  imports Vm
begin

text \<open>
  User address spaces.  \<open>uview s r\<close> is the memory a process with page table \<open>r\<close> sees: a partial
  function from virtual addresses to bytes.  \<open>vinv R ext fl s\<close> is the invariant of the virtual
  memory system for the page tables \<open>R\<close>: the tables are disjoint trees, every reference count is
  the number of mappings of the page plus \<open>ext\<close> (references held by the kernel), and a page that
  a user may write is mapped once.  The lemmas describe every operation by its effect on views.
\<close>

section \<open>Counting mappings\<close>

definition maps :: "uint64 \<Rightarrow> addr \<Rightarrow> bool" where
  "maps e p \<longleftrightarrow> e AND PTE_V \<noteq> 0 \<and> PTE2PA e = p"

text \<open>The pages below the trap frame, whose mappings own a reference to the mapped page.  The trap
  frame and the trampoline are mapped above them, without a reference of their own.\<close>

definition upages :: "uint64 set" where
  "upages = {v \<in> vpages. v < TRAPFRAME}"

definition mapset :: "(addr \<Rightarrow> uint64 \<Rightarrow> uint64) \<Rightarrow> addr set \<Rightarrow> addr \<Rightarrow> (addr \<times> uint64) set" where
  "mapset E R p = {(r, v). r \<in> R \<and> v \<in> upages \<and> maps (E r v) p}"

lemma finite_mapset [simp]: "finite (mapset E R p)"
  by (rule finite_subset [OF subset_UNIV]) simp

lemma maps_zero [simp]: "\<not> maps 0 p"
  by (simp add: maps_def)

lemma mapset_cong:
  "(\<And>r v. r \<in> R \<Longrightarrow> v \<in> vpages \<Longrightarrow> E r v = E' r v) \<Longrightarrow> mapset E R p = mapset E' R p"
  by (auto simp: mapset_def upages_def)

lemma card_mapset_upd:
  assumes "r \<in> R" "v \<in> vpages" and "\<And>r' v'. r' \<in> R \<Longrightarrow> v' \<in> vpages \<Longrightarrow>
      E' r' v' = (if r' = r \<and> v' = v then e' else E r' v')"
  shows "int (card (mapset E' R p)) = int (card (mapset E R p))
    - of_bool (v \<in> upages \<and> maps (E r v) p) + of_bool (v \<in> upages \<and> maps e' p)"
proof -
  let ?A = "{(r', v'). r' \<in> R \<and> v' \<in> upages \<and> (r' = r \<longrightarrow> v' \<noteq> v) \<and> maps (E r' v') p}"
  have fin: "finite ?A" by (rule finite_subset [OF subset_UNIV]) simp
  have "mapset E R p = (if v \<in> upages \<and> maps (E r v) p then insert (r, v) ?A else ?A)"
    using assms(1,2) by (auto simp: mapset_def)
  moreover have "mapset E' R p = (if v \<in> upages \<and> maps e' p then insert (r, v) ?A else ?A)"
    using assms by (auto simp: mapset_def upages_def split: if_splits)
  moreover have "(r, v) \<notin> ?A" by simp
  ultimately show ?thesis using fin by simp
qed

section \<open>The invariant\<close>

text \<open>A valid entry is a leaf; below the trap frame it maps an allocator page; a user entry lies
  there and is either writable and the only reference to its page, or copy-on-write.\<close>

definition leaf_ok :: "'a pmem_scheme \<Rightarrow> uint64 \<Rightarrow> uint64 \<Rightarrow> bool" where
  "leaf_ok s v e \<longleftrightarrow> (e AND PTE_V \<noteq> 0 \<longrightarrow> PTE_FLAGS e \<noteq> PTE_V \<and>
     (v \<in> upages \<longrightarrow> usable (kend s) (PTE2PA e)) \<and>
     (e AND PTE_U \<noteq> 0 \<longrightarrow> v \<in> upages \<and>
       (if e AND PTE_W = 0 then e AND PTE_COW \<noteq> 0 else refcnt s (pidx (PTE2PA e)) = 1)))"

lemma leaf_ok_ram [simp]: "leaf_ok (s\<lparr>ram := m\<rparr>) v e = leaf_ok s v e"
  by (simp add: leaf_ok_def)

lemma owned_ram [simp]: "owned (s\<lparr>ram := m\<rparr>) P = owned s P"
  by (simp add: owned_def)

lemma leaf_ok_mach [simp]: "leaf_ok (s\<lparr>mach := mc\<rparr>) v e = leaf_ok s v e"
  by (simp add: leaf_ok_def)

lemma owned_mach [simp]: "owned (s\<lparr>mach := mc\<rparr>) P = owned s P"
  by (simp add: owned_def)

definition all_nodes :: "ram \<Rightarrow> addr set \<Rightarrow> addr set" where
  "all_nodes m R = (\<Union>r\<in>R. nodes m r)"

definition vinv :: "addr set \<Rightarrow> (addr \<Rightarrow> int) \<Rightarrow> addr list \<Rightarrow> 'a pmem_scheme \<Rightarrow> bool" where
  "vinv R ext fl s \<longleftrightarrow> kready fl s
     \<and> (\<forall>r\<in>R. pt_ok (ram s) r) \<and> owned s (all_nodes (ram s) R)
     \<and> (\<forall>r\<in>R. \<forall>r'\<in>R. r \<noteq> r' \<longrightarrow> nodes (ram s) r \<inter> nodes (ram s) r' = {})
     \<and> (\<forall>p. usable (kend s) p \<longrightarrow> refcnt s (pidx p) =
          of_bool (p \<in> all_nodes (ram s) R) + int (card (mapset (entry (ram s)) R p)) + ext p)
     \<and> (\<forall>r\<in>R. \<forall>v\<in>vpages. leaf_ok s v (entry (ram s) r v))"

lemma vinvD:
  assumes "vinv R ext fl s"
  shows "kready fl s" "\<And>r. r \<in> R \<Longrightarrow> pt_ok (ram s) r" "owned s (all_nodes (ram s) R)"
    "\<And>r r'. r \<in> R \<Longrightarrow> r' \<in> R \<Longrightarrow> r \<noteq> r' \<Longrightarrow> nodes (ram s) r \<inter> nodes (ram s) r' = {}"
    "\<And>p. usable (kend s) p \<Longrightarrow> refcnt s (pidx p) =
       of_bool (p \<in> all_nodes (ram s) R) + int (card (mapset (entry (ram s)) R p)) + ext p"
    "\<And>r v. r \<in> R \<Longrightarrow> v \<in> vpages \<Longrightarrow> leaf_ok s v (entry (ram s) r v)"
  using assms by (simp_all add: vinv_def)

lemma in_all_nodes: "r \<in> R \<Longrightarrow> p \<in> nodes m r \<Longrightarrow> p \<in> all_nodes m R"
  by (auto simp: all_nodes_def)

lemma vinv_node:
  assumes "vinv R ext fl s" "p \<in> all_nodes (ram s) R"
  shows "usable (kend s) p" "refcnt s (pidx p) = 1" "p \<notin> set fl" "p \<noteq> 0" "aligned p"
proof -
  show u: "usable (kend s) p" and r: "refcnt s (pidx p) = 1"
    using vinvD(3) [OF assms(1)] assms(2) by (auto simp: owned_def)
  show "p \<notin> set fl" using vinvD(1) [OF assms(1)] u r by (auto simp: kinv_def)
  show "p \<noteq> 0" "aligned p" using u by (auto dest: usable_nonzero usable_aligned)
qed

lemma vinv_table: "vinv R ext fl s \<Longrightarrow> r \<in> R \<Longrightarrow> table fl s r"
  using vinv_node [of R ext fl s] vinvD(2) in_all_nodes [of r R _ "ram s"]
  by (fastforce simp: table_def)

lemma tables_frame:
  assumes inv: "vinv R ext fl s" and f: "\<forall>x\<in>all_nodes (ram s) R. same_page (ram s) m x"
  shows "r \<in> R \<Longrightarrow> nodes m r = nodes (ram s) r" "r \<in> R \<Longrightarrow> pt_ok m r"
    "r \<in> R \<Longrightarrow> entry m r v = entry (ram s) r v" "all_nodes m R = all_nodes (ram s) R"
    "mapset (entry m) R q = mapset (entry (ram s)) R q"
proof -
  have fr: "\<forall>x\<in>nodes (ram s) r. same_page (ram s) m x" if "r \<in> R" for r
    using f that by (auto simp: all_nodes_def)
  note tf = table_frame [OF vinvD(2) [OF inv] fr]
  show "r \<in> R \<Longrightarrow> nodes m r = nodes (ram s) r" "r \<in> R \<Longrightarrow> pt_ok m r"
    "r \<in> R \<Longrightarrow> entry m r v = entry (ram s) r v"
    by (rule tf; assumption)+
  show "all_nodes m R = all_nodes (ram s) R" unfolding all_nodes_def using tf(1) by simp
  show "mapset (entry m) R q = mapset (entry (ram s)) R q" by (rule mapset_cong) (rule tf(3))
qed

text \<open>A change that leaves the table pages alone and changes the count of one page.\<close>

lemma vinv_count:
  assumes inv: "vinv R ext fl s" and mo: "mem_only s s'" and rd: "kready fl' s'"
    and p: "usable (kend s) p" "p \<notin> all_nodes (ram s) R"
    and ref: "refcnt s' = (refcnt s)(pidx p := c)"
    and frame: "\<forall>x\<in>all_nodes (ram s) R. same_page (ram s) (ram s') x"
    and now: "\<And>r v. r \<in> R \<Longrightarrow> v \<in> vpages \<Longrightarrow> maps (entry (ram s) r v) p \<Longrightarrow>
      entry (ram s) r v AND PTE_U \<noteq> 0 \<Longrightarrow> entry (ram s) r v AND PTE_W = 0"
  shows "vinv R (ext(p := ext p + c - refcnt s (pidx p))) fl' s'"
proof -
  note tf = tables_frame [OF inv frame] and an = tables_frame(4) [OF inv frame]
    and ms = tables_frame(5) [OF inv frame]
  have ke: "kend s' = kend s" using mo by (rule mem_only_kend)
  have other: "refcnt s' (pidx q) = refcnt s (pidx q)" if "usable (kend s) q" "q \<noteq> p" for q
    using that p pidx_inj [of "kend s" q p] by (auto simp: ref)
  have "leaf_ok s' v (entry (ram s') r v)" if "r \<in> R" "v \<in> vpages" for r v
    using vinvD(6) [OF inv that] now [OF that] other [of "PTE2PA (entry (ram s) r v)"] tf(3) [OF that(1), of v] ke
    by (cases "PTE2PA (entry (ram s) r v) = p") (auto simp: leaf_ok_def maps_def split: if_splits)
  moreover have "refcnt s' (pidx q) = of_bool (q \<in> all_nodes (ram s') R)
      + int (card (mapset (entry (ram s')) R q)) + (ext(p := ext p + c - refcnt s (pidx p))) q"
    if "usable (kend s') q" for q
    using that vinvD(5) [OF inv, of q] other [of q] by (auto simp: ke an ms ref)
  moreover have "owned s' (all_nodes (ram s') R)"
    unfolding owned_def
  proof
    fix q assume q: "q \<in> all_nodes (ram s') R"
    then have "q \<noteq> p" using p(2) an by auto
    with q other [of q] vinvD(3) [OF inv] show "usable (kend s') q \<and> refcnt s' (pidx q) = 1"
      by (auto simp: owned_def an ke)
  qed
  ultimately show ?thesis using vinvD [OF inv] rd tf by (simp add: vinv_def)
qed

text \<open>A write outside the table pages and the free pages.\<close>

lemma vinv_ram:
  assumes inv: "vinv R ext fl s" and f: "\<forall>x\<in>all_nodes (ram s) R. same_page (ram s) m x"
    "\<forall>x\<in>set fl. same_page (ram s) m x"
  shows "vinv R ext fl (s\<lparr>ram := m\<rparr>)"
proof -
  note tf = tables_frame [OF inv f(1)]
  have "kready fl (s\<lparr>ram := m\<rparr>)" using vinvD(1) [OF inv] f(2) by (rule kready_ram)
  then show ?thesis
    using vinvD [OF inv] tf by (simp add: vinv_def)
qed

text \<open>One entry of one table changes; the counts follow in \<open>ext\<close>.\<close>

lemma vinv_retabled:
  assumes inv: "vinv R ext fl s" and r: "r \<in> R" and v: "v \<in> vpages"
    and rt: "retabled r ((entry (ram s) r)(v := e')) fl s fl' s'"
    and ok: "leaf_ok s' v e'"
  shows "vinv R (\<lambda>p. ext p + of_bool (v \<in> upages \<and> maps (entry (ram s) r v) p)
      - of_bool (v \<in> upages \<and> maps e' p)) fl' s'"
    and "\<And>r' v'. r' \<in> R \<Longrightarrow> v' \<in> vpages \<Longrightarrow>
      entry (ram s') r' v' = (if r' = r \<and> v' = v then e' else entry (ram s) r' v')"
proof -
  from rt obtain new where mo: "mem_only s s'" and rd: "kready fl' s'" and pt: "pt_ok (ram s') r"
    and en: "\<And>va. va \<in> vpages \<Longrightarrow> entry (ram s') r va = ((entry (ram s) r)(v := e')) va"
    and new: "fl = new @ fl'" "nodes (ram s') r = nodes (ram s) r \<union> set new"
    and ref: "refcnt s' = (\<lambda>i. if i \<in> pidx ` set new then 1 else refcnt s i)"
    and frame: "\<And>x. x \<notin> nodes (ram s) r \<Longrightarrow> x \<notin> set new \<Longrightarrow> same_page (ram s) (ram s') x"
    by (rule retabledE) blast
  have ke: "kend s' = kend s" using mo by (rule mem_only_kend)
  have nu: "usable (kend s) x" "refcnt s (pidx x) = 0" if "x \<in> set new" for x
    using vinvD(1) [OF inv] that new(1) by (auto simp: kinv_def)
  have nn: "x \<notin> all_nodes (ram s) R" if "x \<in> set new" for x
    using vinv_node(2) [OF inv] nu(2) [OF that] by fastforce
  have refs: "refcnt s' (pidx q) = (if q \<in> set new then 1 else refcnt s (pidx q))"
    if "usable (kend s) q" for q
    using that nu(1) pidx_inj by (fastforce simp: ref)
  have tf: "nodes (ram s') r' = nodes (ram s) r'" "pt_ok (ram s') r'"
    "\<And>v. entry (ram s') r' v = entry (ram s) r' v" if "r' \<in> R" "r' \<noteq> r" for r'
  proof -
    have "\<forall>x\<in>nodes (ram s) r'. same_page (ram s) (ram s') x"
      using vinvD(4) [OF inv that(1) r that(2)] nn that(1) frame in_all_nodes by fast
    from table_frame [OF vinvD(2) [OF inv that(1)] this] show
      "nodes (ram s') r' = nodes (ram s) r'" "pt_ok (ram s') r'"
      "\<And>v. entry (ram s') r' v = entry (ram s) r' v" by auto
  qed
  show ent: "entry (ram s') r' v' = (if r' = r \<and> v' = v then e' else entry (ram s) r' v')"
    if "r' \<in> R" "v' \<in> vpages" for r' v'
    using en [OF that(2)] tf(3) [OF that(1)] by (cases "r' = r") auto
  have an: "all_nodes (ram s') R = all_nodes (ram s) R \<union> set new"
    using r tf(1) new(2) unfolding all_nodes_def by (auto split: if_splits)
  have lk: "leaf_ok s' v' (entry (ram s') r' v')" if "r' \<in> R" "v' \<in> vpages" for r' v'
  proof (cases "r' = r \<and> v' = v")
    case True
    then show ?thesis using ok ent [OF that] by simp
  next
    case False
    let ?e = "entry (ram s) r' v'"
    have "refcnt s' (pidx (PTE2PA ?e)) = 1" if "usable (kend s) (PTE2PA ?e)" "refcnt s (pidx (PTE2PA ?e)) = 1"
      using refs [OF that(1)] that(2) by simp
    with vinvD(6) [OF inv that] False ent [OF that] show ?thesis
      by (auto simp: leaf_ok_def ke split: if_splits)
  qed
  have cnt: "refcnt s' (pidx q) = of_bool (q \<in> all_nodes (ram s') R)
      + int (card (mapset (entry (ram s')) R q))
      + (ext q + of_bool (v \<in> upages \<and> maps (entry (ram s) r v) q)
      - of_bool (v \<in> upages \<and> maps e' q))"
    if "usable (kend s') q" for q
  proof -
    have q: "usable (kend s) q" using that ke by simp
    show ?thesis
      using card_mapset_upd [OF r v ent, of q] vinvD(5) [OF inv q] refs [OF q] nn [of q] nu(2) [of q]
      by (auto simp: an of_bool_def split: if_splits)
  qed
  have own: "owned s' (all_nodes (ram s') R)"
    unfolding owned_def an using vinvD(3) [OF inv] nu(1) refs by (auto simp: owned_def ke)
  have dj: "nodes (ram s') r1 \<inter> nodes (ram s') r2 = {}" if "r1 \<in> R" "r2 \<in> R" "r1 \<noteq> r2" for r1 r2
    using that vinvD(4) [OF inv that] nn in_all_nodes [of _ R _ "ram s"] tf(1) new(2)
    by (cases "r1 = r"; cases "r2 = r") (auto simp: disjoint_iff)
  show "vinv R (\<lambda>p. ext p + of_bool (v \<in> upages \<and> maps (entry (ram s) r v) p)
      - of_bool (v \<in> upages \<and> maps e' p)) fl' s'"
    unfolding vinv_def using rd pt tf(2) own dj cnt lk by blast
qed

section \<open>Views\<close>

definition user_leaf :: "uint64 \<Rightarrow> bool" where
  "user_leaf e \<longleftrightarrow> e AND PTE_V \<noteq> 0 \<and> e AND PTE_U \<noteq> 0"

text \<open>The byte a process with page table \<open>r\<close> reads at \<open>va\<close> in user mode.\<close>

definition uview :: "'a pmem_scheme \<Rightarrow> addr \<Rightarrow> uint64 \<Rightarrow> uint8 option" where
  "uview s r va =
     (let e = entry (ram s) r (PGROUNDDOWN va)
      in if va < MAXVA \<and> user_leaf e then Some (ram s (PTE2PA e + (va - PGROUNDDOWN va))) else None)"

lemma same_page_at: "same_page m m' p \<Longrightarrow> aligned p \<Longrightarrow> off < PGSIZE \<Longrightarrow> m' (p + off) = m (p + off)"
  by (simp add: same_page_def)

lemma uview_cong:
  assumes "user_leaf e' \<longleftrightarrow> user_leaf e"
    and "user_leaf e \<Longrightarrow> PTE2PA e' = PTE2PA e \<and> same_page (ram s) (ram s') (PTE2PA e)"
    and "entry (ram s) r (PGROUNDDOWN va) = e" "entry (ram s') r (PGROUNDDOWN va) = e'"
  shows "uview s' r va = uview s r va"
  using assms same_page_at [of "ram s" "ram s'" "PTE2PA e" "va - PGROUNDDOWN va"]
  by (simp add: uview_def Let_def)

text \<open>Under the invariant a page in somebody's view is neither free nor a table page, and if it is
  writable it is in nobody else's view.\<close>

lemma mapped_page:
  assumes inv: "vinv R ext fl s" and ext: "\<forall>p. 0 \<le> ext p"
    and r: "r \<in> R" "v \<in> upages" "maps (entry (ram s) r v) p"
  shows "usable (kend s) p" "p \<notin> set fl" "p \<notin> all_nodes (ram s) R"
    "(r, v) \<in> mapset (entry (ram s)) R p" "1 \<le> refcnt s (pidx p)"
proof -
  have "v \<in> vpages" using r(2) by (simp add: upages_def)
  then show u: "usable (kend s) p"
    using vinvD(6) [OF inv r(1)] r(2,3) by (auto simp: leaf_ok_def maps_def)
  show m: "(r, v) \<in> mapset (entry (ram s)) R p" using r by (simp add: mapset_def)
  then have "card (mapset (entry (ram s)) R p) \<noteq> 0" by auto
  then have c: "1 \<le> int (card (mapset (entry (ram s)) R p))" by linarith
  have e0: "0 \<le> ext p" using ext by simp
  show rc: "1 \<le> refcnt s (pidx p)" using vinvD(5) [OF inv u] c e0 by simp
  then show "p \<notin> set fl" using vinvD(1) [OF inv] u by (auto simp: kinv_def)
  show "p \<notin> all_nodes (ram s) R"
  proof
    assume "p \<in> all_nodes (ram s) R"
    with vinvD(5) [OF inv u] vinv_node(2) [OF inv this] c e0 show False by simp
  qed
qed

lemma user_page:
  assumes inv: "vinv R ext fl s" and ext: "\<forall>p. 0 \<le> ext p"
    and r: "r \<in> R" "v \<in> vpages" "user_leaf (entry (ram s) r v)" "PTE2PA (entry (ram s) r v) = p"
  shows "usable (kend s) p" "v \<in> upages" "p \<notin> set fl" "p \<notin> all_nodes (ram s) R"
    "(r, v) \<in> mapset (entry (ram s)) R p" "1 \<le> refcnt s (pidx p)"
proof -
  show up: "v \<in> upages" using vinvD(6) [OF inv r(1,2)] r(3) by (auto simp: leaf_ok_def user_leaf_def)
  have "maps (entry (ram s) r v) p" using r(3,4) by (simp add: maps_def user_leaf_def)
  note mapped_page [OF inv ext r(1) up this]
  then show "usable (kend s) p" "p \<notin> set fl" "p \<notin> all_nodes (ram s) R"
    "(r, v) \<in> mapset (entry (ram s)) R p" "1 \<le> refcnt s (pidx p)" .
qed

lemma sole_mapping:
  assumes inv: "vinv R ext fl s" and ext: "\<forall>p. 0 \<le> ext p"
    and p: "usable (kend s) p" "refcnt s (pidx p) = 1" "(r, v) \<in> mapset (entry (ram s)) R p"
  shows "mapset (entry (ram s)) R p = {(r, v)}" "ext p = 0"
proof -
  let ?c = "card (mapset (entry (ram s)) R p)"
  have "0 < ?c" using p(3) by (auto simp: card_gt_0_iff)
  moreover have "0 \<le> ext p" using ext by simp
  moreover have "(0 :: int) \<le> of_bool (p \<in> all_nodes (ram s) R)" by simp
  ultimately have "?c = 1" "ext p = 0" using vinvD(5) [OF inv p(1)] p(2) by linarith+
  then show "mapset (entry (ram s)) R p = {(r, v)}" "ext p = 0"
    using p(3) by (auto simp: card_1_singleton_iff)
qed

section \<open>What the kernel keeps\<close>

text \<open>Pages the kernel holds: outside the allocator's range, or with a reference in \<open>ext\<close>.\<close>

definition kpage :: "(addr \<Rightarrow> int) \<Rightarrow> 'a pmem_scheme \<Rightarrow> addr \<Rightarrow> bool" where
  "kpage ext s p \<longleftrightarrow> \<not> usable (kend s) p \<or> 1 \<le> ext p"

definition kframe :: "(addr \<Rightarrow> int) \<Rightarrow> 'a pmem_scheme \<Rightarrow> 'a pmem_scheme \<Rightarrow> bool" where
  "kframe ext s s' \<longleftrightarrow> mem_only s s' \<and> (\<forall>p. kpage ext s p \<longrightarrow> same_page (ram s) (ram s') p)"

lemma kframe_refl [simp]: "kframe ext s s"
  by (simp add: kframe_def)

lemma kframe_trans: "kframe ext s t \<Longrightarrow> kframe ext t u \<Longrightarrow> kframe ext s u"
  by (auto simp: kframe_def kpage_def mem_only_kend intro: mem_only_trans same_page_trans)

lemma kpage_private:
  assumes inv: "vinv R ext fl s" and ext: "\<forall>p. 0 \<le> ext p" and k: "kpage ext s p"
  shows "p \<notin> set fl" "p \<notin> all_nodes (ram s) R"
    "r \<in> R \<Longrightarrow> v \<in> vpages \<Longrightarrow> user_leaf (entry (ram s) r v) \<Longrightarrow> PTE2PA (entry (ram s) r v) = p \<Longrightarrow>
      entry (ram s) r v AND PTE_W = 0"
proof -
  have e0: "0 \<le> ext p" using ext by simp
  have pos: "2 \<le> refcnt s (pidx p)"
    if "usable (kend s) p" "1 \<le> ext p" "0 < of_bool (p \<in> all_nodes (ram s) R) + int (card (mapset (entry (ram s)) R p))"
    using vinvD(5) [OF inv that(1)] that by linarith
  have one: "1 \<le> refcnt s (pidx p)" if "usable (kend s) p" "1 \<le> ext p"
    using vinvD(5) [OF inv that(1)] that by simp
  show "p \<notin> set fl" using vinvD(1) [OF inv] k one by (fastforce simp: kinv_def kpage_def)
  show "p \<notin> all_nodes (ram s) R"
    using vinv_node(1,2) [OF inv, of p] k pos by (auto simp: kpage_def)
  assume r: "r \<in> R" "v \<in> vpages" "user_leaf (entry (ram s) r v)" "PTE2PA (entry (ram s) r v) = p"
  note up = user_page [OF inv ext r]
  have "1 \<le> ext p" using k up(1) by (simp add: kpage_def)
  moreover have "0 < card (mapset (entry (ram s)) R p)" using up(5) by (auto simp: card_gt_0_iff)
  ultimately have "2 \<le> refcnt s (pidx p)" by (intro pos up(1)) (simp_all add: add_nonneg_pos)
  then show "entry (ram s) r v AND PTE_W = 0"
    using vinvD(6) [OF inv r(1,2)] r(3,4) by (auto simp: leaf_ok_def user_leaf_def split: if_splits)
qed

section \<open>Allocator steps\<close>

lemma view_frame:
  assumes "\<And>v. v \<in> vpages \<Longrightarrow> entry (ram s') r v = entry (ram s) r v"
    and "\<And>v. v \<in> vpages \<Longrightarrow> user_leaf (entry (ram s) r v) \<Longrightarrow>
      same_page (ram s) (ram s') (PTE2PA (entry (ram s) r v))"
  shows "uview s' r = uview s r"
proof
  fix va
  show "uview s' r va = uview s r va"
  proof (cases "va < MAXVA")
    case True
    then have "PGROUNDDOWN va \<in> vpages" by (rule PGROUNDDOWN_vpages)
    with assms show ?thesis by (intro uview_cong) auto
  qed (simp add: uview_def)
qed

lemma vinv_ext_cong: "vinv R ext fl s \<Longrightarrow> (\<And>p. ext p = ext' p) \<Longrightarrow> vinv R ext' fl s"
proof -
  assume "vinv R ext fl s" "\<And>p. ext p = ext' p"
  moreover from this(2) have "ext = ext'" by (rule ext)
  ultimately show ?thesis by simp
qed

lemma free_page:
  assumes inv: "vinv R ext fl s" and ext: "\<forall>p. 0 \<le> ext p" and q: "q \<in> set fl"
  shows "usable (kend s) q" "refcnt s (pidx q) = 0" "ext q = 0" "q \<notin> all_nodes (ram s) R"
    "mapset (entry (ram s)) R q = {}"
proof -
  show u: "usable (kend s) q" and r: "refcnt s (pidx q) = 0"
    using vinvD(1) [OF inv] q by (auto simp: kinv_def)
  have e: "0 \<le> ext q" using ext by simp
  have "(0 :: int) \<le> of_bool (q \<in> all_nodes (ram s) R)" "(0 :: int) \<le> int (card (mapset (entry (ram s)) R q))"
    by simp_all
  with vinvD(5) [OF inv u] r e have
    "ext q = 0" "of_bool (q \<in> all_nodes (ram s) R) = (0 :: int)" "card (mapset (entry (ram s)) R q) = 0"
    by linarith+
  then show "ext q = 0" "q \<notin> all_nodes (ram s) R" "mapset (entry (ram s)) R q = {}"
    by (auto simp: of_bool_def split: if_splits)
qed

lemma held_page:
  assumes inv: "vinv R ext fl s" and p: "usable (kend s) p" "refcnt s (pidx p) = 1" "1 \<le> ext p"
  shows "ext p = 1" "p \<notin> all_nodes (ram s) R" "mapset (entry (ram s)) R p = {}"
proof -
  have "(0 :: int) \<le> of_bool (p \<in> all_nodes (ram s) R)" "(0 :: int) \<le> int (card (mapset (entry (ram s)) R p))"
    by simp_all
  with vinvD(5) [OF inv p(1)] p(2,3) have
    "ext p = 1" "of_bool (p \<in> all_nodes (ram s) R) = (0 :: int)" "card (mapset (entry (ram s)) R p) = 0"
    by linarith+
  then show "ext p = 1" "p \<notin> all_nodes (ram s) R" "mapset (entry (ram s)) R p = {}"
    by (auto simp: of_bool_def split: if_splits)
qed

lemma unmapped_page:
  assumes "mapset (entry (ram s)) R q = {}" "vinv R ext fl s"
    and "r \<in> R" "v \<in> vpages" "user_leaf (entry (ram s) r v)"
  shows "PTE2PA (entry (ram s) r v) \<noteq> q"
proof
  assume q: "PTE2PA (entry (ram s) r v) = q"
  have "v \<in> upages" using vinvD(6) [OF assms(2-4)] assms(5) by (auto simp: leaf_ok_def user_leaf_def)
  with q assms(3,5) have "(r, v) \<in> mapset (entry (ram s)) R q"
    by (auto simp: mapset_def maps_def user_leaf_def)
  with assms(1) show False by simp
qed

lemma vm_kalloc:
  assumes inv: "vinv R ext (q # fl) s" and ext: "\<forall>p. 0 \<le> ext p"
  shows "\<exists>s'. kalloc s = Inr (q, s') \<and> vinv R (ext(q := 1)) fl s' \<and> kframe ext s s'
    \<and> (\<forall>r\<in>R. uview s' r = uview s r) \<and> refcnt s' = (refcnt s)(pidx q := 1)
    \<and> (\<forall>x. x \<noteq> q \<longrightarrow> same_page (ram s) (ram s') x) \<and> all_nodes (ram s') R = all_nodes (ram s) R
    \<and> (\<forall>r\<in>R. \<forall>v. entry (ram s') r v = entry (ram s) r v)"
proof -
  note fp = free_page [OF inv ext, of q, simplified]
  from kalloc_cons [of q fl s] vinvD(1) [OF inv] obtain s' where
    s': "kalloc s = Inr (q, s')" "kready fl s'" and
    eq: "s' = (settled s)\<lparr>freelist := ld64 (ram s) q, refcnt := (refcnt s)(pidx q := 1),
                        ram := memset (ram s) q 5 4096\<rparr>" by blast
  have f: "same_page (ram s) (ram s') x" if "x \<noteq> q" for x
    using that fp(1) by (simp add: eq usable_aligned memset_same_page)
  have fn: "\<forall>x\<in>all_nodes (ram s) R. same_page (ram s) (ram s') x" using f fp(4) by metis
  have mo: "mem_only s s'" by (simp add: eq)
  have "vinv R (ext(q := ext q + 1 - refcnt s (pidx q))) fl s'"
  proof (rule vinv_count [OF inv mo s'(2) fp(1,4) _ fn])
    show "refcnt s' = (refcnt s)(pidx q := 1)" by (simp add: eq)
    fix r v assume r: "r \<in> R" "v \<in> vpages" "maps (entry (ram s) r v) q" "entry (ram s) r v AND PTE_U \<noteq> 0"
    then have "user_leaf (entry (ram s) r v)" "PTE2PA (entry (ram s) r v) = q"
      by (auto simp: user_leaf_def maps_def)
    with unmapped_page [OF fp(5) inv r(1,2)] show "entry (ram s) r v AND PTE_W = 0" by simp
  qed
  then have "vinv R (ext(q := 1)) fl s'" using fp(2,3) by simp
  moreover have "kframe ext s s'"
    using mo f kpage_private(1) [OF inv ext] by (auto simp: kframe_def)
  moreover have "uview s' r = uview s r" if "r \<in> R" for r
  proof (rule view_frame)
    show "entry (ram s') r v = entry (ram s) r v" if "v \<in> vpages" for v
      using tables_frame(3) [OF inv fn \<open>r \<in> R\<close>] .
    show "same_page (ram s) (ram s') (PTE2PA (entry (ram s) r v))"
      if "v \<in> vpages" "user_leaf (entry (ram s) r v)" for v
      using unmapped_page [OF fp(5) inv \<open>r \<in> R\<close> that] by (rule f)
  qed
  ultimately show ?thesis
    using s'(1) f tables_frame(4) [OF inv fn] tables_frame(3) [OF inv fn] by (auto simp: eq)
qed

lemma vinv_settled: "vinv R ext fl s \<Longrightarrow> vinv R ext fl (settled s)"
proof -
  assume inv: "vinv R ext fl s"
  have "kready fl (settled s)" using vinvD(1) [OF inv] by (rule kready_settled)
  then show ?thesis using vinvD [OF inv] by (simp add: vinv_def)
qed

lemma uview_settled [simp]: "uview (settled s) r = uview s r"
  by (rule ext) (simp add: uview_def Let_def)

lemma kframe_settled [simp]: "kframe ext s (settled s)"
  by (simp add: kframe_def)

lemma vm_kalloc_nil: "vinv R ext [] s \<Longrightarrow> kalloc s = Inr (0, settled s)"
  using kalloc_nil vinvD(1) by blast

lemma vm_kfree:
  assumes inv: "vinv R ext fl s" and ext: "\<forall>p. 0 \<le> ext p"
    and p: "usable (kend s) p" "1 \<le> ext p"
  shows "\<exists>fl' s'. kfree p s = Inr ((), s') \<and> vinv R (ext(p := ext p - 1)) fl' s'
    \<and> kframe (ext(p := ext p - 1)) s s' \<and> (\<forall>r\<in>R. uview s' r = uview s r)
    \<and> (fl' = fl \<or> fl' = p # fl \<and> refcnt s (pidx p) = 1)
    \<and> (\<forall>r\<in>R. \<forall>v. entry (ram s') r v = entry (ram s) r v)"
proof -
  have cnt: "refcnt s (pidx p) = of_bool (p \<in> all_nodes (ram s) R)
      + int (card (mapset (entry (ram s)) R p)) + ext p" using vinvD(5) [OF inv p(1)] .
  have nn: "p \<notin> all_nodes (ram s) R"
    using kpage_private(2) [OF inv ext] p(2) by (auto simp: kpage_def)
  have now: "entry (ram s) r v AND PTE_W = 0"
    if "r \<in> R" "v \<in> vpages" "maps (entry (ram s) r v) p" "entry (ram s) r v AND PTE_U \<noteq> 0" for r v
    using kpage_private(3) [OF inv ext, of p r v] that p(2) by (auto simp: kpage_def maps_def user_leaf_def)
  have rd: "kready fl s" using vinvD(1) [OF inv] .
  show ?thesis
  proof (cases "refcnt s (pidx p) = 1")
    case False
    moreover have "(0 :: int) \<le> of_bool (p \<in> all_nodes (ram s) R)" by simp
    ultimately have g: "1 < refcnt s (pidx p)" using cnt p(2) by linarith
    let ?s' = "(settled s)\<lparr>refcnt := (refcnt s)(pidx p := refcnt s (pidx p) - 1)\<rparr>"
    have run: "kfree p s = Inr ((), ?s')" using rd p(1) g by (intro kfree_shared) auto
    have "p \<notin> set fl" using free_page(2) [OF inv ext, of p] g by auto
    then have "kready fl ?s'" using rd p(1) g by (intro kready_refcnt_upd) auto
    then have "vinv R (ext(p := ext p + (refcnt s (pidx p) - 1) - refcnt s (pidx p))) fl ?s'"
      using now by (intro vinv_count [OF inv _ _ p(1) nn]) auto
    moreover have "uview ?s' r = uview s r" for r by (rule view_frame) simp_all
    moreover have "kframe (ext(p := ext p - 1)) s ?s'" by (simp add: kframe_def)
    ultimately show ?thesis using run by (intro exI [of _ fl] exI [of _ ?s']) auto
  next
    case True
    note e1 = held_page(1) [OF inv p(1) True p(2)] and m = held_page(3) [OF inv p(1) True p(2)]
    let ?s' = "(settled s)\<lparr>refcnt := (refcnt s)(pidx p := 0),
      ram := st64 (memset (ram s) p 1 4096) p (freelist s), freelist := p\<rparr>"
    have run: "kfree p s = Inr ((), ?s')" using rd p(1) True by (intro kfree_last) auto
    have f: "same_page (ram s) (ram ?s') x" if "x \<noteq> p" for x
      using that usable_aligned [OF p(1)] by (auto intro: same_page_trans memset_same_page st64_same_page)
    have fn: "\<forall>x\<in>all_nodes (ram s) R. same_page (ram s) (ram ?s') x" using f nn by metis
    have "kready (p # fl) ?s'" using kinv_kfree_last [of fl s p] rd p(1) True by (simp add: quiet_def)
    then have "vinv R (ext(p := ext p + 0 - refcnt s (pidx p))) (p # fl) ?s'"
      using now fn by (intro vinv_count [OF inv _ _ p(1) nn]) auto
    moreover have "uview ?s' r = uview s r" if "r \<in> R" for r
    proof (rule view_frame)
      show "entry (ram ?s') r v = entry (ram s) r v" for v using tables_frame(3) [OF inv fn that] .
      show "same_page (ram s) (ram ?s') (PTE2PA (entry (ram s) r v))"
        if "v \<in> vpages" "user_leaf (entry (ram s) r v)" for v
        using unmapped_page [OF m inv \<open>r \<in> R\<close> that] by (rule f)
    qed
    moreover have "kframe (ext(p := ext p - 1)) s ?s'"
    proof -
      have "mem_only s ?s'" by simp
      moreover have "same_page (ram s) (ram ?s') x" if "kpage (ext(p := ext p - 1)) s x" for x
        using that e1 p(1) f [of x] by (cases "x = p") (auto simp: kpage_def)
      ultimately show ?thesis by (simp add: kframe_def)
    qed
    ultimately show ?thesis
      using run True tables_frame(3) [OF inv fn]
      by (intro exI [of _ "p # fl"] exI [of _ ?s']) auto
  qed
qed

section \<open>Mapping and unmapping a page\<close>

text \<open>A write to a page that only the kernel holds.\<close>

lemma vm_write_private:
  assumes inv: "vinv R ext fl s" and ext: "\<forall>p. 0 \<le> ext p"
    and p: "usable (kend s) p" "1 \<le> ext p" "refcnt s (pidx p) = 1"
    and m: "\<And>x. x \<noteq> p \<Longrightarrow> same_page (ram s) m x"
  shows "vinv R ext fl (s\<lparr>ram := m\<rparr>)" "r \<in> R \<Longrightarrow> uview (s\<lparr>ram := m\<rparr>) r = uview s r"
    "r \<in> R \<Longrightarrow> entry m r v = entry (ram s) r v"
proof -
  have k: "kpage ext s p" using p(2) by (simp add: kpage_def)
  note kp = kpage_private [OF inv ext k]
  have fn: "\<forall>x\<in>all_nodes (ram s) R. same_page (ram s) m x" using m kp(2) by metis
  show "vinv R ext fl (s\<lparr>ram := m\<rparr>)"
    by (rule vinv_ram [OF inv fn]) (use m kp(1) in metis)
  show en: "r \<in> R \<Longrightarrow> entry m r v = entry (ram s) r v" for r v using tables_frame(3) [OF inv fn] .
  note mp = held_page(3) [OF inv p(1,3,2)]
  show "uview (s\<lparr>ram := m\<rparr>) r = uview s r" if "r \<in> R"
    by (rule view_frame) (use en that m unmapped_page [OF mp inv that] in simp_all)
qed

lemma pte_make:
  assumes "aligned pa" "perm < 0x400"
  shows "PTE2PA (PA2PTE pa OR perm OR PTE_V) = pa"
    "PTE_FLAGS (PA2PTE pa OR perm OR PTE_V) = perm OR PTE_V"
proof -
  have f: "perm OR PTE_V < 0x400" by (rule flags_or_lt [OF assms(2)]) simp
  show "PTE2PA (PA2PTE pa OR perm OR PTE_V) = pa"
    by (rule PTE2PA_PA2PTE [OF assms(1) f])
  show "PTE_FLAGS (PA2PTE pa OR perm OR PTE_V) = perm OR PTE_V"
    by (rule PTE_FLAGS_PA2PTE [OF f])
qed

lemma pte_make_test:
  assumes "aligned pa" "perm < 0x400" "g < 0x400"
  shows "(PA2PTE pa OR perm OR PTE_V) AND g = (perm OR PTE_V) AND g"
  using PTE_FLAGS_test [OF assms(3), of "PA2PTE pa OR perm OR PTE_V"] pte_make(2) [OF assms(1,2)]
  by simp

lemma or_and_same: "(x OR y) AND y = (y :: uint64)" "(x OR z OR y) AND y = y"
  by (rule bit_word_eqI; auto simp only: bit_and_iff bit_or_iff)+

lemma maps_make:
  assumes "aligned pa" "perm < 0x400"
  shows "maps (PA2PTE pa OR perm OR PTE_V) p \<longleftrightarrow> p = pa"
  using pte_make(1) [OF assms] by (auto simp: maps_def or_and_same)

text \<open>Pages the page-table code may write: table pages and free pages.\<close>

lemma retabled_frame:
  assumes inv: "vinv R ext fl s" and r: "r \<in> R" and rt: "retabled r E fl s fl' s'"
    and x: "x \<notin> all_nodes (ram s) R" "x \<notin> set fl"
  shows "same_page (ram s) (ram s') x"
  using rt
proof (rule retabledE)
  fix new assume "fl = new @ fl'"
    "\<And>x. x \<notin> nodes (ram s) r \<Longrightarrow> x \<notin> set new \<Longrightarrow> same_page (ram s) (ram s') x"
  then show ?thesis using x in_all_nodes [OF r, of x "ram s"] by auto
qed

lemma retabled_mem_only: "retabled r E fl s fl' s' \<Longrightarrow> mem_only s s'"
  by (erule retabledE)

lemma retabled_refcnt:
  assumes inv: "vinv R ext fl s" and rt: "retabled r E fl s fl' s'"
    and p: "usable (kend s) p" "p \<notin> set fl"
  shows "refcnt s' (pidx p) = refcnt s (pidx p)"
  using rt
proof (rule retabledE)
  fix new assume new: "fl = new @ fl'"
    "refcnt s' = (\<lambda>i. if i \<in> pidx ` set new then 1 else refcnt s i)"
  have "pidx p \<notin> pidx ` set new"
  proof
    assume "pidx p \<in> pidx ` set new"
    then obtain q where "q \<in> set new" "pidx p = pidx q" by auto
    moreover from this have "usable (kend s) q" using vinvD(1) [OF inv] new(1) by (auto simp: kinv_def)
    ultimately show False using pidx_inj [OF p(1)] p(2) new(1) by auto
  qed
  then show ?thesis using new(2) by simp
qed

text \<open>Changing one entry: the other views, and the pages the kernel holds.\<close>

lemma retabled_views:
  assumes inv: "vinv R ext fl s" and ext: "\<forall>p. 0 \<le> ext p" and r: "r \<in> R" "v \<in> vpages"
    and rt: "retabled r ((entry (ram s) r)(v := e')) fl s fl' s'"
    and en: "\<And>r' v'. r' \<in> R \<Longrightarrow> v' \<in> vpages \<Longrightarrow>
      entry (ram s') r' v' = (if r' = r \<and> v' = v then e' else entry (ram s) r' v')"
  shows "r' \<in> R \<Longrightarrow> r' = r \<longrightarrow> PGROUNDDOWN va \<noteq> v \<Longrightarrow> uview s' r' va = uview s r' va"
    and "kframe ext s s'"
    and "r' \<in> R \<Longrightarrow> v' \<in> vpages \<Longrightarrow> user_leaf (entry (ram s) r' v') \<Longrightarrow>
      same_page (ram s) (ram s') (PTE2PA (entry (ram s) r' v'))"
proof -
  show up: "same_page (ram s) (ram s') (PTE2PA (entry (ram s) r' v'))"
    if "r' \<in> R" "v' \<in> vpages" "user_leaf (entry (ram s) r' v')" for r' v'
    using user_page(3,4) [OF inv ext that refl] by (intro retabled_frame [OF inv r(1) rt])
  show "uview s' r' va = uview s r' va" if r': "r' \<in> R" "r' = r \<longrightarrow> PGROUNDDOWN va \<noteq> v"
  proof (cases "va < MAXVA")
    case True
    then have va: "PGROUNDDOWN va \<in> vpages" by (rule PGROUNDDOWN_vpages)
    have "entry (ram s') r' (PGROUNDDOWN va) = entry (ram s) r' (PGROUNDDOWN va)"
      using en [OF r'(1) va] r'(2) by auto
    then show ?thesis using up [OF r'(1) va] by (intro uview_cong) auto
  qed (simp add: uview_def)
  show "kframe ext s s'"
    using retabled_mem_only [OF rt] retabled_frame [OF inv r(1) rt] kpage_private(1,2) [OF inv ext]
    by (auto simp: kframe_def)
qed

text \<open>\<open>mappages\<close> of one page of a user table: the new mapping takes one reference from \<open>ext\<close>.\<close>

lemma vm_map:
  assumes inv: "vinv R ext fl s" and ext: "\<forall>p. 0 \<le> ext p" and r: "r \<in> R" "v \<in> vpages"
    and free: "entry (ram s) r v AND PTE_V = 0"
    and pa: "aligned pa" "perm < 0x400" "pa \<notin> set fl"
    and ok: "leaf_ok s v (PA2PTE pa OR perm OR PTE_V)"
  defines "e' \<equiv> PA2PTE pa OR perm OR PTE_V"
  shows "(\<exists>fl' s'. mappages r v PGSIZE pa perm s = Inr (0, s')
      \<and> vinv R (ext(pa := ext pa - of_bool (v \<in> upages))) fl' s' \<and> kframe ext s s'
      \<and> (\<forall>r'\<in>R. \<forall>v'\<in>vpages. entry (ram s') r' v' = (if r' = r \<and> v' = v then e' else entry (ram s) r' v'))
      \<and> (\<forall>r'\<in>R. \<forall>va. (r' = r \<longrightarrow> PGROUNDDOWN va \<noteq> v) \<longrightarrow> uview s' r' va = uview s r' va)
      \<and> (\<forall>x. x \<notin> all_nodes (ram s) R \<longrightarrow> x \<notin> set fl \<longrightarrow> same_page (ram s) (ram s') x)
      \<and> set fl' \<subseteq> set fl \<and> (\<forall>x. usable (kend s) x \<longrightarrow> x \<notin> set fl \<longrightarrow> refcnt s' (pidx x) = refcnt s (pidx x)))
    \<or> (\<exists>s'. mappages r v PGSIZE pa perm s = Inr (- 1, s') \<and> vinv R ext [] s' \<and> kframe ext s s'
      \<and> (\<forall>r'\<in>R. \<forall>v'\<in>vpages. entry (ram s') r' v' = entry (ram s) r' v')
      \<and> (\<forall>r'\<in>R. uview s' r' = uview s r')
      \<and> (\<forall>x. usable (kend s) x \<longrightarrow> x \<notin> set fl \<longrightarrow> refcnt s' (pidx x) = refcnt s (pidx x)))"
proof -
  have rd: "kready fl s" "table fl s r" using vinvD(1) [OF inv] vinv_table [OF inv r(1)] by auto
  have al: "aligned v" using r(2) by (simp add: vpages_def)
  note me = mappages_body_ok [OF rd r(2) free, of pa perm, folded e'_def]
  then show ?thesis
  proof (elim disjE exE conjE)
    fix fl' s' assume run: "mappages_body r v pa perm s = Inr (True, s')"
      and rt: "retabled r ((entry (ram s) r)(v := e')) fl s fl' s'"
    have ke: "kend s' = kend s" using retabled_mem_only [OF rt] by (rule mem_only_kend)
    have e': "PTE2PA e' = pa" unfolding e'_def by (rule pte_make [OF pa(1,2)])
    have ok': "leaf_ok s' v e'"
      using ok retabled_refcnt [OF inv rt _ pa(3)] unfolding e'_def [symmetric]
      by (auto simp: leaf_ok_def ke e' split: if_splits)
    note vr = vinv_retabled [OF inv r rt ok']
    note vw = retabled_views [OF inv ext r rt vr(2)]
    have "maps e' p \<longleftrightarrow> p = pa" for p unfolding e'_def by (rule maps_make [OF pa(1,2)])
    then have "vinv R (ext(pa := ext pa - of_bool (v \<in> upages))) fl' s'"
      using free by (intro vinv_ext_cong [OF vr(1)]) (auto simp: maps_def)
    moreover have "set fl' \<subseteq> set fl" using rt by (elim retabledE) auto
    ultimately show ?thesis
      using run al vr(2) vw(1,2) retabled_frame [OF inv r(1) rt] retabled_refcnt [OF inv rt]
      by (intro disjI1 exI [of _ fl'] exI [of _ s']) (simp add: mappages_page)
  next
    fix s' assume run: "mappages_body r v pa perm s = Inr (False, s')"
      and rt: "retabled r (entry (ram s) r) fl s [] s'"
    let ?e = "entry (ram s) r v"
    have rt': "retabled r ((entry (ram s) r)(v := ?e)) fl s [] s'" using rt by simp
    have "leaf_ok s' v ?e" using free by (simp add: leaf_ok_def)
    note vr = vinv_retabled [OF inv r rt' this]
    have en: "entry (ram s') r' v' = entry (ram s) r' v'" if "r' \<in> R" "v' \<in> vpages" for r' v'
      using vr(2) [OF that] by auto
    have "vinv R ext [] s'" by (rule vinv_ext_cong [OF vr(1)]) simp
    moreover have "uview s' r' = uview s r'" if "r' \<in> R" for r'
      using en retabled_views(3) [OF inv ext r rt' vr(2) that] that by (intro view_frame) auto
    ultimately show ?thesis
      using run al en retabled_views(2) [OF inv ext r rt' vr(2)] retabled_refcnt [OF inv rt]
      by (intro disjI2 exI [of _ s']) (simp add: mappages_page)
  qed
qed

text \<open>In \<open>uvmunmap\<close> the page is freed before its entry is cleared; as the entry lies in another
  page, clearing it first has the same effect.\<close>

lemma kfree_writes_commute:
  assumes "aligned p" "aligned pt" "p \<noteq> pt"
  shows "st64 (memset (st64 m (slot pt l va) v) p 1 4096) p f =
    st64 (st64 (memset m p 1 4096) p f) (slot pt l va) v"
proof
  fix x
  show "st64 (memset (st64 m (slot pt l va) v) p 1 4096) p f x =
    st64 (st64 (memset m p 1 4096) p f) (slot pt l va) v x"
  proof (cases "PGROUNDDOWN x = p")
    case True
    then have "PGROUNDDOWN x \<noteq> pt" using assms(3) by simp
    then have "st64 m' (slot pt l va) v x = m' x" for m'
      using st64_slot_same_page [OF assms(2), of p m' l va v] True assms(3) by (simp add: same_page_def)
    moreover have "unat (x - p) < 4096"
      using True page_offset [OF assms(1), of x] by (simp add: word_less_nat_alt)
    ultimately show ?thesis by (simp add: stw_def [of 8 _ p] memset_eq)
  next
    case False
    then have "\<not> unat (x - p) < 4096"
      using page_offset [OF assms(1), of x] by (simp add: word_less_nat_alt)
    then show ?thesis by (simp add: stw_def memset_eq)
  qed
qed

lemma kfree_poke:
  assumes rd: "kready fl s" and p: "usable (kend s) p" "1 \<le> refcnt s (pidx p)"
    and pt: "aligned pt" "p \<noteq> pt"
  shows "kseq (kfree p) (poke64 (slot pt l va) v) s = kseq (poke64 (slot pt l va) v) (kfree p) s"
proof -
  let ?s1 = "s\<lparr>ram := st64 (ram s) (slot pt l va) v\<rparr>"
  have q: "quiet alloc_locks s" "quiet alloc_locks ?s1" using rd by (auto simp: quiet_def)
  show ?thesis
  proof (cases "refcnt s (pidx p) = 1")
    case True
    have "kfree p s = Inr ((), (settled s)\<lparr>refcnt := (refcnt s)(pidx p := 0),
        ram := st64 (memset (ram s) p 1 4096) p (freelist s), freelist := p\<rparr>)"
      by (rule kfree_last [OF q(1) p(1) True])
    moreover have "kfree p ?s1 = Inr ((), (settled ?s1)\<lparr>refcnt := (refcnt ?s1)(pidx p := 0),
        ram := st64 (memset (ram ?s1) p 1 4096) p (freelist ?s1), freelist := p\<rparr>)"
      by (rule kfree_last [OF q(2)]) (use p(1) True in simp_all)
    ultimately show ?thesis
      using kfree_writes_commute [OF usable_aligned [OF p(1)] pt] by (simp add: kmonad)
  next
    case False
    then have g: "1 < refcnt s (pidx p)" using p(2) by simp
    have "kfree p s = Inr ((), (settled s)\<lparr>refcnt := (refcnt s)(pidx p := refcnt s (pidx p) - 1)\<rparr>)"
      by (rule kfree_shared [OF q(1) p(1) g])
    moreover have "kfree p ?s1 = Inr ((), (settled ?s1)\<lparr>refcnt := (refcnt ?s1)(pidx p := refcnt ?s1 (pidx p) - 1)\<rparr>)"
      by (rule kfree_shared [OF q(2)]) (use p(1) g in simp_all)
    ultimately show ?thesis by (simp add: kmonad)
  qed
qed

text \<open>Rewriting a valid leaf entry in place.\<close>

lemma valid_node: "entry m r v AND PTE_V \<noteq> 0 \<Longrightarrow> \<exists>pt. node m r 2 v = Some pt \<and> ld64 m (slot pt 0 v) = entry m r v"
  by (auto simp: entry_def split: option.splits)

lemma vm_poke:
  assumes inv: "vinv R ext fl s" and ext: "\<forall>p. 0 \<le> ext p" and r: "r \<in> R" "v \<in> vpages"
    and pt: "node (ram s) r 2 v = Some pt" and ok: "leaf_ok s v e'"
  defines "s' \<equiv> s\<lparr>ram := st64 (ram s) (slot pt 0 v) e'\<rparr>"
  shows "vinv R (\<lambda>p. ext p + of_bool (v \<in> upages \<and> maps (entry (ram s) r v) p)
      - of_bool (v \<in> upages \<and> maps e' p)) fl s'"
    and "r' \<in> R \<Longrightarrow> v' \<in> vpages \<Longrightarrow> entry (ram s') r' v' = (if r' = r \<and> v' = v then e' else entry (ram s) r' v')"
    and "r' \<in> R \<Longrightarrow> r' = r \<longrightarrow> PGROUNDDOWN va \<noteq> v \<Longrightarrow> uview s' r' va = uview s r' va"
    and "kframe ext s s'" and "aligned pt" and "pt \<in> all_nodes (ram s) R"
    and "x \<notin> all_nodes (ram s) R \<Longrightarrow> same_page (ram s) (ram s') x"
proof -
  have rd: "kready fl s" "table fl s r" using vinvD(1) [OF inv] vinv_table [OF inv r(1)] by auto
  have rt: "retabled r ((entry (ram s) r)(v := e')) fl s fl s'"
    unfolding s'_def using rd r(2) pt by (intro poke_leaf) (auto simp: table_def)
  have "leaf_ok s' v e'" using ok by (simp add: s'_def)
  note vr = vinv_retabled [OF inv r rt this]
  note vw = retabled_views [OF inv ext r rt vr(2)]
  show "vinv R (\<lambda>p. ext p + of_bool (v \<in> upages \<and> maps (entry (ram s) r v) p)
      - of_bool (v \<in> upages \<and> maps e' p)) fl s'" by (rule vr(1))
  show "r' \<in> R \<Longrightarrow> v' \<in> vpages \<Longrightarrow> entry (ram s') r' v' = (if r' = r \<and> v' = v then e' else entry (ram s) r' v')"
    by (rule vr(2))
  show "r' \<in> R \<Longrightarrow> r' = r \<longrightarrow> PGROUNDDOWN va \<noteq> v \<Longrightarrow> uview s' r' va = uview s r' va" by (rule vw(1))
  show "kframe ext s s'" by (rule vw(2))
  show pin: "pt \<in> all_nodes (ram s) R" using pt r(1) node_in_nodes in_all_nodes by fastforce
  show al: "aligned pt" using vinv_node(5) [OF inv pin] .
  show "x \<notin> all_nodes (ram s) R \<Longrightarrow> same_page (ram s) (ram s') x"
    unfolding s'_def using pin al by (auto intro!: st64_slot_same_page)
qed

lemma vm_unmap:
  assumes inv: "vinv R ext fl s" and ext: "\<forall>p. 0 \<le> ext p" and r: "r \<in> R" "v \<in> upages"
    and valid: "entry (ram s) r v AND PTE_V \<noteq> 0"
  shows "\<exists>fl' s'. uvmunmap_body r v True s = Inr ((), s') \<and> vinv R ext fl' s' \<and> kframe ext s s'
    \<and> (\<forall>r'\<in>R. \<forall>v'\<in>vpages. entry (ram s') r' v' = (if r' = r \<and> v' = v then 0 else entry (ram s) r' v'))
    \<and> (\<forall>r'\<in>R. \<forall>va. uview s' r' va = (if r' = r \<and> PGROUNDDOWN va = v then None else uview s r' va))"
proof -
  let ?e = "entry (ram s) r v" let ?p = "PTE2PA ?e"
  have vp: "v \<in> vpages" using r(2) by (simp add: upages_def)
  then have lt: "v < MAXVA" by (rule vpages_lt)
  obtain pt where pt: "node (ram s) r 2 v = Some pt" "ld64 (ram s) (slot pt 0 v) = ?e"
    using valid_node [OF valid] by blast
  have lk: "PTE_FLAGS ?e \<noteq> PTE_V" "usable (kend s) ?p"
    using vinvD(6) [OF inv r(1) vp] valid r(2) by (auto simp: leaf_ok_def)
  have ok0: "leaf_ok s v 0" by (simp add: leaf_ok_def)
  note pk = vm_poke [OF inv ext r(1) vp pt(1) ok0]
  let ?s1 = "s\<lparr>ram := st64 (ram s) (slot pt 0 v) 0\<rparr>"
  have pt0: "pt \<noteq> 0" using vinv_node(4) [OF inv pk(6)] .
  have mp: "maps ?e p \<longleftrightarrow> p = ?p" for p using valid by (auto simp: maps_def)
  define ext1 where "ext1 = ext(?p := ext ?p + 1)"
  have inv1: "vinv R ext1 fl ?s1"
    unfolding ext1_def by (rule vinv_ext_cong [OF pk(1)]) (use r(2) mp in auto)
  have e1: "\<forall>p. 0 \<le> ext1 p" "1 \<le> ext1 ?p" "ext1(?p := ext1 ?p - 1) = ext"
    using ext by (auto simp: ext1_def add_nonneg_nonneg)
  have "usable (kend ?s1) ?p" using lk(2) by simp
  from vm_kfree [OF inv1 e1(1) this e1(2), unfolded e1(3)] obtain fl' s' where
    kf: "kfree ?p ?s1 = Inr ((), s')" "vinv R ext fl' s'" "kframe ext ?s1 s'"
      "\<forall>r'\<in>R. uview s' r' = uview ?s1 r'" "\<forall>r'\<in>R. \<forall>v. entry (ram s') r' v = entry (ram ?s1) r' v"
    by blast
  have rc: "1 \<le> refcnt s (pidx ?p)" and np: "?p \<noteq> pt"
  proof -
    have "(r, v) \<in> mapset (entry (ram s)) R ?p" using r mp by (auto simp: mapset_def)
    then have "0 < card (mapset (entry (ram s)) R ?p)" by (auto simp: card_gt_0_iff)
    moreover have "(0 :: int) \<le> of_bool (?p \<in> all_nodes (ram s) R)" "0 \<le> ext ?p" using ext by simp_all
    ultimately show "1 \<le> refcnt s (pidx ?p)" "?p \<noteq> pt"
      using vinvD(5) [OF inv lk(2)] vinv_node(2) [OF inv pk(6)] pk(6) by auto
  qed
  have "kseq (kfree ?p) (poke64 (slot pt 0 v) 0) s = Inr ((), s')"
    using kfree_poke [OF vinvD(1) [OF inv] lk(2) rc pk(5) np] kf(1) by simp
  moreover have "uvmunmap_body r v True s = kseq (kfree ?p) (poke64 (slot pt 0 v) 0) s"
    using pt lk(1) valid slot_nonzero [OF pk(5) pt0] lt
    by (simp add: uvmunmap_body_def walk_lookup kmonad)
  moreover have "kframe ext s s'" using pk(4) kf(3) by (rule kframe_trans)
  moreover have "uview s' r' va = (if r' = r \<and> PGROUNDDOWN va = v then None else uview s r' va)"
    if "r' \<in> R" for r' va
  proof (cases "r' = r \<and> PGROUNDDOWN va = v")
    case True
    have "entry (ram s') r v = 0" using kf(5) pk(2) [OF r(1) vp] r(1) by simp
    then show ?thesis using True by (simp add: uview_def user_leaf_def)
  next
    case False
    have "uview s' r' va = uview ?s1 r' va" using kf(4) that by simp
    also have "\<dots> = uview s r' va" by (rule pk(3) [OF that]) (use False in blast)
    finally show ?thesis using False by auto
  qed
  ultimately show ?thesis using kf(2,5) pk(2) by auto
qed

text \<open>The pages of a range of virtual addresses.\<close>

definition in_range :: "uint64 \<Rightarrow> nat \<Rightarrow> uint64 \<Rightarrow> bool" where
  "in_range a n v \<longleftrightarrow> unat a \<le> unat v \<and> unat v < unat a + 4096 * n"

lemma in_range_Suc:
  assumes "a \<in> vpages" "v \<in> vpages" "unat (a + PGSIZE) = unat a + 4096"
  shows "in_range a (Suc n) v \<longleftrightarrow> v = a \<or> in_range (a + PGSIZE) n v"
  using vpage_range_Suc [OF assms(1,2), of n] by (simp add: in_range_def assms(3))

lemma upages_step:
  assumes "a \<in> vpages" "unat a + 4096 * Suc n \<le> unat (TRAPFRAME :: uint64)"
  shows "a \<in> upages" "unat (a + PGSIZE) = unat a + 4096" "a + PGSIZE \<in> vpages"
proof -
  have lt: "unat a + 4096 * Suc n < 2 ^ 38" using assms(2) by simp
  show "a \<in> upages" using assms by (simp add: upages_def word_less_nat_alt)
  show "unat (a + PGSIZE) = unat a + 4096" "a + PGSIZE \<in> vpages"
    using vpage_step [OF assms(1) lt] by auto
qed

lemma vm_unmap_loop:
  assumes "vinv R ext fl s" "\<forall>p. 0 \<le> ext p" "r \<in> R" "a \<in> vpages"
    and "unat a + 4096 * n \<le> unat (TRAPFRAME :: uint64)" "unat lst = unat a + 4096 * n"
    and "\<forall>v\<in>vpages. in_range a n v \<longrightarrow> entry (ram s) r v AND PTE_V \<noteq> 0"
  shows "\<exists>fl' s'. uvmunmap_loop r a lst True s = Inr ((), s') \<and> vinv R ext fl' s' \<and> kframe ext s s'
    \<and> (\<forall>r'\<in>R. \<forall>v'\<in>vpages. entry (ram s') r' v' = (if r' = r \<and> in_range a n v' then 0 else entry (ram s) r' v'))
    \<and> (\<forall>r'\<in>R. \<forall>va<MAXVA. uview s' r' va = (if r' = r \<and> in_range a n (PGROUNDDOWN va) then None else uview s r' va))"
  using assms
proof (induction n arbitrary: a fl s)
  case 0
  then have "\<not> a < lst" by (simp add: word_less_nat_alt)
  with 0 show ?case by (auto simp: uvmunmap_loop.simps [of r a] in_range_def)
next
  case (Suc n)
  note st = upages_step [OF Suc.prems(4,5)]
  have lt: "a < lst" using Suc.prems(6) by (simp add: word_less_nat_alt)
  have rg: "in_range a (Suc n) v \<longleftrightarrow> v = a \<or> in_range (a + PGSIZE) n v" if "v \<in> vpages" for v
    using in_range_Suc [OF Suc.prems(4) that st(2)] .
  have na: "\<not> in_range (a + PGSIZE) n a" by (simp add: in_range_def st(2))
  from vm_unmap [OF Suc.prems(1,2,3) st(1)] Suc.prems(4,7) rg obtain fl1 t where
    t: "uvmunmap_body r a True s = Inr ((), t)" "vinv R ext fl1 t" "kframe ext s t"
      "\<forall>r'\<in>R. \<forall>v'\<in>vpages. entry (ram t) r' v' = (if r' = r \<and> v' = a then 0 else entry (ram s) r' v')"
      "\<forall>r'\<in>R. \<forall>va. uview t r' va = (if r' = r \<and> PGROUNDDOWN va = a then None else uview s r' va)"
    by auto
  have "\<forall>v\<in>vpages. in_range (a + PGSIZE) n v \<longrightarrow> entry (ram t) r v AND PTE_V \<noteq> 0"
    using Suc.prems(3,7) t(4) rg na by auto
  with Suc.IH [OF t(2) Suc.prems(2,3) st(3)] Suc.prems(5,6) st(2) obtain fl' s' where
    s': "uvmunmap_loop r (a + PGSIZE) lst True t = Inr ((), s')" "vinv R ext fl' s'" "kframe ext t s'"
      "\<forall>r'\<in>R. \<forall>v'\<in>vpages. entry (ram s') r' v' =
         (if r' = r \<and> in_range (a + PGSIZE) n v' then 0 else entry (ram t) r' v')"
      "\<forall>r'\<in>R. \<forall>va<MAXVA. uview s' r' va =
         (if r' = r \<and> in_range (a + PGSIZE) n (PGROUNDDOWN va) then None else uview t r' va)"
    by auto
  have "uvmunmap_loop r a lst True s = Inr ((), s')"
    using lt t(1) s'(1) by (simp add: uvmunmap_loop.simps [of r a])
  moreover have "kframe ext s s'" using t(3) s'(3) by (rule kframe_trans)
  moreover have "uview s' r' va = (if r' = r \<and> in_range a (Suc n) (PGROUNDDOWN va) then None else uview s r' va)"
    if "r' \<in> R" "va < MAXVA" for r' va
    using s'(5) t(5) that rg [OF PGROUNDDOWN_vpages [OF that(2)]] by auto
  moreover have "entry (ram s') r' v' = (if r' = r \<and> in_range a (Suc n) v' then 0 else entry (ram s) r' v')"
    if "r' \<in> R" "v' \<in> vpages" for r' v'
    using s'(4) t(4) that rg [OF that(2)] by auto
  ultimately show ?case using s'(2) by blast
qed

end
