(* ===== verification/Uops.thy ===== *)
theory Uops
  imports Uspace
begin

text \<open>
  What the address-space operations of \<^verbatim>\<open>kernel/vm.c\<close> do to the views of the processes:
  \<open>uvmunmap\<close>, \<open>uvmdealloc\<close> and \<open>uvmalloc\<close> remove and add zeroed memory at the end of one view,
  \<open>uvmcopy\<close> duplicates a view, \<open>cowalloc\<close> changes no view, \<open>copyout\<close> writes into one view and
  \<open>copyin\<close> and \<open>copyinstr\<close> read from one.
\<close>

section \<open>Sizes and ranges\<close>

lemma unat_PGROUNDUP:
  assumes "unat a + 4095 < 2 ^ 64"
  shows "unat (PGROUNDUP a) = 4096 * ((unat a + 4095) div 4096)"
proof -
  have u: "unat (a + 4095) = unat a + 4095" using assms by (simp add: unat_word_ariths)
  have "PGROUNDUP a = PGROUNDDOWN (a + 4095)"
    by (simp add: PGROUNDUP_def PGROUNDDOWN_def add_diff_eq [symmetric])
  then show ?thesis by (simp add: unat_PGROUNDDOWN u minus_mod_eq_mult_div)
qed

abbreviation (input) utop :: nat where "utop \<equiv> 274877898752"

lemma unat_TRAPFRAME: "unat (TRAPFRAME :: uint64) = utop"
  by simp

lemma PGROUNDUP_below:
  assumes "unat a \<le> utop"
  shows "unat (PGROUNDUP a) \<le> utop" "unat a \<le> unat (PGROUNDUP a)" "4096 dvd unat (PGROUNDUP a)"
    "unat (PGROUNDUP a) < unat a + 4096"
proof -
  have e: "unat (PGROUNDUP a) = 4096 * ((unat a + 4095) div 4096)"
    using assms by (intro unat_PGROUNDUP) simp
  show "4096 dvd unat (PGROUNDUP a)" unfolding e by simp
  show "unat a \<le> unat (PGROUNDUP a)" "unat (PGROUNDUP a) < unat a + 4096" unfolding e by linarith+
  have "(unat a + 4095) div 4096 \<le> (utop + 4095) div 4096" using assms by (intro div_le_mono) simp
  then show "unat (PGROUNDUP a) \<le> utop" unfolding e by simp
qed

lemma PGROUNDUP_vpages: "unat a \<le> utop \<Longrightarrow> PGROUNDUP a \<in> vpages"
  using PGROUNDUP_below [of a] by (simp add: vpages_def aligned_unat word_less_nat_alt)

text \<open>A page starts below a size exactly when it starts below the size rounded up.\<close>

lemma vpage_below:
  assumes "unat a \<le> utop" "v \<in> vpages"
  shows "unat v < unat (PGROUNDUP a) \<longleftrightarrow> unat v < unat a"
proof -
  have "4096 dvd unat v" using assms(2) by (simp add: vpages_def aligned_unat)
  then show ?thesis using PGROUNDUP_below [OF assms(1)] by (auto elim!: dvdE)
qed

abbreviation valid :: "'a pmem_scheme \<Rightarrow> addr \<Rightarrow> uint64 \<Rightarrow> bool" where
  "valid s r v \<equiv> entry (ram s) r v AND PTE_V \<noteq> 0"

text \<open>The table maps exactly the user pages below \<open>sz\<close>.\<close>

definition sized :: "'a pmem_scheme \<Rightarrow> addr \<Rightarrow> uint64 \<Rightarrow> bool" where
  "sized s r sz \<longleftrightarrow> (\<forall>v\<in>upages. valid s r v \<longleftrightarrow> v < sz)"

section \<open>The effect of an operation on one address space\<close>

text \<open>\<open>vmpost R ext s r U V fl' s'\<close>: from \<open>s\<close> to \<open>s'\<close> the invariant is kept, the user pages of \<open>r\<close>
  are now \<open>U\<close>, its view is now \<open>V\<close>, and every other view, table and kernel page is unchanged.\<close>

definition vmpost :: "addr set \<Rightarrow> (addr \<Rightarrow> int) \<Rightarrow> 'a pmem_scheme \<Rightarrow> addr \<Rightarrow> (uint64 \<Rightarrow> bool)
    \<Rightarrow> (uint64 \<Rightarrow> uint8 option) \<Rightarrow> addr list \<Rightarrow> 'a pmem_scheme \<Rightarrow> bool" where
  "vmpost R ext s r U V fl' s' \<longleftrightarrow> vinv R ext fl' s' \<and> kframe ext s s'
     \<and> (\<forall>r'\<in>R. \<forall>v\<in>vpages. r' \<noteq> r \<or> v \<notin> upages \<longrightarrow> entry (ram s') r' v = entry (ram s) r' v)
     \<and> (\<forall>v\<in>upages. valid s' r v \<longleftrightarrow> U v)
     \<and> (\<forall>r'\<in>R. uview s' r' = (if r' = r then V else uview s r'))"

lemma vmpostD:
  assumes "vmpost R ext s r U V fl' s'"
  shows "vinv R ext fl' s'" "kframe ext s s'"
    "\<And>r' v. r' \<in> R \<Longrightarrow> v \<in> vpages \<Longrightarrow> r' \<noteq> r \<or> v \<notin> upages \<Longrightarrow> entry (ram s') r' v = entry (ram s) r' v"
    "\<And>v. v \<in> upages \<Longrightarrow> valid s' r v \<longleftrightarrow> U v"
    "r \<in> R \<Longrightarrow> uview s' r = V" "\<And>r'. r' \<in> R \<Longrightarrow> r' \<noteq> r \<Longrightarrow> uview s' r' = uview s r'"
  using assms by (simp_all add: vmpost_def)

lemma vmpost_trans:
  assumes "vmpost R ext s r U1 V1 fl1 t" "vmpost R ext t r U2 V2 fl2 u"
  shows "vmpost R ext s r U2 V2 fl2 u"
  using vmpostD [OF assms(1)] vmpostD [OF assms(2)] kframe_trans
  unfolding vmpost_def by auto

lemma vmpost_cong:
  "vmpost R ext s r U V fl' s' \<Longrightarrow> (\<And>v. v \<in> upages \<Longrightarrow> U v = U' v) \<Longrightarrow> (\<And>va. V va = V' va) \<Longrightarrow>
    vmpost R ext s r U' V' fl' s'"
  unfolding vmpost_def by (auto simp: fun_eq_iff)

lemma vmpost_refl: "vinv R ext fl s \<Longrightarrow> vmpost R ext s r (valid s r) (uview s r) fl s"
  by (simp add: vmpost_def)

lemma upages_vpages: "v \<in> upages \<Longrightarrow> v \<in> vpages"
  by (simp add: upages_def)

lemma uview_high: "\<not> va < MAXVA \<Longrightarrow> uview s r va = None"
  by (simp add: uview_def)

text \<open>An invalid page is not in the view.\<close>

lemma uview_invalid: "\<not> valid s r (PGROUNDDOWN va) \<Longrightarrow> uview s r va = None"
  by (simp add: uview_def user_leaf_def)

section \<open>uvmunmap and uvmdealloc\<close>

lemma uvmunmap_post:
  assumes inv: "vinv R ext fl s" "\<forall>p. 0 \<le> ext p" and r: "r \<in> R" "a \<in> vpages"
    and n: "unat a + 4096 * unat npages \<le> utop"
    and v: "\<forall>v\<in>vpages. in_range a (unat npages) v \<longrightarrow> valid s r v"
  shows "\<exists>fl' s'. uvmunmap r a npages True s = Inr ((), s')
    \<and> vmpost R ext s r (\<lambda>v. valid s r v \<and> \<not> in_range a (unat npages) v)
        (\<lambda>va. if in_range a (unat npages) (PGROUNDDOWN va) then None else uview s r va) fl' s'"
proof -
  have "unat npages * 4096 < 2 ^ 64" using n by simp
  then have "unat (npages * PGSIZE) = unat npages * 4096" by (simp add: unat_word_ariths)
  then have u: "unat (a + npages * PGSIZE) = unat a + 4096 * unat npages"
    using n by (subst unat_add_lt) simp_all
  have al: "a mod PGSIZE = 0" using r(2) by (simp add: vpages_def aligned_def)
  from vm_unmap_loop [OF inv r _ u v] n obtain fl' s' where
    l: "uvmunmap_loop r a (a + npages * PGSIZE) True s = Inr ((), s')" "vinv R ext fl' s'" "kframe ext s s'"
      "\<forall>r'\<in>R. \<forall>v'\<in>vpages. entry (ram s') r' v' =
        (if r' = r \<and> in_range a (unat npages) v' then 0 else entry (ram s) r' v')"
      "\<forall>r'\<in>R. \<forall>va<MAXVA. uview s' r' va =
        (if r' = r \<and> in_range a (unat npages) (PGROUNDDOWN va) then None else uview s r' va)"
    by auto
  have "uview s' r' va = (if r' = r \<and> in_range a (unat npages) (PGROUNDDOWN va) then None else uview s r' va)"
    if "r' \<in> R" for r' va
    using l(5) that uview_high [of va] by (cases "va < MAXVA") auto
  then have vw: "uview s' r' = (if r' = r then \<lambda>va. if in_range a (unat npages) (PGROUNDDOWN va) then None
      else uview s r va else uview s r')" if "r' \<in> R" for r'
    using that by (auto simp: fun_eq_iff)
  have up: "\<not> in_range a (unat npages) v" if "v \<in> vpages" "v \<notin> upages" for v
    using that n by (auto simp: in_range_def upages_def word_less_nat_alt)
  have "vmpost R ext s r (\<lambda>v. valid s r v \<and> \<not> in_range a (unat npages) v)
      (\<lambda>va. if in_range a (unat npages) (PGROUNDDOWN va) then None else uview s r va) fl' s'"
    unfolding vmpost_def using l(2-4) vw up r(1) upages_vpages by auto
  then show ?thesis using l(1) al by (auto simp: uvmunmap_def)
qed

lemma c_int_small: "unat x < 2 ^ 31 \<Longrightarrow> c_int x = x"
proof -
  assume a: "unat x < 2 ^ 31"
  have "bit (c_int x) n = bit x n" if n: "n < 64" for n
  proof -
    have hi: "\<not> bit x k" if "31 \<le> k" for k
    proof -
      have "(2 :: nat) ^ 31 \<le> 2 ^ k" using that by (intro power_increasing) auto
      then have "\<not> bit (unat x) k" using a by (simp add: bit_iff_odd)
      then show ?thesis by (auto simp: bit_unsigned_iff dest: bit_imp_le_length)
    qed
    then show ?thesis using n by (auto simp: c_int_def bit_simps min_def)
  qed
  then show ?thesis by (intro bit_word_eqI) simp
qed

lemma page_count:
  assumes "4096 dvd unat a" "4096 dvd unat b" "a \<le> b"
  shows "unat ((b - a) div PGSIZE) = (unat b - unat a) div 4096"
    "unat a + 4096 * unat ((b - a) div PGSIZE) = unat b"
proof -
  have u: "unat (b - a) = unat b - unat a" using assms(3) by (rule unat_sub)
  show e: "unat ((b - a) div PGSIZE) = (unat b - unat a) div 4096" by (simp add: unat_div u)
  have "4096 dvd (unat b - unat a)" using assms by simp
  then show "unat a + 4096 * unat ((b - a) div PGSIZE) = unat b"
    unfolding e using assms(3) by (simp add: word_le_nat_alt)
qed

text \<open>\<open>between a b v\<close>: the page of \<open>v\<close> starts at or above \<open>a\<close> and below \<open>b\<close>.\<close>

definition between :: "uint64 \<Rightarrow> uint64 \<Rightarrow> uint64 \<Rightarrow> bool" where
  "between a b v \<longleftrightarrow> unat a \<le> unat v \<and> unat v < unat b"

lemma uvmdealloc_post:
  assumes inv: "vinv R ext fl s" "\<forall>p. 0 \<le> ext p" and r: "r \<in> R" and old: "unat oldsz \<le> utop"
    and v: "\<forall>v\<in>vpages. between newsz oldsz v \<longrightarrow> valid s r v"
  shows "\<exists>fl' s'. uvmdealloc r oldsz newsz s = Inr (if newsz \<ge> oldsz then oldsz else newsz, s')
    \<and> vmpost R ext s r (\<lambda>v. valid s r v \<and> \<not> between newsz oldsz v)
        (\<lambda>va. if between newsz oldsz (PGROUNDDOWN va) then None else uview s r va) fl' s'"
proof (cases "newsz \<ge> oldsz")
  case True
  then have "\<not> between newsz oldsz v" for v by (auto simp: between_def word_le_nat_alt)
  then show ?thesis
    using True vmpost_refl [OF inv(1), of r] by (auto simp: uvmdealloc_def)
next
  case False
  then have lt: "newsz < oldsz" by simp
  then have new: "unat newsz \<le> utop" using old by (simp add: word_less_nat_alt)
  let ?a = "PGROUNDUP newsz" and ?b = "PGROUNDUP oldsz"
  note pa = PGROUNDUP_below [OF new] and pb = PGROUNDUP_below [OF old]
  have bt: "between newsz oldsz v \<longleftrightarrow> between ?a ?b v" if "v \<in> vpages" for v
    using vpage_below [OF new that] vpage_below [OF old that] by (auto simp: between_def)
  show ?thesis
  proof (cases "?a < ?b")
    case True
    let ?n = "(?b - ?a) div PGSIZE"
    note pc = page_count [OF pa(3) pb(3)]
    have le: "?a \<le> ?b" using True by simp
    have n: "c_int ?n = ?n"
      using pc(1) [OF le] pb(1) by (intro c_int_small) (simp add: less_mult_imp_div_less)
    have rg: "in_range ?a (unat ?n) v \<longleftrightarrow> between ?a ?b v" for v
      using pc(2) [OF le] by (simp add: in_range_def between_def)
    have "\<forall>v\<in>vpages. in_range ?a (unat ?n) v \<longrightarrow> valid s r v" using v rg bt by blast
    from uvmunmap_post [OF inv r PGROUNDUP_vpages [OF new] _ this] pc(2) [OF le] pb(1)
    obtain fl' s' where u: "uvmunmap r ?a ?n True s = Inr ((), s')"
      "vmpost R ext s r (\<lambda>v. valid s r v \<and> \<not> in_range ?a (unat ?n) v)
        (\<lambda>va. if in_range ?a (unat ?n) (PGROUNDDOWN va) then None else uview s r va) fl' s'" by auto
    have "vmpost R ext s r (\<lambda>v. valid s r v \<and> \<not> between newsz oldsz v)
        (\<lambda>va. if between newsz oldsz (PGROUNDDOWN va) then None else uview s r va) fl' s'"
    proof (rule vmpost_cong [OF u(2)])
      fix va
      show "(if in_range ?a (unat ?n) (PGROUNDDOWN va) then None else uview s r va) =
        (if between newsz oldsz (PGROUNDDOWN va) then None else uview s r va)"
        using rg bt PGROUNDDOWN_vpages [of va] uview_high [of va s r] by (cases "va < MAXVA") auto
    qed (use rg bt upages_vpages in auto)
    then show ?thesis using False True u(1) n by (auto simp: uvmdealloc_def kmonad)
  next
    case nlt: False
    then have "\<not> between ?a ?b v" for v by (auto simp: between_def word_less_nat_alt)
    then have nb: "\<not> between newsz oldsz v" if "v \<in> vpages" for v using bt that by blast
    have "vmpost R ext s r (\<lambda>v. valid s r v \<and> \<not> between newsz oldsz v)
        (\<lambda>va. if between newsz oldsz (PGROUNDDOWN va) then None else uview s r va) fl s"
      by (rule vmpost_cong [OF vmpost_refl [OF inv(1)]])
        (use nb upages_vpages PGROUNDDOWN_vpages uview_high in fastforce)+
    then show ?thesis using False nlt by (auto simp: uvmdealloc_def kmonad)
  qed
qed

section \<open>uvmalloc\<close>

lemma vm_perm: "PTE_W OR PTE_X OR PTE_R OR PTE_U = (30 :: uint64)"
  by simp

lemma fresh_leaf_ok:
  assumes "aligned pa" "v \<in> upages" "usable (kend s) pa" "refcnt s (pidx pa) = 1"
  shows "leaf_ok s v (PA2PTE pa OR 30 OR PTE_V)" "user_leaf (PA2PTE pa OR 30 OR PTE_V)"
    "PTE2PA (PA2PTE pa OR 30 OR PTE_V) = pa"
proof -
  have t: "(PA2PTE pa OR 30 OR PTE_V) AND g = (30 OR PTE_V) AND g" if "g < 0x400" for g
    using assms(1) that by (intro pte_make_test) auto
  show p: "PTE2PA (PA2PTE pa OR 30 OR PTE_V) = pa" using assms(1) by (intro pte_make) auto
  have "PTE_FLAGS (PA2PTE pa OR 30 OR PTE_V) = 31" using pte_make(2) [OF assms(1), of 30] by simp
  then show "leaf_ok s v (PA2PTE pa OR 30 OR PTE_V)"
    using assms p t [of PTE_V] t [of PTE_W] by (simp add: leaf_ok_def)
  show "user_leaf (PA2PTE pa OR 30 OR PTE_V)"
    using t [of PTE_V] t [of PTE_U] by (simp add: user_leaf_def)
qed

lemma vmpost_pre:
  assumes "kframe ext s t" "\<And>r v. r \<in> R \<Longrightarrow> v \<in> vpages \<Longrightarrow> entry (ram t) r v = entry (ram s) r v"
    and "\<And>r. r \<in> R \<Longrightarrow> uview t r = uview s r" and "vmpost R ext t r U V fl' s'"
  shows "vmpost R ext s r U V fl' s'"
  using vmpostD [OF assms(4)] assms(2,3) kframe_trans [OF assms(1)] unfolding vmpost_def by auto

lemma kframe_mono: "kframe ext' s t \<Longrightarrow> (\<And>p. ext p \<le> ext' p) \<Longrightarrow> kframe ext s t"
  unfolding kframe_def kpage_def by (meson order_trans)

lemma kframe_kend: "kframe ext s t \<Longrightarrow> kend t = kend s"
  by (simp add: kframe_def mem_only_kend)

lemma vpage_of: "PGROUNDDOWN va \<in> vpages \<Longrightarrow> va < MAXVA"
proof -
  assume v: "PGROUNDDOWN va \<in> vpages"
  then have d: "4096 dvd unat (PGROUNDDOWN va)" "unat (PGROUNDDOWN va) < 2 ^ 38"
    by (simp_all add: vpages_def aligned_unat word_less_nat_alt)
  have "unat va = unat (PGROUNDDOWN va) + unat va mod 4096" by (simp add: unat_PGROUNDDOWN)
  moreover have "unat va mod 4096 < 4096" by simp
  ultimately have "unat va < 2 ^ 38" using d by (auto elim!: dvdE)
  then show ?thesis by (simp add: word_less_nat_alt)
qed

text \<open>A page fresh from the allocator, zeroed.\<close>

lemma vm_fresh:
  assumes inv: "vinv R ext (q # fl) s" and ext: "\<forall>p. 0 \<le> ext p"
  shows "\<exists>t. kalloc s = Inr (q, t) \<and> (let u = t\<lparr>ram := memset (ram t) q 0 4096\<rparr> in
      vinv R (ext(q := 1)) fl u \<and> kframe ext s u \<and> blank (ram u) q \<and> refcnt u (pidx q) = 1
      \<and> (\<forall>r\<in>R. uview u r = uview s r) \<and> (\<forall>r\<in>R. \<forall>v. entry (ram u) r v = entry (ram s) r v)
      \<and> (\<forall>x. x \<noteq> q \<longrightarrow> same_page (ram s) (ram u) x))"
proof -
  note fp = free_page [OF inv ext, of q, simplified]
  from vm_kalloc [OF inv ext] obtain t where
    t: "kalloc s = Inr (q, t)" "vinv R (ext(q := 1)) fl t" "kframe ext s t"
      "\<forall>r\<in>R. uview t r = uview s r" "refcnt t = (refcnt s)(pidx q := 1)"
      "\<forall>x. x \<noteq> q \<longrightarrow> same_page (ram s) (ram t) x" "\<forall>r\<in>R. \<forall>v. entry (ram t) r v = entry (ram s) r v"
    by blast
  let ?u = "t\<lparr>ram := memset (ram t) q 0 4096\<rparr>"
  have al: "aligned q" using fp(1) by (rule usable_aligned)
  have e1: "\<forall>p. 0 \<le> (ext(q := 1)) p" using ext by simp
  have us: "usable (kend t) q" using fp(1) kframe_kend [OF t(3)] by simp
  have f: "\<And>x. x \<noteq> q \<Longrightarrow> same_page (ram t) (memset (ram t) q 0 4096) x"
    using al by (rule memset_same_page)
  have one: "1 \<le> (ext(q := 1)) q" "refcnt t (pidx q) = 1" using t(5) by simp_all
  note w = vm_write_private [OF t(2) e1 us one f]
  have sp: "same_page (ram s) (ram ?u) x" if "x \<noteq> q" for x
    using t(6) f [OF that] that same_page_trans by fastforce
  have "kframe ext s ?u"
    using t(3) sp kpage_private(1) [OF inv ext] by (auto simp: kframe_def)
  moreover have "blank (ram ?u) q" using al by (simp add: blank_memset)
  moreover have "\<forall>r\<in>R. uview ?u r = uview s r" "\<forall>r\<in>R. \<forall>v. entry (ram ?u) r v = entry (ram s) r v"
    using w(2,3) t(4,7) by simp_all
  moreover have "vinv R (ext(q := 1)) fl ?u" by (rule w(1))
  ultimately show ?thesis
    using t(1) sp one(2) unfolding Let_def by (intro exI [of _ t]) (simp del: fun_upd_apply)
qed

lemma uvmalloc_body_post:
  assumes inv: "vinv R ext fl s" and ext: "\<forall>p. 0 \<le> ext p" and r: "r \<in> R" "a \<in> upages"
    and free: "\<not> valid s r a" and b: "\<forall>v\<in>vpages. between old a v \<longrightarrow> valid s r v"
  shows "(\<exists>fl' s'. uvmalloc_body r a old s = Inr (True, s')
      \<and> vmpost R ext s r (\<lambda>v. valid s r v \<or> v = a)
          (\<lambda>va. if PGROUNDDOWN va = a then Some 0 else uview s r va) fl' s')
    \<or> (\<exists>fl' s'. uvmalloc_body r a old s = Inr (False, s')
      \<and> vmpost R ext s r (\<lambda>v. valid s r v \<and> \<not> between old a v)
          (\<lambda>va. if between old a (PGROUNDDOWN va) then None else uview s r va) fl' s')"
proof -
  have av: "a \<in> vpages" using r(2) by (rule upages_vpages)
  have al: "aligned a" using av by (simp add: vpages_def)
  have au: "unat a \<le> utop" using r(2) by (simp add: upages_def word_less_nat_alt)
  have dealloc: "\<exists>fl' s'. uvmdealloc r a old t = Inr (if old \<ge> a then a else old, s')
      \<and> vmpost R ext s r (\<lambda>v. valid s r v \<and> \<not> between old a v)
          (\<lambda>va. if between old a (PGROUNDDOWN va) then None else uview s r va) fl' s'"
    if t: "vinv R ext fl1 t" "kframe ext s t"
      "\<And>r' v. r' \<in> R \<Longrightarrow> v \<in> vpages \<Longrightarrow> entry (ram t) r' v = entry (ram s) r' v"
      "\<And>r. r \<in> R \<Longrightarrow> uview t r = uview s r"
    for fl1 t
  proof -
    have "\<forall>v\<in>vpages. between old a v \<longrightarrow> valid t r v" using b t(3) [OF r(1)] by simp
    from uvmdealloc_post [OF t(1) ext r(1) au this] obtain fl' s' where
      "uvmdealloc r a old t = Inr (if old \<ge> a then a else old, s')"
      "vmpost R ext t r (\<lambda>v. valid t r v \<and> \<not> between old a v)
        (\<lambda>va. if between old a (PGROUNDDOWN va) then None else uview t r va) fl' s'" by blast
    moreover from this(2) have "vmpost R ext t r (\<lambda>v. valid s r v \<and> \<not> between old a v)
        (\<lambda>va. if between old a (PGROUNDDOWN va) then None else uview s r va) fl' s'"
      by (rule vmpost_cong) (simp_all add: t(3) [OF r(1) upages_vpages] t(4) [OF r(1)])
    from vmpost_pre [OF t(2) _ _ this] t(3,4)
    have "vmpost R ext s r (\<lambda>v. valid s r v \<and> \<not> between old a v)
        (\<lambda>va. if between old a (PGROUNDDOWN va) then None else uview s r va) fl' s'" by blast
    ultimately show ?thesis by blast
  qed
  show ?thesis
  proof (cases fl)
    case Nil
    have "vinv R ext [] (settled s)" using inv Nil vinv_settled by blast
    from dealloc [OF this] obtain fl' s' where
      "uvmdealloc r a old (settled s) = Inr (if old \<ge> a then a else old, s')"
      "vmpost R ext s r (\<lambda>v. valid s r v \<and> \<not> between old a v)
          (\<lambda>va. if between old a (PGROUNDDOWN va) then None else uview s r va) fl' s'" by auto
    moreover from this(1) have "uvmalloc_body r a old s = Inr (False, s')"
      using vm_kalloc_nil [of R ext s] inv Nil by (simp add: uvmalloc_body_def kmonad)
    ultimately show ?thesis by blast
  next
    case (Cons q fl1)
    have inv': "vinv R ext (q # fl1) s" using inv Cons by simp
    note fp = free_page [OF inv' ext, of q, simplified]
    have q0: "q \<noteq> 0" "aligned q" "q \<notin> set fl1"
      using fp(1) vinvD(1) [OF inv'] by (auto simp: kinv_def usable_aligned dest: usable_nonzero)
    from vm_fresh [OF inv' ext] obtain t where ka: "kalloc s = Inr (q, t)" and
      u: "let u = t\<lparr>ram := memset (ram t) q 0 4096\<rparr> in
        vinv R (ext(q := 1)) fl1 u \<and> kframe ext s u \<and> blank (ram u) q \<and> refcnt u (pidx q) = 1
        \<and> (\<forall>r\<in>R. uview u r = uview s r) \<and> (\<forall>r\<in>R. \<forall>v. entry (ram u) r v = entry (ram s) r v)
        \<and> (\<forall>x. x \<noteq> q \<longrightarrow> same_page (ram s) (ram u) x)" by blast
    define u where "u = t\<lparr>ram := memset (ram t) q 0 4096\<rparr>"
    define e where "e = ext(q := 1)"
    have u: "vinv R e fl1 u" "kframe ext s u" "blank (ram u) q" "refcnt u (pidx q) = 1"
      "\<forall>r\<in>R. uview u r = uview s r" "\<forall>r\<in>R. \<forall>v. entry (ram u) r v = entry (ram s) r v"
      using u unfolding u_def e_def Let_def by blast+
    have e1: "\<forall>p. 0 \<le> e p" using ext by (simp add: e_def)
    have us: "usable (kend u) q" using fp(1) kframe_kend [OF u(2)] by simp
    have bk: "e(q := e q - 1) = ext" using fp(3) by (auto simp: e_def)
    have km: "kframe ext x y" if "kframe e x y" for x y :: "'a pmem_scheme"
      by (rule kframe_mono [OF that]) (use fp(3) in \<open>simp add: e_def\<close>)
    have fr: "entry (ram u) r a AND PTE_V = 0" using free u(6) r(1) by simp
    note lk = fresh_leaf_ok [OF q0(2) r(2) us u(4)]
    have "a \<in> upages \<longleftrightarrow> True" using r(2) by simp
    with vm_map [OF u(1) e1 r(1) av fr q0(2) _ q0(3) lk(1)] bk
    consider (ok) fl' s' where "mappages r a PGSIZE q 30 u = Inr (0, s')"
        "vinv R ext fl' s'" "kframe e u s'"
        "\<forall>r'\<in>R. \<forall>v'\<in>vpages. entry (ram s') r' v' =
          (if r' = r \<and> v' = a then PA2PTE q OR 30 OR PTE_V else entry (ram u) r' v')"
        "\<forall>r'\<in>R. \<forall>va. (r' = r \<longrightarrow> PGROUNDDOWN va \<noteq> a) \<longrightarrow> uview s' r' va = uview u r' va"
        "\<forall>x. x \<notin> all_nodes (ram u) R \<longrightarrow> x \<notin> set fl1 \<longrightarrow> same_page (ram u) (ram s') x"
      | (fail) s' where "mappages r a PGSIZE q 30 u = Inr (- 1, s')" "vinv R e [] s'"
        "kframe e u s'"
        "\<forall>r'\<in>R. \<forall>v'\<in>vpages. entry (ram s') r' v' = entry (ram u) r' v'"
        "\<forall>r'\<in>R. uview s' r' = uview u r'"
      by auto
    then show ?thesis
    proof cases
      case ok
      have run: "uvmalloc_body r a old s = Inr (True, s')"
        using ka q0(1) ok(1) by (simp add: uvmalloc_body_def kmonad u_def)
      have "same_page (ram u) (ram s') q"
        using ok(6) held_page(2) [OF u(1) us u(4)] q0(3) by (simp add: e_def)
      with u(3) have bl: "blank (ram s') q" by (simp add: blank_def same_page_def)
      have en: "entry (ram s') r a = PA2PTE q OR 30 OR PTE_V" using ok(4) r(1) av by simp
      have "uview s' r va = Some 0" if "PGROUNDDOWN va = a" for va
        using that vpage_of [of va] av bl q0(2) lk(2,3) PGROUNDDOWN_add [OF q0(2), of "va - a"] page_offset_lt [of va]
        by (simp add: uview_def en blank_def)
      moreover have "uview s' r' va = uview s r' va" if "r' \<in> R" "r' = r \<longrightarrow> PGROUNDDOWN va \<noteq> a" for r' va
        using ok(5) u(5) that by simp
      ultimately have "vmpost R ext s r (\<lambda>v. valid s r v \<or> v = a)
          (\<lambda>va. if PGROUNDDOWN va = a then Some 0 else uview s r va) fl' s'"
        using ok(2,4) kframe_trans [OF u(2) km [OF ok(3)]] u(6) r lk(2) upages_vpages
        unfolding vmpost_def by (auto simp: fun_eq_iff user_leaf_def)
      with run show ?thesis by blast
    next
      case fail
      have us': "usable (kend s') q" using us kframe_kend [OF fail(3)] by simp
      have "1 \<le> e q" by (simp add: e_def)
      from vm_kfree [OF fail(2) e1 us' this] bk obtain fl2 t2 where
        t2: "kfree q s' = Inr ((), t2)" "vinv R ext fl2 t2" "kframe ext s' t2"
          "\<forall>r\<in>R. uview t2 r = uview s' r" "\<forall>r\<in>R. \<forall>v. entry (ram t2) r v = entry (ram s') r v" by auto
      have "kframe ext s t2"
        using kframe_trans [OF kframe_trans [OF u(2) km [OF fail(3)]] t2(3)] .
      from dealloc [OF t2(2) this] t2(4,5) fail(4,5) u(5,6) obtain fl' s2 where
        "uvmdealloc r a old t2 = Inr (if old \<ge> a then a else old, s2)"
        "vmpost R ext s r (\<lambda>v. valid s r v \<and> \<not> between old a v)
          (\<lambda>va. if between old a (PGROUNDDOWN va) then None else uview s r va) fl' s2" by auto
      moreover from this(1) have "uvmalloc_body r a old s = Inr (False, s2)"
        using ka q0(1) fail(1) t2(1) by (simp add: uvmalloc_body_def kmonad u_def)
      ultimately show ?thesis by blast
    qed
  qed
qed

lemma page_next:
  assumes "a \<in> vpages" "unat a < unat b" "unat b \<le> utop"
  shows "unat (a + PGSIZE) = unat a + 4096" "a + PGSIZE \<in> vpages" "a \<in> upages"
    "v \<in> vpages \<Longrightarrow> between a b v \<longleftrightarrow> v = a \<or> between (a + PGSIZE) b v"
    "v \<in> vpages \<Longrightarrow> between c (a + PGSIZE) v \<longleftrightarrow> between c a v \<or> (v = a \<and> unat c \<le> unat a)"
proof -
  have d: "4096 dvd unat a" using assms(1) by (simp add: vpages_def aligned_unat)
  have "unat a < utop" using assms by linarith
  then have "unat a + 4096 \<le> utop" using d by (auto elim!: dvdE)
  then show u: "unat (a + PGSIZE) = unat a + 4096" by (simp add: unat_word_ariths)
  show "a + PGSIZE \<in> vpages"
    using \<open>unat a + 4096 \<le> utop\<close> d u by (simp add: vpages_def aligned_unat word_less_nat_alt)
  show "a \<in> upages" using assms(1) \<open>unat a < utop\<close> by (simp add: upages_def word_less_nat_alt)
  assume "v \<in> vpages"
  then have dv: "4096 dvd unat v" by (simp add: vpages_def aligned_unat)
  have eq: "unat v = unat a \<longleftrightarrow> v = a" by (simp add: word_unat_eq_iff)
  have "unat v < unat a + 4096 \<longleftrightarrow> unat v \<le> unat a" "unat a + 4096 \<le> unat v \<longleftrightarrow> unat a < unat v"
    using d dv by (auto elim!: dvdE)
  then show "between a b v \<longleftrightarrow> v = a \<or> between (a + PGSIZE) b v"
    "between c (a + PGSIZE) v \<longleftrightarrow> between c a v \<or> (v = a \<and> unat c \<le> unat a)"
    using assms(2) eq unfolding between_def u by auto
qed

text \<open>Views agree once they agree on the addresses below \<open>MAXVA\<close>, whose pages are \<open>vpages\<close>.\<close>

lemma uview_page_cong:
  assumes "\<And>v. v \<in> vpages \<Longrightarrow> P v = Q v"
  shows "(if P (PGROUNDDOWN va) then None else uview s r va) = (if Q (PGROUNDDOWN va) then None else uview s r va)"
  using assms PGROUNDDOWN_vpages [of va] uview_high [of va s r] by (cases "va < MAXVA") auto

lemma uvmalloc_loop_post:
  assumes "vinv R ext fl s" and ext: "\<forall>p. 0 \<le> ext p" and r: "r \<in> R" and "a \<in> vpages"
    and "unat old \<le> unat a" and new: "unat newsz \<le> utop"
    and "\<forall>v\<in>vpages. between old a v \<longrightarrow> valid s r v"
    and "\<forall>v\<in>vpages. between a newsz v \<longrightarrow> \<not> valid s r v"
  shows "(\<exists>fl' s'. uvmalloc_loop r a old newsz s = Inr (newsz, s')
      \<and> vmpost R ext s r (\<lambda>v. valid s r v \<or> between a newsz v)
          (\<lambda>va. if PGROUNDDOWN va \<in> vpages \<and> between a newsz (PGROUNDDOWN va) then Some 0 else uview s r va) fl' s')
    \<or> (\<exists>fl' s'. uvmalloc_loop r a old newsz s = Inr (0, s')
      \<and> vmpost R ext s r (\<lambda>v. valid s r v \<and> \<not> between old a v)
          (\<lambda>va. if between old a (PGROUNDDOWN va) then None else uview s r va) fl' s')"
  using assms(1,4,5,7,8)
proof (induction "unat newsz - unat a" arbitrary: a s fl rule: less_induct)
  case less
  note inv = less.prems(1) and av = less.prems(2) and oa = less.prems(3) and b = less.prems(4)
    and nb = less.prems(5)
  show ?case
  proof (cases "a < newsz")
    case False
    then have "\<not> between a newsz v" for v by (auto simp: between_def word_less_nat_alt)
    then show ?thesis
      using False vmpost_refl [OF inv, of r] by (auto simp: uvmalloc_loop.simps)
  next
    case True
    then have lt: "unat a < unat newsz" by (simp add: word_less_nat_alt)
    note pn = page_next [OF av lt new]
    have free: "\<not> valid s r a" using nb pn(4) [OF av] av by blast
    from uvmalloc_body_post [OF inv ext r pn(3) free b] show ?thesis
    proof (elim disjE exE conjE)
      fix fl1 s1
      assume run: "uvmalloc_body r a old s = Inr (True, s1)" and
        post: "vmpost R ext s r (\<lambda>v. valid s r v \<or> v = a)
          (\<lambda>va. if PGROUNDDOWN va = a then Some 0 else uview s r va) fl1 s1"
      note D = vmpostD [OF post]
      have vs: "valid s1 r v \<longleftrightarrow> valid s r v \<or> v = a" if "v \<in> vpages" for v
        using D(3) [OF r that] D(4) [of v] pn(3) by (cases "v \<in> upages") auto
      have m: "unat newsz - unat (a + PGSIZE) < unat newsz - unat a" using pn(1) lt by simp
      have "\<forall>v\<in>vpages. between old (a + PGSIZE) v \<longrightarrow> valid s1 r v" using b vs pn(5) by blast
      moreover have "\<forall>v\<in>vpages. between (a + PGSIZE) newsz v \<longrightarrow> \<not> valid s1 r v"
        using nb vs pn(1,4) by (auto simp: between_def)
      moreover have "unat old \<le> unat (a + PGSIZE)" using oa pn(1) by simp
      ultimately consider
        (ok) fl' s' where "uvmalloc_loop r (a + PGSIZE) old newsz s1 = Inr (newsz, s')"
          "vmpost R ext s1 r (\<lambda>v. valid s1 r v \<or> between (a + PGSIZE) newsz v)
            (\<lambda>va. if PGROUNDDOWN va \<in> vpages \<and> between (a + PGSIZE) newsz (PGROUNDDOWN va) then Some 0
                   else uview s1 r va) fl' s'"
      | (fail) fl' s' where "uvmalloc_loop r (a + PGSIZE) old newsz s1 = Inr (0, s')"
          "vmpost R ext s1 r (\<lambda>v. valid s1 r v \<and> \<not> between old (a + PGSIZE) v)
            (\<lambda>va. if between old (a + PGSIZE) (PGROUNDDOWN va) then None else uview s1 r va) fl' s'"
        using less.hyps [OF m D(1) pn(2)] by blast
      then show ?thesis
      proof cases
        case ok
        have "vmpost R ext s r (\<lambda>v. valid s r v \<or> between a newsz v)
          (\<lambda>va. if PGROUNDDOWN va \<in> vpages \<and> between a newsz (PGROUNDDOWN va) then Some 0 else uview s r va) fl' s'"
          by (rule vmpost_cong [OF vmpost_trans [OF post ok(2)]])
            (use vs pn(4) D(5) [OF r] av upages_vpages in auto)
        then show ?thesis using ok(1) run True by (auto simp: uvmalloc_loop.simps [of r a])
      next
        case fail
        have "vmpost R ext s r (\<lambda>v. valid s r v \<and> \<not> between old a v)
          (\<lambda>va. if between old a (PGROUNDDOWN va) then None else uview s r va) fl' s'"
        proof (rule vmpost_cong [OF vmpost_trans [OF post fail(2)]])
          show "valid s1 r v \<and> \<not> between old (a + PGSIZE) v \<longleftrightarrow> valid s r v \<and> \<not> between old a v"
            if "v \<in> upages" for v
            using vs [OF upages_vpages [OF that]] pn(5) [OF upages_vpages [OF that]] oa free by auto
          show "(if between old (a + PGSIZE) (PGROUNDDOWN va) then None else uview s1 r va) =
            (if between old a (PGROUNDDOWN va) then None else uview s r va)" for va
            using pn(5) [OF PGROUNDDOWN_vpages, of va old] D(5) [OF r] oa uview_high [of va]
              uview_invalid [of s r va] free vpage_of [of va] av by (cases "va < MAXVA") auto
        qed
        then show ?thesis using fail(1) run True by (auto simp: uvmalloc_loop.simps [of r a])
      qed
    next
      fix fl1 s1
      assume "uvmalloc_body r a old s = Inr (False, s1)" and
        "vmpost R ext s r (\<lambda>v. valid s r v \<and> \<not> between old a v)
          (\<lambda>va. if between old a (PGROUNDDOWN va) then None else uview s r va) fl1 s1"
      then show ?thesis using True by (auto simp: uvmalloc_loop.simps [of r a])
    qed
  qed
qed

lemma sizedD: "sized s r sz \<Longrightarrow> v \<in> upages \<Longrightarrow> valid s r v \<longleftrightarrow> v < sz"
  by (simp add: sized_def)

lemma uvmalloc_post:
  assumes inv: "vinv R ext fl s" "\<forall>p. 0 \<le> ext p" and r: "r \<in> R" and sz: "sized s r oldsz"
    and le: "oldsz \<le> newsz" "unat newsz \<le> utop"
  shows "(\<exists>fl' s'. uvmalloc r oldsz newsz s = Inr (newsz, s') \<and> sized s' r newsz
      \<and> vmpost R ext s r (\<lambda>v. v < newsz)
          (\<lambda>va. if PGROUNDDOWN va \<in> vpages \<and> between oldsz newsz (PGROUNDDOWN va) then Some 0 else uview s r va) fl' s')
    \<or> (\<exists>fl' s'. uvmalloc r oldsz newsz s = Inr (0, s') \<and> vmpost R ext s r (\<lambda>v. v < oldsz) (uview s r) fl' s')"
proof -
  let ?a = "PGROUNDUP oldsz"
  have old: "unat oldsz \<le> utop" using le by (simp add: word_le_nat_alt)
  note pv = PGROUNDUP_vpages [OF old] and vb = vpage_below [OF old]
  have bt: "between ?a newsz v \<longleftrightarrow> between oldsz newsz v" if "v \<in> vpages" for v
    using vb [OF that] by (auto simp: between_def)
  have up: "v \<in> upages" if "v \<in> vpages" "between ?a newsz v" for v
    using that le(2) by (auto simp: upages_def between_def word_less_nat_alt)
  have "\<forall>v\<in>vpages. between ?a newsz v \<longrightarrow> \<not> valid s r v"
    using sizedD [OF sz] up bt by (auto simp: between_def word_less_nat_alt)
  moreover have nb: "\<not> between ?a ?a v" for v by (simp add: between_def)
  ultimately consider (ok) fl' s' where "uvmalloc_loop r ?a ?a newsz s = Inr (newsz, s')"
      "vmpost R ext s r (\<lambda>v. valid s r v \<or> between ?a newsz v)
        (\<lambda>va. if PGROUNDDOWN va \<in> vpages \<and> between ?a newsz (PGROUNDDOWN va) then Some 0 else uview s r va) fl' s'"
    | (fail) fl' s' where "uvmalloc_loop r ?a ?a newsz s = Inr (0, s')"
      "vmpost R ext s r (\<lambda>v. valid s r v) (\<lambda>va. uview s r va) fl' s'"
    using uvmalloc_loop_post [OF inv r pv order_refl le(2)] by auto
  then show ?thesis
  proof cases
    case ok
    have p: "vmpost R ext s r (\<lambda>v. v < newsz)
      (\<lambda>va. if PGROUNDDOWN va \<in> vpages \<and> between oldsz newsz (PGROUNDDOWN va) then Some 0 else uview s r va) fl' s'"
      by (rule vmpost_cong [OF ok(2)])
        (use sizedD [OF sz] bt upages_vpages le(1) in \<open>auto simp: between_def word_less_nat_alt word_le_nat_alt\<close>)
    then have "sized s' r newsz" by (simp add: sized_def vmpostD(4))
    then show ?thesis using ok(1) p le(1) by (auto simp: uvmalloc_def not_less)
  next
    case fail
    have "vmpost R ext s r (\<lambda>v. v < oldsz) (uview s r) fl' s'"
      by (rule vmpost_cong [OF fail(2)]) (use sizedD [OF sz] in auto)
    then show ?thesis using fail(1) le(1) by (auto simp: uvmalloc_def not_less)
  qed
qed

end
