(* ===== verification/Cow.thy ===== *)
theory Cow
  imports Uops
begin

text \<open>
  Copy-on-write.  \<open>uvmcopy\<close> gives the child the view of the parent by sharing its pages read-only;
  \<open>cowalloc\<close> resolves a write fault without changing any view.
\<close>

section \<open>Several address spaces at once\<close>

text \<open>\<open>vupd R ext s U V fl' s'\<close>: the invariant is kept, the valid pages of every table \<open>r\<close> are now
  \<open>U r\<close> and its view is \<open>V r\<close>; the kernel's pages and the mappings above the user pages are kept.\<close>

definition vupd :: "addr set \<Rightarrow> (addr \<Rightarrow> int) \<Rightarrow> 'a pmem_scheme \<Rightarrow> (addr \<Rightarrow> uint64 \<Rightarrow> bool)
    \<Rightarrow> (addr \<Rightarrow> uint64 \<Rightarrow> uint8 option) \<Rightarrow> addr list \<Rightarrow> 'a pmem_scheme \<Rightarrow> bool" where
  "vupd R ext s U V fl' s' \<longleftrightarrow> vinv R ext fl' s' \<and> kframe ext s s'
     \<and> (\<forall>r\<in>R. \<forall>v\<in>vpages. v \<notin> upages \<longrightarrow> entry (ram s') r v = entry (ram s) r v)
     \<and> (\<forall>r\<in>R. \<forall>v\<in>vpages. valid s' r v \<longleftrightarrow> U r v) \<and> (\<forall>r\<in>R. \<forall>va. uview s' r va = V r va)"

lemma vupdD:
  assumes "vupd R ext s U V fl' s'"
  shows "vinv R ext fl' s'" "kframe ext s s'"
    "\<And>r v. r \<in> R \<Longrightarrow> v \<in> vpages \<Longrightarrow> v \<notin> upages \<Longrightarrow> entry (ram s') r v = entry (ram s) r v"
    "\<And>r v. r \<in> R \<Longrightarrow> v \<in> vpages \<Longrightarrow> valid s' r v \<longleftrightarrow> U r v" "\<And>r va. r \<in> R \<Longrightarrow> uview s' r va = V r va"
  using assms by (simp_all add: vupd_def)

lemma vupd_trans:
  assumes "vupd R ext s U1 V1 fl1 t" "vupd R ext t U2 V2 fl2 u"
  shows "vupd R ext s U2 V2 fl2 u"
  using assms kframe_trans [of ext s t u] unfolding vupd_def by simp

lemma vupd_cong:
  "vupd R ext s U V fl' s' \<Longrightarrow> (\<And>r v. r \<in> R \<Longrightarrow> v \<in> vpages \<Longrightarrow> U r v = U' r v) \<Longrightarrow>
    (\<And>r va. r \<in> R \<Longrightarrow> V r va = V' r va) \<Longrightarrow> vupd R ext s U' V' fl' s'"
  unfolding vupd_def by simp

lemma vupd_refl: "vinv R ext fl s \<Longrightarrow> vupd R ext s (valid s) (uview s) fl s"
  by (simp add: vupd_def)

lemma vmpost_vupd:
  assumes "vmpost R ext s r U V fl' s'" "r \<in> R"
  shows "vupd R ext s (\<lambda>r' v. if r' = r \<and> v \<in> upages then U v else valid s r' v)
    (\<lambda>r'. if r' = r then V else uview s r') fl' s'"
  using vmpostD [OF assms(1)] assms(2) unfolding vupd_def by auto

text \<open>The same page seen through an entry of another table.\<close>

lemma uview_share:
  assumes "entry (ram s) r (PGROUNDDOWN va) = e" "entry (ram s') r' (PGROUNDDOWN va) = e'"
    and "user_leaf e' \<longleftrightarrow> user_leaf e" "PTE2PA e' = PTE2PA e" "same_page (ram s) (ram s') (PTE2PA e)"
  shows "uview s' r' va = uview s r va"
  using assms same_page_at [of "ram s" "ram s'" "PTE2PA e" "va - PGROUNDDOWN va"]
  by (simp add: uview_def Let_def)

section \<open>uvmcopy\<close>

lemma and_exp_cases: "y = 2 ^ n \<Longrightarrow> x AND y = 0 \<or> x AND y = (y :: uint64)"
  by (cases "bit x n") (auto intro!: bit_word_eqI simp: bit_and_iff bit_exp_iff)

lemma write_user:
  fixes e :: uint64
  assumes "e AND PTE_U \<noteq> 0"
  shows "e AND (PTE_W OR PTE_U) = PTE_W OR PTE_U \<longleftrightarrow> e AND PTE_W \<noteq> 0"
proof -
  have u: "e AND PTE_U = PTE_U" using assms and_exp_cases [of PTE_U 4 e] by auto
  have "e AND (PTE_W OR PTE_U) = (e AND PTE_W) OR (e AND PTE_U)" by (rule bit.conj_disj_distrib)
  then show ?thesis using u and_exp_cases [of PTE_W 2 e] by auto
qed

text \<open>The flags of both mappings after a writable page was shared.\<close>

lemma cow_flags:
  fixes F :: uint64
  defines "F' \<equiv> (F AND NOT PTE_W) OR PTE_COW"
  assumes "F < 0x400"
  shows "F' < 0x400" "F' AND PTE_W = 0" "F' AND PTE_U = F AND PTE_U" "F' AND PTE_V = F AND PTE_V"
    "F' AND PTE_COW = PTE_COW" "F' \<noteq> PTE_V"
proof -
  have "F AND NOT PTE_W < 0x400" using assms(2) word_and_le2 [of F "NOT PTE_W"] by (rule le_less_trans [rotated])
  then show "F' < 0x400" unfolding F'_def by (rule flags_or_lt) simp
  show "F' AND PTE_W = 0" "F' AND PTE_U = F AND PTE_U" "F' AND PTE_V = F AND PTE_V"
    and c: "F' AND PTE_COW = PTE_COW"
    unfolding F'_def by (simp_all add: bit.conj_disj_distrib2 and.assoc or_and_same)
  show "F' \<noteq> PTE_V"
  proof
    assume "F' = PTE_V"
    with c show False by simp
  qed
qed

text \<open>\<open>share_flags e\<close>: the flags \<open>uvmcopy\<close> gives the child for the entry \<open>e\<close> of the parent.\<close>

definition share_flags :: "uint64 \<Rightarrow> uint64" where
  "share_flags e = (if PTE_FLAGS e AND (PTE_W OR PTE_U) = PTE_W OR PTE_U
     then (PTE_FLAGS e AND NOT PTE_W) OR PTE_COW else PTE_FLAGS e)"

abbreviation share_pte :: "uint64 \<Rightarrow> uint64" where
  "share_pte e \<equiv> PA2PTE (PTE2PA e) OR share_flags e OR PTE_V"

lemma share_pte:
  assumes e: "e AND PTE_V \<noteq> 0" and ok: "leaf_ok s v e"
  shows "share_flags e < 0x400" "PTE2PA (share_pte e) = PTE2PA e"
    "user_leaf (share_pte e) \<longleftrightarrow> user_leaf e" "leaf_ok s v (share_pte e)"
    "share_pte e AND PTE_U \<noteq> 0 \<Longrightarrow> share_pte e AND PTE_W = 0" "share_pte e AND PTE_V = PTE_V"
    "share_flags e OR PTE_V = share_flags e"
proof -
  note F = PTE_FLAGS_lt [of e]
  note cf = cow_flags [OF F]
  have T: "PTE_FLAGS e AND g = e AND g" if "g < 0x400" for g using PTE_FLAGS_test [OF that] by simp
  show lt: "share_flags e < 0x400" using F cf(1) by (simp add: share_flags_def)
  have al: "aligned (PTE2PA e)" by simp
  show pa: "PTE2PA (share_pte e) = PTE2PA e" by (rule pte_make(1) [OF al lt])
  have fl: "PTE_FLAGS (share_pte e) = share_flags e OR PTE_V" by (rule pte_make(2) [OF al lt])
  have t: "share_pte e AND g = (share_flags e OR PTE_V) AND g" if "g < 0x400" for g
    by (rule pte_make_test [OF al lt that])
  show "share_pte e AND PTE_V = PTE_V" by (simp add: or_and_same)
  have dist: "(share_flags e OR PTE_V) AND g = (share_flags e AND g) OR (PTE_V AND g)" for g
    by (rule bit.conj_disj_distrib2)
  have sU: "share_flags e AND PTE_U = e AND PTE_U" using cf(3) T [of PTE_U] by (simp add: share_flags_def)
  have "e AND PTE_V = PTE_V" using e by (auto simp: and_one_eq)
  then have sV: "share_flags e AND PTE_V = PTE_V"
    using cf(4) T [of PTE_V] by (simp add: share_flags_def)
  have "share_flags e OR (share_flags e AND PTE_V) = share_flags e" by (simp only: word_ao_absorbs)
  then show "share_flags e OR PTE_V = share_flags e" by (simp only: sV)
  show u: "user_leaf (share_pte e) \<longleftrightarrow> user_leaf e"
    using e t [of PTE_V] t [of PTE_U] dist [of PTE_U] sU by (simp add: user_leaf_def or_and_same)
  show w: "share_pte e AND PTE_U \<noteq> 0 \<Longrightarrow> share_pte e AND PTE_W = 0"
  proof -
    assume "share_pte e AND PTE_U \<noteq> 0"
    then have "e AND PTE_U \<noteq> 0" using t [of PTE_U] dist [of PTE_U] sU by simp
    then have "share_flags e AND PTE_W = 0"
      using cf(2) write_user [of e] T [of "PTE_W OR PTE_U"] T [of PTE_W] by (auto simp: share_flags_def)
    then show ?thesis using t [of PTE_W] dist [of PTE_W] by simp
  qed
  have c: "share_pte e AND PTE_COW \<noteq> 0" if "share_pte e AND PTE_U \<noteq> 0"
  proof -
    have "e AND PTE_U \<noteq> 0" using that t [of PTE_U] dist [of PTE_U] sU by simp
    then have "share_flags e AND PTE_COW \<noteq> 0"
      using ok e cf(5) write_user [of e] T [of "PTE_W OR PTE_U"] T [of PTE_COW]
      by (auto simp: share_flags_def leaf_ok_def split: if_splits)
    then show ?thesis using t [of PTE_COW] dist [of PTE_COW] by simp
  qed
  have n: "share_flags e \<noteq> PTE_V"
    using ok e cf(6) by (auto simp: share_flags_def leaf_ok_def)
  show "leaf_ok s v (share_pte e)"
    using ok e w c n pa fl u \<open>share_flags e OR PTE_V = share_flags e\<close>
    by (auto simp: leaf_ok_def user_leaf_def)
qed

text \<open>A step that only settles the interrupt bookkeeping and adds a reference.\<close>

lemma vm_krefinc:
  assumes inv: "vinv R ext fl s" and p: "usable (kend s) p" "p \<notin> all_nodes (ram s) R" "1 \<le> refcnt s (pidx p)"
    and now: "\<And>r v. r \<in> R \<Longrightarrow> v \<in> vpages \<Longrightarrow> maps (entry (ram s) r v) p \<Longrightarrow>
      entry (ram s) r v AND PTE_U \<noteq> 0 \<Longrightarrow> entry (ram s) r v AND PTE_W = 0"
  shows "\<exists>s'. krefinc p s = Inr ((), s') \<and> vinv R (ext(p := ext p + 1)) fl s' \<and> ram s' = ram s \<and> mem_only s s'"
proof -
  let ?s' = "(settled s)\<lparr>refcnt := (refcnt s)(pidx p := refcnt s (pidx p) + 1)\<rparr>"
  have rd: "kready fl s" using vinvD(1) [OF inv] .
  have nf: "p \<notin> set fl" using rd p(1,3) by (auto simp: kinv_def)
  have k: "krefinc p s = Inr ((), ?s')" using krefinc_eq [of s "kend s" p] rd p by simp
  have "kready fl ?s'" using kready_refcnt_upd [OF rd p(1) nf] p(3) by simp
  then have "vinv R (ext(p := ext p + (refcnt s (pidx p) + 1) - refcnt s (pidx p))) fl ?s'"
    by (intro vinv_count [OF inv _ _ p(1,2) _ _ now]) simp_all
  then have "vinv R (ext(p := ext p + 1)) fl ?s'" by simp
  then show ?thesis using k by auto
qed

lemma uview_same_ram: "ram s' = ram s \<Longrightarrow> uview s' r = uview s r"
  by (rule ext) (simp add: uview_def Let_def)

text \<open>The first half of a turn: the parent's entry loses its write permission.\<close>

lemma uvmcopy_protect:
  assumes inv: "vinv R ext fl s" and ext: "\<forall>p. 0 \<le> ext p" and r: "old \<in> R" "i \<in> upages"
    and val: "valid s old i"
  defines "e \<equiv> entry (ram s) old i"
  shows "\<exists>pt s1. node (ram s) old 2 i = Some pt \<and> slot pt 0 i \<noteq> 0
    \<and> kwhen (PTE_FLAGS e AND (PTE_W OR PTE_U) = PTE_W OR PTE_U)
        (poke64 (slot pt 0 i) (PA2PTE (PTE2PA e) OR share_flags e)) s = Inr ((), s1)
    \<and> vupd R ext s (valid s) (uview s) fl s1
    \<and> (\<forall>r\<in>R. \<forall>v\<in>vpages. r \<noteq> old \<or> v \<noteq> i \<longrightarrow> entry (ram s1) r v = entry (ram s) r v)
    \<and> entry (ram s1) old i AND PTE_V = PTE_V \<and> PTE2PA (entry (ram s1) old i) = PTE2PA e
    \<and> (entry (ram s1) old i AND PTE_U \<noteq> 0 \<longrightarrow> entry (ram s1) old i AND PTE_W = 0)
    \<and> (user_leaf (entry (ram s1) old i) \<longleftrightarrow> user_leaf e)
    \<and> same_page (ram s) (ram s1) (PTE2PA e) \<and> refcnt s1 = refcnt s \<and> kend s1 = kend s"
proof -
  have iv: "i \<in> vpages" using r(2) by (rule upages_vpages)
  have lk: "leaf_ok s i e" unfolding e_def by (rule vinvD(6) [OF inv r(1) iv])
  have ev: "e AND PTE_V \<noteq> 0" using val by (simp add: e_def)
  obtain pt where pt: "node (ram s) old 2 i = Some pt" using valid_node [OF val] by blast
  note sh = share_pte [OF ev lk]
  note pk = vm_poke [OF inv ext r(1) iv pt sh(4)]
  have pt0: "slot pt 0 i \<noteq> 0" using slot_nonzero [OF pk(5) vinv_node(4) [OF inv pk(6)]] .
  have mp: "maps e (PTE2PA e)" using ev by (simp add: maps_def)
  note mpg = mapped_page [OF inv ext r(1,2) mp [unfolded e_def]]
  show ?thesis
  proof (cases "PTE_FLAGS e AND (PTE_W OR PTE_U) = PTE_W OR PTE_U")
    case True
    let ?s1 = "s\<lparr>ram := st64 (ram s) (slot pt 0 i) (share_pte e)\<rparr>"
    have "maps (share_pte e) p \<longleftrightarrow> maps e p" for p using sh(2,6) ev by (simp add: maps_def)
    then have inv1: "vinv R ext fl ?s1" by (intro vinv_ext_cong [OF pk(1)]) (simp add: e_def)
    have sp: "same_page (ram s) (ram ?s1) (PTE2PA e)" by (rule pk(7)) (use mpg(3) in \<open>simp add: e_def\<close>)
    have vw: "uview ?s1 r' va = uview s r' va" if "r' \<in> R" for r' va
    proof (cases "r' = old \<and> PGROUNDDOWN va = i")
      case True
      have "uview ?s1 old va = uview s old va"
        by (rule uview_share [OF _ _ sh(3,2) sp]) (use True pk(2) [OF r(1) iv] in \<open>simp_all add: e_def\<close>)
      then show ?thesis using True by simp
    next
      case False
      then show ?thesis by (intro pk(3) [OF that]) blast
    qed
    have vl: "valid ?s1 r' v \<longleftrightarrow> valid s r' v" if "r' \<in> R" "v \<in> vpages" for r' v
      using pk(2) [OF that] sh(6) ev by (auto simp: e_def)
    have "vupd R ext s (valid s) (uview s) fl ?s1"
      unfolding vupd_def using inv1 pk(4) vw vl pk(2) r(2) by auto
    moreover have "kwhen True (poke64 (slot pt 0 i) (PA2PTE (PTE2PA e) OR share_flags e)) s = Inr ((), ?s1)"
      using sh(7) by (simp add: kmonad)
    moreover have "entry (ram ?s1) old i = share_pte e" using pk(2) [OF r(1) iv] by simp
    ultimately show ?thesis
      using True pt pt0 pk(2) sp sh(2,3,5,6) by (intro exI [of _ pt] exI [of _ ?s1]) simp
  next
    case False
    have "share_flags e = PTE_FLAGS e" using False by (simp add: share_flags_def)
    have "e AND PTE_U \<noteq> 0 \<longrightarrow> e AND PTE_W = 0"
      using False write_user [of e] PTE_FLAGS_test [of "PTE_W OR PTE_U" e] by auto
    moreover have "e AND PTE_V = PTE_V" using ev and_exp_cases [of PTE_V 0 e] by auto
    ultimately show ?thesis
      using False pt pt0 vupd_refl [OF inv] unfolding e_def
      by (intro exI [of _ pt] exI [of _ s]) (simp add: kmonad)
  qed
qed

lemma uvmcopy_body_post:
  assumes inv: "vinv R ext fl s" and ext: "\<forall>p. 0 \<le> ext p" and r: "old \<in> R" "new \<in> R" "old \<noteq> new"
    and i: "i \<in> upages" and val: "valid s old i" and free: "\<not> valid s new i"
  shows "(\<exists>fl' s'. uvmcopy_body old new i s = Inr (True, s')
      \<and> vupd R ext s (\<lambda>r v. valid s r v \<or> r = new \<and> v = i)
          (\<lambda>r va. if r = new \<and> PGROUNDDOWN va = i then uview s old va else uview s r va) fl' s')
    \<or> (\<exists>fl' s'. uvmcopy_body old new i s = Inr (False, s') \<and> vupd R ext s (valid s) (uview s) fl' s')"
proof -
  define e where "e = entry (ram s) old i"
  define pa where "pa = PTE2PA e"
  have iv: "i \<in> vpages" using i by (rule upages_vpages)
  have ev: "e AND PTE_V \<noteq> 0" using val by (simp add: e_def)
  from uvmcopy_protect [OF inv ext r(1) i val, folded e_def] obtain pt s1 where
    pt: "node (ram s) old 2 i = Some pt" "slot pt 0 i \<noteq> 0" and
    run1: "kwhen (PTE_FLAGS e AND (PTE_W OR PTE_U) = PTE_W OR PTE_U)
        (poke64 (slot pt 0 i) (PA2PTE (PTE2PA e) OR share_flags e)) s = Inr ((), s1)" and
    up1: "vupd R ext s (valid s) (uview s) fl s1" and
    en1: "\<forall>r\<in>R. \<forall>v\<in>vpages. r \<noteq> old \<or> v \<noteq> i \<longrightarrow> entry (ram s1) r v = entry (ram s) r v" and
    e1: "entry (ram s1) old i AND PTE_V = PTE_V" "PTE2PA (entry (ram s1) old i) = pa"
      "entry (ram s1) old i AND PTE_U \<noteq> 0 \<longrightarrow> entry (ram s1) old i AND PTE_W = 0" and
    sp1: "same_page (ram s) (ram s1) pa" and rc1: "refcnt s1 = refcnt s" and ke1: "kend s1 = kend s"
    unfolding pa_def by blast
  have ld: "ld64 (ram s) (slot pt 0 i) = e" using valid_node [OF val] pt(1) by (auto simp: e_def)
  note inv1 = vupdD(1) [OF up1]
  have "leaf_ok s i e" unfolding e_def by (rule vinvD(6) [OF inv r(1) iv])
  then have lk1: "leaf_ok s1 i e" by (simp add: leaf_ok_def rc1 ke1)
  note sh = share_pte [OF ev lk1]
  have mp: "maps (entry (ram s1) old i) pa" using e1(1,2) by (simp add: maps_def)
  note mpg = mapped_page [OF inv1 ext r(1) i mp]
  have fr: "entry (ram s1) new i AND PTE_V = 0" using free en1 r iv by simp
  have al: "aligned pa" by (simp add: pa_def)
  have body: "uvmcopy_body old new i s = kbind (mappages new i PGSIZE pa (share_flags e)) (\<lambda>r.
      if r \<noteq> 0 then kret False else kseq (krefinc pa) (kret True)) s1"
    unfolding pa_def using pt ld ev vpages_lt [OF iv] run1
    by (simp add: uvmcopy_body_def walk_lookup kmonad Let_def share_flags_def)
  have pte: "PA2PTE pa OR share_flags e OR PTE_V = share_pte e" by (simp add: pa_def)
  from vm_map [OF inv1 ext r(2) iv fr al sh(1) mpg(2), unfolded pte, OF sh(4)]
  consider (ok) fl' s2 where "mappages new i PGSIZE pa (share_flags e) s1 = Inr (0, s2)"
      "vinv R (ext(pa := ext pa - of_bool (i \<in> upages))) fl' s2" "kframe ext s1 s2"
      "\<forall>r'\<in>R. \<forall>v'\<in>vpages. entry (ram s2) r' v' = (if r' = new \<and> v' = i then share_pte e else entry (ram s1) r' v')"
      "\<forall>r'\<in>R. \<forall>va. (r' = new \<longrightarrow> PGROUNDDOWN va \<noteq> i) \<longrightarrow> uview s2 r' va = uview s1 r' va"
      "\<forall>x. x \<notin> all_nodes (ram s1) R \<longrightarrow> x \<notin> set fl \<longrightarrow> same_page (ram s1) (ram s2) x"
      "\<forall>x. usable (kend s1) x \<longrightarrow> x \<notin> set fl \<longrightarrow> refcnt s2 (pidx x) = refcnt s1 (pidx x)"
    | (fail) s' where "mappages new i PGSIZE pa (share_flags e) s1 = Inr (- 1, s')" "vinv R ext [] s'"
      "kframe ext s1 s'"
      "\<forall>r'\<in>R. \<forall>v'\<in>vpages. entry (ram s') r' v' = entry (ram s1) r' v'"
      "\<forall>r'\<in>R. uview s' r' = uview s1 r'" by blast
  then show ?thesis
  proof cases
    case fail
    have "vupd R ext s1 (valid s1) (uview s1) [] s'" unfolding vupd_def using fail by simp
    from vupd_trans [OF up1 this] have "vupd R ext s (valid s) (uview s) [] s'"
      by (rule vupd_cong) (use vupdD(4,5) [OF up1] in auto)
    then show ?thesis using body fail(1) by (auto simp: kmonad)
  next
    case ok
    have ke: "kend s2 = kend s1" using kframe_kend [OF ok(3)] .
    have us: "usable (kend s2) pa" using mpg(1) ke by simp
    have rc: "1 \<le> refcnt s2 (pidx pa)" using ok(7) mpg(1,2,5) by simp
    have eo: "entry (ram s2) old i = entry (ram s1) old i" using ok(4) r iv by simp
    have en: "entry (ram s2) new i = share_pte e" using ok(4) r iv by simp
    have "{(old, i), (new, i)} \<subseteq> mapset (entry (ram s2)) R pa"
      using r i e1(1,2) sh(2,6) by (auto simp: mapset_def maps_def eo en pa_def)
    from card_mono [OF finite_mapset this] r(3)
    have c2: "2 \<le> int (card (mapset (entry (ram s2)) R pa))" by simp
    have nn: "pa \<notin> all_nodes (ram s2) R"
    proof
      assume n: "pa \<in> all_nodes (ram s2) R"
      have "0 \<le> ext pa" using ext by simp
      with vinvD(5) [OF ok(2) us] vinv_node(2) [OF ok(2) n] n c2 i show False by simp
    qed
    have now: "entry (ram s2) r' v' AND PTE_W = 0"
      if m: "r' \<in> R" "v' \<in> vpages" "maps (entry (ram s2) r' v') pa" "entry (ram s2) r' v' AND PTE_U \<noteq> 0" for r' v'
    proof (cases "r' = new \<and> v' = i")
      case True
      then show ?thesis using sh(5) m(4) by (simp add: en)
    next
      case False
      then have eq: "entry (ram s2) r' v' = entry (ram s1) r' v'" using ok(4) m(1,2) by auto
      show ?thesis
      proof (rule ccontr)
        assume w: "entry (ram s2) r' v' AND PTE_W \<noteq> 0"
        have "v' \<in> upages" "refcnt s1 (pidx pa) = 1"
          using vinvD(6) [OF inv1 m(1,2)] m(3,4) w unfolding eq by (auto simp: leaf_ok_def maps_def)
        moreover from this m have "(r', v') \<in> mapset (entry (ram s1)) R pa" by (simp add: mapset_def eq)
        ultimately have "(r', v') = (old, i)" using sole_mapping(1) [OF inv1 ext mpg(1) _ mpg(4)] by auto
        then show False using w e1(3) m(4) by (simp add: eo)
      qed
    qed
    from vm_krefinc [OF ok(2) us nn rc now] obtain s3 where
      s3: "krefinc pa s2 = Inr ((), s3)"
        "vinv R ((ext(pa := ext pa - of_bool (i \<in> upages)))(pa := (ext(pa := ext pa - of_bool (i \<in> upages))) pa + 1)) fl' s3"
        "ram s3 = ram s2" "mem_only s2 s3" by blast
    have inv3: "vinv R ext fl' s3" by (rule vinv_ext_cong [OF s3(2)]) (use i in simp)
    have kf: "kframe ext s s3"
      using kframe_trans [OF vupdD(2) [OF up1] kframe_trans [OF ok(3), of s3]] s3(3,4) by (simp add: kframe_def)
    have sp: "same_page (ram s) (ram s2) pa"
      using same_page_trans [OF sp1, of "ram s2"] ok(6) mpg(2,3) by blast
    have vw: "uview s3 r' va = (if r' = new \<and> PGROUNDDOWN va = i then uview s old va else uview s r' va)"
      if "r' \<in> R" for r' va
    proof (cases "r' = new \<and> PGROUNDDOWN va = i")
      case True
      have "uview s3 new va = uview s old va"
        by (rule uview_share [of s old va e _ new, OF _ _ sh(3,2)])
          (use True en s3(3) sp in \<open>simp_all add: e_def pa_def\<close>)
      then show ?thesis using True by simp
    next
      case False
      then have "uview s2 r' va = uview s1 r' va" using ok(5) that by blast
      then show ?thesis using False vupdD(5) [OF up1 that] uview_same_ram [OF s3(3)] by auto
    qed
    have vl: "valid s3 r' v \<longleftrightarrow> valid s r' v \<or> r' = new \<and> v = i" if "r' \<in> R" "v \<in> vpages" for r' v
      using ok(4) that vupdD(4) [OF up1 that] sh(6) s3(3) by auto
    have "vupd R ext s (\<lambda>r v. valid s r v \<or> r = new \<and> v = i)
          (\<lambda>r va. if r = new \<and> PGROUNDDOWN va = i then uview s old va else uview s r va) fl' s3"
      unfolding vupd_def using inv3 kf vw vl ok(4) s3(3) vupdD(3) [OF up1] i by auto
    then show ?thesis using body ok(1) s3(1) by (auto simp: kmonad)
  qed
qed

lemma uvmcopy_loop_post:
  assumes "vinv R ext fl s" and ext: "\<forall>p. 0 \<le> ext p" and r: "old \<in> R" "new \<in> R" "old \<noteq> new"
    and "i \<in> vpages" and sz: "unat sz \<le> utop"
    and "\<forall>v\<in>vpages. between i sz v \<longrightarrow> valid s old v \<and> \<not> valid s new v"
    and "\<forall>v\<in>vpages. between 0 i v \<longrightarrow> valid s new v" and "unat i < unat sz + 4096"
  shows "(\<exists>fl' s'. uvmcopy_loop old new sz i s = Inr (0, s')
      \<and> vupd R ext s (\<lambda>r v. valid s r v \<or> r = new \<and> between i sz v)
          (\<lambda>r va. if r = new \<and> between i sz (PGROUNDDOWN va) then uview s old va else uview s r va) fl' s')
    \<or> (\<exists>fl' s'. uvmcopy_loop old new sz i s = Inr (- 1, s')
      \<and> vupd R ext s (\<lambda>r v. valid s r v \<and> \<not> (r = new \<and> between 0 i v))
          (\<lambda>r va. if r = new \<and> between 0 i (PGROUNDDOWN va) then None else uview s r va) fl' s')"
  using assms(1,6,8,9,10)
proof (induction "unat sz - unat i" arbitrary: i s fl rule: less_induct)
  case less
  note inv = less.prems(1) and iv = less.prems(2) and b = less.prems(3) and c = less.prems(4)
  show ?case
  proof (cases "i < sz")
    case False
    then have "\<not> between i sz v" for v by (auto simp: between_def word_less_nat_alt)
    then show ?thesis using False vupd_refl [OF inv] by (auto simp: uvmcopy_loop.simps)
  next
    case True
    then have lt: "unat i < unat sz" by (simp add: word_less_nat_alt)
    note pn = page_next [OF iv lt sz]
    have vi: "valid s old i" "\<not> valid s new i" using b pn(4) [OF iv] iv by blast+
    from uvmcopy_body_post [OF inv ext r pn(3) vi] show ?thesis
    proof (elim disjE exE conjE)
      fix fl1 s1
      assume run: "uvmcopy_body old new i s = Inr (True, s1)" and
        up: "vupd R ext s (\<lambda>r v. valid s r v \<or> r = new \<and> v = i)
          (\<lambda>r va. if r = new \<and> PGROUNDDOWN va = i then uview s old va else uview s r va) fl1 s1"
      note D = vupdD [OF up]
      have m: "unat sz - unat (i + PGSIZE) < unat sz - unat i" using pn(1) lt by simp
      have "\<forall>v\<in>vpages. between (i + PGSIZE) sz v \<longrightarrow> valid s1 old v \<and> \<not> valid s1 new v"
        using b D(4) r pn(1,4) by (auto simp: between_def)
      moreover have "\<forall>v\<in>vpages. between 0 (i + PGSIZE) v \<longrightarrow> valid s1 new v"
        using c D(4) r pn(5) by blast
      moreover have "unat (i + PGSIZE) < unat sz + 4096" using pn(1) lt by simp
      ultimately consider
        (ok) fl' s' where "uvmcopy_loop old new sz (i + PGSIZE) s1 = Inr (0, s')"
          "vupd R ext s1 (\<lambda>r v. valid s1 r v \<or> r = new \<and> between (i + PGSIZE) sz v)
          (\<lambda>r va. if r = new \<and> between (i + PGSIZE) sz (PGROUNDDOWN va) then uview s1 old va else uview s1 r va) fl' s'"
      | (fail) fl' s' where "uvmcopy_loop old new sz (i + PGSIZE) s1 = Inr (- 1, s')"
          "vupd R ext s1 (\<lambda>r v. valid s1 r v \<and> \<not> (r = new \<and> between 0 (i + PGSIZE) v))
          (\<lambda>r va. if r = new \<and> between 0 (i + PGSIZE) (PGROUNDDOWN va) then None else uview s1 r va) fl' s'"
        using less.hyps [OF m D(1) pn(2)] by blast
      then show ?thesis
      proof cases
        case ok
        have "vupd R ext s (\<lambda>r v. valid s r v \<or> r = new \<and> between i sz v)
          (\<lambda>r va. if r = new \<and> between i sz (PGROUNDDOWN va) then uview s old va else uview s r va) fl' s'"
        proof (rule vupd_cong [OF vupd_trans [OF up ok(2)]])
          fix r' va assume r': "r' \<in> R"
          show "(if r' = new \<and> between (i + PGSIZE) sz (PGROUNDDOWN va) then uview s1 old va else uview s1 r' va) =
            (if r' = new \<and> between i sz (PGROUNDDOWN va) then uview s old va else uview s r' va)"
            using D(5) [OF r', of va] D(5) [OF r(1), of va] r(3) pn(4) [OF PGROUNDDOWN_vpages, of va]
              uview_high [of va s new] uview_high [of va s old] vpage_of [of va] iv by (cases "va < MAXVA") auto
        qed (use D(4) pn(4) in auto)
        then show ?thesis using ok(1) run True by (auto simp: uvmcopy_loop.simps [of old new sz i])
      next
        case fail
        have "vupd R ext s (\<lambda>r v. valid s r v \<and> \<not> (r = new \<and> between 0 i v))
          (\<lambda>r va. if r = new \<and> between 0 i (PGROUNDDOWN va) then None else uview s r va) fl' s'"
        proof (rule vupd_cong [OF vupd_trans [OF up fail(2)]])
          fix r' va assume r': "r' \<in> R"
          show "(if r' = new \<and> between 0 (i + PGSIZE) (PGROUNDDOWN va) then None else uview s1 r' va) =
            (if r' = new \<and> between 0 i (PGROUNDDOWN va) then None else uview s r' va)"
            using D(5) [OF r', of va] pn(5) [OF PGROUNDDOWN_vpages, of va 0] uview_invalid [of s new va] vi(2)
              uview_high [of va s new] uview_high [of va s old] vpage_of [of va] iv by (cases "va < MAXVA") auto
        qed (use D(4) pn(5) vi(2) in auto)
        then show ?thesis using fail(1) run True by (auto simp: uvmcopy_loop.simps [of old new sz i])
      qed
    next
      fix fl1 s1
      assume run: "uvmcopy_body old new i s = Inr (False, s1)" and
        up: "vupd R ext s (valid s) (uview s) fl1 s1"
      note D = vupdD [OF up]
      have d: "4096 dvd unat i" using iv by (simp add: vpages_def aligned_unat)
      have n: "4096 * unat (i div PGSIZE) = unat i" using d by (simp add: unat_div)
      have rg: "in_range 0 (unat (i div PGSIZE)) v \<longleftrightarrow> between 0 i v" for v
        by (simp add: in_range_def between_def n)
      have "\<forall>v\<in>vpages. in_range 0 (unat (i div PGSIZE)) v \<longrightarrow> valid s1 new v" using c D(4) r(2) rg by blast
      moreover have "(0 :: uint64) \<in> vpages" by (simp add: vpages_def aligned_def)
      moreover have "unat (0 :: uint64) + 4096 * unat (i div PGSIZE) \<le> utop" using n lt sz by simp
      ultimately obtain fl' s' where un: "uvmunmap new 0 (i div PGSIZE) True s1 = Inr ((), s')"
        "vmpost R ext s1 new (\<lambda>v. valid s1 new v \<and> \<not> in_range 0 (unat (i div PGSIZE)) v)
          (\<lambda>va. if in_range 0 (unat (i div PGSIZE)) (PGROUNDDOWN va) then None else uview s1 new va) fl' s'"
        using uvmunmap_post [OF D(1) ext r(2)] by blast
      have hi: "\<not> between 0 i v" if "v \<in> vpages" "v \<notin> upages" for v
        using that lt sz by (auto simp: between_def upages_def word_less_nat_alt)
      have "vupd R ext s (\<lambda>r v. valid s r v \<and> \<not> (r = new \<and> between 0 i v))
          (\<lambda>r va. if r = new \<and> between 0 i (PGROUNDDOWN va) then None else uview s r va) fl' s'"
        by (rule vupd_cong [OF vupd_trans [OF up vmpost_vupd [OF un(2) r(2)]]])
          (use D(4,5) rg hi in auto)
      then show ?thesis using un(1) run True by (auto simp: uvmcopy_loop.simps [of old new sz i] kmonad)
    qed
  qed
qed

lemma uvmcopy_post:
  assumes inv: "vinv R ext fl s" "\<forall>p. 0 \<le> ext p" and r: "old \<in> R" "new \<in> R" "old \<noteq> new"
    and sz: "unat sz \<le> utop" "sized s old sz" "sized s new 0"
  shows "(\<exists>fl' s'. uvmcopy old new sz s = Inr (0, s') \<and> sized s' old sz \<and> sized s' new sz
      \<and> vupd R ext s (\<lambda>r v. valid s r v \<or> r = new \<and> v < sz)
          (\<lambda>r. if r = new then uview s old else uview s r) fl' s')
    \<or> (\<exists>fl' s'. uvmcopy old new sz s = Inr (- 1, s') \<and> vupd R ext s (valid s) (uview s) fl' s')"
proof -
  have z: "(0 :: uint64) \<in> vpages" by (simp add: vpages_def aligned_def)
  have up: "v \<in> upages" if "v \<in> vpages" "v < sz" for v
    using that sz(1) by (auto simp: upages_def word_less_nat_alt)
  have bt: "between 0 sz v \<longleftrightarrow> v < sz" for v by (simp add: between_def word_less_nat_alt)
  have nb: "\<not> between 0 0 v" for v by (simp add: between_def)
  have uo: "uview s r va = None" if "r \<in> R" "\<forall>v\<in>upages. valid s r v \<longrightarrow> \<not> v = PGROUNDDOWN va" for r va
  proof (cases "va < MAXVA")
    case True
    show ?thesis
    proof (rule ccontr)
      assume "uview s r va \<noteq> None"
      then have ul: "user_leaf (entry (ram s) r (PGROUNDDOWN va))" by (auto simp: uview_def Let_def split: if_splits)
      then have "PGROUNDDOWN va \<in> upages" by (rule user_page(2) [OF inv that(1) PGROUNDDOWN_vpages [OF True] _ refl])
      with that(2) ul show False by (auto simp: user_leaf_def)
    qed
  qed (rule uview_high)
  from uvmcopy_loop_post [OF inv r z sz(1)] have
    "(\<exists>fl' s'. uvmcopy old new sz s = Inr (0, s')
      \<and> vupd R ext s (\<lambda>r v. valid s r v \<or> r = new \<and> between 0 sz v)
          (\<lambda>r va. if r = new \<and> between 0 sz (PGROUNDDOWN va) then uview s old va else uview s r va) fl' s')
    \<or> (\<exists>fl' s'. uvmcopy old new sz s = Inr (- 1, s')
      \<and> vupd R ext s (\<lambda>r v. valid s r v \<and> \<not> (r = new \<and> between 0 0 v))
          (\<lambda>r va. if r = new \<and> between 0 0 (PGROUNDDOWN va) then None else uview s r va) fl' s')"
    using sz(2,3) up bt nb by (auto simp: uvmcopy_def sized_def)
  then show ?thesis
  proof (elim disjE exE conjE)
    fix fl' s'
    assume run: "uvmcopy old new sz s = Inr (0, s')" and
      p: "vupd R ext s (\<lambda>r v. valid s r v \<or> r = new \<and> between 0 sz v)
          (\<lambda>r va. if r = new \<and> between 0 sz (PGROUNDDOWN va) then uview s old va else uview s r va) fl' s'"
    have "uview s old va = None \<and> uview s new va = None" if "\<not> PGROUNDDOWN va < sz" for va
      using uo [OF r(1), of va] uo [OF r(2), of va] sz(2,3) that by (auto simp: sized_def)
    then have "vupd R ext s (\<lambda>r v. valid s r v \<or> r = new \<and> v < sz)
          (\<lambda>r. if r = new then uview s old else uview s r) fl' s'"
      by (intro vupd_cong [OF p]) (auto simp: bt)
    moreover have "sized s' old sz" "sized s' new sz"
      using vupdD(4) [OF p] r sz(2,3) upages_vpages bt by (auto simp: sized_def)
    ultimately show ?thesis using run by blast
  next
    fix fl' s'
    assume "uvmcopy old new sz s = Inr (- 1, s')"
      "vupd R ext s (\<lambda>r v. valid s r v \<and> \<not> (r = new \<and> between 0 0 v))
          (\<lambda>r va. if r = new \<and> between 0 0 (PGROUNDDOWN va) then None else uview s r va) fl' s'"
    then show ?thesis by (simp add: nb) blast
  qed
qed

section \<open>cowalloc\<close>

lemma copied_same_page:
  assumes "aligned p" "q \<noteq> p" "unat off + n \<le> 4096"
  shows "same_page m (copied m (p + off) src n) q"
  unfolding same_page_def
proof (intro allI impI)
  fix x assume x: "PGROUNDDOWN x = q"
  have "\<not> unat (x - (p + off)) < n"
  proof
    let ?d = "x - (p + off)"
    assume lt: "unat ?d < n"
    have "unat (off + ?d) = unat off + unat ?d" using lt assms(3) by (subst unat_add_lt) simp_all
    moreover have "x - p = off + ?d" by simp
    ultimately have "unat (x - p) = unat off + unat ?d" by (simp only:)
    then have "x - p < PGSIZE" using lt assms(3) by (simp add: word_less_nat_alt)
    with page_offset [OF assms(1), of x] x assms(2) show False by simp
  qed
  then show "m x = copied m (p + off) src n x" by (simp add: copied_def)
qed

lemma copy_page:
  assumes "usable e q" "usable e' p"
  shows "x \<noteq> q \<Longrightarrow> same_page m (memmove m q p 4096) x"
    and "off < PGSIZE \<Longrightarrow> memmove m q p 4096 (q + off) = m (p + off)"
proof -
  have "unat q < 2281701376" "unat p < 2281701376"
    using assms by (auto simp: usable_def word_less_nat_alt)
  then have e: "memmove m q p 4096 = copied m q p 4096" by (subst memmove_eq) simp_all
  show "x \<noteq> q \<Longrightarrow> same_page m (memmove m q p 4096) x"
    unfolding e using copied_same_page [of q x 0 4096 m p] usable_aligned [OF assms(1)] by simp
  show "off < PGSIZE \<Longrightarrow> memmove m q p 4096 (q + off) = m (p + off)"
    unfolding e by (simp add: copied_def word_less_nat_alt)
qed

text \<open>The flags of a mapping that owns its page again.\<close>

definition own_flags :: "uint64 \<Rightarrow> uint64" where
  "own_flags e = (PTE_FLAGS e OR PTE_W) AND NOT PTE_COW"

abbreviation own_pte :: "uint64 \<Rightarrow> addr \<Rightarrow> uint64" where
  "own_pte e pa \<equiv> PA2PTE pa OR own_flags e OR PTE_V"

lemma own_pte:
  assumes e: "e AND (PTE_V OR PTE_U OR PTE_COW) = PTE_V OR PTE_U OR PTE_COW" and al: "aligned pa"
  shows "own_flags e OR PTE_V = own_flags e" "PTE2PA (own_pte e pa) = pa" "user_leaf (own_pte e pa)"
    "user_leaf e" "own_pte e pa AND PTE_W = PTE_W" "own_pte e pa AND PTE_COW = 0" "own_flags e < 0x400"
    "v \<in> upages \<Longrightarrow> usable (kend s) pa \<Longrightarrow> refcnt s (pidx pa) = 1 \<Longrightarrow> leaf_ok s v (own_pte e pa)"
proof -
  have sub: "e AND g = g" if "(PTE_V OR PTE_U OR PTE_COW) AND g = g" for g
    using arg_cong [OF e, of "\<lambda>x. x AND g"] that by (simp only: and.assoc)
  have b: "e AND PTE_V = PTE_V" "e AND PTE_U = PTE_U" "e AND PTE_COW = PTE_COW" by (rule sub; simp)+
  then show ul: "user_leaf e" by (simp add: user_leaf_def)
  have T: "PTE_FLAGS e AND g = e AND g" if "g < 0x400" for g using PTE_FLAGS_test [OF that] by simp
  have O: "own_flags e AND g = (PTE_FLAGS e AND g) OR (PTE_W AND g)" if "NOT PTE_COW AND g = g" for g
    unfolding own_flags_def and.assoc that by (rule bit.conj_disj_distrib2)
  have "PTE_FLAGS e OR PTE_W < 0x400" by (rule flags_or_lt) simp_all
  then show lt: "own_flags e < 0x400"
    unfolding own_flags_def using word_and_le2 [of "PTE_FLAGS e OR PTE_W" "NOT PTE_COW"] by (rule le_less_trans [rotated])
  have V: "own_flags e AND PTE_V = PTE_V" "own_flags e AND PTE_U = PTE_U" "own_flags e AND PTE_W = PTE_W"
    using O [of PTE_V] O [of PTE_U] O [of PTE_W] T [of PTE_V] T [of PTE_U] b by (simp_all add: or_and_same)
  have "own_flags e OR (own_flags e AND PTE_V) = own_flags e" by (simp only: word_ao_absorbs)
  then show FV: "own_flags e OR PTE_V = own_flags e" by (simp only: V)
  have t: "own_pte e pa AND g = own_flags e AND g" if "g < 0x400" for g
    using pte_make_test [OF al lt that] by (simp only: FV)
  show pa: "PTE2PA (own_pte e pa) = pa" by (rule pte_make(1) [OF al lt])
  show "user_leaf (own_pte e pa)" using t [of PTE_V] t [of PTE_U] V by (simp add: user_leaf_def)
  show W: "own_pte e pa AND PTE_W = PTE_W" using t [of PTE_W] V by simp
  show "own_pte e pa AND PTE_COW = 0" using t [of PTE_COW] by (simp add: own_flags_def and.assoc)
  have "PTE_FLAGS (own_pte e pa) = own_flags e" using pte_make(2) [OF al lt] FV by simp
  moreover have "own_flags e \<noteq> PTE_V" using V(3) by auto
  ultimately show "v \<in> upages \<Longrightarrow> usable (kend s) pa \<Longrightarrow> refcnt s (pidx pa) = 1 \<Longrightarrow> leaf_ok s v (own_pte e pa)"
    using pa W by (simp add: leaf_ok_def)
qed

text \<open>The two ways \<open>cowalloc\<close> makes a copy-on-write page writable: it takes over a page nobody else
  maps, or moves the mapping to a private copy.\<close>

abbreviation cow_leaf :: "uint64 \<Rightarrow> bool" where
  "cow_leaf e \<equiv> e AND (PTE_V OR PTE_U OR PTE_COW) = PTE_V OR PTE_U OR PTE_COW"

text \<open>What a write fault leaves unchanged: the views, the valid pages and the other entries.\<close>

definition cowed :: "addr set \<Rightarrow> (addr \<Rightarrow> int) \<Rightarrow> 'a pmem_scheme \<Rightarrow> addr \<Rightarrow> uint64 \<Rightarrow> addr list \<Rightarrow> 'a pmem_scheme \<Rightarrow> bool" where
  "cowed R ext s r v fl' s' \<longleftrightarrow> vupd R ext s (valid s) (uview s) fl' s'
     \<and> (\<forall>r'\<in>R. \<forall>v'\<in>vpages. r' \<noteq> r \<or> v' \<noteq> v \<longrightarrow> entry (ram s') r' v' = entry (ram s) r' v')"

lemma cow_take:
  assumes inv: "vinv R ext fl s" and ext: "\<forall>p. 0 \<le> ext p" and r: "r \<in> R" "v \<in> vpages"
    and e: "cow_leaf (entry (ram s) r v)" and pt: "node (ram s) r 2 v = Some pt"
    and one: "refcnt s (pidx (PTE2PA (entry (ram s) r v))) = 1"
  defines "e \<equiv> entry (ram s) r v"
  defines "s' \<equiv> s\<lparr>ram := st64 (ram s) (slot pt 0 v) (own_pte e (PTE2PA e))\<rparr>"
  shows "cowed R ext s r v fl s'" "entry (ram s') r v = own_pte e (PTE2PA e)"
proof -
  let ?pa = "PTE2PA e"
  have c: "cow_leaf e" using e by (simp add: e_def)
  note op = own_pte [OF c aligned_PTE2PA [of e]]
  have ul: "user_leaf (entry (ram s) r v)" using op(4) by (simp add: e_def)
  note up = user_page [OF inv ext r ul refl, folded e_def]
  note pk = vm_poke [OF inv ext r pt op(8) [OF up(2,1) one [folded e_def]], folded s'_def]
  have "maps (own_pte e ?pa) p \<longleftrightarrow> maps e p" for p
    using op(2-4) by (simp add: maps_def user_leaf_def)
  then have inv': "vinv R ext fl s'" by (intro vinv_ext_cong [OF pk(1)]) (simp add: e_def)
  show en: "entry (ram s') r v = own_pte e ?pa" using pk(2) [OF r] by simp
  have vw: "uview s' r' va = uview s r' va" if "r' \<in> R" for r' va
  proof (cases "r' = r \<and> PGROUNDDOWN va = v")
    case True
    have "uview s' r va = uview s r va"
      by (rule uview_share [of _ _ _ e _ _ "own_pte e ?pa"])
        (use True en op(2-4) pk(7) up(4) in \<open>simp_all add: e_def\<close>)
    then show ?thesis using True by simp
  next
    case False
    then show ?thesis by (intro pk(3) [OF that]) blast
  qed
  have "valid s' r' v' \<longleftrightarrow> valid s r' v'" if "r' \<in> R" "v' \<in> vpages" for r' v'
    using pk(2) [OF that] op(3) ul by (auto simp: user_leaf_def)
  then show "cowed R ext s r v fl s'"
    using inv' vw pk(2,4) up(2) unfolding cowed_def vupd_def by auto
qed

lemma cow_copy:
  assumes inv: "vinv R ext (q # fl) s" and ext: "\<forall>p. 0 \<le> ext p" and r: "r \<in> R" "v \<in> vpages"
    and e: "cow_leaf (entry (ram s) r v)" and pt: "node (ram s) r 2 v = Some pt"
  defines "e \<equiv> entry (ram s) r v"
  shows "\<exists>fl' s'. kbind kalloc (\<lambda>mem. kseq (upd_ram (\<lambda>m. memmove m mem (PTE2PA e) 4096))
      (kseq (poke64 (slot pt 0 v) (own_pte e mem)) (kfree (PTE2PA e)))) s = Inr ((), s')
    \<and> cowed R ext s r v fl' s' \<and> entry (ram s') r v = own_pte e q \<and> q \<noteq> 0 \<and> aligned q
    \<and> (\<exists>t. kalloc s = Inr (q, t))"
proof -
  let ?pa = "PTE2PA e"
  have c: "cow_leaf e" using e by (simp add: e_def)
  note fp = free_page [OF inv ext, of q, simplified]
  have al: "aligned q" using fp(1) by (rule usable_aligned)
  note op = own_pte [OF c al]
  have ul: "user_leaf (entry (ram s) r v)" using op(4) by (simp add: e_def)
  note up = user_page [OF inv ext r ul refl, folded e_def]
  have nq: "?pa \<noteq> q" using up(3) by auto
  define ext1 where "ext1 = ext(q := 1)"
  from vm_kalloc [OF inv ext, folded ext1_def] obtain t where
    t: "kalloc s = Inr (q, t)" "vinv R ext1 fl t" "kframe ext s t" "\<forall>r\<in>R. uview t r = uview s r"
      "refcnt t = (refcnt s)(pidx q := 1)" "\<forall>x. x \<noteq> q \<longrightarrow> same_page (ram s) (ram t) x"
      "\<forall>r\<in>R. \<forall>v. entry (ram t) r v = entry (ram s) r v" by blast
  have e1: "\<forall>p. 0 \<le> ext1 p" "1 \<le> ext1 q" using ext by (simp_all add: ext1_def)
  have ke: "kend t = kend s" using kframe_kend [OF t(3)] .
  have us: "usable (kend t) q" "usable (kend t) ?pa" using fp(1) up(1) ke by simp_all
  have rq: "refcnt t (pidx q) = 1" using t(5) by simp
  define m where "m = memmove (ram t) q ?pa 4096"
  note cp = copy_page [OF us, of _ "ram t", folded m_def]
  let ?u = "t\<lparr>ram := m\<rparr>"
  have f: "\<And>x. x \<noteq> q \<Longrightarrow> same_page (ram t) m x" by (rule cp(1))
  have w: "vinv R ext1 fl ?u" "\<And>r. r \<in> R \<Longrightarrow> uview ?u r = uview t r"
    "\<And>r v. r \<in> R \<Longrightarrow> entry m r v = entry (ram t) r v"
    using vm_write_private [OF t(2) e1(1) us(1) e1(2) rq, of m] f by blast+
  have en: "entry m r' v' = entry (ram s) r' v'" if "r' \<in> R" for r' v' using w(3) [OF that] t(7) that by simp
  have pt': "node (ram ?u) r 2 v = Some pt"
  proof -
    have "\<forall>x\<in>nodes (ram s) r. same_page (ram s) m x"
      using t(6) cp(1) fp(4) in_all_nodes [OF r(1), of _ "ram s"] same_page_trans by metis
    from node_frame [OF vinvD(2) [OF inv r(1)] this] pt show ?thesis by simp
  qed
  have lk: "leaf_ok ?u v (own_pte e q)" by (rule op(8) [OF up(2)]) (use us(1) rq in simp_all)
  note pk = vm_poke [OF w(1) e1(1) r pt' lk]
  let ?x = "?u\<lparr>ram := st64 (ram ?u) (slot pt 0 v) (own_pte e q)\<rparr>"
  define ext2 where "ext2 = ext(?pa := ext ?pa + 1)"
  have mp: "maps (own_pte e q) p \<longleftrightarrow> p = q" "maps e p \<longleftrightarrow> p = ?pa" for p
    using op(2-4) by (auto simp: maps_def user_leaf_def)
  have eu: "entry m r v = e" using en [OF r(1)] by (simp add: e_def)
  have inv2: "vinv R ext2 fl ?x"
    unfolding ext2_def by (rule vinv_ext_cong [OF pk(1)])
      (use up(2) nq fp(3) in \<open>auto simp: ext1_def eu mp split: if_splits\<close>)
  have e2: "\<forall>p. 0 \<le> ext2 p" "1 \<le> ext2 ?pa" "ext2(?pa := ext2 ?pa - 1) = ext"
    using ext by (auto simp: ext2_def add_nonneg_nonneg)
  have "usable (kend ?x) ?pa" using us(2) by simp
  from vm_kfree [OF inv2 e2(1) this e2(2), unfolded e2(3)] obtain fl' s' where
    kf: "kfree ?pa ?x = Inr ((), s')" "vinv R ext fl' s'" "kframe ext ?x s'"
      "\<forall>r'\<in>R. uview s' r' = uview ?x r'" "\<forall>r'\<in>R. \<forall>v. entry (ram s') r' v = entry (ram ?x) r' v" by blast
  have q0: "q \<noteq> 0" using fp(1) by (rule usable_nonzero)
  have run: "kbind kalloc (\<lambda>mem. kseq (upd_ram (\<lambda>m. memmove m mem ?pa 4096))
      (kseq (poke64 (slot pt 0 v) (own_pte e mem)) (kfree ?pa))) s = Inr ((), s')"
    using t(1) kf(1) by (simp add: kmonad m_def)
  have en': "entry (ram s') r' v' = (if r' = r \<and> v' = v then own_pte e q else entry (ram s) r' v')"
    if "r' \<in> R" "v' \<in> vpages" for r' v'
    using kf(5) pk(2) [OF that] en that by simp
  have "same_page (ram t) m p" if "kpage ext t p" for p
    using that f [of p] fp(1,3) ke by (cases "p = q") (auto simp: kpage_def)
  then have "kframe ext t ?u" by (simp add: kframe_def)
  moreover have "kframe ext ?u ?x" by (rule kframe_mono [OF pk(4)]) (use fp(3) in \<open>simp add: ext1_def\<close>)
  ultimately have kfr: "kframe ext s s'" using t(3) kf(3) kframe_trans by blast
  have vw: "uview s' r' va = uview s r' va" if "r' \<in> R" for r' va
  proof (cases "r' = r \<and> PGROUNDDOWN va = v")
    case True
    let ?o = "va - PGROUNDDOWN va"
    have o: "?o < PGSIZE" by simp
    have ex: "entry (ram ?x) r v = own_pte e q" using pk(2) [OF r] by simp
    have "q \<notin> all_nodes (ram ?u) R" by (rule held_page(2) [OF w(1)]) (use us(1) rq e1(2) in simp_all)
    then have "same_page m (ram ?x) q" using pk(7) [of q] by simp
    then have "ram ?x (q + ?o) = m (q + ?o)" by (rule same_page_at [OF _ al o])
    also have "\<dots> = ram t (?pa + ?o)" by (rule cp(2) [OF o])
    also have "\<dots> = ram s (?pa + ?o)" using t(6) nq by (intro same_page_at [OF _ _ o]) auto
    finally have "uview ?x r va = uview s r va"
      using True ul op(2,3) ex by (simp add: uview_def e_def)
    then show ?thesis using True kf(4) r(1) by simp
  next
    case False
    then have "uview ?x r' va = uview ?u r' va" by (intro pk(3) [OF that]) blast
    then show ?thesis using kf(4) w(2) [OF that] t(4) that by simp
  qed
  have "valid s' r' v' \<longleftrightarrow> valid s r' v'" if "r' \<in> R" "v' \<in> vpages" for r' v'
    using en' [OF that] op(3) ul by (auto simp: user_leaf_def)
  then have "cowed R ext s r v fl' s'"
    using kf(2) kfr vw en' up(2) unfolding cowed_def vupd_def by auto
  then show ?thesis using run en' [OF r] q0 al t(1) by auto
qed

lemma cowed_refl: "vinv R ext fl s \<Longrightarrow> cowed R ext s r v fl s"
  by (simp add: cowed_def vupd_refl)

lemma cowed_settled: "vinv R ext fl s \<Longrightarrow> cowed R ext s r v fl (settled s)"
  by (simp add: cowed_def vupd_def vinv_settled)

lemma cowed_pre_settled: "cowed R ext (settled s) r v fl s' \<Longrightarrow> cowed R ext s r v fl s'"
  unfolding cowed_def vupd_def using kframe_trans [OF kframe_settled] by auto

text \<open>\<open>cowalloc\<close> fails exactly when the address is not mapped copy-on-write or memory runs out; it
  changes no view, and when it succeeds the page is writable and private.\<close>

lemma cowalloc_post:
  assumes inv: "vinv R ext fl s" and ext: "\<forall>p. 0 \<le> ext p" and r: "r \<in> R"
  shows "\<exists>rc fl' s'. cowalloc r va s = Inr (rc, s') \<and> cowed R ext s r (PGROUNDDOWN va) fl' s'
    \<and> (rc = 0 \<and> va < MAXVA \<and> cow_leaf (entry (ram s) r (PGROUNDDOWN va))
          \<and> user_leaf (entry (ram s') r (PGROUNDDOWN va))
          \<and> entry (ram s') r (PGROUNDDOWN va) AND PTE_W \<noteq> 0
          \<and> entry (ram s') r (PGROUNDDOWN va) AND PTE_COW = 0
      \<or> rc = - 1 \<and> fl' = fl \<and> (\<not> va < MAXVA \<or> \<not> cow_leaf (entry (ram s) r (PGROUNDDOWN va)) \<or> fl = []))"
proof (cases "va < MAXVA \<and> cow_leaf (entry (ram s) r (PGROUNDDOWN va))")
  case False
  let ?v = "PGROUNDDOWN va"
  have "cowalloc r va s = Inr (- 1, s)"
  proof (cases "va < MAXVA")
    case True
    then have "?v < MAXVA" using vpages_lt [OF PGROUNDDOWN_vpages] by blast
    then show ?thesis
      using True False by (auto simp: cowalloc_def kmonad walk_lookup entry_def split: option.splits)
  qed (simp add: cowalloc_def kmonad not_less)
  then show ?thesis using False cowed_refl [OF inv] by auto
next
  case True
  let ?v = "PGROUNDDOWN va"
  define e where "e = entry (ram s) r ?v"
  have v: "?v \<in> vpages" using True by (intro PGROUNDDOWN_vpages) simp
  have c: "cow_leaf e" using True by (simp add: e_def)
  note op = own_pte [OF c aligned_PTE2PA [of e]]
  have ul: "user_leaf (entry (ram s) r ?v)" using op(4) by (simp add: e_def)
  note up = user_page [OF inv ext r v ul refl, folded e_def]
  obtain pt where pt: "node (ram s) r 2 ?v = Some pt" "ld64 (ram s) (slot pt 0 ?v) = e"
    using valid_node [of "ram s" r ?v] ul by (auto simp: user_leaf_def e_def)
  have "pt \<in> all_nodes (ram s) R" using pt(1) r node_in_nodes in_all_nodes by fastforce
  then have pt0: "slot pt 0 ?v \<noteq> 0" using vinv_node(4,5) [OF inv] slot_nonzero by blast
  let ?t = "settled s"
  have inv': "vinv R ext fl ?t" using inv by (rule vinv_settled)
  have rc: "krefcount (PTE2PA e) s = Inr (refcnt s (pidx (PTE2PA e)), ?t)"
    using krefcount_eq [of s "kend s"] vinvD(1) [OF inv] up(1) by simp
  have run: "cowalloc r va s = (if refcnt s (pidx (PTE2PA e)) = 1
      then kseq (poke64 (slot pt 0 ?v) (own_pte e (PTE2PA e))) (kret 0)
      else kbind kalloc (\<lambda>mem. if mem = 0 then kret (- 1)
        else kseq (upd_ram (\<lambda>m. memmove m mem (PTE2PA e) 4096))
          (kseq (poke64 (slot pt 0 ?v) (own_pte e mem)) (kseq (kfree (PTE2PA e)) (kret 0))))) ?t"
    unfolding op(1) unfolding own_flags_def using True pt pt0 c rc vpages_lt [OF v]
    by (simp add: cowalloc_def kmonad walk_lookup Let_def not_le [symmetric] split: sum.split)
  have et: "entry (ram ?t) r ?v = e" "cow_leaf (entry (ram ?t) r ?v)" "node (ram ?t) r 2 ?v = Some pt"
    using c pt(1) by (simp_all add: e_def)
  show ?thesis
  proof (cases "refcnt s (pidx (PTE2PA e)) = 1")
    case one: True
    have "refcnt ?t (pidx (PTE2PA (entry (ram ?t) r ?v))) = 1" using one et(1) by simp
    note ct = cow_take [OF inv' ext r v et(2,3) this, unfolded et(1)]
    show ?thesis
      using ct one True op(2,3,5,6) run cowed_pre_settled [OF ct(1)]
      by (auto simp: kmonad)
  next
    case False
    show ?thesis
    proof (cases fl)
      case Nil
      have "kalloc ?t = Inr (0, settled ?t)" using vm_kalloc_nil inv' Nil by blast
      then show ?thesis
        using False run Nil cowed_pre_settled [OF cowed_settled [OF inv']] by (auto simp: kmonad)
    next
      case (Cons q fl1)
      from cow_copy [OF inv' [unfolded Cons] ext r v et(2,3), unfolded et(1)] obtain fl' s' where
        cc: "kbind kalloc (\<lambda>mem. kseq (upd_ram (\<lambda>m. memmove m mem (PTE2PA e) 4096))
          (kseq (poke64 (slot pt 0 ?v) (own_pte e mem)) (kfree (PTE2PA e)))) ?t = Inr ((), s')"
          "cowed R ext ?t r ?v fl' s'" "entry (ram s') r ?v = own_pte e q" "q \<noteq> 0" "aligned q"
          "\<exists>t. kalloc ?t = Inr (q, t)" by blast
      note oq = own_pte [OF c cc(5)]
      have "cowalloc r va s = Inr (0, s')"
        using cc(1,4,6) run False by (auto simp: kmonad split: sum.splits prod.splits)
      then show ?thesis
        using cowed_pre_settled [OF cc(2)] cc(3) oq(3,5,6) True e_def by auto
    qed
  qed
qed

end
