(* ===== verification/Copy.thy ===== *)
theory Copy
  imports Cow
begin

text \<open>
  The copies between the kernel and user memory.  \<open>copyout\<close> writes into the view of one process and
  into no other, whatever pages it shares copy-on-write; \<open>copyin\<close> and \<open>copyinstr\<close> read from a view.
\<close>

declare copyout.simps [simp del] copyin.simps [simp del] copyinstr.simps [simp del]

section \<open>Bytes of one page\<close>

lemma chunk_props:
  assumes "len \<noteq> 0"
  shows "chunk va len \<noteq> 0" "unat (chunk va len) \<le> unat len"
    "unat (va - PGROUNDDOWN va) + unat (chunk va len) \<le> 4096"
    "chunk va len \<noteq> len \<Longrightarrow> va + chunk va len = PGROUNDDOWN va + PGSIZE"
    "unat (ucast (chunk va len) :: 32 word) = unat (chunk va len)"
proof -
  let ?o = "va - PGROUNDDOWN va"
  have o: "?o < PGSIZE" by simp
  then have uo: "unat ?o < 4096" by (simp only: word_less_nat_alt) simp
  have un: "unat (PGSIZE - ?o) = 4096 - unat ?o"
    using o by (subst unat_sub) (simp_all add: less_imp_le)
  show nz: "chunk va len \<noteq> 0" and le: "unat (chunk va len) \<le> unat len"
    using assms uo un by (auto simp: chunk_def Let_def word_less_nat_alt word_unat_eq_iff simp del: diff_add_eq_diff_diff_swap)
  show b: "unat ?o + unat (chunk va len) \<le> 4096"
    using uo un by (auto simp: chunk_def Let_def word_less_nat_alt)
  show "chunk va len \<noteq> len \<Longrightarrow> va + chunk va len = PGROUNDDOWN va + PGSIZE"
    by (auto simp: chunk_def Let_def split: if_splits)
  have "unat (chunk va len) < 2 ^ 32" using b by simp
  then show "unat (ucast (chunk va len) :: 32 word) = unat (chunk va len)"
    by (simp add: unsigned_ucast_eq take_bit_nat_eq_self)
qed

lemma chunk_page:
  assumes "unat (x - va) < unat (chunk va len)" "len \<noteq> 0"
  shows "PGROUNDDOWN x = PGROUNDDOWN va"
proof -
  let ?o = "va - PGROUNDDOWN va"
  have "unat (?o + (x - va)) = unat ?o + unat (x - va)"
    using assms(1) chunk_props(3) [OF assms(2), of va] by (subst unat_add_lt) simp_all
  then have "unat (x - PGROUNDDOWN va) < 4096"
    using assms(1) chunk_props(3) [OF assms(2), of va] by (simp add: algebra_simps)
  then have "x - PGROUNDDOWN va < PGSIZE" by (simp add: word_less_nat_alt)
  then show ?thesis using page_offset [of "PGROUNDDOWN va" x] by simp
qed

text \<open>Splitting a range of addresses after its first \<open>n\<close> bytes.\<close>

lemma range_split:
  fixes x d n len :: uint64
  assumes "unat n \<le> unat len"
  shows "unat (x - d) < unat len \<longleftrightarrow> unat (x - d) < unat n \<or> unat (x - (d + n)) < unat (len - n)"
proof -
  have l: "unat (len - n) = unat len - unat n" using assms by (intro unat_sub) (simp add: word_le_nat_alt)
  have e: "x - (d + n) = (x - d) - n" by simp
  have "unat ((x - d) - n) = (if unat n \<le> unat (x - d) then unat (x - d) - unat n
      else unat (x - d) + 2 ^ 64 - unat n)"
    using unat_sub_if_size [of "x - d" n] by (simp add: word_size)
  moreover have "unat len < 2 ^ 64" using unsigned_less [of len, where 'a = nat] by simp
  ultimately show ?thesis unfolding e l using assms by (auto split: if_splits)
qed

lemma range_split_nat:
  fixes x d n :: uint64
  assumes "unat n + k < 2 ^ 64"
  shows "unat (x - d) < unat n + k \<longleftrightarrow> unat (x - d) < unat n \<or> unat (x - (d + n)) < k"
proof -
  define K where "K = (of_nat (unat n + k) :: uint64)"
  have K: "unat K = unat n + k" unfolding K_def unsigned_of_nat using assms by (simp add: take_bit_nat_eq_self)
  have Kn: "unat (K - n) = k" using K by (subst unat_sub) (simp_all add: word_le_nat_alt)
  show ?thesis using range_split [of n K x d] K Kn by simp
qed

section \<open>Writing to a user page\<close>

text \<open>A write to a page that is mapped writable for one process changes nothing else.\<close>

lemma vm_write_user:
  assumes inv: "vinv R ext fl s" and ext: "\<forall>p. 0 \<le> ext p" and r: "r \<in> R" "v \<in> vpages"
    and e: "user_leaf (entry (ram s) r v)" "entry (ram s) r v AND PTE_W \<noteq> 0"
    and m: "\<And>x. x \<noteq> PTE2PA (entry (ram s) r v) \<Longrightarrow> same_page (ram s) m x"
  shows "vinv R ext fl (s\<lparr>ram := m\<rparr>)" "kframe ext s (s\<lparr>ram := m\<rparr>)"
    "r' \<in> R \<Longrightarrow> entry m r' v' = entry (ram s) r' v'"
    "r' \<in> R \<Longrightarrow> r' = r \<longrightarrow> PGROUNDDOWN va \<noteq> v \<Longrightarrow> uview (s\<lparr>ram := m\<rparr>) r' va = uview s r' va"
proof -
  let ?pa = "PTE2PA (entry (ram s) r v)"
  note up = user_page [OF inv ext r e(1) refl]
  have one: "refcnt s (pidx ?pa) = 1"
    using vinvD(6) [OF inv r] e by (auto simp: leaf_ok_def user_leaf_def)
  note sm = sole_mapping [OF inv ext up(1) one up(5)]
  have fn: "\<forall>x\<in>all_nodes (ram s) R. same_page (ram s) m x" using m up(4) by metis
  show "vinv R ext fl (s\<lparr>ram := m\<rparr>)" by (rule vinv_ram [OF inv fn]) (use m up(3) in metis)
  have "p \<noteq> ?pa" if "kpage ext s p" for p using that up(1) sm(2) by (auto simp: kpage_def)
  then show "kframe ext s (s\<lparr>ram := m\<rparr>)" using m by (simp add: kframe_def)
  show en: "r' \<in> R \<Longrightarrow> entry m r' v' = entry (ram s) r' v'" for r' v' by (rule tables_frame(3) [OF inv fn])
  assume r': "r' \<in> R" "r' = r \<longrightarrow> PGROUNDDOWN va \<noteq> v"
  show "uview (s\<lparr>ram := m\<rparr>) r' va = uview s r' va"
  proof (cases "va < MAXVA \<and> user_leaf (entry (ram s) r' (PGROUNDDOWN va))")
    case True
    let ?e = "entry (ram s) r' (PGROUNDDOWN va)"
    have "PTE2PA ?e \<noteq> ?pa"
    proof
      assume "PTE2PA ?e = ?pa"
      then have "(r', PGROUNDDOWN va) \<in> mapset (entry (ram s)) R ?pa"
        using user_page(5) [OF inv ext r'(1) PGROUNDDOWN_vpages] True by simp
      with sm(1) r'(2) show False by simp
    qed
    then show ?thesis by (intro uview_cong [of ?e ?e]) (use m en r'(1) in simp_all)
  qed (use en [OF r'(1)] in \<open>auto simp: uview_def\<close>)
qed

section \<open>walkaddr\<close>

lemma walkaddr_eq:
  assumes inv: "vinv R ext fl s" and r: "r \<in> R"
  shows "walkaddr r (PGROUNDDOWN va) s = Inr (if PGROUNDDOWN va < MAXVA \<and> user_leaf (entry (ram s) r (PGROUNDDOWN va))
    then PTE2PA (entry (ram s) r (PGROUNDDOWN va)) else 0, s)"
proof (cases "PGROUNDDOWN va < MAXVA")
  case True
  then show ?thesis
  proof (cases "node (ram s) r 2 (PGROUNDDOWN va)")
    case None
    then show ?thesis using True by (auto simp: walkaddr_def walk_lookup kmonad entry_def user_leaf_def not_less)
  next
    case (Some pt)
    have "pt \<in> all_nodes (ram s) R" using Some r node_in_nodes in_all_nodes by fastforce
    then have "slot pt 0 (PGROUNDDOWN va) \<noteq> 0" using vinv_node(4,5) [OF inv] slot_nonzero by blast
    then show ?thesis
      using True Some by (auto simp: walkaddr_def walk_lookup kmonad entry_def user_leaf_def not_less)
  qed
next
  case False
  then show ?thesis by (auto simp: walkaddr_def kmonad)
qed

lemma page_below_MAXVA: "PGROUNDDOWN va < MAXVA \<longleftrightarrow> va < MAXVA"
  using vpage_of [of va] PGROUNDDOWN_vpages [of va] vpages_lt [of "PGROUNDDOWN va"] PGROUNDDOWN_aligned [of va]
  by (auto simp: vpages_def)

section \<open>copyout\<close>

text \<open>The view after \<open>k\<close> bytes of the kernel buffer \<open>src\<close> were written at \<open>d\<close>.\<close>

definition written :: "'a pmem_scheme \<Rightarrow> addr \<Rightarrow> uint64 \<Rightarrow> addr \<Rightarrow> nat \<Rightarrow> addr \<Rightarrow> uint64 \<Rightarrow> uint8 option" where
  "written s r d src k r' va =
     (if r' = r \<and> unat (va - d) < k then Some (ram s (src + (va - d))) else uview s r' va)"

text \<open>A buffer that lies in memory of the kernel.\<close>

definition kbuf :: "(addr \<Rightarrow> int) \<Rightarrow> 'a pmem_scheme \<Rightarrow> addr \<Rightarrow> nat \<Rightarrow> bool" where
  "kbuf ext s p n \<longleftrightarrow> unat p + n < 2 ^ 64 \<and> (\<forall>i. unat i < n \<longrightarrow> kpage ext s (PGROUNDDOWN (p + i)))"

lemma kbuf_byte: "kbuf ext s p n \<Longrightarrow> kframe ext s t \<Longrightarrow> unat i < n \<Longrightarrow> ram t (p + i) = ram s (p + i)"
  by (auto simp: kbuf_def kframe_def same_page_def)

lemma kbuf_frame: "kbuf ext s p n \<Longrightarrow> kframe ext s t \<Longrightarrow> kbuf ext t p n"
  by (simp add: kbuf_def kpage_def kframe_kend)

lemma kbuf_drop:
  assumes "kbuf ext s p (unat len)" "unat n \<le> unat len"
  shows "kbuf ext s (p + n) (unat (len - n))"
proof -
  have l: "unat (len - n) = unat len - unat n" using assms(2) by (intro unat_sub) (simp add: word_le_nat_alt)
  have "unat (p + n) = unat p + unat n" using assms by (subst unat_add_lt) (simp_all add: kbuf_def)
  moreover have "kpage ext s (PGROUNDDOWN (p + n + i))" if "unat i < unat len - unat n" for i
  proof -
    have "unat (n + i) = unat n + unat i"
      using that unsigned_less [of len, where 'a = nat] by (subst unat_add_lt) simp_all
    then show ?thesis using assms(1) that by (simp add: kbuf_def add.assoc)
  qed
  ultimately show ?thesis using assms by (simp add: kbuf_def l)
qed

lemma vupd_id_trans:
  assumes "vupd R ext s (valid s) V1 fl1 t" "vupd R ext t (valid t) V2 fl2 u"
  shows "vupd R ext s (valid s) V2 fl2 u"
  by (rule vupd_cong [OF vupd_trans [OF assms]]) (use vupdD(4) [OF assms(1)] in auto)

lemma cow_leafI:
  assumes "user_leaf e" "e AND PTE_COW \<noteq> 0"
  shows "cow_leaf e"
proof -
  have "e AND PTE_V = PTE_V" "e AND PTE_U = PTE_U" "e AND PTE_COW = PTE_COW"
    using assms and_exp_cases [of PTE_V 0 e] and_exp_cases [of PTE_U 4 e] and_exp_cases [of PTE_COW 8 e]
    by (auto simp: user_leaf_def)
  then show ?thesis by (simp only: bit.conj_disj_distrib)
qed

text \<open>Pages the kernel may write: its own memory, and pages it holds that no process maps.\<close>

definition kown :: "addr set \<Rightarrow> (addr \<Rightarrow> int) \<Rightarrow> 'a pmem_scheme \<Rightarrow> addr \<Rightarrow> bool" where
  "kown R ext s p \<longleftrightarrow> \<not> usable (kend s) p \<or> 1 \<le> ext p \<and> mapset (entry (ram s)) R p = {}"

lemma kown_kept:
  assumes inv: "vinv R ext fl s'" and ext: "\<forall>p. 0 \<le> ext p" and r: "r \<in> R" "v \<in> vpages" and "kend s' = kend s"
    and other: "\<And>r' v'. r' \<in> R \<Longrightarrow> v' \<in> vpages \<Longrightarrow> r' \<noteq> r \<or> v' \<noteq> v \<Longrightarrow> entry (ram s') r' v' = entry (ram s) r' v'"
    and e: "user_leaf (entry (ram s') r v)" "entry (ram s') r v AND PTE_W \<noteq> 0" and k: "kown R ext s p"
  shows "kown R ext s' p"
proof (cases "usable (kend s) p")
  case True
  then have p: "1 \<le> ext p" "mapset (entry (ram s)) R p = {}" using k by (auto simp: kown_def)
  have "(r', v') \<notin> mapset (entry (ram s')) R p" for r' v'
  proof (cases "r' = r \<and> v' = v")
    case True
    then show ?thesis using kpage_private(3) [OF inv ext _ r e(1)] p(1) e(2) by (auto simp: mapset_def maps_def kpage_def)
  next
    case False
    then show ?thesis using p(2) other [of r' v'] by (auto simp: mapset_def upages_def)
  qed
  then show ?thesis using p(1) by (auto simp: kown_def)
qed (use assms(5) in \<open>simp add: kown_def\<close>)

lemma copyout_body_post:
  fixes s :: "'a pmem_scheme"
  assumes inv: "vinv R ext fl s" and ext: "\<forall>p. 0 \<le> ext p" and r: "r \<in> R"
    and len: "len \<noteq> 0" and buf: "kbuf ext s src (unat len)"
  shows "(\<exists>fl' s'. copyout_body r d src len s = Inr (True, s')
      \<and> vupd R ext s (valid s) (written s r d src (unat (chunk d len))) fl' s'
      \<and> (\<forall>va. PGROUNDDOWN va = PGROUNDDOWN d \<longrightarrow> uview s r va \<noteq> None) \<and> (\<forall>p. kown R ext s p \<longrightarrow> kown R ext s' p))
    \<or> (\<exists>s'. copyout_body r d src len s = Inr (False, s') \<and> vupd R ext s (valid s) (uview s) fl s'
      \<and> (fl \<noteq> [] \<longrightarrow> uview s r d = None))"
proof -
  let ?v = "PGROUNDDOWN d"
  let ?e = "entry (ram s) r ?v"
  note cp = chunk_props [OF len, of d]
  define cont :: "('a pmem_scheme, bool) km" where "cont = kbind (walkaddr r ?v) (\<lambda>pa0. if pa0 = 0 then kret False
      else kseq (upd_ram (\<lambda>m. memmove m (pa0 + (d - ?v)) src (ucast (chunk d len)))) (kret True))"
  have wr: "\<exists>fl' s'. cont s1 = Inr (True, s')
      \<and> vupd R ext s (valid s) (written s r d src (unat (chunk d len))) fl' s' \<and> (\<forall>p. kown R ext s p \<longrightarrow> kown R ext s' p)"
    if v: "?v < MAXVA" and s1: "cowed R ext s r ?v fl1 s1" "user_leaf (entry (ram s1) r ?v)"
      "entry (ram s1) r ?v AND PTE_W \<noteq> 0" for fl1 s1
  proof -
    define pa where "pa = PTE2PA (entry (ram s1) r ?v)"
    have vp: "?v \<in> vpages" using v by (simp add: vpages_def)
    have up: "vupd R ext s (valid s) (uview s) fl1 s1" using s1(1) by (simp add: cowed_def)
    note D = vupdD [OF up]
    note upg = user_page [OF D(1) ext r vp s1(2) pa_def [symmetric]]
    have al: "aligned pa" and pa0: "pa \<noteq> 0" using upg(1) by (auto dest: usable_aligned usable_nonzero)
    have lt: "unat pa < 2281701376" using upg(1) by (simp add: usable_def word_less_nat_alt)
    let ?d = "pa + (d - ?v)"
    define m where "m = memmove (ram s1) ?d src (ucast (chunk d len))"
    have "unat (d - ?v) < 4096" using cp(1,3) by (auto simp: word_unat_eq_iff)
    then have "unat ?d = unat pa + unat (d - ?v)" using lt by (intro unat_add_lt) simp
    then have m: "m = copied (ram s1) ?d src (unat (chunk d len))"
      unfolding m_def using lt cp(2,3,5) buf by (subst memmove_eq) (simp_all add: kbuf_def)
    have f: "\<And>x. x \<noteq> pa \<Longrightarrow> same_page (ram s1) m x"
      unfolding m by (rule copied_same_page [OF al _ cp(3)])
    note w = vm_write_user [OF D(1) ext r vp s1(2,3), of m, folded pa_def, OF f]
    let ?s' = "s1\<lparr>ram := m\<rparr>"
    have vw: "uview ?s' r' va = written s r d src (unat (chunk d len)) r' va" if "r' \<in> R" for r' va
    proof (cases "r' = r \<and> PGROUNDDOWN va = ?v")
      case False
      then have "\<not> (r' = r \<and> unat (va - d) < unat (chunk d len))" using chunk_page [OF _ len, of va d] by blast
      moreover have "uview ?s' r' va = uview s1 r' va" by (rule w(4)) (use False that in auto)
      ultimately show ?thesis using D(5) [OF that] by (auto simp: written_def)
    next
      case True
      have vm: "va < MAXVA" using True v page_below_MAXVA [of va] by simp
      have x: "pa + (va - ?v) - ?d = va - d" by simp
      have e': "entry m r ?v = entry (ram s1) r ?v" by (rule w(3)) (use r in auto)
      have "uview ?s' r va = Some (m (pa + (va - ?v)))"
        using True vm s1(2) e' by (simp add: uview_def pa_def)
      also have "m (pa + (va - ?v)) = (if unat (va - d) < unat (chunk d len) then ram s1 (src + (va - d))
          else ram s1 (pa + (va - ?v)))" unfolding m copied_def x by simp
      finally have 1: "uview ?s' r va = (if unat (va - d) < unat (chunk d len) then Some (ram s1 (src + (va - d)))
          else Some (ram s1 (pa + (va - ?v))))" by simp
      have "Some (ram s1 (pa + (va - ?v))) = uview s1 r va"
        using True vm s1(2) by (simp add: uview_def pa_def)
      moreover have "ram s1 (src + (va - d)) = ram s (src + (va - d))" if "unat (va - d) < unat (chunk d len)"
        using that cp(2) by (intro kbuf_byte [OF buf D(2)]) simp
      ultimately show ?thesis using True 1 D(5) [OF r] by (simp add: written_def)
    qed
    have "walkaddr r ?v s1 = Inr (pa, s1)" using walkaddr_eq [OF D(1) r, of d] v s1(2) by (simp add: pa_def)
    then have "cont s1 = Inr (True, ?s')" using pa0 by (simp add: cont_def kmonad m_def)
    moreover have "vupd R ext s (valid s) (written s r d src (unat (chunk d len))) fl1 ?s'"
      unfolding vupd_def using D(3,4) w(1-3) vw kframe_trans [OF D(2)] by auto
    moreover have "kown R ext ?s' p" if "kown R ext s p" for p
    proof (rule kown_kept [OF w(1) ext r vp _ _ _ _ that])
      show "kend ?s' = kend s" using kframe_kend [OF D(2)] by simp
      show "entry (ram ?s') r' v' = entry (ram s) r' v'" if "r' \<in> R" "v' \<in> vpages" "r' \<noteq> r \<or> v' \<noteq> ?v" for r' v'
        using s1(1) w(3) that by (simp add: cowed_def)
    qed (use w(3) r s1(2,3) in simp_all)
    ultimately show ?thesis by blast
  qed
  show ?thesis
  proof (cases "?v < MAXVA")
    case False
    then have "copyout_body r d src len s = Inr (False, s)" by (auto simp: copyout_body_def kmonad Let_def)
    then show ?thesis using False vupd_refl [OF inv] page_below_MAXVA [of d] uview_high [of d s r] by blast
  next
    case v: True
    have vp: "?v \<in> vpages" using v by (simp add: vpages_def)
    have dm: "d < MAXVA" using v page_below_MAXVA by blast
    have vis: "uview s r va \<noteq> None" if "user_leaf ?e" "PGROUNDDOWN va = ?v" for va
      using that page_below_MAXVA [of va] v by (simp add: uview_def)
    have inv0: "uview s r d = None" if "\<not> user_leaf ?e" using that by (simp add: uview_def)
    have skip: "cont s = Inr (False, s)" if "\<not> user_leaf ?e"
      using walkaddr_eq [OF inv r, of d] that by (simp add: cont_def kmonad)
    have body: "copyout_body r d src len s = kbind (if ?e AND PTE_COW = 0 then kret False
        else kbind (cowalloc r ?v) (\<lambda>rc. kret (rc < 0))) (\<lambda>failed. if failed then kret False else cont) s"
    proof (cases "node (ram s) r 2 ?v")
      case None
      then show ?thesis unfolding cont_def using v by (simp add: copyout_body_def Let_def walk_lookup kmonad entry_def not_le [symmetric])
    next
      case (Some pt)
      have "pt \<in> all_nodes (ram s) R" using Some r node_in_nodes in_all_nodes by fastforce
      then have "slot pt 0 ?v \<noteq> 0" using vinv_node(4,5) [OF inv] slot_nonzero by blast
      then show ?thesis
        unfolding cont_def using v Some by (simp add: copyout_body_def Let_def walk_lookup kmonad entry_def not_le [symmetric])
    qed
    show ?thesis
    proof (cases "user_leaf ?e \<and> ?e AND PTE_COW = 0")
      case True
      then have "?e AND PTE_W \<noteq> 0" using vinvD(6) [OF inv r vp] by (auto simp: leaf_ok_def user_leaf_def split: if_splits)
      then show ?thesis using True wr [OF v cowed_refl [OF inv]] body vis by (auto simp: kmonad)
    next
      case no: False
      show ?thesis
      proof (cases "?e AND PTE_COW = 0")
        case True
        then show ?thesis using no skip inv0 body vupd_refl [OF inv] by (auto simp: kmonad)
      next
        case False
        from cowalloc_post [OF inv ext r, of ?v] obtain rc fl' s' where
          c: "cowalloc r ?v s = Inr (rc, s')" "cowed R ext s r ?v fl' s'"
            "rc = 0 \<and> cow_leaf ?e \<and> user_leaf (entry (ram s') r ?v) \<and> entry (ram s') r ?v AND PTE_W \<noteq> 0
              \<or> rc = - 1 \<and> fl' = fl \<and> (\<not> cow_leaf ?e \<or> fl = [])"
          using v by auto
        from c(3) show ?thesis
        proof (elim disjE conjE)
          assume ok: "rc = 0" "cow_leaf ?e" "user_leaf (entry (ram s') r ?v)" "entry (ram s') r ?v AND PTE_W \<noteq> 0"
          have "user_leaf ?e" using own_pte(4) [OF ok(2) aligned_PTE2PA [of 0]] .
          then show ?thesis using wr [OF v c(2) ok(3,4)] body c(1) ok(1) False vis by (auto simp: kmonad)
        qed (use c(1,2) body False cow_leafI [of ?e] inv0 in \<open>auto simp: kmonad cowed_def\<close>)
      qed
    qed
  qed
qed

lemma written_trans:
  assumes up: "vupd R ext s (valid s) (written s r d src (unat n)) fl1 t" and r: "r \<in> R"
    and buf: "kbuf ext s src (unat len)" and n: "unat n \<le> unat len" and k: "k \<le> unat (len - n)"
    and "r' \<in> R" "d' = d + n \<or> k = 0"
  shows "written t r d' (src + n) k r' va = written s r d src (unat n + k) r' va"
proof -
  note D = vupdD [OF up]
  have l: "unat (len - n) = unat len - unat n" using n by (intro unat_sub) (simp add: word_le_nat_alt)
  have lt: "unat n + k < 2 ^ 64" using k l n unsigned_less [of len, where 'a = nat] by simp
  have vt: "uview t r' va = written s r d src (unat n) r' va" using D(5) assms(6) by simp
  show ?thesis
  proof (cases "r' = r \<and> k \<noteq> 0")
    case False
    then show ?thesis using vt by (auto simp: written_def)
  next
    case True
    have d': "d' = d + n" using assms(7) True by simp
    have sp: "unat (va - d) < unat n + k \<longleftrightarrow> unat (va - d) < unat n \<or> unat (va - d') < k"
      using range_split_nat [OF lt] d' by simp
    have "ram t (src + n + (va - d')) = ram s (src + (va - d))" if "unat (va - d') < k"
    proof -
      have "unat (n + (va - d')) = unat n + unat (va - d')" using that lt by (intro unat_add_lt) simp
      then have "ram t (src + (n + (va - d'))) = ram s (src + (n + (va - d')))"
        using that k l n by (intro kbuf_byte [OF buf D(2)]) simp
      then show ?thesis by (simp add: d' add.assoc)
    qed
    moreover have "n + (va - d') = va - d" using d' by simp
    ultimately show ?thesis using True vt sp by (auto simp: written_def)
  qed
qed

lemma copyout_post:
  assumes "vinv R ext fl s" and ext: "\<forall>p. 0 \<le> ext p" and r: "r \<in> R" and "kbuf ext s src (unat len)"
  shows "(\<exists>fl' s'. copyout r d src len s = Inr (0, s')
      \<and> vupd R ext s (valid s) (written s r d src (unat len)) fl' s'
      \<and> (\<forall>va. unat (va - d) < unat len \<longrightarrow> uview s r va \<noteq> None))
    \<or> (\<exists>fl' s' k. copyout r d src len s = Inr (- 1, s') \<and> k < unat len
      \<and> vupd R ext s (valid s) (written s r d src k) fl' s' \<and> (fl' \<noteq> [] \<longrightarrow> uview s r (d + of_nat k) = None))"
  using assms(1,4)
proof (induction "unat len" arbitrary: d src len s fl rule: less_induct)
  case less
  note inv = less.prems(1) and buf = less.prems(2)
  have w0: "written s r d src 0 = uview s" by (auto simp: written_def fun_eq_iff)
  show ?case
  proof (cases "len = 0")
    case True
    then show ?thesis using vupd_refl [OF inv] w0 by (auto simp: copyout.simps)
  next
    case len: False
    let ?n = "chunk d len" and ?d' = "PGROUNDDOWN d + PGSIZE"
    note cp = chunk_props [OF len, of d]
    from copyout_body_post [OF inv ext r len buf, of d] show ?thesis
    proof (elim disjE exE conjE)
      fix s1 assume no: "copyout_body r d src len s = Inr (False, s1)" "vupd R ext s (valid s) (uview s) fl s1"
        "fl \<noteq> [] \<longrightarrow> uview s r d = None"
      have "copyout r d src len s = Inr (- 1, s1)" using no(1) len by (simp add: copyout.simps [of r d])
      then show ?thesis
        using no len w0 by (intro disjI2 exI [of _ fl] exI [of _ s1] exI [of _ 0]) (simp add: unat_gt_0)
    next
      fix fl1 s1
      assume run: "copyout_body r d src len s = Inr (True, s1)" and
        up: "vupd R ext s (valid s) (written s r d src (unat ?n)) fl1 s1" and
        vis: "\<forall>va. PGROUNDDOWN va = PGROUNDDOWN d \<longrightarrow> uview s r va \<noteq> None" and
        "\<forall>p. kown R ext s p \<longrightarrow> kown R ext s1 p"
      note D = vupdD [OF up]
      have l: "unat (len - ?n) = unat len - unat ?n" using cp(2) by (intro unat_sub) (simp add: word_le_nat_alt)
      have m: "unat (len - ?n) < unat len" using chunk_measure [OF len] .
      have b1: "kbuf ext s1 (src + ?n) (unat (len - ?n))"
        using kbuf_drop [OF buf cp(2)] kbuf_frame [OF _ D(2)] by blast
      have run': "copyout r d src len s = copyout r ?d' (src + ?n) (len - ?n) s1"
        using len run by (simp add: copyout.simps [of r d])
      have dn: "?d' = d + ?n \<or> len - ?n = 0" using cp(4) by auto
      have vn: "uview s r va \<noteq> None" if "unat (va - d) < unat ?n" for va
        using vis chunk_page [OF that len] by simp
      from less.hyps [OF m D(1) b1, of ?d'] show ?thesis
      proof (elim disjE exE conjE)
        fix fl' s'
        assume ok: "copyout r ?d' (src + ?n) (len - ?n) s1 = Inr (0, s')"
          "vupd R ext s1 (valid s1) (written s1 r ?d' (src + ?n) (unat (len - ?n))) fl' s'"
          "\<forall>va. unat (va - ?d') < unat (len - ?n) \<longrightarrow> uview s1 r va \<noteq> None"
        have "written s1 r ?d' (src + ?n) (unat (len - ?n)) r' va = written s r d src (unat len) r' va" if "r' \<in> R" for r' va
          using written_trans [OF up r buf cp(2) order_refl that, of ?d'] dn l cp(2) by auto
        then have "vupd R ext s (valid s) (written s r d src (unat len)) fl' s'"
          by (intro vupd_cong [OF vupd_id_trans [OF up ok(2)]]) auto
        moreover have "uview s r va \<noteq> None" if v: "unat (va - d) < unat len" for va
        proof (cases "unat (va - d) < unat ?n")
          case False
          then have "unat (va - ?d') < unat (len - ?n)"
            using v dn range_split [OF cp(2), of va d] by auto
          with ok(3) have "uview s1 r va \<noteq> None" by blast
          then show ?thesis using D(5) [OF r, of va] False by (simp add: written_def)
        qed (rule vn)
        ultimately show ?thesis using ok(1) run' by auto
      next
        fix fl' s' k
        assume no: "copyout r ?d' (src + ?n) (len - ?n) s1 = Inr (- 1, s')" "k < unat (len - ?n)"
          "vupd R ext s1 (valid s1) (written s1 r ?d' (src + ?n) k) fl' s'"
          "fl' \<noteq> [] \<longrightarrow> uview s1 r (?d' + of_nat k) = None"
        have d': "?d' = d + ?n" using dn no(2) by auto
        have "written s1 r ?d' (src + ?n) k r' va = written s r d src (unat ?n + k) r' va" if "r' \<in> R" for r' va
          using written_trans [OF up r buf cp(2) _ that, of k ?d'] d' no(2) by auto
        then have "vupd R ext s (valid s) (written s r d src (unat ?n + k)) fl' s'"
          by (intro vupd_cong [OF vupd_id_trans [OF up no(3)]]) auto
        moreover have "fl' \<noteq> [] \<longrightarrow> uview s r (d + of_nat (unat ?n + k)) = None"
        proof -
          have "?d' + of_nat k = d + of_nat (unat ?n + k)" by (simp add: d' add.assoc)
          moreover have "uview s r x = None" if "uview s1 r x = None" for x
            using that D(5) [OF r, of x] by (simp add: written_def split: if_splits)
          ultimately show ?thesis using no(4) by metis
        qed
        moreover have "unat ?n + k < unat len" using no(2) l by simp
        ultimately show ?thesis using no(1) run' by (intro disjI2) (metis (no_types))
      qed
    qed
  qed
qed

section \<open>copyin\<close>

lemma vm_write_kernel:
  assumes inv: "vinv R ext fl s" and ext: "\<forall>p. 0 \<le> ext p"
    and m: "\<And>x. \<not> kown R ext s x \<Longrightarrow> same_page (ram s) m x"
  shows "vinv R ext fl (s\<lparr>ram := m\<rparr>)" "r \<in> R \<Longrightarrow> entry m r v = entry (ram s) r v"
    "r \<in> R \<Longrightarrow> uview (s\<lparr>ram := m\<rparr>) r = uview s r" "kown R ext (s\<lparr>ram := m\<rparr>) = kown R ext s"
proof -
  have k: "kpage ext s p" if "kown R ext s p" for p using that by (auto simp: kown_def kpage_def)
  have fn: "\<forall>x\<in>all_nodes (ram s) R. same_page (ram s) m x" using m k kpage_private(2) [OF inv ext] by blast
  show "vinv R ext fl (s\<lparr>ram := m\<rparr>)"
    by (rule vinv_ram [OF inv fn]) (use m k kpage_private(1) [OF inv ext] in blast)
  show en: "r \<in> R \<Longrightarrow> entry m r v = entry (ram s) r v" for r v by (rule tables_frame(3) [OF inv fn])
  show "kown R ext (s\<lparr>ram := m\<rparr>) = kown R ext s"
    by (simp add: fun_eq_iff kown_def tables_frame(5) [OF inv fn])
  assume r: "r \<in> R"
  show "uview (s\<lparr>ram := m\<rparr>) r = uview s r"
  proof (rule view_frame)
    show "entry (ram (s\<lparr>ram := m\<rparr>)) r v = entry (ram s) r v" for v using en [OF r] by simp
    show "same_page (ram s) (ram (s\<lparr>ram := m\<rparr>)) (PTE2PA (entry (ram s) r v))"
      if "v \<in> vpages" "user_leaf (entry (ram s) r v)" for v
      using user_page(1,5) [OF inv ext r that refl] m [of "PTE2PA (entry (ram s) r v)"]
      by (auto simp: kown_def)
  qed
qed

text \<open>\<open>kdest\<close>: a destination in such pages.\<close>

definition kdest :: "addr set \<Rightarrow> (addr \<Rightarrow> int) \<Rightarrow> 'a pmem_scheme \<Rightarrow> addr \<Rightarrow> nat \<Rightarrow> bool" where
  "kdest R ext s p n \<longleftrightarrow> unat p + n < 2 ^ 64 \<and> (\<forall>i. unat i < n \<longrightarrow> kown R ext s (PGROUNDDOWN (p + i)))"

lemma kdest_drop:
  assumes "kdest R ext s p (unat len)" "unat n \<le> unat len"
  shows "kdest R ext s (p + n) (unat (len - n))"
proof -
  have l: "unat (len - n) = unat len - unat n" using assms(2) by (intro unat_sub) (simp add: word_le_nat_alt)
  have "unat (p + n) = unat p + unat n" using assms by (subst unat_add_lt) (simp_all add: kdest_def)
  moreover have "kown R ext s (PGROUNDDOWN (p + n + i))" if "unat i < unat len - unat n" for i
  proof -
    have "unat (n + i) = unat n + unat i"
      using that unsigned_less [of len, where 'a = nat] by (subst unat_add_lt) simp_all
    then show ?thesis using assms(1) that by (simp add: kdest_def add.assoc)
  qed
  ultimately show ?thesis using assms by (simp add: kdest_def l)
qed

text \<open>Memory after the first \<open>k\<close> bytes of the view at \<open>a\<close> were read to \<open>dst\<close>.\<close>

definition fetched :: "'a pmem_scheme \<Rightarrow> addr \<Rightarrow> uint64 \<Rightarrow> addr \<Rightarrow> nat \<Rightarrow> ram" where
  "fetched s r a dst k =
     (\<lambda>x. if unat (x - dst) < k then the (uview s r (a + (x - dst))) else ram s x)"

lemma fetched_same_page:
  assumes "kdest R ext s dst n" "k \<le> n" "\<not> kown R ext s x"
  shows "same_page (ram s) (fetched s r a dst k) x"
  unfolding same_page_def
proof (intro allI impI)
  fix y assume y: "PGROUNDDOWN y = x"
  have "\<not> unat (y - dst) < k"
  proof
    assume "unat (y - dst) < k"
    moreover have "unat i < n \<Longrightarrow> kown R ext s (PGROUNDDOWN (dst + i))" for i using assms(1) by (simp add: kdest_def)
    ultimately have "kown R ext s (PGROUNDDOWN (dst + (y - dst)))" using assms(2) order_less_le_trans by blast
    then show False using assms(3) y by simp
  qed
  then show "ram s y = fetched s r a dst k y" by (simp add: fetched_def)
qed

lemma copyin_body_eq:
  assumes inv: "vinv R ext fl s" and ext: "\<forall>p. 0 \<le> ext p" and r: "r \<in> R" and len: "len \<noteq> 0"
    and dst: "kdest R ext s dst (unat len)"
  shows "copyin_body r dst a len s = (if uview s r a = None then Inr (False, s)
    else Inr (True, s\<lparr>ram := fetched s r a dst (unat (chunk a len))\<rparr>))"
    and "uview s r a \<noteq> None \<Longrightarrow> unat (va - a) < unat (chunk a len) \<Longrightarrow> uview s r va \<noteq> None"
proof -
  let ?v = "PGROUNDDOWN a" let ?e = "entry (ram s) r ?v" let ?pa = "PTE2PA ?e"
  note cp = chunk_props [OF len, of a]
  have some: "uview s r a \<noteq> None \<longleftrightarrow> ?v < MAXVA \<and> user_leaf ?e"
    using page_below_MAXVA [of a] by (auto simp: uview_def Let_def)
  have vis: "uview s r va = Some (ram s (?pa + (va - ?v)))"
    if "uview s r a \<noteq> None" "unat (va - a) < unat (chunk a len)" for va
    using chunk_page [OF that(2) len] that(1) some page_below_MAXVA [of va] by (simp add: uview_def)
  then show "uview s r a \<noteq> None \<Longrightarrow> unat (va - a) < unat (chunk a len) \<Longrightarrow> uview s r va \<noteq> None" by simp
  show "copyin_body r dst a len s = (if uview s r a = None then Inr (False, s)
    else Inr (True, s\<lparr>ram := fetched s r a dst (unat (chunk a len))\<rparr>))"
  proof (cases "uview s r a = None")
    case True
    then have "walkaddr r ?v s = Inr (0, s)" using walkaddr_eq [OF inv r, of a] some by auto
    then show ?thesis using True by (simp add: copyin_body_def Let_def kmonad)
  next
    case False
    then have v: "?v < MAXVA" "user_leaf ?e" using some by auto
    have vp: "?v \<in> vpages" using v by (simp add: vpages_def)
    note up = user_page [OF inv ext r vp v(2) refl]
    have pa: "?pa \<noteq> 0" "unat ?pa < 2281701376"
      using usable_nonzero [OF up(1)] up(1) by (auto simp: usable_def word_less_nat_alt)
    have "unat (a - ?v) < 4096" using cp(1,3) by (auto simp: word_unat_eq_iff)
    then have d: "unat (?pa + (a - ?v)) = unat ?pa + unat (a - ?v)" using pa(2) by (intro unat_add_lt) simp
    have "memmove (ram s) dst (?pa + (a - ?v)) (ucast (chunk a len))
        = copied (ram s) dst (?pa + (a - ?v)) (unat (chunk a len))"
      using dst cp(2,3,5) d pa(2) by (subst memmove_eq) (simp_all add: kdest_def)
    also have "\<dots> = fetched s r a dst (unat (chunk a len))"
    proof
      fix x
      show "copied (ram s) dst (?pa + (a - ?v)) (unat (chunk a len)) x = fetched s r a dst (unat (chunk a len)) x"
        using vis [OF False, of "a + (x - dst)"] by (simp add: copied_def fetched_def algebra_simps)
    qed
    finally show ?thesis
      using walkaddr_eq [OF inv r, of a] v pa(1) False by (simp add: copyin_body_def Let_def kmonad)
  qed
qed

lemma copyin_post:
  assumes "vinv R ext fl s" and ext: "\<forall>p. 0 \<le> ext p" and r: "r \<in> R" and "kdest R ext s dst (unat len)"
  shows "(\<forall>va. unat (va - a) < unat len \<longrightarrow> uview s r va \<noteq> None)
        \<and> copyin r dst a len s = Inr (0, s\<lparr>ram := fetched s r a dst (unat len)\<rparr>)
    \<or> (\<exists>k < unat len. uview s r (a + of_nat k) = None
        \<and> copyin r dst a len s = Inr (- 1, s\<lparr>ram := fetched s r a dst k\<rparr>))"
  using assms(1,4)
proof (induction "unat len" arbitrary: dst a len s rule: less_induct)
  case less
  note inv = less.prems(1) and dst = less.prems(2)
  show ?case
  proof (cases "len = 0")
    case True
    have "fetched s r a dst 0 = ram s" by (simp add: fetched_def)
    then show ?thesis using True by (simp add: copyin.simps)
  next
    case len: False
    let ?n = "chunk a len" and ?a' = "PGROUNDDOWN a + PGSIZE" and ?d' = "dst + chunk a len"
    note cp = chunk_props [OF len, of a]
    note body = copyin_body_eq [OF inv ext r len dst]
    show ?thesis
    proof (cases "uview s r a = None")
      case True
      have "fetched s r a dst 0 = ram s" by (simp add: fetched_def)
      moreover have "copyin r dst a len s = Inr (- 1, s)" using True len body(1) by (simp add: copyin.simps [of r dst])
      ultimately show ?thesis using True len by (intro disjI2 exI [of _ 0]) (simp add: unat_gt_0)
    next
      case False
      let ?s1 = "s\<lparr>ram := fetched s r a dst (unat ?n)\<rparr>"
      have l: "unat (len - ?n) = unat len - unat ?n" using cp(2) by (intro unat_sub) (simp add: word_le_nat_alt)
      have run: "copyin r dst a len s = copyin r ?d' ?a' (len - ?n) ?s1"
        using False len body(1) by (auto simp: copyin.simps [of r dst])
      have f: "\<And>x. \<not> kown R ext s x \<Longrightarrow> same_page (ram s) (fetched s r a dst (unat ?n)) x"
        by (rule fetched_same_page [OF dst cp(2)])
      have w: "vinv R ext fl ?s1" "uview ?s1 r = uview s r" "kown R ext ?s1 = kown R ext s"
        using vm_write_kernel [OF inv ext, of "fetched s r a dst (unat ?n)"] f r by blast+
      have dn: "?a' = a + ?n \<or> len - ?n = 0" using cp(4) by auto
      have d1: "kdest R ext ?s1 ?d' (unat (len - ?n))"
        using kdest_drop [OF dst cp(2)] w(3) by (simp add: kdest_def)
      have fe: "fetched ?s1 r ?a' ?d' k = fetched s r a dst (unat ?n + k)" if k: "k \<le> unat (len - ?n)" for k
      proof
        fix x
        have lt: "unat ?n + k < 2 ^ 64" using k l cp(2) unsigned_less [of len, where 'a = nat] by simp
        have q: "uview s r (?a' + (x - ?d')) = uview s r (a + (x - dst))" if "unat (x - ?d') < k"
        proof -
          have a': "?a' = a + ?n" using dn that k by auto
          show ?thesis unfolding a' by simp
        qed
        show "fetched ?s1 r ?a' ?d' k x = fetched s r a dst (unat ?n + k) x"
          unfolding fetched_def [of ?s1] w(2)
          using range_split_nat [OF lt, of x dst] q by (auto simp: fetched_def)
      qed
      from less.hyps [OF chunk_measure [OF len] w(1) d1, of ?a'] show ?thesis
      proof (elim disjE exE conjE)
        assume ok: "\<forall>va. unat (va - ?a') < unat (len - ?n) \<longrightarrow> uview ?s1 r va \<noteq> None"
          "copyin r ?d' ?a' (len - ?n) ?s1 = Inr (0, ?s1\<lparr>ram := fetched ?s1 r ?a' ?d' (unat (len - ?n))\<rparr>)"
        have "uview s r va \<noteq> None" if v: "unat (va - a) < unat len" for va
        proof (cases "unat (va - a) < unat ?n")
          case no: False
          then have "unat (va - ?a') < unat (len - ?n)"
            using v dn range_split [OF cp(2), of va a] by auto
          with ok(1) w(2) show ?thesis by simp
        qed (rule body(2) [OF False])
        then show ?thesis using run ok(2) fe [OF order_refl] l cp(2) by simp
      next
        fix k
        assume no: "k < unat (len - ?n)" "uview ?s1 r (?a' + of_nat k) = None"
          "copyin r ?d' ?a' (len - ?n) ?s1 = Inr (- 1, ?s1\<lparr>ram := fetched ?s1 r ?a' ?d' k\<rparr>)"
        have "?a' + of_nat k = a + of_nat (unat ?n + k)" using dn no(1) by (auto simp: add.assoc)
        then show ?thesis
          using run no fe [of k] l w(2) by (intro disjI2 exI [of _ "unat ?n + k"]) (simp add: add.assoc)
      qed
    qed
  qed
qed

end
