(* ===== verification/Aspace.thy ===== *)
theory Aspace
  imports Copy
begin

text \<open>
  The life of an address space, from \<open>uvmcreate\<close> to \<open>uvmfree\<close>, and the properties of the virtual
  memory system of \<^verbatim>\<open>kernel/vm.c\<close>.
\<close>

section \<open>A new address space\<close>

lemma blank_table:
  assumes "blank m r" "aligned r"
  shows "nodes m r = {r}" "pt_ok m r" "entry m r v = 0"
proof -
  have n: "node m r k va = (if k = 0 then Some r else None)" for k va
    by (induction k) (auto simp: ld64_blank [OF assms] split: option.splits)
  show "nodes m r = {r}" by (auto simp: nodes_def n)
  show "entry m r v = 0" by (simp add: entry_def n)
  show "pt_ok m r" using assms(2) by (auto simp: pt_ok_def dirs_ok_def n same_idx_def ld64_blank [OF assms] split: if_splits)
qed

lemma vinv_insert:
  assumes inv: "vinv R ext fl s" and q: "usable (kend s) q" "refcnt s (pidx q) = 1" "1 \<le> ext q" "blank (ram s) q"
  shows "vinv (insert q R) (ext(q := ext q - 1)) fl s" "q \<notin> R"
proof -
  note hp = held_page [OF inv q(1-3)] and bt = blank_table [OF q(4) usable_aligned [OF q(1)]]
  have rn: "r \<in> nodes (ram s) r" for r by (auto simp: nodes_def intro: exI [of _ 0])
  then show qR: "q \<notin> R" using hp(2) in_all_nodes by blast
  have an: "all_nodes (ram s) (insert q R) = insert q (all_nodes (ram s) R)" by (simp add: all_nodes_def bt)
  have ms: "mapset (entry (ram s)) (insert q R) p = mapset (entry (ram s)) R p" for p
    by (auto simp: mapset_def bt)
  have dj: "nodes (ram s) r \<inter> nodes (ram s) q = {}" if "r \<in> R" for r
    using hp(2) that by (auto simp: bt all_nodes_def)
  have cnt: "refcnt s (pidx p) = of_bool (p \<in> all_nodes (ram s) (insert q R))
      + int (card (mapset (entry (ram s)) (insert q R) p)) + (ext(q := ext q - 1)) p" if "usable (kend s) p" for p
    using vinvD(5) [OF inv that] hp by (auto simp: an ms)
  have lk: "leaf_ok s v 0" for v by (simp add: leaf_ok_def)
  show "vinv (insert q R) (ext(q := ext q - 1)) fl s"
    unfolding vinv_def
  proof (intro conjI ballI allI impI)
    show "kinv fl s" "quiet alloc_locks s" using vinvD(1) [OF inv] by auto
    show "owned s (all_nodes (ram s) (insert q R))" using vinvD(3) [OF inv] q by (simp add: an owned_def)
    show "pt_ok (ram s) r" if "r \<in> insert q R" for r using that vinvD(2) [OF inv] bt(2) by auto
    show "nodes (ram s) r \<inter> nodes (ram s) r' = {}" if "r \<in> insert q R" "r' \<in> insert q R" "r \<noteq> r'" for r r'
      using that vinvD(4) [OF inv, of r r'] dj by blast
    show "leaf_ok s v (entry (ram s) r v)" if "r \<in> insert q R" "v \<in> vpages" for r v
      using that vinvD(6) [OF inv] bt(3) lk by auto
  qed (rule cnt)
qed

lemma uvmcreate_post:
  assumes inv: "vinv R ext (q # fl) s" and ext: "\<forall>p. 0 \<le> ext p"
  shows "\<exists>s'. uvmcreate s = Inr (q, s') \<and> q \<notin> R \<and> vinv (insert q R) ext fl s' \<and> kframe ext s s'
    \<and> (\<forall>r\<in>R. uview s' r = uview s r \<and> (\<forall>v. entry (ram s') r v = entry (ram s) r v))
    \<and> (\<forall>v. entry (ram s') q v = 0) \<and> uview s' q = (\<lambda>_. None)"
proof -
  note fp = free_page [OF inv ext, of q, simplified]
  from vm_fresh [OF inv ext] obtain t where ka: "kalloc s = Inr (q, t)" and
    u: "let u = t\<lparr>ram := memset (ram t) q 0 4096\<rparr> in
        vinv R (ext(q := 1)) fl u \<and> kframe ext s u \<and> blank (ram u) q \<and> refcnt u (pidx q) = 1
        \<and> (\<forall>r\<in>R. uview u r = uview s r) \<and> (\<forall>r\<in>R. \<forall>v. entry (ram u) r v = entry (ram s) r v)
        \<and> (\<forall>x. x \<noteq> q \<longrightarrow> same_page (ram s) (ram u) x)" by blast
  define u where "u = t\<lparr>ram := memset (ram t) q 0 4096\<rparr>"
  define e where "e = ext(q := 1)"
  have u: "vinv R e fl u" "kframe ext s u" "blank (ram u) q" "refcnt u (pidx q) = 1"
    "\<forall>r\<in>R. uview u r = uview s r" "\<forall>r\<in>R. \<forall>v. entry (ram u) r v = entry (ram s) r v"
    using u unfolding u_def e_def Let_def by blast+
  have us: "usable (kend u) q" using fp(1) kframe_kend [OF u(2)] by simp
  have e1: "1 \<le> e q" "e(q := e q - 1) = ext" using fp(3) by (auto simp: e_def)
  note vi = vinv_insert [OF u(1) us u(4) e1(1) u(3), unfolded e1(2)]
  have "uvmcreate s = Inr (q, u)"
    using ka usable_nonzero [OF fp(1)] by (simp add: uvmcreate_def kmonad u_def)
  moreover have "entry (ram u) q v = 0" for v by (rule blank_table(3) [OF u(3) usable_aligned [OF fp(1)]])
  ultimately show ?thesis
    using vi u by (auto simp: uview_def user_leaf_def)
qed

lemma uvmcreate_nil: "vinv R ext [] s \<Longrightarrow> uvmcreate s = Inr (0, settled s)"
  by (drule vm_kalloc_nil) (simp add: uvmcreate_def kmonad)

section \<open>The end of an address space\<close>

lemma vinv_remove:
  assumes inv: "vinv R ext fl s" and e0: "\<forall>p. 0 \<le> ext p" and r: "r \<in> R" "no_leaves (ram s) r"
    and rel: "released (nodes (ram s) r) {} fl s fl' s'"
  shows "vinv (R - {r}) ext fl' s'"
    and "r' \<in> R \<Longrightarrow> r' \<noteq> r \<Longrightarrow> entry (ram s') r' v = entry (ram s) r' v"
    and "kframe ext s s'"
    and "r' \<in> R \<Longrightarrow> r' \<noteq> r \<Longrightarrow> uview s' r' = uview s r'"
proof -
  let ?N = "nodes (ram s) r"
  have R: "mem_only s s'" "kready fl' s'" "set fl' = ?N \<union> set fl"
    "refcnt s' = (\<lambda>i. if i \<in> pidx ` ?N then 0 else refcnt s i)"
    "\<And>x. x \<notin> ?N \<Longrightarrow> same_page (ram s) (ram s') x"
    using rel by (auto simp: released_def)
  have ke: "kend s' = kend s" using R(1) by (rule mem_only_kend)
  have sub: "?N \<subseteq> all_nodes (ram s) R" using r(1) by (auto simp: all_nodes_def)
  have un: "usable (kend s) p" if "p \<in> ?N" for p using vinv_node(1) [OF inv] sub that by blast
  have rc: "refcnt s' (pidx p) = (if p \<in> ?N then 0 else refcnt s (pidx p))" if "usable (kend s) p" for p
    using that un pidx_inj by (fastforce simp: R(4))
  have dj: "nodes (ram s) r' \<inter> ?N = {}" if "r' \<in> R" "r' \<noteq> r" for r'
    using vinvD(4) [OF inv that(1) r(1) that(2)] .
  have f: "\<forall>x\<in>nodes (ram s) r'. same_page (ram s) (ram s') x" if "r' \<in> R" "r' \<noteq> r" for r'
    using dj [OF that] R(5) by blast
  note tf = table_frame [OF vinvD(2) [OF inv] f]
  show en: "entry (ram s') r' v = entry (ram s) r' v" if "r' \<in> R" "r' \<noteq> r" for r' v
    using tf(3) that by blast
  have an: "all_nodes (ram s') (R - {r}) = all_nodes (ram s) R - ?N"
    using tf(1) dj r(1) by (fastforce simp: all_nodes_def)
  have ms: "mapset (entry (ram s')) (R - {r}) p = mapset (entry (ram s)) R p" for p
  proof -
    have "a \<in> R - {r} \<and> b \<in> upages \<and> maps (entry (ram s') a b) p \<longleftrightarrow> a \<in> R \<and> b \<in> upages \<and> maps (entry (ram s) a b) p"
      for a b using en [of a b] r by (cases "a = r") (auto simp: no_leaves_def maps_def upages_def)
    then show ?thesis by (auto simp: mapset_def)
  qed
  have cnt: "refcnt s' (pidx p) = of_bool (p \<in> all_nodes (ram s') (R - {r}))
      + int (card (mapset (entry (ram s')) (R - {r}) p)) + ext p" if "usable (kend s') p" for p
  proof -
    have u: "usable (kend s) p" using that ke by simp
    show ?thesis
    proof (cases "p \<in> ?N")
      case True
      then have "p \<in> all_nodes (ram s) R" using sub by blast
      with vinv_node(2) [OF inv this] vinvD(5) [OF inv u] rc [OF u] True show ?thesis by (simp add: an ms)
    next
      case False
      then show ?thesis using vinvD(5) [OF inv u] rc [OF u] by (simp add: an ms)
    qed
  qed
  have nn: "PTE2PA (entry (ram s) r' v) \<notin> ?N" if "r' \<in> R" "v \<in> upages" "valid s r' v" for r' v
    using mapped_page(3) [OF inv e0 that(1,2)] that(3) sub by (auto simp: maps_def)
  show "vinv (R - {r}) ext fl' s'"
    unfolding vinv_def
  proof (intro conjI ballI allI impI)
    show "kinv fl' s'" "quiet alloc_locks s'" using R(2) by auto
    show "owned s' (all_nodes (ram s') (R - {r}))"
      using vinvD(3) [OF inv] rc by (auto simp: an owned_def ke)
    show "pt_ok (ram s') r'" if "r' \<in> R - {r}" for r' using that tf(2) by blast
    show "nodes (ram s') a \<inter> nodes (ram s') b = {}" if "a \<in> R - {r}" "b \<in> R - {r}" "a \<noteq> b" for a b
      using that tf(1) vinvD(4) [OF inv, of a b] by auto
    show "leaf_ok s' v (entry (ram s') a v)" if "a \<in> R - {r}" "v \<in> vpages" for a v
    proof -
      have en': "entry (ram s') a v = entry (ram s) a v" using en that(1) by blast
      note lk = vinvD(6) [OF inv _ that(2), of a]
      show ?thesis
        using that lk nn [of a v] rc by (auto simp: en' leaf_ok_def ke split: if_splits)
    qed
  qed (rule cnt)
  have "p \<notin> ?N" if "kpage ext s p" for p using kpage_private(2) [OF inv e0 that] sub by blast
  then show "kframe ext s s'" using R(1,5) by (simp add: kframe_def)
  assume r': "r' \<in> R" "r' \<noteq> r"
  show "uview s' r' = uview s r'"
  proof (rule view_frame)
    show "entry (ram s') r' v = entry (ram s) r' v" for v by (rule en [OF r'])
    show "same_page (ram s) (ram s') (PTE2PA (entry (ram s) r' v))"
      if "v \<in> vpages" "user_leaf (entry (ram s) r' v)" for v
      using user_page(4) [OF inv e0 r'(1) that refl] sub by (intro R(5)) blast
  qed
qed

lemma uvmfree_post:
  assumes inv: "vinv R ext fl s" and ext: "\<forall>p. 0 \<le> ext p" and r: "r \<in> R"
    and sz: "unat sz \<le> utop" "\<forall>v\<in>vpages. valid s r v \<longleftrightarrow> v < sz"
  shows "\<exists>fl' s'. uvmfree r sz s = Inr ((), s') \<and> vinv (R - {r}) ext fl' s' \<and> kframe ext s s'
    \<and> (\<forall>r'\<in>R - {r}. uview s' r' = uview s r' \<and> (\<forall>v\<in>vpages. entry (ram s') r' v = entry (ram s) r' v))"
proof -
  let ?b = "PGROUNDUP sz" let ?n = "?b div PGSIZE"
  note pb = PGROUNDUP_below [OF sz(1)] and vb = vpage_below [OF sz(1)]
  have n: "4096 * unat ?n = unat ?b" using pb(3) by (simp add: unat_div)
  have rg: "in_range 0 (unat ?n) v \<longleftrightarrow> v < sz" if "v \<in> vpages" for v
    using vb [OF that] by (simp add: in_range_def n word_less_nat_alt)
  have z: "(0 :: uint64) \<in> vpages" by (simp add: vpages_def aligned_def)
  have up: "v \<in> upages" if "v \<in> vpages" "v < sz" for v
    using that sz(1) by (auto simp: upages_def word_less_nat_alt)
  have "\<exists>fl1 t. kwhen (sz > 0) (uvmunmap r 0 ?n True) s = Inr ((), t) \<and> vinv R ext fl1 t \<and> kframe ext s t
    \<and> (\<forall>r'\<in>R - {r}. uview t r' = uview s r' \<and> (\<forall>v\<in>vpages. entry (ram t) r' v = entry (ram s) r' v))
    \<and> no_leaves (ram t) r"
  proof (cases "sz > 0")
    case True
    have "\<forall>v\<in>vpages. in_range 0 (unat ?n) v \<longrightarrow> valid s r v" using rg sz(2) by blast
    from uvmunmap_post [OF inv ext r z _ this] n pb(1) obtain fl1 t where
      u: "uvmunmap r 0 ?n True s = Inr ((), t)"
        "vmpost R ext s r (\<lambda>v. valid s r v \<and> \<not> in_range 0 (unat ?n) v)
          (\<lambda>va. if in_range 0 (unat ?n) (PGROUNDDOWN va) then None else uview s r va) fl1 t" by auto
    note D = vmpostD [OF u(2)]
    have "\<not> valid t r v" if "v \<in> vpages" for v
      using D(3) [OF r that] D(4) [of v] sz(2) rg [OF that] that up by (cases "v \<in> upages") auto
    then have "no_leaves (ram t) r" by (simp add: no_leaves_def)
    then show ?thesis using True u(1) D by (auto simp: kmonad)
  next
    case False
    then have "\<not> v < sz" for v by (auto simp: word_less_nat_alt)
    then have "no_leaves (ram s) r" using sz(2) by (auto simp: no_leaves_def)
    then show ?thesis using False inv by (auto simp: kmonad)
  qed
  then obtain fl1 t where t: "kwhen (sz > 0) (uvmunmap r 0 ?n True) s = Inr ((), t)" "vinv R ext fl1 t" "kframe ext s t"
    "\<forall>r'\<in>R - {r}. uview t r' = uview s r' \<and> (\<forall>v\<in>vpages. entry (ram t) r' v = entry (ram s) r' v)"
    "no_leaves (ram t) r" by blast
  have own: "owned t (nodes (ram t) r)" using vinvD(3) [OF t(2)] r by (auto simp: owned_def all_nodes_def)
  have "nodes (ram t) r \<inter> set fl1 = {}" using vinv_node(3) [OF t(2)] in_all_nodes [OF r] by blast
  from freewalk_table [OF vinvD(2) [OF t(2) r] t(5) vinvD(1) [OF t(2)] own this] obtain fl' s' where
    f: "freewalk 3 r t = Inr ((), s')" "released (nodes (ram t) r) {} fl1 t fl' s'" by blast
  note vr = vinv_remove [OF t(2) ext r t(5) f(2)]
  have "uvmfree r sz s = Inr ((), s')" using t(1) f(1) by (simp add: uvmfree_def kmonad)
  then show ?thesis using vr kframe_trans [OF t(3) vr(3)] t(4) by auto
qed

section \<open>A small machine\<close>

text \<open>Three pages of memory: one free and two that are empty page tables.\<close>

definition two_tables :: pmem where
  "two_tables = \<lparr>mach = machine0, ram = (\<lambda>_. 0), freelist = 0x87FFD000,
     refcnt = (\<lambda>i. if i = 32766 \<or> i = 32767 then 1 else 0), kend = 0x87FFD000\<rparr>"

abbreviation parent_pt :: addr where "parent_pt \<equiv> 0x87FFE000"

abbreviation child_pt :: addr where "child_pt \<equiv> 0x87FFF000"

lemma usable_two_tables: "usable 0x87FFD000 p \<longleftrightarrow> p = 0x87FFD000 \<or> p = parent_pt \<or> p = child_pt"
proof
  assume u: "usable 0x87FFD000 p"
  then have "unat p mod 4096 = 0" "2281689088 \<le> unat p" "unat p < 2281701376"
    by (simp_all add: usable_def word_less_nat_alt word_le_nat_alt word_unat_eq_iff unat_mod)
  moreover from this(1) obtain k where k: "unat p = 4096 * k" by auto
  ultimately have "557053 \<le> k" "k < 557056" by simp_all
  then have "k = 557053 \<or> k = 557054 \<or> k = 557055" by linarith
  then have "unat p = 2281689088 \<or> unat p = 2281693184 \<or> unat p = 2281697280" using k by auto
  then show "p = 0x87FFD000 \<or> p = parent_pt \<or> p = child_pt" by (auto simp: word_unat_eq_iff)
qed (auto simp: usable_def)

lemma two_tables_tables:
  "nodes (ram two_tables) parent_pt = {parent_pt}" "nodes (ram two_tables) child_pt = {child_pt}"
  "pt_ok (ram two_tables) parent_pt" "pt_ok (ram two_tables) child_pt"
  "entry (ram two_tables) parent_pt v = 0" "entry (ram two_tables) child_pt v = 0"
  by (rule blank_table; simp add: two_tables_def blank_def aligned_def)+

lemma two_tables_vinv: "vinv {parent_pt, child_pt} (\<lambda>_. 0) [0x87FFD000] two_tables"
proof -
  have k: "kinv [0x87FFD000] two_tables" "quiet alloc_locks two_tables"
    by (auto simp: kinv_def two_tables_def usable_two_tables quiet_def pidx_def)
  have ms: "mapset (entry (ram two_tables)) {parent_pt, child_pt} p = {}" for p
    by (auto simp: mapset_def two_tables_tables)
  have an: "all_nodes (ram two_tables) {parent_pt, child_pt} = {parent_pt, child_pt}"
    by (auto simp: all_nodes_def two_tables_tables)
  have rc: "kend two_tables = 0x87FFD000" "refcnt two_tables (pidx 0x87FFD000) = 0"
    "refcnt two_tables (pidx parent_pt) = 1" "refcnt two_tables (pidx child_pt) = 1"
    by (simp_all add: two_tables_def pidx_def)
  have lk: "leaf_ok two_tables v 0" for v by (simp add: leaf_ok_def)
  show ?thesis
    unfolding vinv_def an ms using k lk
    by (auto simp: two_tables_tables owned_def usable_two_tables rc)
qed

lemma two_tables_empty:
  "sized two_tables parent_pt 0" "sized two_tables child_pt 0" "\<not> valid two_tables parent_pt v"
  "uview two_tables parent_pt va = None"
  by (simp_all add: sized_def two_tables_tables uview_def user_leaf_def)

section \<open>Properties of the virtual memory system\<close>

text \<open>C1: \<^verbatim>\<open>uvmcopy\<close>, which shares pages instead of copying them, has the effect of an eager copy.  On
  success the child's table maps exactly the pages below \<open>sz\<close> and its view is the view of the
  parent; no other view, no kernel page and no mapping above the user pages changes, and the
  invariant, which gives every shared page its reference and lets nobody write to it, is kept.
  On failure no view and no table has changed.\<close>

theorem uvmcopy_copies_view:
  assumes "vinv R ext fl s" "\<forall>p. 0 \<le> ext p" "old \<in> R" "new \<in> R" "old \<noteq> new"
    and "unat sz \<le> unat (TRAPFRAME :: uint64)" "sized s old sz" "sized s new 0"
  shows "(\<exists>fl' s'. uvmcopy old new sz s = Inr (0, s') \<and> sized s' old sz \<and> sized s' new sz
      \<and> vupd R ext s (\<lambda>r v. valid s r v \<or> r = new \<and> v < sz)
          (\<lambda>r. if r = new then uview s old else uview s r) fl' s')
    \<or> (\<exists>fl' s'. uvmcopy old new sz s = Inr (- 1, s') \<and> vupd R ext s (valid s) (uview s) fl' s')"
  using assms by (intro uvmcopy_post) simp_all

theorem uvmcopy_copies_view_witness:
  "\<exists>s' rc. uvmcopy parent_pt child_pt 0 two_tables = Inr (rc, s')
    \<and> uview s' child_pt = uview two_tables parent_pt \<and> uview s' parent_pt = uview two_tables parent_pt"
proof -
  have "uview two_tables child_pt = uview two_tables parent_pt"
    by (auto simp: uview_def two_tables_tables user_leaf_def)
  with uvmcopy_copies_view [OF two_tables_vinv, of parent_pt child_pt 0] two_tables_empty(1,2) show ?thesis
    by (auto simp: vupd_def fun_eq_iff)
qed

text \<open>C2: processes stay isolated although they share pages: whatever the kernel writes into the
  child with \<^verbatim>\<open>copyout\<close> after a \<^verbatim>\<open>uvmcopy\<close>, the parent's view is the one it had before the copy.\<close>

theorem copy_on_write_isolation:
  assumes "vinv R ext fl s" "\<forall>p. 0 \<le> ext p" "old \<in> R" "new \<in> R" "old \<noteq> new"
    and "unat sz \<le> unat (TRAPFRAME :: uint64)" "sized s old sz" "sized s new 0" "kbuf ext s src (unat len)"
    and "uvmcopy old new sz s = Inr (rc, t)"
  shows "\<exists>rc' u. copyout new d src len t = Inr (rc', u) \<and> uview u old = uview s old
    \<and> (rc = 0 \<and> rc' = 0 \<longrightarrow> (\<forall>va. uview u new va =
         (if unat (va - d) < unat len then Some (ram s (src + (va - d))) else uview s old va)))"
proof -
  have "\<exists>fl' V. vupd R ext s V (\<lambda>r. if r = new \<and> rc = 0 then uview s old else uview s r) fl' t"
    using uvmcopy_post [OF assms(1-5) assms(6) [unfolded unat_TRAPFRAME] assms(7,8)]
  proof (elim disjE exE conjE)
    fix fl' s'
    assume "uvmcopy old new sz s = Inr (0, s')" and p: "vupd R ext s (\<lambda>r v. valid s r v \<or> r = new \<and> v < sz)
          (\<lambda>r. if r = new then uview s old else uview s r) fl' s'"
    then have e: "rc = 0" "s' = t" using assms(10) by auto
    have "vupd R ext s (\<lambda>r v. valid s r v \<or> r = new \<and> v < sz)
        (\<lambda>r. if r = new \<and> rc = 0 then uview s old else uview s r) fl' t"
      using p unfolding e by (rule vupd_cong) auto
    then show ?thesis by blast
  next
    fix fl' s'
    assume "uvmcopy old new sz s = Inr (- 1, s')" and p: "vupd R ext s (valid s) (uview s) fl' s'"
    then have e: "rc = - 1" "s' = t" using assms(10) by auto
    have "vupd R ext s (valid s) (\<lambda>r. if r = new \<and> rc = 0 then uview s old else uview s r) fl' t"
      using p unfolding e by (rule vupd_cong) auto
    then show ?thesis by blast
  qed
  then obtain fl' V where up: "vupd R ext s V (\<lambda>r. if r = new \<and> rc = 0 then uview s old else uview s r) fl' t"
    by blast
  note D = vupdD [OF up]
  have buf: "kbuf ext t src (unat len)" using assms(9) D(2) by (rule kbuf_frame)
  from copyout_post [OF D(1) assms(2,4) buf, of d] obtain rc' u fl2 k where
    c: "copyout new d src len t = Inr (rc', u)" "vupd R ext t (valid t) (written t new d src k) fl2 u"
      "rc' = 0 \<longrightarrow> k = unat len"
    using zero_neq_neg_one [where 'a = int, symmetric] by metis
  note E = vupdD [OF c(2)]
  have "uview u old va = uview s old va" for va
    using E(5) [OF assms(3), of va] D(5) [OF assms(3), of va] assms(5) by (simp add: written_def)
  moreover have "uview u new va = (if unat (va - d) < unat len then Some (ram s (src + (va - d))) else uview s old va)"
    if "rc = 0" "rc' = 0" for va
    using E(5) [OF assms(4), of va] D(5) [OF assms(4), of va] that c(3) kbuf_byte [OF assms(9) D(2), of "va - d"]
    by (simp add: written_def)
  ultimately show ?thesis using c(1) by auto
qed

text \<open>C3: \<^verbatim>\<open>cowalloc\<close> resolves a write fault without changing what any process sees: no view, no
  page table entry but the faulting one and no kernel page changes.  It fails exactly when the
  address is not a copy-on-write page or when memory has run out; when it succeeds the page is
  mapped writable and no longer copy-on-write.\<close>

theorem cowalloc_keeps_views:
  assumes "vinv R ext fl s" "\<forall>p. 0 \<le> ext p" "r \<in> R"
  shows "\<exists>rc fl' s'. cowalloc r va s = Inr (rc, s') \<and> cowed R ext s r (PGROUNDDOWN va) fl' s'
    \<and> (rc = 0 \<and> va < MAXVA \<and> cow_leaf (entry (ram s) r (PGROUNDDOWN va))
          \<and> user_leaf (entry (ram s') r (PGROUNDDOWN va))
          \<and> entry (ram s') r (PGROUNDDOWN va) AND PTE_W \<noteq> 0
          \<and> entry (ram s') r (PGROUNDDOWN va) AND PTE_COW = 0
      \<or> rc = - 1 \<and> fl' = fl \<and> (\<not> va < MAXVA \<or> \<not> cow_leaf (entry (ram s) r (PGROUNDDOWN va)) \<or> fl = []))"
  by (rule cowalloc_post [OF assms])

theorem cowalloc_keeps_views_witness:
  "\<exists>s'. cowalloc parent_pt 0 two_tables = Inr (- 1, s') \<and> uview s' parent_pt = uview two_tables parent_pt"
  using cowalloc_keeps_views [OF two_tables_vinv, of parent_pt 0]
  by (auto simp: two_tables_tables cowed_def vupd_def fun_eq_iff)

text \<open>C4: \<^verbatim>\<open>copyout\<close> writes the bytes of a kernel buffer into one address space and changes no other
  view.  It returns 0 when every byte of the destination is in the view; otherwise it stops with
  -1 at a byte that is not, or when no page was left for a private copy, having written the bytes
  before it.\<close>

theorem copyout_writes_one_view:
  assumes "vinv R ext fl s" "\<forall>p. 0 \<le> ext p" "r \<in> R" "kbuf ext s src (unat len)"
  shows "(\<exists>fl' s'. copyout r d src len s = Inr (0, s')
      \<and> vupd R ext s (valid s) (written s r d src (unat len)) fl' s'
      \<and> (\<forall>va. unat (va - d) < unat len \<longrightarrow> uview s r va \<noteq> None))
    \<or> (\<exists>fl' s' k. copyout r d src len s = Inr (- 1, s') \<and> k < unat len
      \<and> vupd R ext s (valid s) (written s r d src k) fl' s' \<and> (fl' \<noteq> [] \<longrightarrow> uview s r (d + of_nat k) = None))"
  by (rule copyout_post [OF assms])

lemma two_tables_buffers:
  "kbuf (\<lambda>_. 0) two_tables 0x80001000 1" "kdest {parent_pt, child_pt} (\<lambda>_. 0) two_tables 0x80001000 1"
proof -
  have "\<not> usable (kend two_tables) (PGROUNDDOWN 0x80001000)"
    by (simp add: two_tables_def usable_two_tables PGROUNDDOWN_def)
  moreover have "i = 0" if "unat (i :: uint64) < 1" for i using that by (simp add: word_unat_eq_iff)
  ultimately have "\<not> usable (kend two_tables) (PGROUNDDOWN (0x80001000 + i))" if "unat (i :: uint64) < 1" for i
    using that by (metis add.right_neutral)
  then show "kbuf (\<lambda>_. 0) two_tables 0x80001000 1"
    "kdest {parent_pt, child_pt} (\<lambda>_. 0) two_tables 0x80001000 1"
    by (simp_all add: kbuf_def kpage_def kdest_def kown_def)
qed

lemma some_address: "\<not> (\<forall>va :: uint64. 0 < unat va)"
  by (auto intro: exI [of _ 0])

theorem copyout_writes_one_view_witness:
  "\<exists>s'. copyout parent_pt 0 0x80001000 1 two_tables = Inr (- 1, s')
    \<and> uview s' child_pt = uview two_tables child_pt"
  using copyout_writes_one_view [OF two_tables_vinv, of parent_pt "0x80001000" 1 0]
    two_tables_buffers(1) two_tables_empty(4) some_address
  by (auto simp: vupd_def written_def fun_eq_iff)

theorem copy_on_write_isolation_witness:
  "\<exists>rc t rc' u. uvmcopy parent_pt child_pt 0 two_tables = Inr (rc, t)
    \<and> copyout child_pt 0 0x80001000 1 t = Inr (rc', u) \<and> uview u parent_pt = uview two_tables parent_pt"
proof -
  have run: "uvmcopy parent_pt child_pt 0 two_tables = Inr (0, two_tables)"
    by (simp add: uvmcopy_def uvmcopy_loop.simps)
  have "\<exists>rc' u. copyout child_pt 0 0x80001000 1 two_tables = Inr (rc', u) \<and> uview u parent_pt = uview two_tables parent_pt
    \<and> ((0 :: int) = 0 \<and> rc' = 0 \<longrightarrow> (\<forall>va. uview u child_pt va = (if unat (va - 0) < unat (1 :: uint64)
         then Some (ram two_tables (0x80001000 + (va - 0))) else uview two_tables parent_pt va)))"
    by (rule copy_on_write_isolation [OF two_tables_vinv _ _ _ _ _ two_tables_empty(1,2) _ run])
      (use two_tables_buffers(1) in simp_all)
  with run show ?thesis by blast
qed

text \<open>C6: \<^verbatim>\<open>copyin\<close> reads the bytes of a view into the kernel: it returns 0 and the bytes exactly when
  all of them are in the view, and -1 with the bytes before the first missing one otherwise.\<close>

theorem copyin_reads_view:
  assumes "vinv R ext fl s" "\<forall>p. 0 \<le> ext p" "r \<in> R" "kdest R ext s dst (unat len)"
  shows "(\<forall>va. unat (va - a) < unat len \<longrightarrow> uview s r va \<noteq> None)
        \<and> copyin r dst a len s = Inr (0, s\<lparr>ram := fetched s r a dst (unat len)\<rparr>)
    \<or> (\<exists>k < unat len. uview s r (a + of_nat k) = None
        \<and> copyin r dst a len s = Inr (- 1, s\<lparr>ram := fetched s r a dst k\<rparr>))"
  by (rule copyin_post [OF assms])

theorem copyin_reads_view_witness:
  "\<exists>m. copyin parent_pt 0x80001000 0 1 two_tables = Inr (- 1, two_tables\<lparr>ram := m\<rparr>)"
  using copyin_reads_view [OF two_tables_vinv, of parent_pt "0x80001000" 1 0]
    two_tables_buffers(2) two_tables_empty(4) some_address by auto

text \<open>C7: \<^verbatim>\<open>uvmalloc\<close> grows one address space.  On success the table maps exactly the pages below
  the new size, the added bytes are zero, and nothing else changes in any view; when memory runs
  out it returns 0 and every view and the mapped pages are what they were.\<close>

theorem uvmalloc_grows_zeroed:
  assumes "vinv R ext fl s" "\<forall>p. 0 \<le> ext p" "r \<in> R" "sized s r oldsz" "oldsz \<le> newsz"
    and "unat newsz \<le> unat (TRAPFRAME :: uint64)"
  shows "(\<exists>fl' s'. uvmalloc r oldsz newsz s = Inr (newsz, s') \<and> sized s' r newsz
      \<and> vmpost R ext s r (\<lambda>v. v < newsz)
          (\<lambda>va. if PGROUNDDOWN va \<in> vpages \<and> between oldsz newsz (PGROUNDDOWN va) then Some 0 else uview s r va) fl' s')
    \<or> (\<exists>fl' s'. uvmalloc r oldsz newsz s = Inr (0, s') \<and> vmpost R ext s r (\<lambda>v. v < oldsz) (uview s r) fl' s')"
  using assms by (intro uvmalloc_post) simp_all

theorem uvmalloc_grows_zeroed_witness:
  "\<exists>sz s'. uvmalloc parent_pt 0 4096 two_tables = Inr (sz, s') \<and> uview s' child_pt = uview two_tables child_pt"
  using uvmalloc_grows_zeroed [OF two_tables_vinv, of parent_pt 0 4096] two_tables_empty(1)
  by (auto simp: vmpost_def)



text \<open>C9: \<^verbatim>\<open>uvmfree\<close> of a table that maps the pages below \<open>sz\<close> and nothing else returns all its user
  pages' references and its table pages: the invariant holds without the table, so every page
  nobody else holds is free again, and every other address space is unchanged.\<close>

theorem uvmfree_releases_table:
  assumes "vinv R ext fl s" "\<forall>p. 0 \<le> ext p" "r \<in> R" "unat sz \<le> unat (TRAPFRAME :: uint64)"
    and "\<forall>v\<in>vpages. valid s r v \<longleftrightarrow> v < sz"
  shows "\<exists>fl' s'. uvmfree r sz s = Inr ((), s') \<and> vinv (R - {r}) ext fl' s' \<and> kframe ext s s'
    \<and> (\<forall>r'\<in>R - {r}. uview s' r' = uview s r' \<and> (\<forall>v\<in>vpages. entry (ram s') r' v = entry (ram s) r' v))"
  using assms by (intro uvmfree_post) simp_all

theorem uvmfree_releases_table_witness:
  "\<exists>fl' s'. uvmfree parent_pt 0 two_tables = Inr ((), s') \<and> vinv {child_pt} (\<lambda>_. 0) fl' s'"
proof -
  have "{parent_pt, child_pt} - {parent_pt} = {child_pt}" by auto
  with uvmfree_releases_table [OF two_tables_vinv, of parent_pt 0] two_tables_empty(3) show ?thesis
    by (auto simp: word_less_nat_alt)
qed

text \<open>\<^verbatim>\<open>uvmcreate\<close> adds an empty address space and leaves the others unchanged.\<close>

theorem uvmcreate_adds_empty_table:
  assumes "vinv R ext (q # fl) s" "\<forall>p. 0 \<le> ext p"
  shows "\<exists>s'. uvmcreate s = Inr (q, s') \<and> q \<notin> R \<and> vinv (insert q R) ext fl s' \<and> kframe ext s s'
    \<and> (\<forall>r\<in>R. uview s' r = uview s r \<and> (\<forall>v. entry (ram s') r v = entry (ram s) r v))
    \<and> (\<forall>v. entry (ram s') q v = 0) \<and> uview s' q = (\<lambda>_. None)"
  by (rule uvmcreate_post [OF assms])

theorem uvmcreate_adds_empty_table_witness:
  "\<exists>s'. uvmcreate two_tables = Inr (0x87FFD000, s') \<and> uview s' 0x87FFD000 = (\<lambda>_. None)"
  using uvmcreate_adds_empty_table [OF two_tables_vinv] by auto

end
