(* ===== verification/Uenv.thy ===== *)
theory Uenv
  imports Prelude
begin

text \<open>
  The world of a user program, as its system calls show it: what the next reads of each open
  descriptor will deliver, what opening a path gives, and the writes made so far.  A program is a
  function on that world which returns, exits, or does something the C standard leaves undefined.
\<close>

section \<open>The world\<close>

text \<open>One \<^verbatim>\<open>read\<close> delivers at most one chunk; a longer chunk is split by the size of the request.
  No chunk left is the end of the file.\<close>

datatype chunk = Data string | Rerr

record uworld =
  inq :: "int \<Rightarrow> chunk list"
  fsys :: "string \<Rightarrow> chunk list option"
  opened :: "int list"
  wfail :: "int \<Rightarrow> bool"
  trace :: "(int \<times> string) list"

datatype 'a uout = Val 'a | Exited int | Undef

type_synonym 'a um = "uworld \<Rightarrow> 'a uout \<times> uworld"

definition uret :: "'a \<Rightarrow> 'a um" where
  "uret x = (\<lambda>w. (Val x, w))"

definition ubind :: "'a um \<Rightarrow> ('a \<Rightarrow> 'b um) \<Rightarrow> 'b um" where
  "ubind m f = (\<lambda>w. case m w of (Val x, w') \<Rightarrow> f x w' | (Exited c, w') \<Rightarrow> (Exited c, w') | (Undef, w') \<Rightarrow> (Undef, w'))"

definition useq :: "'a um \<Rightarrow> 'b um \<Rightarrow> 'b um" where
  "useq m n = ubind m (\<lambda>_. n)"

definition uexit :: "int \<Rightarrow> 'a um" where
  "uexit c = (\<lambda>w. (Exited c, w))"

definition uundef :: "'a um" where
  "uundef = (\<lambda>w. (Undef, w))"

named_theorems umonad

lemma uret_apply [simp, umonad]: "uret x w = (Val x, w)"
  by (simp add: uret_def)

lemma uexit_apply [simp, umonad]: "uexit c w = (Exited c, w)"
  by (simp add: uexit_def)

lemma uundef_apply [simp, umonad]: "uundef w = (Undef, w)"
  by (simp add: uundef_def)

lemma ubind_apply [umonad]:
  "ubind m f w = (case m w of (Val x, w') \<Rightarrow> f x w' | (Exited c, w') \<Rightarrow> (Exited c, w') | (Undef, w') \<Rightarrow> (Undef, w'))"
  by (simp add: ubind_def)

lemma useq_apply [umonad]:
  "useq m n w = (case m w of (Val x, w') \<Rightarrow> n w' | (Exited c, w') \<Rightarrow> (Exited c, w') | (Undef, w') \<Rightarrow> (Undef, w'))"
  by (simp add: useq_def ubind_def)

section \<open>System calls\<close>

definition read_u :: "int \<Rightarrow> nat \<Rightarrow> (int \<times> string) um" where
  "read_u fd n w =
     (case inq w fd of
        [] \<Rightarrow> (Val (0, []), w)
      | Rerr # cs \<Rightarrow> (Val (- 1, []), w\<lparr>inq := (inq w)(fd := cs)\<rparr>)
      | Data s # cs \<Rightarrow>
          if length s \<le> n then (Val (int (length s), s), w\<lparr>inq := (inq w)(fd := cs)\<rparr>)
          else (Val (int n, take n s), w\<lparr>inq := (inq w)(fd := Data (drop n s) # cs)\<rparr>))"

definition write_u :: "int \<Rightarrow> string \<Rightarrow> int um" where
  "write_u fd s w =
     (if wfail w fd then (Val (- 1), w) else (Val (int (length s)), w\<lparr>trace := trace w @ [(fd, s)]\<rparr>))"

definition open_u :: "string \<Rightarrow> int um" where
  "open_u path w =
     (case (fsys w path, filter (\<lambda>i. i \<notin> set (opened w)) (map int [0..<16])) of
        (Some cs, fd # _) \<Rightarrow> (Val fd, w\<lparr>inq := (inq w)(fd := cs), opened := fd # opened w\<rparr>)
      | _ \<Rightarrow> (Val (- 1), w))"

definition close_u :: "int \<Rightarrow> unit um" where
  "close_u fd w = (Val (), w\<lparr>opened := filter (\<lambda>i. i \<noteq> fd) (opened w)\<rparr>)"

text \<open>Everything written to a descriptor, in order.\<close>

definition emitted :: "int \<Rightarrow> uworld \<Rightarrow> string" where
  "emitted fd w = concat (map snd (filter (\<lambda>(f, _). f = fd) (trace w)))"

lemma emitted_append [simp]:
  "emitted fd (w\<lparr>trace := trace w @ [(fd', s)]\<rparr>) = emitted fd w @ (if fd' = fd then s else [])"
  by (simp add: emitted_def)

lemma emitted_inq [simp]: "emitted fd (w\<lparr>inq := q\<rparr>) = emitted fd w"
  by (simp add: emitted_def)

lemma emitted_opened [simp]: "emitted fd (w\<lparr>opened := q\<rparr>) = emitted fd w"
  by (simp add: emitted_def)

text \<open>The bytes of an input without a read error.\<close>

primrec contents :: "chunk list \<Rightarrow> string" where
  "contents [] = []"
| "contents (c # cs) = (case c of Data s \<Rightarrow> s @ contents cs | Rerr \<Rightarrow> [])"

definition clean :: "chunk list \<Rightarrow> bool" where
  "clean cs \<longleftrightarrow> (\<forall>c\<in>set cs. \<exists>s. c = Data s \<and> s \<noteq> [])"

text \<open>The measure of the loops that read until the end of the file.\<close>

primrec weight :: "chunk list \<Rightarrow> nat" where
  "weight [] = 0"
| "weight (c # cs) = Suc (case c of Data s \<Rightarrow> length s | Rerr \<Rightarrow> 0) + weight cs"

lemma read_u_weight:
  "read_u fd n w = (Val (k, s), w') \<Longrightarrow> 0 < k \<Longrightarrow> weight (inq w' fd) < weight (inq w fd)"
  by (auto simp: read_u_def split: list.splits chunk.splits if_splits)

lemma read_u_clean:
  assumes "clean (inq w fd)" "inq w fd \<noteq> []" "0 < n"
  shows "\<exists>s q. read_u fd n w = (Val (int (length s), s), w\<lparr>inq := (inq w)(fd := q)\<rparr>) \<and> s \<noteq> [] \<and> length s \<le> n
    \<and> clean q \<and> contents (inq w fd) = s @ contents q \<and> weight q < weight (inq w fd)"
proof -
  obtain s cs where q: "inq w fd = Data s # cs" "s \<noteq> []" "clean cs"
    using assms(1,2) by (cases "inq w fd") (auto simp: clean_def)
  show ?thesis
  proof (cases "length s \<le> n")
    case True
    then show ?thesis using q by (intro exI [of _ s] exI [of _ cs]) (auto simp: read_u_def)
  next
    case False
    then show ?thesis using q assms(3)
      by (intro exI [of _ "take n s"] exI [of _ "Data (drop n s) # cs"]) (auto simp: read_u_def clean_def)
  qed
qed

end
