(* ===== verification/Ulib.thy ===== *)
theory Ulib
  imports Ram
begin

text \<open>
  The C library of user programs, \<^verbatim>\<open>user/ulib.c\<close>.  Functions on memory work on the byte map of
  \<^verbatim>\<open>Ram\<close>; a loop that runs to a terminating NUL is a partial function, and the lemmas show that
  it returns on every string.  System calls are arguments.
\<close>

section \<open>Strings in memory\<close>


section \<open>Operations\<close>






definition memset_u :: "ram \<Rightarrow> addr \<Rightarrow> uint32 \<Rightarrow> uint32 \<Rightarrow> ram" where
  "memset_u m dst c n = memset_loop m dst (ucast c) 0 (unat n)"


text \<open>\<^verbatim>\<open>gets\<close> reads single bytes; the input is the bytes standard input still holds, and an empty input
  is the end of file.  The result is the memory and the rest of the input.\<close>

fun gets_loop :: "ram \<Rightarrow> addr \<Rightarrow> nat \<Rightarrow> int \<Rightarrow> uint8 list \<Rightarrow> ram \<times> nat \<times> uint8 list" where
  "gets_loop m buf i max' [] = (m, i, [])"
| "gets_loop m buf i max' (c # inp) =
     (if int i + 1 < max'
      then (let m' = m(buf + of_nat i := c)
            in if c = 10 \<or> c = 13 then (m', Suc i, inp) else gets_loop m' buf (Suc i) max' inp)
      else (m, i, c # inp))"

definition gets :: "ram \<Rightarrow> addr \<Rightarrow> int \<Rightarrow> uint8 list \<Rightarrow> ram \<times> uint8 list" where
  "gets m buf max' inp =
     (let (m', i, inp') = gets_loop m buf 0 max' inp in (m'(buf + of_nat i := 0), inp'))"

text \<open>\<^verbatim>\<open>stat\<close> with the system calls as arguments; the status record is whatever \<^verbatim>\<open>fstat\<close> fills in.\<close>

definition stat :: "('w \<Rightarrow> int \<times> 'w) \<Rightarrow> (int \<Rightarrow> 'w \<Rightarrow> int \<times> 'w) \<Rightarrow> (int \<Rightarrow> 'w \<Rightarrow> 'w) \<Rightarrow> 'w \<Rightarrow> int \<times> 'w" where
  "stat open_n fstat close w =
     (let (fd, w1) = open_n w
      in if fd < 0 then (- 1, w1)
         else (let (r, w2) = fstat fd w1 in (r, close fd w2)))"

partial_function (option) atoi_loop :: "ram \<Rightarrow> uint32 \<Rightarrow> addr \<Rightarrow> uint32 option" where
  "atoi_loop m n s =
     (if 48 \<le> m s \<and> m s \<le> 57 then atoi_loop m (n * 10 + ucast (m s) - 48) (s + 1) else Some n)"

definition atoi :: "ram \<Rightarrow> addr \<Rightarrow> uint32 option" where
  "atoi m s = atoi_loop m 0 s"

definition memmove_u :: "ram \<Rightarrow> addr \<Rightarrow> addr \<Rightarrow> int \<Rightarrow> ram" where
  "memmove_u m vdst vsrc n =
     (if vsrc > vdst then memmove_fwd m vdst vsrc (nat n)
      else memmove_bwd m (vdst + of_int n) (vsrc + of_int n) (nat n))"

primrec memcmp_u_loop :: "ram \<Rightarrow> addr \<Rightarrow> addr \<Rightarrow> nat \<Rightarrow> int" where
  "memcmp_u_loop m p1 p2 0 = 0"
| "memcmp_u_loop m p1 p2 (Suc n) =
     (if m p1 \<noteq> m p2 then uint (m p1) - uint (m p2) else memcmp_u_loop m (p1 + 1) (p2 + 1) n)"

definition memcmp_u :: "ram \<Rightarrow> addr \<Rightarrow> addr \<Rightarrow> uint32 \<Rightarrow> int" where
  "memcmp_u m s1 s2 n = memcmp_u_loop m s1 s2 (unat n)"

definition memcpy_u :: "ram \<Rightarrow> addr \<Rightarrow> addr \<Rightarrow> uint32 \<Rightarrow> ram" where
  "memcpy_u m dst src n = memmove_u m dst src (sint n)"

section \<open>They return on strings\<close>






lemma memmove_u_eq:
  assumes "0 \<le> n" "unat dst + nat n < 2 ^ 64" "unat src + nat n < 2 ^ 64"
  shows "memmove_u m dst src n = copied m dst src (nat n)"
proof (cases "src > dst")
  case True
  then show ?thesis using memmove_fwd_eq [of dst "nat n" src m] assms by (simp add: memmove_u_def less_imp_le)
next
  case False
  have n: "of_int n = (of_nat (nat n) :: addr)" using assms(1) by simp
  have u: "unat (of_nat (nat n) :: addr) = nat n" using assms(2) by (simp add: unat_of_nat)
  have d: "unat (dst + of_nat (nat n)) = unat dst + nat n" "unat (src + of_nat (nat n)) = unat src + nat n"
    using assms(2,3) u by (simp_all add: unat_add_lt)
  have le: "src + of_nat (nat n) \<le> dst + of_nat (nat n)"
    using False d by (simp add: word_le_nat_alt not_less)
  have "memmove_bwd m (dst + of_nat (nat n)) (src + of_nat (nat n)) (nat n) =
    (\<lambda>x. if unat (dst + of_nat (nat n) - 1 - x) < nat n
         then m (src + of_nat (nat n) - (dst + of_nat (nat n) - x)) else m x)"
    by (rule memmove_bwd_eq) (use d le in simp_all)
  also have "\<dots> = copied m dst src (nat n)"
  proof
    fix x
    have i: "unat (dst + of_nat (nat n) - 1 - x) < nat n \<longleftrightarrow> unat (x - dst) < nat n"
    proof (cases "nat n = 0")
      case True
      then show ?thesis by simp
    next
      case nz: False
      let ?N = "of_nat (nat n) :: addr"
      have e: "dst + ?N - 1 - x = ?N - 1 - (x - dst)" by simp
      have u1: "unat (?N - 1) = nat n - 1" using nz u by (subst unat_minus_one) (auto simp: word_unat_eq_iff)
      moreover have "unat (?N - 1 - (x - dst)) = (if unat (x - dst) \<le> unat (?N - 1)
          then unat (?N - 1) - unat (x - dst) else unat (?N - 1) + 2 ^ 64 - unat (x - dst))"
        using unat_sub_if_size [of "?N - 1" "x - dst"] by (simp add: word_size)
      moreover have "unat (x - dst) < 2 ^ 64" "nat n < 2 ^ 64" using unat_lt64 assms(2) by auto
      ultimately show ?thesis unfolding e using nz by (auto split: if_splits)
    qed
    show "(if unat (dst + of_nat (nat n) - 1 - x) < nat n
         then m (src + of_nat (nat n) - (dst + of_nat (nat n) - x)) else m x) = copied m dst src (nat n) x"
      unfolding i by (simp add: copied_def algebra_simps)
  qed
  finally show ?thesis using False by (simp add: memmove_u_def n)
qed

section \<open>Lines\<close>

text \<open>The part of the input \<^verbatim>\<open>gets\<close> takes with room for \<open>n\<close> characters.\<close>

fun line_prefix :: "nat \<Rightarrow> uint8 list \<Rightarrow> uint8 list" where
  "line_prefix 0 inp = []"
| "line_prefix (Suc n) [] = []"
| "line_prefix (Suc n) (c # inp) = c # (if c = 10 \<or> c = 13 then [] else line_prefix n inp)"

lemma gets_loop_line:
  fixes inp :: "uint8 list"
  assumes "int i < max'" "max' < 2 ^ 31"
  defines "l \<equiv> line_prefix (nat max' - 1 - i) inp"
  shows "\<exists>m' inp'. gets_loop m buf i max' inp = (m', i + length l, inp') \<and> inp = l @ inp'
    \<and> int (i + length l) < max'
    \<and> (\<forall>k<length l. m' (buf + of_nat (i + k)) = l ! k)
    \<and> (\<forall>x. \<not> (i \<le> unat (x - buf) \<and> unat (x - buf) < i + length l) \<longrightarrow> m' x = m x)"
  using assms(1) unfolding l_def
proof (induction inp arbitrary: m i)
  case Nil
  then show ?case by (cases "nat max' - 1 - i") auto
next
  case (Cons c inp)
  show ?case
  proof (cases "int i + 1 < max'")
    case False
    then have "nat max' - 1 - i = 0" using Cons.prems by simp
    then show ?thesis using False Cons.prems by simp
  next
    case True
    then obtain n where n: "nat max' - 1 - i = Suc n" "nat max' - 1 - Suc i = n" by (cases "nat max' - 1 - i") auto
    have i64: "i < 2 ^ 64" using Cons.prems assms(2) by simp
    have ui: "unat (of_nat i :: addr) = i" using i64 by (simp add: unat_of_nat)
    have at: "x = buf + of_nat i \<longleftrightarrow> unat (x - buf) = i" for x
    proof -
      have "x = buf + of_nat i \<longleftrightarrow> x - buf = of_nat i" by (auto simp: algebra_simps)
      then show ?thesis using ui by (auto simp: word_unat_eq_iff)
    qed
    show ?thesis
    proof (cases "c = 10 \<or> c = 13")
      case nl: True
      then show ?thesis using True n at by (auto simp: Let_def)
    next
      case no: False
      define M where "M = m(buf + of_nat i := c)"
      let ?l = "line_prefix n inp"
      from Cons.IH [of "Suc i" M] True n(2) obtain m' inp' where
        m': "gets_loop M buf (Suc i) max' inp = (m', Suc i + length ?l, inp')" "inp = ?l @ inp'"
          "int (Suc i + length ?l) < max'" "\<forall>k<length ?l. m' (buf + of_nat (Suc i + k)) = ?l ! k"
          "\<forall>x. \<not> (Suc i \<le> unat (x - buf) \<and> unat (x - buf) < Suc i + length ?l) \<longrightarrow> m' x = M x" by auto
      have "m' (buf + of_nat i) = c" using m'(5) [THEN spec, of "buf + of_nat i"] ui by (simp add: M_def)
      then have "m' (buf + of_nat (i + k)) = (c # ?l) ! k" if "k < Suc (length ?l)" for k
        using that m'(4) by (cases k) auto
      moreover have "m' x = m x" if "\<not> (i \<le> unat (x - buf) \<and> unat (x - buf) < i + length (c # ?l))" for x
        using that m'(5) [THEN spec, of x] at [of x] by (auto simp: M_def)
      ultimately show ?thesis using True no n(1) m'(1-3) by (auto simp: Let_def M_def)
    qed
  qed
qed

section \<open>Properties\<close>



text \<open>The \<^verbatim>\<open>memmove\<close> of the user library and the \<^verbatim>\<open>memmove\<close> of the kernel, which choose their
  direction by different tests, compute the same memory.\<close>

theorem user_memmove_is_kernel_memmove:
  assumes "unat n < 2 ^ 31" "unat dst + unat n < 2 ^ 64" "unat src + unat n < 2 ^ 64"
  shows "memmove_u m dst src (uint n) = memmove m dst src n"
  using memmove_u_eq [of "uint n" dst src m] memmove_eq [OF assms(2,3), of m] assms by simp

theorem user_memmove_is_kernel_memmove_witness:
  "memmove_u (\<lambda>a. ucast a) 101 100 3 = memmove (\<lambda>a. ucast a) 101 100 3"
  using user_memmove_is_kernel_memmove [of 3 101 100 "\<lambda>a. ucast a"] by simp

text \<open>C40: \<^verbatim>\<open>gets\<close> takes the input up to the end of the line, or as much as fits, leaves it in the
  buffer followed by a NUL, and writes nothing outside the \<open>max\<close> bytes of the buffer.\<close>

theorem gets_reads_line:
  assumes "0 < max'" "max' < 2 ^ 31"
  shows "\<exists>m' inp'. gets m buf max' inp = (m', inp') \<and> inp = line_prefix (nat max' - 1) inp @ inp'
    \<and> (\<forall>k<length (line_prefix (nat max' - 1) inp). m' (buf + of_nat k) = line_prefix (nat max' - 1) inp ! k)
    \<and> m' (buf + of_nat (length (line_prefix (nat max' - 1) inp))) = 0
    \<and> (\<forall>x. nat max' \<le> unat (x - buf) \<longrightarrow> m' x = m x)"
proof -
  let ?l = "line_prefix (nat max' - 1) inp"
  from gets_loop_line [of 0 max' m buf inp] assms obtain m' inp' where
    m': "gets_loop m buf 0 max' inp = (m', length ?l, inp')" "inp = ?l @ inp'" "int (length ?l) < max'"
      "\<forall>k<length ?l. m' (buf + of_nat k) = ?l ! k" "\<forall>x. \<not> unat (x - buf) < length ?l \<longrightarrow> m' x = m x" by auto
  let ?m = "m'(buf + of_nat (length ?l) := 0)"
  have l: "length ?l < 2 ^ 64" using m'(3) assms(2) by simp
  have ul: "unat (of_nat (length ?l) :: addr) = length ?l" using l by (simp add: unat_of_nat)
  have "?m (buf + of_nat k) = ?l ! k" if "k < length ?l" for k
  proof -
    have "unat (of_nat k :: addr) = k" using that l by (simp add: unat_of_nat)
    then have "(of_nat k :: addr) \<noteq> of_nat (length ?l)" using that ul by (metis less_irrefl)
    then show ?thesis using m'(4) that by simp
  qed
  moreover have "?m x = m x" if "nat max' \<le> unat (x - buf)" for x
  proof -
    have "x \<noteq> buf + of_nat (length ?l)" using that ul m'(3) by auto
    then show ?thesis using m'(3,5) that by simp
  qed
  moreover have "gets m buf max' inp = (?m, inp')" using m'(1) by (simp add: gets_def)
  ultimately show ?thesis using m'(2) by auto
qed

theorem gets_reads_line_witness:
  "\<exists>m'. gets (\<lambda>_. 1) 1000 4 [65, 10, 66] = (m', [66]) \<and> m' 1000 = 65 \<and> m' 1001 = 10 \<and> m' 1002 = 0"
proof -
  have "nat 4 - 1 = Suc (Suc (Suc 0))" by simp
  then have l: "line_prefix (nat 4 - 1) [65, 10, 66] = [65, 10]" by (simp only:) simp
  have all: "(\<forall>k<Suc (Suc 0). P k) \<longleftrightarrow> P 0 \<and> P (Suc 0)" for P by (auto simp: less_Suc_eq)
  from gets_reads_line [of 4 "\<lambda>_. 1" 1000 "[65, 10, 66]"] show ?thesis
    unfolding l by (auto simp: all)
qed

end
