(* ===== verification/Uprintf.thy ===== *)
theory Uprintf
  imports Uenv Ulib
begin

text \<open>
  Formatted output of user programs, \<^verbatim>\<open>user/printf.c\<close>.  A variadic argument is the 64-bit register
  that carries it, or a pointer to a string (\<open>None\<close> for the null pointer).
\<close>

section \<open>Operations\<close>

definition digits_u :: string where
  "digits_u = ''0123456789ABCDEF''"

definition putc_u :: "int \<Rightarrow> char \<Rightarrow> unit um" where
  "putc_u fd c = useq (write_u fd [c]) (uret ())"

primrec putcs_u :: "int \<Rightarrow> string \<Rightarrow> unit um" where
  "putcs_u fd [] = uret ()"
| "putcs_u fd (c # cs) = useq (putc_u fd c) (putcs_u fd cs)"

text \<open>The digits of \<^verbatim>\<open>x\<close>, lowest first, as the \<^verbatim>\<open>do\<close> loop of \<^verbatim>\<open>printint\<close> stores them.\<close>

function printint_digits :: "nat \<Rightarrow> nat \<Rightarrow> string" where
  "printint_digits base x =
     digits_u ! (x mod base) # (if base \<le> 1 \<or> x div base = 0 then [] else printint_digits base (x div base))"
  by pat_completeness auto
termination
  by (relation "measure snd") (auto simp: div_greater_zero_iff)

definition printint_u :: "int \<Rightarrow> uint32 \<Rightarrow> nat \<Rightarrow> bool \<Rightarrow> unit um" where
  "printint_u fd xx base sgn' =
     (let neg = (sgn' \<and> sint xx < 0);
          x = (if neg then - xx else xx);
          buf = printint_digits base (unat x) @ (if neg then ''-'' else [])
      in putcs_u fd (rev buf))"

primrec printptr_loop :: "int \<Rightarrow> nat \<Rightarrow> uint64 \<Rightarrow> unit um" where
  "printptr_loop fd 0 x = uret ()"
| "printptr_loop fd (Suc i) x =
     useq (putc_u fd (digits_u ! unat (drop_bit 60 x))) (printptr_loop fd i (push_bit 4 x))"

definition printptr_u :: "int \<Rightarrow> uint64 \<Rightarrow> unit um" where
  "printptr_u fd x = useq (putc_u fd CHR ''0'') (useq (putc_u fd CHR ''x'') (printptr_loop fd 16 x))"

datatype varg = Num uint64 | Str "string option"

text \<open>\<^verbatim>\<open>vprintf\<close>: the flag is \<^verbatim>\<open>state == '%'\<close>.  Taking an argument that is missing or of the wrong kind
  is undefined.\<close>

fun vprintf_u :: "int \<Rightarrow> bool \<Rightarrow> string \<Rightarrow> varg list \<Rightarrow> unit um" where
  "vprintf_u fd st [] ap = uret ()"
| "vprintf_u fd False (c # fmt) ap =
     (if c = CHR ''%'' then vprintf_u fd True fmt ap
      else useq (putc_u fd c) (vprintf_u fd False fmt ap))"
| "vprintf_u fd True (c # fmt) ap =
     (if c = CHR ''d'' then
        (case ap of Num v # ap' \<Rightarrow> useq (printint_u fd (ucast v) 10 True) (vprintf_u fd False fmt ap') | _ \<Rightarrow> uundef)
      else if c = CHR ''l'' then
        (case ap of Num v # ap' \<Rightarrow> useq (printint_u fd (ucast v) 10 False) (vprintf_u fd False fmt ap') | _ \<Rightarrow> uundef)
      else if c = CHR ''x'' then
        (case ap of Num v # ap' \<Rightarrow> useq (printint_u fd (ucast v) 16 False) (vprintf_u fd False fmt ap') | _ \<Rightarrow> uundef)
      else if c = CHR ''p'' then
        (case ap of Num v # ap' \<Rightarrow> useq (printptr_u fd v) (vprintf_u fd False fmt ap') | _ \<Rightarrow> uundef)
      else if c = CHR ''s'' then
        (case ap of Str s # ap' \<Rightarrow>
           useq (putcs_u fd (case s of None \<Rightarrow> ''(null)'' | Some t \<Rightarrow> t)) (vprintf_u fd False fmt ap') | _ \<Rightarrow> uundef)
      else if c = CHR ''c'' then
        (case ap of Num v # ap' \<Rightarrow> useq (putc_u fd (char_of (unat v mod 256))) (vprintf_u fd False fmt ap') | _ \<Rightarrow> uundef)
      else if c = CHR ''%'' then useq (putc_u fd c) (vprintf_u fd False fmt ap)
      else useq (putc_u fd CHR ''%'') (useq (putc_u fd c) (vprintf_u fd False fmt ap)))"

definition fprintf_u :: "int \<Rightarrow> string \<Rightarrow> varg list \<Rightarrow> unit um" where
  "fprintf_u fd fmt ap = vprintf_u fd False fmt ap"

definition printf_u :: "string \<Rightarrow> varg list \<Rightarrow> unit um" where
  "printf_u fmt ap = vprintf_u 1 False fmt ap"

section \<open>Output as text\<close>

declare printint_digits.simps [simp del]

text \<open>\<open>emits fd s w w'\<close>: between \<open>w\<close> and \<open>w'\<close> exactly \<open>s\<close> was written, to \<open>fd\<close>.\<close>

definition emits :: "int \<Rightarrow> string \<Rightarrow> uworld \<Rightarrow> uworld \<Rightarrow> bool" where
  "emits fd s w w' \<longleftrightarrow> (\<exists>tr. w' = w\<lparr>trace := trace w @ tr\<rparr> \<and> (\<forall>e\<in>set tr. fst e = fd) \<and> concat (map snd tr) = s)"

lemma emits_refl [simp]: "emits fd [] w w"
  unfolding emits_def by (intro exI [of _ "[]"]) simp

lemma emits_trans: "emits fd s w w' \<Longrightarrow> emits fd t w' w'' \<Longrightarrow> emits fd (s @ t) w w''"
  unfolding emits_def
proof (elim exE conjE)
  fix tr tr'
  assume "w' = w\<lparr>trace := trace w @ tr\<rparr>" "w'' = w'\<lparr>trace := trace w' @ tr'\<rparr>" "\<forall>e\<in>set tr. fst e = fd"
    "\<forall>e\<in>set tr'. fst e = fd" "concat (map snd tr) = s" "concat (map snd tr') = t"
  then show "\<exists>tr''. w'' = w\<lparr>trace := trace w @ tr''\<rparr> \<and> (\<forall>e\<in>set tr''. fst e = fd) \<and> concat (map snd tr'') = s @ t"
    by (intro exI [of _ "tr @ tr'"]) auto
qed

lemma emits_emitted: "emits fd s w w' \<Longrightarrow> emitted fd' w' = emitted fd' w @ (if fd' = fd then s else [])"
proof -
  assume "emits fd s w w'"
  then obtain tr where tr: "w' = w\<lparr>trace := trace w @ tr\<rparr>" "\<forall>e\<in>set tr. fst e = fd" "concat (map snd tr) = s"
    by (auto simp: emits_def)
  have "filter (\<lambda>(f, _). f = fd') tr = (if fd' = fd then tr else [])"
    using tr(2) by (induction tr) auto
  then show ?thesis using tr(1,3) by (simp add: emitted_def)
qed

lemma emits_wfail: "emits fd s w w' \<Longrightarrow> wfail w' = wfail w \<and> inq w' = inq w \<and> opened w' = opened w \<and> fsys w' = fsys w"
  by (auto simp: emits_def)

lemma putcs_u_emits: "\<not> wfail w fd \<Longrightarrow> \<exists>w'. putcs_u fd s w = (Val (), w') \<and> emits fd s w w'"
proof (induction s arbitrary: w)
  case Nil
  then show ?case by simp
next
  case (Cons c s)
  let ?w = "w\<lparr>trace := trace w @ [(fd, [c])]\<rparr>"
  have "\<not> wfail ?w fd" using Cons.prems by simp
  then obtain w' where w': "putcs_u fd s ?w = (Val (), w')" "emits fd s ?w w'" using Cons.IH by blast
  have "emits fd [c] w ?w" by (auto simp: emits_def)
  from emits_trans [OF this w'(2)] w'(1) Cons.prems show ?case
    by (auto simp: putc_u_def write_u_def umonad)
qed

section \<open>Numbers\<close>

text \<open>The value of a decimal numeral, highest digit first.\<close>

definition dec :: "string \<Rightarrow> nat" where
  "dec s = foldl (\<lambda>n c. 10 * n + (of_char c - 48)) 0 s"

definition is_dec :: "char \<Rightarrow> bool" where
  "is_dec c \<longleftrightarrow> 48 \<le> (of_char c :: nat) \<and> (of_char c :: nat) \<le> 57"

lemma digit_10: "d < 10 \<Longrightarrow> (of_char (digits_u ! d) :: nat) = 48 + d \<and> is_dec (digits_u ! d)"
proof -
  assume "d < 10"
  then have "d \<in> {0, 1, 2, 3, 4, 5, 6, 7, 8, 9}" by auto
  then show ?thesis by (auto simp: digits_u_def is_dec_def)
qed

lemma printint_digits_dec:
  "dec (rev (printint_digits 10 x)) = x \<and> list_all is_dec (printint_digits 10 x)"
proof (induction x rule: less_induct)
  case (less x)
  have d: "x mod 10 < 10" by simp
  show ?case
  proof (cases "x div 10 = 0")
    case True
    then have "x mod 10 = x" by simp
    then show ?thesis
      using digit_10 [OF d] True by (simp add: printint_digits.simps [of 10 x] dec_def)
  next
    case False
    then have "x div 10 < x" by (cases "x = 0") auto
    note IH = less [OF this]
    have "dec (rev (printint_digits 10 x)) = 10 * dec (rev (printint_digits 10 (x div 10))) + x mod 10"
      using False digit_10 [OF d] by (simp add: printint_digits.simps [of 10 x] dec_def)
    then show ?thesis
      using IH False digit_10 [OF d] by (simp add: printint_digits.simps [of 10 x])
  qed
qed

lemma printint_digits_length: "1 < base \<Longrightarrow> x < base ^ k \<Longrightarrow> 0 < k \<Longrightarrow> length (printint_digits base x) \<le> k"
proof (induction k arbitrary: x)
  case 0
  then show ?case by simp
next
  case (Suc k)
  show ?case
  proof (cases "x div base = 0")
    case True
    then show ?thesis by (simp add: printint_digits.simps [of base x])
  next
    case False
    have lt: "x div base < base ^ k"
      using Suc.prems(1,2) by (simp add: less_mult_imp_div_less mult.commute)
    have "0 < k"
    proof (rule ccontr)
      assume "\<not> 0 < k"
      then show False using lt False by simp
    qed
    then show ?thesis
      using Suc.IH [OF Suc.prems(1) lt] False by (simp add: printint_digits.simps [of base x])
  qed
qed





lemma unat_abs_sint: "unat (if sint x < 0 then - x else x) = nat \<bar>sint (x :: uint32)\<bar>"
proof -
  have x: "x = word_of_int (sint x)" by (simp only: scast_eq [symmetric] scast_id)
  have r: "- (2 ^ 31) \<le> sint x" "sint x < 2 ^ 31" using sint_ge [of x] sint_lt [of x] by simp_all
  show ?thesis
  proof (cases "sint x < 0")
    case True
    have "- x = word_of_int (- sint x)" using arg_cong [OF x, of uminus] by (simp only: wi_hom_neg)
    then have "uint (- x) = (- sint x) mod 2 ^ 32" by (simp only: uint_word_of_int) simp
    also have "\<dots> = - sint x" using True r by (intro mod_pos_pos_trivial) simp_all
    finally show ?thesis using True by (simp add: unat_eq_nat_uint)
  next
    case False
    have "uint x = sint x mod 2 ^ 32" using arg_cong [OF x, of uint] by (simp only: uint_word_of_int) simp
    also have "\<dots> = sint x" using False r by (intro mod_pos_pos_trivial) simp_all
    finally show ?thesis using False by (simp add: unat_eq_nat_uint)
  qed
qed

section \<open>Properties\<close>

text \<open>\<^verbatim>\<open>%d\<close> prints the sign and the decimal digits of its argument, for every 32-bit value, in at
  most the sixteen characters of the buffer; \<^verbatim>\<open>%x\<close> needs at most eight of them.\<close>

theorem printint_prints_decimal:
  assumes "\<not> wfail w fd"
  shows "\<exists>w' ds. printint_u fd xx 10 True w = (Val (), w')
    \<and> emits fd ((if sint xx < 0 then ''-'' else []) @ ds) w w'
    \<and> list_all is_dec ds \<and> dec ds = nat \<bar>sint xx\<bar> \<and> length ds + 1 \<le> 16
    \<and> length (printint_digits 16 (unat xx)) \<le> 8"
proof -
  let ?x = "if sint xx < 0 then - xx else xx"
  let ?ds = "rev (printint_digits 10 (unat ?x))"
  note v = unat_abs_sint [of xx]
  have "printint_u fd xx 10 True w = putcs_u fd ((if sint xx < 0 then ''-'' else []) @ ?ds) w"
    by (simp add: printint_u_def Let_def)
  moreover have "length (printint_digits 10 (unat ?x)) \<le> 10"
    using unat_lt32 [of ?x] by (intro printint_digits_length) simp_all
  moreover have "length (printint_digits 16 (unat xx)) \<le> 8"
    using unat_lt32 [of xx] by (intro printint_digits_length) simp_all
  moreover have "list_all is_dec ?ds \<and> dec ?ds = nat \<bar>sint xx\<bar>"
    using printint_digits_dec [of "unat ?x"] v by (simp add: list_all_iff)
  moreover obtain w' where "putcs_u fd ((if sint xx < 0 then ''-'' else []) @ ?ds) w = (Val (), w')"
      "emits fd ((if sint xx < 0 then ''-'' else []) @ ?ds) w w'"
    using putcs_u_emits [OF assms] by blast
  ultimately show ?thesis by (intro exI [of _ w'] exI [of _ ?ds]) simp
qed

definition quiet_world :: uworld where
  "quiet_world = \<lparr>inq = (\<lambda>_. []), fsys = (\<lambda>_. None), opened = [0, 1, 2], wfail = (\<lambda>_. False), trace = []\<rparr>"

theorem printint_prints_decimal_witness:
  "\<exists>w' ds. printint_u 1 (- 5) 10 True quiet_world = (Val (), w') \<and> emitted 1 w' = ''-'' @ ds \<and> dec ds = 5"
proof -
  have "\<not> wfail quiet_world 1" "emitted 1 quiet_world = []" by (simp_all add: quiet_world_def emitted_def)
  with printint_prints_decimal [of quiet_world 1 "- 5"] show ?thesis
    by (fastforce simp: emits_emitted)
qed




end
