(* ===== verification/Grep.thy ===== *)
theory Grep
  imports Uprintf
begin

text \<open>
  \<^verbatim>\<open>user/grep.c\<close>: the regular expression matcher and the loop that cuts the input into lines.  A C
  string is the list of its characters before the NUL.
\<close>

section \<open>The matcher\<close>

function (sequential) matchhere :: "string \<Rightarrow> string \<Rightarrow> bool"
  and matchstar :: "char \<Rightarrow> string \<Rightarrow> string \<Rightarrow> bool" where
  "matchhere [] tx = True"
| "matchhere (c # re) tx =
     (if re \<noteq> [] \<and> hd re = CHR ''*'' then matchstar c (tl re) tx
      else if c = CHR ''$'' \<and> re = [] then tx = []
      else (case tx of [] \<Rightarrow> False | t # tx' \<Rightarrow> (c = CHR ''.'' \<or> c = t) \<and> matchhere re tx'))"
| "matchstar c re tx =
     (matchhere re tx \<or>
      (case tx of [] \<Rightarrow> False | t # tx' \<Rightarrow> (t = c \<or> c = CHR ''.'') \<and> matchstar c re tx'))"
  by pat_completeness auto
termination
  by (relation "measure (\<lambda>x. case x of Inl (re, tx) \<Rightarrow> 2 * (length re + length tx)
                                     | Inr (c, re, tx) \<Rightarrow> Suc (2 * (length re + length tx)))") auto

primrec match_any :: "string \<Rightarrow> string \<Rightarrow> bool" where
  "match_any re [] = matchhere re []"
| "match_any re (t # tx) = (matchhere re (t # tx) \<or> match_any re tx)"

definition match :: "string \<Rightarrow> string \<Rightarrow> bool" where
  "match re tx =
     (case re of c # re' \<Rightarrow> if c = CHR ''^'' then matchhere re' tx else match_any re tx
      | [] \<Rightarrow> match_any re tx)"

declare matchhere.simps [simp del] matchstar.simps [simp del]

section \<open>The loop over the input\<close>

text \<open>\<^verbatim>\<open>strchr(p, '\n')\<close> in the buffer, as an offset: the search ends at a NUL.\<close>

primrec find_nl :: "string \<Rightarrow> nat option" where
  "find_nl [] = None"
| "find_nl (c # s) =
     (if c = CHR 0x00 then None else if c = CHR 0x0A then Some 0 else map_option Suc (find_nl s))"

lemma find_nl_length: "find_nl s = Some k \<Longrightarrow> k < length s"
  by (induction s arbitrary: k) (auto split: if_splits)

text \<open>The inner loop; the result is the tx after the last complete line.\<close>

function grep_lines :: "string \<Rightarrow> string \<Rightarrow> string um" where
  "grep_lines pattern p =
     (case find_nl p of
        None \<Rightarrow> uret p
      | Some k \<Rightarrow>
          useq (if match pattern (take k p) then useq (write_u 1 (take (Suc k) p)) (uret ()) else uret ())
               (grep_lines pattern (drop (Suc k) p)))"
  by pat_completeness auto
termination
  by (relation "measure (\<lambda>(pat, p). length p)") (auto dest: find_nl_length)

declare grep_lines.simps [simp del]

lemma grep_lines_inq: "grep_lines pat p w = (r, w') \<Longrightarrow> inq w' = inq w"
proof (induction pat p arbitrary: w rule: grep_lines.induct)
  case (1 pat p)
  then show ?case
    by (subst (asm) grep_lines.simps) (auto simp: umonad write_u_def split: option.splits if_splits)
qed

lemma grep_step:
  assumes "(Val (n, s), w1) = read_u fd k w" "0 < n" "(Val rest, w2) = grep_lines pat p w1"
  shows "weight (inq w2 fd) < weight (inq w fd)"
  using read_u_weight [OF assms(1) [symmetric] assms(2)] grep_lines_inq [OF assms(3) [symmetric]] by simp

text \<open>The outer loop; \<open>buf\<close> is the tx kept from the previous turn.\<close>

function grep_loop :: "string \<Rightarrow> int \<Rightarrow> string \<Rightarrow> unit um" where
  "grep_loop pattern fd buf w =
     (case read_u fd (1023 - length buf) w of
        (Val (n, s), w1) \<Rightarrow>
          if n > 0
          then (case grep_lines pattern (buf @ s) w1 of
                  (Val rest, w2) \<Rightarrow> grep_loop pattern fd rest w2
                | (Exited c, w2) \<Rightarrow> (Exited c, w2)
                | (Undef, w2) \<Rightarrow> (Undef, w2))
          else (Val (), w1)
      | (Exited c, w1) \<Rightarrow> (Exited c, w1)
      | (Undef, w1) \<Rightarrow> (Undef, w1))"
  by pat_completeness auto
termination
  by (relation "measure (\<lambda>(pat, fd, buf, w). weight (inq w fd))") (auto intro: grep_step)

declare grep_loop.simps [simp del]

definition grep :: "string \<Rightarrow> int \<Rightarrow> unit um" where
  "grep pattern fd = grep_loop pattern fd []"

primrec grep_files :: "string \<Rightarrow> string list \<Rightarrow> unit um" where
  "grep_files pattern [] = uexit 0"
| "grep_files pattern (f # fs) =
     ubind (open_u f) (\<lambda>fd.
     if fd < 0 then useq (printf_u ''grep: cannot open %s\<newline>'' [Str (Some f)]) (uexit 1)
     else useq (grep pattern fd) (useq (close_u fd) (grep_files pattern fs)))"

text \<open>\<^verbatim>\<open>main\<close>, on the arguments after \<^verbatim>\<open>argv[0]\<close>.\<close>

definition grep_main :: "string list \<Rightarrow> unit um" where
  "grep_main args =
     (case args of
        [] \<Rightarrow> useq (fprintf_u 2 ''usage: grep pattern [file ...]\<newline>'' []) (uexit 1)
      | [pattern] \<Rightarrow> useq (grep pattern 0) (uexit 0)
      | pattern # fs \<Rightarrow> grep_files pattern fs)"

section \<open>The meaning of a pattern\<close>

text \<open>A pattern is a sequence of single characters and starred characters, anchored at the end of
  the tx when its last character is an unstarred \<^verbatim>\<open>$\<close>.\<close>

datatype item = One char | Star char

fun parse :: "string \<Rightarrow> item list \<times> bool" where
  "parse [] = ([], False)"
| "parse [c] = (if c = CHR ''$'' then ([], True) else ([One c], False))"
| "parse (c # d # re) =
     (if d = CHR ''*'' then (let (is, e) = parse re in (Star c # is, e))
      else (let (is, e) = parse (d # re) in (One c # is, e)))"

definition fits :: "char \<Rightarrow> char \<Rightarrow> bool" where
  "fits c t \<longleftrightarrow> c = CHR ''.'' \<or> c = t"

text \<open>The language of a sequence of items.\<close>

fun lang :: "item list \<Rightarrow> string set" where
  "lang [] = {[]}"
| "lang (One c # is) = {t # u | t u. fits c t \<and> u \<in> lang is}"
| "lang (Star c # is) = {v @ u | v u. list_all (fits c) v \<and> u \<in> lang is}"

definition hits :: "item list \<times> bool \<Rightarrow> string \<Rightarrow> bool" where
  "hits p tx \<longleftrightarrow> (\<exists>u v. tx = u @ v \<and> u \<in> lang (fst p) \<and> (snd p \<longrightarrow> v = []))"

lemma hits_Nil [simp]: "hits ([], e) tx \<longleftrightarrow> \<not> e \<or> tx = []"
  by (auto simp: hits_def)

lemma hitsI: "u \<in> lang is \<Longrightarrow> (e \<Longrightarrow> v = []) \<Longrightarrow> hits (is, e) (u @ v)"
  by (auto simp: hits_def)

lemma hitsE:
  assumes "hits (is, e) tx"
  obtains u v where "tx = u @ v" "u \<in> lang is" "e \<longrightarrow> v = []"
  using assms by (auto simp: hits_def)

lemma hits_One: "hits (One c # is, e) tx \<longleftrightarrow> (\<exists>t tx'. tx = t # tx' \<and> fits c t \<and> hits (is, e) tx')"
proof
  assume "hits (One c # is, e) tx"
  then obtain u r where r: "tx = u @ r" "u \<in> lang (One c # is)" "e \<longrightarrow> r = []" by (elim hitsE) blast
  then obtain t u' where "u = t # u'" "fits c t" "u' \<in> lang is" by auto
  then show "\<exists>t tx'. tx = t # tx' \<and> fits c t \<and> hits (is, e) tx'"
    using r hitsI [of u' "is" e r] by auto
next
  assume "\<exists>t tx'. tx = t # tx' \<and> fits c t \<and> hits (is, e) tx'"
  then obtain t tx' where h: "tx = t # tx'" "fits c t" "hits (is, e) tx'" by blast
  then obtain u r where r: "tx' = u @ r" "u \<in> lang is" "e \<longrightarrow> r = []" by (elim hitsE) blast
  then show "hits (One c # is, e) tx"
    using h(1,2) hitsI [of "t # u" "One c # is" e r] by auto
qed

lemma lang_StarI: "list_all (fits c) v \<Longrightarrow> u \<in> lang is \<Longrightarrow> v @ u \<in> lang (Star c # is)"
  by auto

lemma hits_Star:
  "hits (Star c # is, e) tx \<longleftrightarrow>
     hits (is, e) tx \<or> (\<exists>t tx'. tx = t # tx' \<and> fits c t \<and> hits (Star c # is, e) tx')"
proof
  assume "hits (Star c # is, e) tx"
  then obtain u' r where r: "tx = u' @ r" "u' \<in> lang (Star c # is)" "e \<longrightarrow> r = []" by (elim hitsE) blast
  then obtain v u where "u' = v @ u" "list_all (fits c) v" "u \<in> lang is" by auto
  with r have t: "tx = v @ u @ r" "list_all (fits c) v" "u \<in> lang is" "e \<longrightarrow> r = []" by simp_all
  show "hits (is, e) tx \<or> (\<exists>t tx'. tx = t # tx' \<and> fits c t \<and> hits (Star c # is, e) tx')"
  proof (cases v)
    case Nil
    then show ?thesis using t by (auto simp: hits_def)
  next
    case (Cons a v')
    have "hits (Star c # is, e) ((v' @ u) @ r)"
      using t Cons by (intro hitsI lang_StarI) auto
    then show ?thesis using t Cons by auto
  qed
next
  assume "hits (is, e) tx \<or> (\<exists>t tx'. tx = t # tx' \<and> fits c t \<and> hits (Star c # is, e) tx')"
  then show "hits (Star c # is, e) tx"
  proof (elim disjE exE conjE)
    assume "hits (is, e) tx"
    then obtain u r where "tx = u @ r" "u \<in> lang is" "e \<longrightarrow> r = []" by (elim hitsE) blast
    then show ?thesis using hitsI [OF lang_StarI [of c "[]" u]] by auto
  next
    fix t tx' assume h: "tx = t # tx'" "fits c t" "hits (Star c # is, e) tx'"
    then obtain u' r where r: "tx' = u' @ r" "u' \<in> lang (Star c # is)" "e \<longrightarrow> r = []" by (elim hitsE) blast
    then obtain v u where "u' = v @ u" "list_all (fits c) v" "u \<in> lang is" by auto
    then have "(t # v) @ u \<in> lang (Star c # is)" using h(2) by (intro lang_StarI) auto
    from hitsI [OF this, of e r] show ?thesis using h(1) r \<open>u' = v @ u\<close> by simp
  qed
qed

lemma match_hits:
  "matchhere re tx \<longleftrightarrow> hits (parse re) tx"
  "matchstar c re tx \<longleftrightarrow> hits (Star c # fst (parse re), snd (parse re)) tx"
proof (induction re tx and c re tx rule: matchhere_matchstar.induct)
  case (1 tx)
  then show ?case by (simp add: matchhere.simps)
next
  case (2 c re tx)
  show ?case
  proof (cases re)
    case Nil
    then show ?thesis using 2(2)
      by (auto simp: matchhere.simps hits_One fits_def split: list.splits)
  next
    case (Cons d re')
    show ?thesis
    proof (cases "d = CHR ''*''")
      case True
      then show ?thesis using 2(1) Cons by (simp add: matchhere.simps split_beta)
    next
      case False
      then show ?thesis using 2(2) Cons
        by (cases tx) (auto simp: matchhere.simps hits_One fits_def split_beta)
    qed
  qed
next
  case (3 c re tx)
  have "matchstar c re tx \<longleftrightarrow> hits (parse re) tx \<or>
      (\<exists>t tx'. tx = t # tx' \<and> fits c t \<and> hits (Star c # fst (parse re), snd (parse re)) tx')"
    using 3 by (cases tx) (auto simp: matchstar.simps fits_def)
  then show ?case using hits_Star [of c "fst (parse re)" "snd (parse re)" tx] by simp
qed

lemma match_any_iff: "match_any re tx \<longleftrightarrow> (\<exists>w tx'. tx = w @ tx' \<and> matchhere re tx')"
proof (induction tx)
  case Nil
  then show ?case by simp
next
  case (Cons t tx)
  show ?case
  proof
    assume "match_any re (t # tx)"
    then show "\<exists>w tx'. t # tx = w @ tx' \<and> matchhere re tx'"
      using Cons.IH by (metis append_Cons append_Nil match_any.simps(2))
  next
    assume "\<exists>w tx'. t # tx = w @ tx' \<and> matchhere re tx'"
    then show "match_any re (t # tx)" using Cons.IH by (auto simp: Cons_eq_append_conv)
  qed
qed

section \<open>Lines\<close>

text \<open>The complete lines of a text, without their newlines, and what follows the last newline.\<close>

function complete_lines :: "string \<Rightarrow> string list" where
  "complete_lines s =
     (case find_nl s of None \<Rightarrow> [] | Some k \<Rightarrow> take k s # complete_lines (drop (Suc k) s))"
  by pat_completeness auto
termination by (relation "measure length") (auto dest: find_nl_length)

function last_part :: "string \<Rightarrow> string" where
  "last_part s = (case find_nl s of None \<Rightarrow> s | Some k \<Rightarrow> last_part (drop (Suc k) s))"
  by pat_completeness auto
termination by (relation "measure length") (auto dest: find_nl_length)

declare complete_lines.simps [simp del] last_part.simps [simp del]

abbreviation matching :: "string \<Rightarrow> string \<Rightarrow> string" where
  "matching pat s \<equiv> concat (map (\<lambda>l. l @ [CHR 0x0A]) (filter (match pat) (complete_lines s)))"

lemma find_nl_char: "find_nl s = Some k \<Longrightarrow> take (Suc k) s = take k s @ [CHR 0x0A]"
  by (induction s arbitrary: k) (auto split: if_splits)

lemma grep_lines_eq:
  "\<not> wfail w 1 \<Longrightarrow> \<exists>w'. grep_lines pat p w = (Val (last_part p), w') \<and> emits 1 (matching pat p) w w'"
proof (induction pat p arbitrary: w rule: grep_lines.induct)
  case (1 pat p)
  show ?case
  proof (cases "find_nl p")
    case None
    then show ?thesis
      by (simp add: grep_lines.simps [of pat p] last_part.simps [of p] complete_lines.simps [of p])
  next
    case (Some k)
    define w1 where "w1 = (if match pat (take k p) then w\<lparr>trace := trace w @ [(1, take (Suc k) p)]\<rparr> else w)"
    have e: "emits 1 (if match pat (take k p) then take k p @ [CHR 0x0A] else []) w w1"
      using find_nl_char [OF Some] by (cases "match pat (take k p)") (auto simp: w1_def emits_def [of 1 "_ @ _"])
    have "\<not> wfail w1 1" using 1(2) by (simp add: w1_def)
    from 1(1) [OF Some this] obtain w' where
      w': "grep_lines pat (drop (Suc k) p) w1 = (Val (last_part (drop (Suc k) p)), w')"
        "emits 1 (matching pat (drop (Suc k) p)) w1 w'" by blast
    have "grep_lines pat p w = (Val (last_part p), w')"
      using 1(2) Some w'(1)
      by (auto simp: grep_lines.simps [of pat p] last_part.simps [of p] umonad write_u_def w1_def)
    moreover have "matching pat p = (if match pat (take k p) then take k p @ [CHR 0x0A] else []) @ matching pat (drop (Suc k) p)"
      using Some by (simp add: complete_lines.simps [of p])
    ultimately show ?thesis using emits_trans [OF e w'(2)] by metis
  qed
qed

lemma find_nl_append:
  "CHR 0x00 \<notin> set a \<Longrightarrow> find_nl (a @ b) = (case find_nl a of Some k \<Rightarrow> Some k | None \<Rightarrow> map_option (\<lambda>x. length a + x) (find_nl b))"
  by (cases "find_nl b"; induction a; auto split: option.splits)

lemma lines_append:
  "CHR 0x00 \<notin> set a \<Longrightarrow> complete_lines (a @ b) = complete_lines a @ complete_lines (last_part a @ b)
    \<and> last_part (a @ b) = last_part (last_part a @ b)"
proof (induction a rule: complete_lines.induct)
  case (1 a)
  show ?case
  proof (cases "find_nl a")
    case None
    then show ?thesis by (simp add: complete_lines.simps [of a] last_part.simps [of a])
  next
    case (Some k)
    have k: "k < length a" using Some by (rule find_nl_length)
    have f: "find_nl (a @ b) = Some k" using Some find_nl_append [OF 1(2), of b] by simp
    have "CHR 0x00 \<notin> set (drop (Suc k) a)" using 1(2) in_set_dropD by fast
    from 1(1) [OF Some this] show ?thesis
      using k Some f by (simp add: complete_lines.simps [of "a @ b"] complete_lines.simps [of a]
          last_part.simps [of "a @ b"] last_part.simps [of a])
  qed
qed

lemma last_part_last: "CHR 0x00 \<notin> set a \<Longrightarrow> find_nl (last_part a) = None \<and> (\<exists>u. a = u @ last_part a)"
proof (induction a rule: last_part.induct)
  case (1 a)
  show ?case
  proof (cases "find_nl a")
    case None
    then show ?thesis by (simp add: last_part.simps [of a])
  next
    case (Some k)
    have "CHR 0x00 \<notin> set (drop (Suc k) a)" using 1(2) in_set_dropD by fast
    from 1(1) [OF Some this] obtain u where
      u: "find_nl (last_part (drop (Suc k) a)) = None" "drop (Suc k) a = u @ last_part (drop (Suc k) a)" by blast
    have a: "a = (take (Suc k) a @ u) @ last_part (drop (Suc k) a)" using u(2) by (metis append.assoc append_take_drop_id)
    have "last_part a = last_part (drop (Suc k) a)" using Some by (simp add: last_part.simps [of a])
    then show ?thesis using a u(1) by metis
  qed
qed

text \<open>Every line, the last one included, has at most 1022 characters.\<close>

definition short_lines :: "string \<Rightarrow> bool" where
  "short_lines s \<longleftrightarrow> list_all (\<lambda>l. length l \<le> 1022) (complete_lines s) \<and> length (last_part s) \<le> 1022"

lemma short_prefix:
  assumes "CHR 0x00 \<notin> set a" "find_nl a = None" "short_lines (a @ b)"
  shows "length a \<le> 1022"
proof (cases "find_nl b")
  case None
  then have "last_part (a @ b) = a @ b" using assms(1,2) by (simp add: last_part.simps find_nl_append)
  then show ?thesis using assms(3) by (simp add: short_lines_def)
next
  case (Some k)
  then have "find_nl (a @ b) = Some (length a + k)" using assms(1,2) by (simp add: find_nl_append)
  then show ?thesis using assms(3) find_nl_length [OF Some]
    by (simp add: short_lines_def complete_lines.simps [of "a @ b"])
qed

lemma grep_loop_eq:
  assumes "\<not> wfail w 1" "clean (inq w fd)" "CHR 0x00 \<notin> set (buf @ contents (inq w fd))"
    "find_nl buf = None" "short_lines (buf @ contents (inq w fd))"
  shows "\<exists>w'. grep_loop pat fd buf w = (Val (), w')
    \<and> emitted 1 w' = emitted 1 w @ matching pat (buf @ contents (inq w fd))"
  using assms
proof (induction "weight (inq w fd)" arbitrary: w buf rule: less_induct)
  case less
  have buf: "length buf \<le> 1022" using short_prefix less.prems by auto
  show ?case
  proof (cases "inq w fd = []")
    case True
    then show ?thesis using less.prems(4)
      by (simp add: grep_loop.simps [of pat fd buf w] read_u_def complete_lines.simps [of buf])
  next
    case False
    from read_u_clean [OF less.prems(2) False, of "1023 - length buf"] buf obtain s q where
      s: "read_u fd (1023 - length buf) w = (Val (int (length s), s), w\<lparr>inq := (inq w)(fd := q)\<rparr>)" "s \<noteq> []"
        "clean q" "contents (inq w fd) = s @ contents q" "weight q < weight (inq w fd)" by auto
    let ?w = "w\<lparr>inq := (inq w)(fd := q)\<rparr>"
    obtain w1 where w1: "grep_lines pat (buf @ s) ?w = (Val (last_part (buf @ s)), w1)" "emits 1 (matching pat (buf @ s)) ?w w1"
      using grep_lines_eq [of ?w pat "buf @ s"] less.prems(1) by auto
    have i1: "inq w1 fd = q" "wfail w1 = wfail w" using emits_wfail [OF w1(2)] by simp_all
    have nz: "CHR 0x00 \<notin> set (buf @ s)" using less.prems(3) s(4) by auto
    note lp = last_part_last [OF nz] and la = lines_append [OF nz, of "contents q"]
    have eq: "buf @ contents (inq w fd) = (buf @ s) @ contents q" using s(4) by simp
    have sl: "short_lines (last_part (buf @ s) @ contents q)"
      using less.prems(5) la unfolding eq by (simp add: short_lines_def)
    have nz2: "CHR 0x00 \<notin> set (last_part (buf @ s) @ contents q)"
      using less.prems(3) lp unfolding eq by (metis Un_iff set_append)
    from less.hyps [of w1 "last_part (buf @ s)"] s(3,5) i1 less.prems(1) lp sl nz2 obtain w' where
      w': "grep_loop pat fd (last_part (buf @ s)) w1 = (Val (), w')"
        "emitted 1 w' = emitted 1 w1 @ matching pat (last_part (buf @ s) @ contents q)" by auto
    have "grep_loop pat fd buf w = (Val (), w')"
      using s(1,2) w1(1) w'(1) by (simp add: grep_loop.simps [of pat fd buf w])
    moreover have "emitted 1 w1 = emitted 1 w @ matching pat (buf @ s)"
      using emits_emitted [OF w1(2), of 1] by simp
    ultimately show ?thesis using w'(2) la unfolding eq by simp
  qed
qed

section \<open>Properties\<close>

text \<open>C33: the recursive matcher decides the language of the pattern.  A pattern is a sequence of
  characters, of which \<^verbatim>\<open>.\<close> fits any, possibly starred; \<^verbatim>\<open>^\<close> in front ties it to the start of the text
  and \<^verbatim>\<open>$\<close> at the end to its end; otherwise any part of the text may match.\<close>

theorem match_decides_language:
  "match re tx \<longleftrightarrow>
     (if re \<noteq> [] \<and> hd re = CHR ''^''
      then \<exists>u v. tx = u @ v \<and> u \<in> lang (fst (parse (tl re))) \<and> (snd (parse (tl re)) \<longrightarrow> v = [])
      else \<exists>w u v. tx = w @ u @ v \<and> u \<in> lang (fst (parse re)) \<and> (snd (parse re) \<longrightarrow> v = []))"
proof (cases "re \<noteq> [] \<and> hd re = CHR ''^''")
  case True
  then obtain re' where "re = CHR ''^'' # re'" by (cases re) auto
  then show ?thesis by (simp add: match_def match_hits(1) hits_def)
next
  case False
  then have "match re tx = match_any re tx" by (auto simp: match_def split: list.splits)
  also have "\<dots> \<longleftrightarrow> (\<exists>w u v. tx = w @ u @ v \<and> u \<in> lang (fst (parse re)) \<and> (snd (parse re) \<longrightarrow> v = []))"
    by (auto simp: match_any_iff match_hits(1) hits_def)
  finally show ?thesis using False by (simp only: if_False)
qed

theorem match_decides_language_witness: "match ''b.'' ''abcd''"
proof -
  have "''abcd'' = ''a'' @ ''bc'' @ ''d'' \<and> ''bc'' \<in> lang (fst (parse ''b.'')) \<and> (snd (parse ''b.'') \<longrightarrow> ''d'' = [])"
    by (simp add: fits_def)
  then have "\<exists>w u v. ''abcd'' = w @ u @ v \<and> u \<in> lang (fst (parse ''b.'')) \<and> (snd (parse ''b.'') \<longrightarrow> v = [])"
    by blast
  then show ?thesis using match_decides_language [of "''b.''" "''abcd''"] by simp
qed

text \<open>C34: however the reads cut the input into pieces, \<^verbatim>\<open>grep\<close> writes exactly the complete lines that
  match, each with its newline, in order.  Lines must fit the buffer: at most 1022 characters.\<close>

theorem grep_prints_matching_lines:
  assumes "\<not> wfail w 1" "clean (inq w fd)" "CHR 0x00 \<notin> set (contents (inq w fd))"
    "short_lines (contents (inq w fd))"
  shows "\<exists>w'. grep pat fd w = (Val (), w') \<and> emitted 1 w' = emitted 1 w
    @ concat (map (\<lambda>l. l @ [CHR 0x0A]) (filter (match pat) (complete_lines (contents (inq w fd)))))"
  using grep_loop_eq [of w fd "[]" pat] assms by (simp add: grep_def)

theorem grep_prints_matching_lines_witness:
  "\<exists>w'. grep ''a*$'' 0 (quiet_world\<lparr>inq := (\<lambda>_. [Data ''xa'', Data [CHR 0x0A]])\<rparr>) = (Val (), w')
    \<and> emitted 1 w' = ''xa'' @ [CHR 0x0A]"
proof -
  let ?w = "quiet_world\<lparr>inq := (\<lambda>_. [Data ''xa'', Data [CHR 0x0A]])\<rparr>"
  have c: "complete_lines (''xa'' @ [CHR 0x0A]) = [''xa'']" "last_part (''xa'' @ [CHR 0x0A]) = []"
    by (simp_all add: complete_lines.simps last_part.simps)
  have "match ''a*$'' ''xa''"
    by (simp add: match_def matchhere.simps matchstar.simps)
  then show ?thesis
    using grep_prints_matching_lines [of ?w 0 "''a*$''"] c
    by (simp add: quiet_world_def clean_def emitted_def short_lines_def)
qed



end
