(* ===== verification/Uprogs.thy ===== *)
theory Uprogs
  imports Uprintf
begin

text \<open>
  The small user programs: \<^verbatim>\<open>cat\<close>, \<^verbatim>\<open>wc\<close>, \<^verbatim>\<open>echo\<close>, \<^verbatim>\<open>kill\<close>, \<^verbatim>\<open>ln\<close>, \<^verbatim>\<open>mkdir\<close> and \<^verbatim>\<open>rm\<close>, and the name formatting of
  \<^verbatim>\<open>ls\<close>.  A \<^verbatim>\<open>main\<close> takes the arguments after \<^verbatim>\<open>argv[0]\<close>; a system call that only one program makes
  is an argument of its \<^verbatim>\<open>main\<close>.
\<close>

section \<open>user/cat.c\<close>

lemma read_write_weight:
  assumes "(Val (n, s), w1) = read_u fd k w" "0 < n" "(Val m, w2) = write_u fd' s' w1"
  shows "weight (inq w2 fd) < weight (inq w fd)"
  using read_u_weight [OF assms(1) [symmetric] assms(2)] assms(3) by (auto simp: write_u_def split: if_splits)

function cat :: "int \<Rightarrow> unit um" where
  "cat fd w =
     (case read_u fd 512 w of
        (Val (n, s), w1) \<Rightarrow>
          if n > 0
          then (case write_u 1 s w1 of
                  (Val m, w2) \<Rightarrow>
                    if m \<noteq> n then useq (fprintf_u 2 ''cat: write error\<newline>'' []) (uexit 1) w2
                    else cat fd w2
                | (Exited c, w2) \<Rightarrow> (Exited c, w2)
                | (Undef, w2) \<Rightarrow> (Undef, w2))
          else if n < 0 then useq (fprintf_u 2 ''cat: read error\<newline>'' []) (uexit 1) w1
          else (Val (), w1)
      | (Exited c, w1) \<Rightarrow> (Exited c, w1)
      | (Undef, w1) \<Rightarrow> (Undef, w1))"
  by pat_completeness auto
termination
  by (relation "measure (\<lambda>(fd, w). weight (inq w fd))") (auto intro: read_write_weight)

declare cat.simps [simp del]

primrec cat_files :: "string list \<Rightarrow> unit um" where
  "cat_files [] = uexit 0"
| "cat_files (f # fs) =
     ubind (open_u f) (\<lambda>fd.
     if fd < 0 then useq (fprintf_u 2 ''cat: cannot open %s\<newline>'' [Str (Some f)]) (uexit 1)
     else useq (cat fd) (useq (close_u fd) (cat_files fs)))"

definition cat_main :: "string list \<Rightarrow> unit um" where
  "cat_main args = (if args = [] then useq (cat 0) (uexit 0) else cat_files args)"

section \<open>user/wc.c\<close>

record wcount =
  wc_l :: uint32
  wc_w :: uint32
  wc_c :: uint32
  wc_inword :: bool

definition wc_sep :: "char \<Rightarrow> bool" where
  "wc_sep c \<longleftrightarrow> c \<in> set [CHR '' '', CHR 0x0D, CHR 0x09, CHR 0x0A, CHR 0x0B]"

text \<open>The body of the loop over the buffer.\<close>

definition wc_char :: "char \<Rightarrow> wcount \<Rightarrow> wcount" where
  "wc_char c k =
     (let k1 = k\<lparr>wc_c := wc_c k + 1\<rparr>;
          k2 = (if c = CHR 0x0A then k1\<lparr>wc_l := wc_l k1 + 1\<rparr> else k1)
      in if wc_sep c then k2\<lparr>wc_inword := False\<rparr>
         else if \<not> wc_inword k2 then k2\<lparr>wc_w := wc_w k2 + 1, wc_inword := True\<rparr>
         else k2)"

lemma read_weight_sym:
  "(Val (n, s), w1) = read_u fd k w \<Longrightarrow> 0 < n \<Longrightarrow> weight (inq w1 fd) < weight (inq w fd)"
  using read_u_weight [of fd k w n s w1] by simp

function wc_loop :: "int \<Rightarrow> wcount \<Rightarrow> (int \<times> wcount) um" where
  "wc_loop fd k w =
     (case read_u fd 512 w of
        (Val (n, s), w1) \<Rightarrow> if n > 0 then wc_loop fd (fold wc_char s k) w1 else (Val (n, k), w1)
      | (Exited c, w1) \<Rightarrow> (Exited c, w1)
      | (Undef, w1) \<Rightarrow> (Undef, w1))"
  by pat_completeness auto
termination
  by (relation "measure (\<lambda>(fd, k, w). weight (inq w fd))") (auto intro: read_weight_sym)

declare wc_loop.simps [simp del]

definition wc0 :: wcount where
  "wc0 = \<lparr>wc_l = 0, wc_w = 0, wc_c = 0, wc_inword = False\<rparr>"

definition wc :: "int \<Rightarrow> string \<Rightarrow> unit um" where
  "wc fd name =
     ubind (wc_loop fd wc0) (\<lambda>(n, k).
     if n < 0 then useq (printf_u ''wc: read error\<newline>'' []) (uexit 1)
     else printf_u ''%d %d %d %s\<newline>'' [Num (scast (wc_l k)), Num (scast (wc_w k)), Num (scast (wc_c k)), Str (Some name)])"

primrec wc_files :: "string list \<Rightarrow> unit um" where
  "wc_files [] = uexit 0"
| "wc_files (f # fs) =
     ubind (open_u f) (\<lambda>fd.
     if fd < 0 then useq (printf_u ''wc: cannot open %s\<newline>'' [Str (Some f)]) (uexit 1)
     else useq (wc fd f) (useq (close_u fd) (wc_files fs)))"

definition wc_main :: "string list \<Rightarrow> unit um" where
  "wc_main args = (if args = [] then useq (wc 0 []) (uexit 0) else wc_files args)"

section \<open>Programs without input\<close>

fun echo_loop :: "string list \<Rightarrow> unit um" where
  "echo_loop [] = uret ()"
| "echo_loop (a # as) =
     useq (write_u 1 a) (useq (write_u 1 (if as \<noteq> [] then '' '' else ''\<newline>'')) (echo_loop as))"

definition echo_main :: "string list \<Rightarrow> unit um" where
  "echo_main args = useq (echo_loop args) (uexit 0)"

primrec kill_each :: "(uint32 \<Rightarrow> int um) \<Rightarrow> (string \<Rightarrow> uint32) \<Rightarrow> string list \<Rightarrow> unit um" where
  "kill_each kill at [] = uret ()"
| "kill_each kill at (a # as) = useq (kill (at a)) (kill_each kill at as)"

definition kill_main :: "(uint32 \<Rightarrow> int um) \<Rightarrow> (string \<Rightarrow> uint32) \<Rightarrow> string list \<Rightarrow> unit um" where
  "kill_main kill at args =
     (if args = [] then useq (fprintf_u 2 ''usage: kill pid...\<newline>'' []) (uexit 1)
      else useq (kill_each kill at args) (uexit 0))"

definition ln_main :: "(string \<Rightarrow> string \<Rightarrow> int um) \<Rightarrow> string list \<Rightarrow> unit um" where
  "ln_main link args =
     (case args of
        [old, new] \<Rightarrow>
          ubind (link old new) (\<lambda>r.
          useq (if r < 0 then fprintf_u 2 ''link %s %s: failed\<newline>'' [Str (Some old), Str (Some new)] else uret ())
               (uexit 0))
      | _ \<Rightarrow> useq (fprintf_u 2 ''Usage: ln old new\<newline>'' []) (uexit 1))"

text \<open>The loops of \<^verbatim>\<open>mkdir\<close> and \<^verbatim>\<open>rm\<close> stop at the first failure.\<close>

primrec each_until :: "string \<Rightarrow> (string \<Rightarrow> int um) \<Rightarrow> string list \<Rightarrow> unit um" where
  "each_until msg f [] = uret ()"
| "each_until msg f (a # as) =
     ubind (f a) (\<lambda>r. if r < 0 then fprintf_u 2 msg [Str (Some a)] else each_until msg f as)"

definition mkdir_main :: "(string \<Rightarrow> int um) \<Rightarrow> string list \<Rightarrow> unit um" where
  "mkdir_main mkdir args =
     (if args = [] then useq (fprintf_u 2 ''Usage: mkdir files...\<newline>'' []) (uexit 1)
      else useq (each_until ''mkdir: %s failed to create\<newline>'' mkdir args) (uexit 0))"

definition rm_main :: "(string \<Rightarrow> int um) \<Rightarrow> string list \<Rightarrow> unit um" where
  "rm_main unlink args =
     (if args = [] then useq (fprintf_u 2 ''Usage: rm files...\<newline>'' []) (uexit 1)
      else useq (each_until ''rm: %s failed to delete\<newline>'' unlink args) (uexit 0))"

section \<open>user/ls.c: fmtname\<close>

text \<open>The name after the last slash, padded to \<^verbatim>\<open>DIRSIZ\<close> characters.  The buffer is static and its last
  byte is never written, so the padded name is terminated.\<close>

definition fmtname :: "string \<Rightarrow> string" where
  "fmtname path =
     (let p = rev (takeWhile (\<lambda>c. c \<noteq> CHR ''/'') (rev path))
      in if length p \<ge> 14 then p else p @ replicate (14 - length p) CHR '' '')"

section \<open>Properties\<close>

text \<open>\<^verbatim>\<open>cat\<close> copies its input to standard output, however the reads cut it into pieces.\<close>

theorem cat_copies_input:
  assumes "\<not> wfail w 1" "clean (inq w fd)"
  shows "\<exists>w'. cat fd w = (Val (), w') \<and> emitted 1 w' = emitted 1 w @ contents (inq w fd) \<and> inq w' fd = []"
  using assms
proof (induction "weight (inq w fd)" arbitrary: w rule: less_induct)
  case less
  show ?case
  proof (cases "inq w fd = []")
    case True
    then show ?thesis by (simp add: cat.simps [of fd w] read_u_def)
  next
    case False
    from read_u_clean [OF less.prems(2) False, of 512] obtain s q where
      s: "read_u fd 512 w = (Val (int (length s), s), w\<lparr>inq := (inq w)(fd := q)\<rparr>)" "s \<noteq> []"
        "clean q" "contents (inq w fd) = s @ contents q" "weight q < weight (inq w fd)" by auto
    let ?w = "w\<lparr>inq := (inq w)(fd := q), trace := trace w @ [(1, s)]\<rparr>"
    have "cat fd w = cat fd ?w"
      using s(1,2) less.prems(1) by (simp add: cat.simps [of fd w] write_u_def)
    moreover have "emitted 1 ?w = emitted 1 w @ s" by (simp add: emitted_def)
    ultimately show ?thesis using less.hyps [of ?w] s(3-5) less.prems(1) by simp
  qed
qed

theorem cat_copies_input_witness:
  "\<exists>w'. cat 0 (quiet_world\<lparr>inq := (\<lambda>_. [Data ''ab'', Data ''c''])\<rparr>) = (Val (), w') \<and> emitted 1 w' = ''abc''"
  using cat_copies_input [of "quiet_world\<lparr>inq := (\<lambda>_. [Data ''ab'', Data ''c''])\<rparr>" 0]
  by (auto simp: quiet_world_def clean_def emitted_def)

text \<open>The number of words of a text: the characters that start one.\<close>

fun word_starts :: "bool \<Rightarrow> string \<Rightarrow> nat" where
  "word_starts inword [] = 0"
| "word_starts inword (c # s) =
     (if wc_sep c then word_starts False s else (if inword then 0 else 1) + word_starts True s)"

lemma wc_fold:
  "\<exists>b. fold wc_char s k =
     \<lparr>wc_l = wc_l k + of_nat (count_list s CHR 0x0A), wc_w = wc_w k + of_nat (word_starts (wc_inword k) s),
      wc_c = wc_c k + of_nat (length s), wc_inword = b\<rparr>
   \<and> (\<forall>t. word_starts (wc_inword k) (s @ t) = word_starts (wc_inword k) s + word_starts b t)"
proof (induction s arbitrary: k)
  case Nil
  then show ?case by (cases k) auto
next
  case (Cons c s)
  have nl: "c = CHR 0x0A \<Longrightarrow> wc_sep c" by (simp add: wc_sep_def)
  from Cons.IH [of "wc_char c k"] show ?case
    using nl by (auto simp: wc_char_def Let_def algebra_simps split: if_splits)
qed

text \<open>C38: \<^verbatim>\<open>wc\<close> counts newlines, words and characters of the whole input, whatever the sizes of the
  reads: a word that continues into the next buffer is counted once.\<close>

theorem wc_counts_input:
  assumes "clean (inq w fd)"
  shows "\<exists>k w'. wc_loop fd wc0 w = (Val (0, k), w')
    \<and> wc_l k = of_nat (count_list (contents (inq w fd)) CHR 0x0A)
    \<and> wc_w k = of_nat (word_starts False (contents (inq w fd)))
    \<and> wc_c k = of_nat (length (contents (inq w fd)))"
proof -
  have "\<exists>k' w'. wc_loop fd k w = (Val (0, k'), w') \<and> k' = fold wc_char (contents (inq w fd)) k"
    if "clean (inq w fd)" for k w
    using that
  proof (induction "weight (inq w fd)" arbitrary: w k rule: less_induct)
    case less
    show ?case
    proof (cases "inq w fd = []")
      case True
      then show ?thesis by (simp add: wc_loop.simps [of fd k w] read_u_def)
    next
      case False
      from read_u_clean [OF less.prems False, of 512] obtain s q where
        s: "read_u fd 512 w = (Val (int (length s), s), w\<lparr>inq := (inq w)(fd := q)\<rparr>)" "s \<noteq> []"
          "clean q" "contents (inq w fd) = s @ contents q" "weight q < weight (inq w fd)" by auto
      have "wc_loop fd k w = wc_loop fd (fold wc_char s k) (w\<lparr>inq := (inq w)(fd := q)\<rparr>)"
        using s(1,2) by (simp add: wc_loop.simps [of fd k w])
      then show ?thesis
        using less.hyps [of "w\<lparr>inq := (inq w)(fd := q)\<rparr>" "fold wc_char s k"] s(3-5) by simp
    qed
  qed
  from this [OF assms, of wc0] wc_fold [of "contents (inq w fd)" wc0] show ?thesis
    by (auto simp: wc0_def)
qed

theorem wc_counts_input_witness:
  "\<exists>k w'. wc_loop 0 wc0 (quiet_world\<lparr>inq := (\<lambda>_. [Data ''a b'', Data ''c''])\<rparr>) = (Val (0, k), w')
    \<and> wc_w k = 2 \<and> wc_c k = 4"
  using wc_counts_input [of "quiet_world\<lparr>inq := (\<lambda>_. [Data ''a b'', Data ''c''])\<rparr>" 0]
  by (auto simp: clean_def wc_sep_def)

end
