(* ===== verification/Sh.thy ===== *)
theory Sh
  imports Uenv
begin

text \<open>
  The shell, \<^verbatim>\<open>user/sh.c\<close>: the parser of command lines and the interpreter of parsed commands.  The
  command buffer is a list of characters followed by a NUL, a pointer into it is a position; a
  parsed command refers to its words by their first position and the position after their end,
  as the C structures do.  Running out of heap is not modelled: the C code would follow a null
  pointer.
\<close>

section \<open>Parsed commands\<close>

datatype cmd =
    Execcmd "(nat \<times> nat) list"
  | Redircmd cmd nat nat int int
  | Pipecmd cmd cmd
  | Listcmd cmd cmd
  | Backcmd cmd

definition execcmd :: cmd where
  "execcmd = Execcmd []"

definition redircmd :: "cmd \<Rightarrow> nat \<Rightarrow> nat \<Rightarrow> int \<Rightarrow> int \<Rightarrow> cmd" where
  "redircmd subcmd file efile mode fd = Redircmd subcmd file efile mode fd"

definition pipecmd :: "cmd \<Rightarrow> cmd \<Rightarrow> cmd" where
  "pipecmd left right = Pipecmd left right"

definition listcmd :: "cmd \<Rightarrow> cmd \<Rightarrow> cmd" where
  "listcmd left right = Listcmd left right"

definition backcmd :: "cmd \<Rightarrow> cmd" where
  "backcmd subcmd = Backcmd subcmd"

text \<open>\<^verbatim>\<open>cmd->argv[argc] = q; cmd->eargv[argc] = eq\<close>: the \<^verbatim>\<open>execcmd\<close> lies inside the redirections that were
  wrapped around it.\<close>

fun add_arg :: "nat \<times> nat \<Rightarrow> cmd \<Rightarrow> cmd" where
  "add_arg a (Execcmd args) = Execcmd (args @ [a])"
| "add_arg a (Redircmd c f e m fd) = Redircmd (add_arg a c) f e m fd"
| "add_arg a c = c"

section \<open>Tokens\<close>

definition whitespace :: string where
  "whitespace = [CHR '' '', CHR 0x09, CHR 0x0D, CHR 0x0A, CHR 0x0B]"

definition symbols :: string where
  "symbols = ''<|>&;()''"

definition at :: "string \<Rightarrow> nat \<Rightarrow> char" where
  "at b s = (if s < length b then b ! s else CHR 0x00)"

function skip_ws :: "string \<Rightarrow> nat \<Rightarrow> nat" where
  "skip_ws b s = (if s < length b \<and> b ! s \<in> set whitespace then skip_ws b (Suc s) else s)"
  by pat_completeness auto
termination by (relation "measure (\<lambda>(b, s). length b - s)") auto

function skip_word :: "string \<Rightarrow> nat \<Rightarrow> nat" where
  "skip_word b s =
     (if s < length b \<and> b ! s \<notin> set whitespace \<and> b ! s \<notin> set symbols then skip_word b (Suc s) else s)"
  by pat_completeness auto
termination by (relation "measure (\<lambda>(b, s). length b - s)") auto

declare skip_ws.simps [simp del] skip_word.simps [simp del]

text \<open>The token, its first position, the position after it, and the new input position.\<close>

definition gettoken :: "string \<Rightarrow> nat \<Rightarrow> char \<times> nat \<times> nat \<times> nat" where
  "gettoken b ps =
     (let q = skip_ws b ps;
          c = at b q;
          (ret, eq) =
            (if c = CHR 0x00 then (c, q)
             else if c \<in> {CHR ''|'', CHR ''('', CHR '')'', CHR '';'', CHR ''&'', CHR ''<''} then (c, Suc q)
             else if c = CHR ''>'' then
               (if at b (Suc q) = CHR ''>'' then (CHR ''+'', Suc (Suc q)) else (c, Suc q))
             else (CHR ''a'', skip_word b q))
      in (ret, q, eq, skip_ws b eq))"

definition peek :: "string \<Rightarrow> nat \<Rightarrow> string \<Rightarrow> nat \<times> bool" where
  "peek b ps toks = (let s = skip_ws b ps in (s, at b s \<noteq> CHR 0x00 \<and> at b s \<in> set toks))"

lemma skip_ws_bounds: "s \<le> skip_ws b s" "s \<le> length b \<Longrightarrow> skip_ws b s \<le> length b"
proof -
  show "s \<le> skip_ws b s"
    by (induction b s rule: skip_ws.induct) (subst skip_ws.simps, auto intro: Suc_leD)
  show "s \<le> length b \<Longrightarrow> skip_ws b s \<le> length b"
    by (induction b s rule: skip_ws.induct) (subst skip_ws.simps, auto)
qed

lemma skip_word_bounds: "s \<le> skip_word b s" "s \<le> length b \<Longrightarrow> skip_word b s \<le> length b"
proof -
  show "s \<le> skip_word b s"
    by (induction b s rule: skip_word.induct) (subst skip_word.simps, auto intro: Suc_leD)
  show "s \<le> length b \<Longrightarrow> skip_word b s \<le> length b"
    by (induction b s rule: skip_word.induct) (subst skip_word.simps, auto)
qed

lemma skip_ws_stops: "skip_ws b s < length b \<Longrightarrow> b ! skip_ws b s \<notin> set whitespace"
  by (induction b s rule: skip_ws.induct) (metis skip_ws.simps)

lemma skip_word_stops:
  "skip_word b s < length b \<Longrightarrow> b ! skip_word b s \<in> set whitespace \<or> b ! skip_word b s \<in> set symbols"
  by (induction b s rule: skip_word.induct) (metis skip_word.simps)

lemma skip_word_chars:
  "s \<le> i \<Longrightarrow> i < skip_word b s \<Longrightarrow> i < length b \<and> b ! i \<notin> set whitespace \<and> b ! i \<notin> set symbols"
proof (induction b s rule: skip_word.induct)
  case (1 b s)
  show ?case
  proof (cases "s < length b \<and> b ! s \<notin> set whitespace \<and> b ! s \<notin> set symbols")
    case True
    then have "i < skip_word b (Suc s)" using "1.prems"(2) skip_word.simps [of b s] by simp
    then show ?thesis using "1.IH" True "1.prems"(1) by (cases "i = s") auto
  next
    case False
    then have "skip_word b s = s" by (subst skip_word.simps) auto
    then show ?thesis using "1.prems" by simp
  qed
qed

section \<open>The parser\<close>

datatype sherr = Shpanic string | Leftovers nat | Nofuel

type_synonym parsed = "sherr + cmd \<times> nat"

text \<open>\<^verbatim>\<open>O_RDONLY\<close>, \<^verbatim>\<open>O_WRONLY | O_CREATE | O_TRUNC\<close> and \<^verbatim>\<open>O_WRONLY | O_CREATE\<close> of \<^verbatim>\<open>kernel/fcntl.h\<close>.\<close>

definition redir_mode :: "char \<Rightarrow> int" where
  "redir_mode tok = (if tok = CHR ''<'' then 0 else if tok = CHR ''>'' then 0x601 else 0x201)"

lemma gettoken_forward:
  assumes "gettoken b ps = (ret, q, eq, ps')"
  shows "ps \<le> ps'" "ret \<noteq> CHR 0x00 \<Longrightarrow> ps < length b \<and> ps < ps'" "ps \<le> length b \<Longrightarrow> ps' \<le> length b"
proof -
  let ?q = "skip_ws b ps"
  note sb = skip_ws_bounds [of ps b] and wb = skip_word_bounds [of ?q b]
  have ps': "ps' = skip_ws b eq" and ne: "ret \<noteq> CHR 0x00 \<Longrightarrow> ?q < length b"
    using assms by (auto simp: gettoken_def Let_def at_def split: prod.splits if_splits)
  have le: "?q \<le> eq" "?q \<le> length b \<Longrightarrow> eq \<le> length b"
    using assms wb by (auto simp: gettoken_def Let_def at_def split: prod.splits if_splits)
  have lt: "?q < eq" if "ret \<noteq> CHR 0x00"
  proof -
    have "?q < length b" using ne that by simp
    then have "b ! ?q \<notin> set whitespace" by (rule skip_ws_stops)
    then have "?q < skip_word b ?q \<or> b ! ?q \<in> set symbols"
      using skip_word.simps [of b ?q] skip_word_bounds(1) [of "Suc ?q" b] \<open>?q < length b\<close> by auto
    then show ?thesis using assms that \<open>?q < length b\<close>
      by (auto simp: gettoken_def Let_def at_def symbols_def split: prod.splits if_splits)
  qed
  note eb = skip_ws_bounds [of eq b]
  show "ps \<le> ps'" using le(1) sb(1) eb(1) ps' by simp
  show "ret \<noteq> CHR 0x00 \<Longrightarrow> ps < length b \<and> ps < ps'" using ne lt sb(1) eb(1) ps' by fastforce
  show "ps \<le> length b \<Longrightarrow> ps' \<le> length b" using le(2) sb(2) eb(2) ps' by simp
qed

lemma skip_ws_idem [simp]: "skip_ws b (skip_ws b s) = skip_ws b s"
  by (subst skip_ws.simps) (use skip_ws_stops [of b s] in auto)

text \<open>Where \<^verbatim>\<open>peek\<close> sees a symbol, \<^verbatim>\<open>gettoken\<close> consumes it.\<close>

lemma peek_gettoken:
  assumes "peek b ps toks = (s, True)" "set toks \<subseteq> set symbols" "gettoken b s = (tok, q, eq, s1)"
  shows "s = skip_ws b ps" "tok \<noteq> CHR ''a''" "tok \<noteq> CHR 0x00" "ps \<le> s" "s < length b" "s < s1"
proof -
  show s: "s = skip_ws b ps" using assms(1) by (auto simp: peek_def Let_def)
  have c: "at b s \<noteq> CHR 0x00" "at b s \<in> set symbols" "skip_ws b s = s"
    using assms(1,2) s by (auto simp: peek_def Let_def)
  then show a: "tok \<noteq> CHR ''a''" and n: "tok \<noteq> CHR 0x00"
    using assms(3) by (auto simp: gettoken_def Let_def symbols_def split: if_splits)
  show "ps \<le> s" using s skip_ws_bounds(1) by simp
  show "s < length b" "s < s1" using gettoken_forward(2) [OF assms(3) n] by auto
qed

function parseredirs :: "string \<Rightarrow> cmd \<Rightarrow> nat \<Rightarrow> parsed" where
  "parseredirs b cmd ps =
     (let (s, more) = peek b ps ''<>'' in
      if \<not> more then Inr (cmd, s)
      else let (tok, _, _, s1) = gettoken b s; (tok', q, eq, s2) = gettoken b s1 in
        if tok' \<noteq> CHR ''a'' then Inl (Shpanic ''missing file for redirection'')
        else parseredirs b (redircmd cmd q eq (redir_mode tok) (if tok = CHR ''<'' then 0 else 1)) s2)"
  by pat_completeness auto
termination
proof (relation "measure (\<lambda>(b, cmd, ps). length b - ps)", simp, clarsimp split: prod.splits)
  fix b :: string and ps s tok q0 eq0 s1 q eq s2
  assume "(s, True) = peek b ps ''<>''" "(tok, q0, eq0, s1) = gettoken b s" "(CHR ''a'', q, eq, s2) = gettoken b s1"
  then have "ps \<le> s" "s \<le> s1" "s1 < length b" "s1 < s2"
    using skip_ws_bounds(1) [of ps b] gettoken_forward(1) [of b s tok] gettoken_forward(2) [of b s1 "CHR ''a''" q eq s2]
    by (auto simp: peek_def Let_def dest: sym)
  then show "length b - s2 < length b - ps" by linarith
qed

declare parseredirs.simps [simp del]

definition MAXARGS :: nat where
  "MAXARGS = 10"

text \<open>Induction over the turns of a loop that succeeds.\<close>

lemma parseredirs_induct [consumes 1, case_names stop step]:
  assumes "parseredirs b cmd ps = Inr (c, s')"
    and "\<And>cmd ps. P cmd ps cmd (skip_ws b ps)"
    and "\<And>cmd ps c s' tok q0 eq0 s1 q eq s2.
      gettoken b (skip_ws b ps) = (tok, q0, eq0, s1) \<Longrightarrow> tok \<noteq> CHR ''a'' \<Longrightarrow> gettoken b s1 = (CHR ''a'', q, eq, s2) \<Longrightarrow>
      P (redircmd cmd q eq (redir_mode tok) (if tok = CHR ''<'' then 0 else 1)) s2 c s' \<Longrightarrow> P cmd ps c s'"
  shows "P cmd ps c s'"
  using assms(1)
proof (induction "length b - ps" arbitrary: cmd ps rule: less_induct)
  case less
  obtain tok q0 eq0 s1 where g1: "gettoken b (skip_ws b ps) = (tok, q0, eq0, s1)" by (metis prod_cases4)
  obtain tok' q eq s2 where g2: "gettoken b s1 = (tok', q, eq, s2)" by (metis prod_cases4)
  show ?case
  proof (cases "snd (peek b ps ''<>'')")
    case False
    then show ?thesis using less.prems assms(2) by (subst (asm) parseredirs.simps) (auto simp: peek_def Let_def)
  next
    case True
    then have "peek b ps ''<>'' = (skip_ws b ps, True)" by (simp add: peek_def Let_def)
    from peek_gettoken(2) [OF this _ g1] have tok: "tok \<noteq> CHR ''a''" by (simp add: symbols_def)
    have a: "tok' = CHR ''a''" and
      rest: "parseredirs b (redircmd cmd q eq (redir_mode tok) (if tok = CHR ''<'' then 0 else 1)) s2 = Inr (c, s')"
      using less.prems True g1 g2 by (subst (asm) parseredirs.simps, auto simp: peek_def Let_def split: if_splits)+
    have "s1 < length b" "s1 < s2" "ps \<le> s1"
      using gettoken_forward(2) [OF g2] gettoken_forward(1) [OF g1] skip_ws_bounds(1) [of ps b] a by simp_all
    then have "length b - s2 < length b - ps" by linarith
    then show ?thesis using assms(3) g1 tok g2 a less.hyps rest by blast
  qed
qed

lemma parseredirs_forward: "parseredirs b cmd ps = Inr (c, s') \<Longrightarrow> ps \<le> s'"
proof (induction rule: parseredirs_induct)
  case (stop cmd ps)
  show ?case by (rule skip_ws_bounds)
next
  case (step cmd ps c s' tok q0 eq0 s1 q eq s2)
  then show ?case using gettoken_forward(1) [OF step(1)] gettoken_forward(1) [OF step(3)] skip_ws_bounds(1) [of ps b] by simp
qed

text \<open>The loop of \<^verbatim>\<open>parseexec\<close> over the words; \<^verbatim>\<open>argc\<close> is their number so far.\<close>

function parseargs :: "string \<Rightarrow> nat \<Rightarrow> cmd \<Rightarrow> nat \<Rightarrow> parsed" where
  "parseargs b argc ret ps =
     (let (s, done) = peek b ps ''|)&;'' in
      if done then Inr (ret, s)
      else let (tok, q, eq, s1) = gettoken b s in
        if tok = CHR 0x00 then Inr (ret, s1)
        else if tok \<noteq> CHR ''a'' then Inl (Shpanic ''syntax'')
        else if Suc argc \<ge> MAXARGS then Inl (Shpanic ''too many args'')
        else case parseredirs b (add_arg (q, eq) ret) s1 of
               Inl e \<Rightarrow> Inl e
             | Inr (ret', s2) \<Rightarrow> parseargs b (Suc argc) ret' s2)"
  by pat_completeness auto
termination
  by (relation "measure (\<lambda>(b, argc, ret, ps). MAXARGS - argc)") auto

declare parseargs.simps [simp del]

function parseback :: "string \<Rightarrow> cmd \<Rightarrow> nat \<Rightarrow> cmd \<times> nat" where
  "parseback b cmd ps =
     (let (s, more) = peek b ps ''&'' in
      if more then let (_, _, _, s1) = gettoken b s in parseback b (backcmd cmd) s1
      else (cmd, s))"
  by pat_completeness auto
termination
proof (relation "measure (\<lambda>(b, cmd, ps). length b - ps)", simp, clarsimp split: prod.splits)
  fix b :: string and ps s tok q eq s1
  assume 1: "(s, True) = peek b ps ''&''" and 2: "(tok, q, eq, s1) = gettoken b s"
  have "s < length b" "ps \<le> s" "s < s1"
    using peek_gettoken [OF 1 [symmetric] _ 2 [symmetric]] by (simp_all add: symbols_def)
  then show "length b - s1 < length b - ps" by linarith
qed

declare parseback.simps [simp del]

text \<open>
  The mutually recursive functions take fuel, one unit a call; \<^verbatim>\<open>parsecmd\<close> gives them enough for
  every line (lemma \<open>parse_enough_fuel\<close>).
\<close>

function (sequential) parseline :: "nat \<Rightarrow> string \<Rightarrow> nat \<Rightarrow> parsed"
  and parsepipe :: "nat \<Rightarrow> string \<Rightarrow> nat \<Rightarrow> parsed"
  and parseblock :: "nat \<Rightarrow> string \<Rightarrow> nat \<Rightarrow> parsed"
  and parseexec :: "nat \<Rightarrow> string \<Rightarrow> nat \<Rightarrow> parsed" where
  "parseline 0 b ps = Inl Nofuel"
| "parseline (Suc n) b ps =
     (case parsepipe n b ps of
        Inl e \<Rightarrow> Inl e
      | Inr (cmd0, s0) \<Rightarrow>
          let (cmd, s1) = parseback b cmd0 s0; (s2, more) = peek b s1 '';'' in
          if more then
            let (_, _, _, s3) = gettoken b s2 in
            case parseline n b s3 of Inl e \<Rightarrow> Inl e | Inr (right, s4) \<Rightarrow> Inr (listcmd cmd right, s4)
          else Inr (cmd, s2))"
| "parsepipe 0 b ps = Inl Nofuel"
| "parsepipe (Suc n) b ps =
     (case parseexec n b ps of
        Inl e \<Rightarrow> Inl e
      | Inr (cmd, s0) \<Rightarrow>
          let (s1, more) = peek b s0 ''|'' in
          if more then
            let (_, _, _, s2) = gettoken b s1 in
            case parsepipe n b s2 of Inl e \<Rightarrow> Inl e | Inr (right, s3) \<Rightarrow> Inr (pipecmd cmd right, s3)
          else Inr (cmd, s1))"
| "parseblock 0 b ps = Inl Nofuel"
| "parseblock (Suc n) b ps =
     (let (s0, open) = peek b ps ''('' in
      if \<not> open then Inl (Shpanic ''parseblock'')
      else let (_, _, _, s1) = gettoken b s0 in
        case parseline n b s1 of
          Inl e \<Rightarrow> Inl e
        | Inr (cmd, s2) \<Rightarrow>
            let (s3, close) = peek b s2 '')'' in
            if \<not> close then Inl (Shpanic ''syntax - missing )'')
            else let (_, _, _, s4) = gettoken b s3 in parseredirs b cmd s4)"
| "parseexec 0 b ps = Inl Nofuel"
| "parseexec (Suc n) b ps =
     (let (s0, open) = peek b ps ''('' in
      if open then parseblock n b s0
      else case parseredirs b execcmd s0 of
             Inl e \<Rightarrow> Inl e
           | Inr (ret, s1) \<Rightarrow> parseargs b 0 ret s1)"
  by pat_completeness auto
termination
  by (relation "measure (\<lambda>x. case x of Inl (Inl (n, _)) \<Rightarrow> n | Inl (Inr (n, _)) \<Rightarrow> n | Inr (Inl (n, _)) \<Rightarrow> n | Inr (Inr (n, _)) \<Rightarrow> n)")
    auto

text \<open>The NUL at the end of the buffer is not part of the list: writing a NUL there changes nothing.\<close>

fun nulterminate :: "cmd \<Rightarrow> string \<Rightarrow> string" where
  "nulterminate (Execcmd args) b = fold (\<lambda>(q, eq) b. b[eq := CHR 0x00]) args b"
| "nulterminate (Redircmd c file efile mode fd) b = (nulterminate c b)[efile := CHR 0x00]"
| "nulterminate (Pipecmd l r) b = nulterminate r (nulterminate l b)"
| "nulterminate (Listcmd l r) b = nulterminate r (nulterminate l b)"
| "nulterminate (Backcmd c) b = nulterminate c b"

definition parsecmd :: "string \<Rightarrow> sherr + cmd \<times> string" where
  "parsecmd b =
     (case parseline (4 * length b + 4) b 0 of
        Inl e \<Rightarrow> Inl e
      | Inr (cmd, s) \<Rightarrow>
          let (s', _) = peek b s [] in
          if s' \<noteq> length b then Inl (Leftovers s') else Inr (cmd, nulterminate cmd b))"

section \<open>The words of a line\<close>

primrec words :: "cmd \<Rightarrow> (nat \<times> nat) set" where
  "words (Execcmd args) = set args"
| "words (Redircmd c file efile mode fd) = insert (file, efile) (words c)"
| "words (Pipecmd l r) = words l \<union> words r"
| "words (Listcmd l r) = words l \<union> words r"
| "words (Backcmd c) = words c"

definition wordchar :: "string \<Rightarrow> nat \<Rightarrow> bool" where
  "wordchar b i \<longleftrightarrow> i < length b \<and> b ! i \<notin> set whitespace \<and> b ! i \<notin> set symbols"

text \<open>A word of a line: a maximal run of word characters.\<close>

definition is_word :: "string \<Rightarrow> nat \<times> nat \<Rightarrow> bool" where
  "is_word b = (\<lambda>(q, e). q < e \<and> (\<forall>i. q \<le> i \<and> i < e \<longrightarrow> wordchar b i) \<and> \<not> wordchar b e \<and>
     (q = 0 \<or> \<not> wordchar b (q - 1)))"

definition words_in :: "string \<Rightarrow> nat \<Rightarrow> nat \<Rightarrow> (nat \<times> nat) set" where
  "words_in b s s' = {w. is_word b w \<and> s \<le> fst w \<and> fst w < s'}"

text \<open>A position that is not inside a word.\<close>

definition between :: "string \<Rightarrow> nat \<Rightarrow> bool" where
  "between b s \<longleftrightarrow> s \<le> length b \<and> (s = 0 \<or> \<not> wordchar b (s - 1) \<or> \<not> wordchar b s)"

lemma words_in_append: "s \<le> s' \<Longrightarrow> s' \<le> s'' \<Longrightarrow> words_in b s s'' = words_in b s s' \<union> words_in b s' s''"
  by (auto simp: words_in_def)

lemma words_in_gap: "(\<And>i. s \<le> i \<Longrightarrow> i < s' \<Longrightarrow> \<not> wordchar b i) \<Longrightarrow> words_in b s s' = {}"
  by (auto simp: words_in_def is_word_def)

lemma skip_ws_chars: "s \<le> i \<Longrightarrow> i < skip_ws b s \<Longrightarrow> \<not> wordchar b i"
proof (induction b s rule: skip_ws.induct)
  case (1 b s)
  show ?case
  proof (cases "s < length b \<and> b ! s \<in> set whitespace")
    case True
    then have "i < skip_ws b (Suc s)" using "1.prems"(2) skip_ws.simps [of b s] by simp
    then show ?thesis using "1.IH" True "1.prems"(1) by (cases "i = s") (auto simp: wordchar_def)
  next
    case False
    then have "skip_ws b s = s" by (subst skip_ws.simps) auto
    then show ?thesis using "1.prems" by simp
  qed
qed

lemma skip_ws_between:
  assumes "between b s" shows "between b (skip_ws b s)" "words_in b s (skip_ws b s) = {}"
proof -
  show "words_in b s (skip_ws b s) = {}" by (rule words_in_gap) (rule skip_ws_chars)
  show "between b (skip_ws b s)"
  proof (cases "skip_ws b s = s")
    case False
    then have "s \<le> skip_ws b s - 1" "skip_ws b s - 1 < skip_ws b s" using skip_ws_bounds(1) [of s b] by auto
    then have "\<not> wordchar b (skip_ws b s - 1)" by (rule skip_ws_chars)
    then show ?thesis using assms skip_ws_bounds(2) [of s b] by (simp add: between_def)
  qed (use assms in simp)
qed

text \<open>A token is a word, or holds none.\<close>

lemma skip_word_is_word:
  assumes "between b q" "wordchar b q"
  shows "is_word b (q, skip_word b q)" "between b (skip_word b q)" "words_in b q (skip_word b q) = {(q, skip_word b q)}"
proof -
  let ?e = "skip_word b q"
  have w: "\<And>i. q \<le> i \<Longrightarrow> i < ?e \<Longrightarrow> wordchar b i"
    using skip_word_chars by (auto simp: wordchar_def)
  have e: "\<not> wordchar b ?e" using skip_word_stops [of b q] by (auto simp: wordchar_def)
  have "q < ?e" using assms(2) skip_word.simps [of b q] skip_word_bounds(1) [of "Suc q" b] by (simp add: wordchar_def)
  then show i: "is_word b (q, ?e)" using w e assms by (auto simp: is_word_def between_def)
  show "between b ?e" using e assms(1) skip_word_bounds(2) [of q b] by (simp add: between_def)
  have uniq: "v = (q, ?e)" if v: "is_word b v" "q \<le> fst v" "fst v < ?e" for v
  proof -
    obtain p e' where [simp]: "v = (p, e')" by (cases v)
    have "p = q"
    proof (rule ccontr)
      assume "p \<noteq> q"
      then have "wordchar b (p - 1)" "p \<noteq> 0" using v w [of "p - 1"] by auto
      then show False using v(1) by (simp add: is_word_def)
    qed
    moreover have "e' = ?e"
    proof (rule linorder_cases [of e' ?e])
      assume "e' < ?e" then have "wordchar b e'" using w [of e'] v(1) \<open>p = q\<close> by (simp add: is_word_def)
      then show ?thesis using v(1) by (simp add: is_word_def)
    next
      assume "?e < e'" then have "wordchar b ?e" using v \<open>p = q\<close> \<open>q < ?e\<close> by (simp add: is_word_def)
      then show ?thesis using e by simp
    qed
    ultimately show ?thesis by simp
  qed
  have "q \<le> fst (q, ?e)" "fst (q, ?e) < ?e" using \<open>q < ?e\<close> by simp_all
  then show "words_in b q ?e = {(q, ?e)}" unfolding words_in_def using i uniq by blast
qed

lemma gettoken_words:
  assumes g: "gettoken b ps = (ret, q, eq, ps')" and b: "between b ps" and nul: "CHR 0x00 \<notin> set b"
  shows "between b ps'" "words_in b ps ps' = (if ret = CHR ''a'' then {(q, eq)} else {})"
proof -
  let ?q = "skip_ws b ps"
  have q: "q = ?q" and ps': "ps' = skip_ws b eq"
    using g by (auto simp: gettoken_def Let_def split: prod.splits if_splits)
  note bq = skip_ws_between [OF b]
  have tok: "between b eq \<and> q \<le> eq \<and> words_in b q eq = (if ret = CHR ''a'' then {(q, eq)} else {})"
  proof (cases "wordchar b q")
    case True
    then have "b ! q \<noteq> CHR 0x00" using nul nth_mem [of q b] unfolding wordchar_def by metis
    then have "ret = CHR ''a''" "eq = skip_word b q"
      using True q g by (auto simp: gettoken_def Let_def at_def wordchar_def symbols_def)
    then show ?thesis using skip_word_is_word [of b q] True bq(1) q skip_word_bounds(1) [of q b] by simp
  next
    case False
    then have "q \<noteq> length b \<Longrightarrow> b ! q \<in> set symbols"
      using skip_ws_stops [of b ps] q bq(1) by (auto simp: wordchar_def between_def)
    then have r: "ret \<noteq> CHR ''a''" "eq = q \<or> eq = Suc q \<or> eq = Suc (Suc q) \<and> at b (Suc q) = CHR ''>''" "eq \<noteq> q \<Longrightarrow> q < length b"
      using q bq(1) g by (auto simp: gettoken_def Let_def at_def between_def symbols_def split: if_splits)
    have nw: "\<not> wordchar b i" if "q \<le> i" "i < eq" for i
      using r(2) that False by (auto simp: wordchar_def at_def symbols_def less_Suc_eq)
    then have "between b eq"
      using r bq(1) q by (cases "eq = q") (auto simp: between_def at_def split: if_splits)
    then show ?thesis using r(1,2) words_in_gap [of q eq b] nw by auto
  qed
  have "between b ps'" "words_in b eq ps' = {}" "eq \<le> ps'" "ps \<le> q"
    using skip_ws_between [of b eq] tok ps' skip_ws_bounds(1) q by auto
  then show "between b ps'" "words_in b ps ps' = (if ret = CHR ''a'' then {(q, eq)} else {})"
    using words_in_append [of ps q ps' b] words_in_append [of q eq ps' b] tok bq(2) q by auto
qed

text \<open>What every function of the parser does with the words: the command has the given ones and those
  between the old and the new position.\<close>

definition parsed_ok :: "string \<Rightarrow> nat \<Rightarrow> (nat \<times> nat) set \<Rightarrow> cmd \<Rightarrow> nat \<Rightarrow> bool" where
  "parsed_ok b s W c s' \<longleftrightarrow> s \<le> s' \<and> between b s' \<and> words c = W \<union> words_in b s s'"

lemma parsed_ok_trans:
  assumes "parsed_ok b s1 W' c s'" "s \<le> s1" "W' = W \<union> words_in b s s1"
  shows "parsed_ok b s W c s'"
  using assms words_in_append [of s s1 s' b] by (auto simp: parsed_ok_def)

lemma parsed_ok_skip:
  assumes "parsed_ok b (skip_ws b s) W c s'" "between b s" shows "parsed_ok b s W c s'"
  using assms skip_ws_bounds(1) [of s b] skip_ws_between(2) [of b s] by (auto intro: parsed_ok_trans)

lemma parsed_ok_stop: "between b s \<Longrightarrow> parsed_ok b s (words c) c (skip_ws b s)"
  using skip_ws_between [of b s] skip_ws_bounds(1) [of s b] by (simp add: parsed_ok_def)

lemma parsed_ok_token:
  assumes "parsed_ok b s1 W' c s'" "gettoken b s = (tok, q, eq, s1)" "between b s" "CHR 0x00 \<notin> set b"
    "W' = (if tok = CHR ''a'' then insert (q, eq) W else W)"
  shows "parsed_ok b s W c s'"
  using assms(1) gettoken_forward(1) [OF assms(2)] gettoken_words [OF assms(2,3,4)] assms(5)
  by (auto intro!: parsed_ok_trans [OF assms(1)] split: if_splits)

fun simple :: "cmd \<Rightarrow> bool" where
  "simple (Execcmd args) = True"
| "simple (Redircmd c f e m fd) = simple c"
| "simple _ = False"

lemma add_arg_words: "simple c \<Longrightarrow> words (add_arg a c) = insert a (words c)" "simple c \<Longrightarrow> simple (add_arg a c)"
  by (induction a c rule: add_arg.induct) auto

lemma parseredirs_ok:
  assumes "parseredirs b cmd ps = Inr (c, s')" "between b ps" "CHR 0x00 \<notin> set b"
  shows "parsed_ok b ps (words cmd) c s' \<and> (simple cmd \<longrightarrow> simple c)"
  using assms
proof (induction rule: parseredirs_induct)
  case (stop cmd ps)
  then show ?case by (simp add: parsed_ok_stop)
next
  case (step cmd ps c s' tok q0 eq0 s1 q eq s2)
  have b0: "between b (skip_ws b ps)" using skip_ws_between(1) step.prems(1) by simp
  have b1: "between b s1" using gettoken_words(1) [OF step.hyps(1) b0 step.prems(2)] .
  have b2: "between b s2" using gettoken_words(1) [OF step.hyps(3) b1 step.prems(2)] .
  note rest = step.IH [OF b2 step.prems(2)]
  have "parsed_ok b s1 (words cmd) c s'"
    using parsed_ok_token [OF conjunct1 [OF rest] step.hyps(3) b1 step.prems(2)] by (simp add: redircmd_def)
  then have "parsed_ok b (skip_ws b ps) (words cmd) c s'"
    using parsed_ok_token [OF _ step.hyps(1) b0 step.prems(2)] step.hyps(2) by simp
  then have "parsed_ok b ps (words cmd) c s'" using step.prems(1) by (rule parsed_ok_skip)
  then show ?case using rest by (simp add: redircmd_def)
qed

lemma parseargs_cases:
  assumes "parseargs b argc ret ps = Inr (c, s')" "gettoken b (skip_ws b ps) = (tok, q, eq, s1)"
  shows "(c = ret \<and> s' = skip_ws b ps) \<or> (tok = CHR 0x00 \<and> c = ret \<and> s' = s1) \<or>
    (\<exists>ret' s2. tok = CHR ''a'' \<and> argc < MAXARGS \<and> parseredirs b (add_arg (q, eq) ret) s1 = Inr (ret', s2) \<and>
       parseargs b (Suc argc) ret' s2 = Inr (c, s'))"
proof -
  obtain d where d: "peek b ps ''|)&;'' = (skip_ws b ps, d)" by (simp add: peek_def Let_def)
  have "parseargs b argc ret ps =
    (if d then Inr (ret, skip_ws b ps)
     else if tok = CHR 0x00 then Inr (ret, s1)
     else if tok \<noteq> CHR ''a'' then Inl (Shpanic ''syntax'')
     else if Suc argc \<ge> MAXARGS then Inl (Shpanic ''too many args'')
     else case parseredirs b (add_arg (q, eq) ret) s1 of
            Inl e \<Rightarrow> Inl e
          | Inr (ret', s2) \<Rightarrow> parseargs b (Suc argc) ret' s2)"
    by (subst parseargs.simps) (simp add: d assms(2))
  then show ?thesis using assms(1) by (simp split: if_splits sum.splits prod.splits)
qed

lemma parseargs_ok:
  assumes "parseargs b argc ret ps = Inr (c, s')" "between b ps" "CHR 0x00 \<notin> set b" "simple ret"
  shows "parsed_ok b ps (words ret) c s'"
  using assms
proof (induction "MAXARGS - argc" arbitrary: argc ret ps rule: less_induct)
  case less
  let ?s = "skip_ws b ps"
  obtain tok q eq s1 where g: "gettoken b ?s = (tok, q, eq, s1)" by (metis prod_cases4)
  have b0: "between b ?s" and b1: "between b s1" "words_in b ?s s1 = (if tok = CHR ''a'' then {(q, eq)} else {})"
    using skip_ws_between(1) less.prems(2) gettoken_words [OF g _ less.prems(3)] by auto
  consider (stop) "c = ret" "s' = ?s" | (eof) "tok = CHR 0x00" "c = ret" "s' = s1"
    | (arg) ret' s2 where "tok = CHR ''a''" "argc < MAXARGS" "parseredirs b (add_arg (q, eq) ret) s1 = Inr (ret', s2)"
        "parseargs b (Suc argc) ret' s2 = Inr (c, s')"
    using parseargs_cases [OF less.prems(1) g] by blast
  then show ?case
  proof cases
    case stop
    then show ?thesis using parsed_ok_stop less.prems(2) by simp
  next
    case eof
    then have "parsed_ok b ?s (words ret) c s'" using b1 gettoken_forward(1) [OF g] by (simp add: parsed_ok_def)
    then show ?thesis using less.prems(2) by (rule parsed_ok_skip)
  next
    case arg
    note r = parseredirs_ok [OF arg(3) b1(1) less.prems(3)]
    have "parsed_ok b s2 (words ret') c s'"
      using less.hyps [OF _ arg(4) _ less.prems(3)] arg(2) r add_arg_words(2) [OF less.prems(4)] by (simp add: parsed_ok_def)
    then have "parsed_ok b s1 (words (add_arg (q, eq) ret)) c s'"
      by (rule parsed_ok_trans) (use r in \<open>simp_all add: parsed_ok_def\<close>)
    then have "parsed_ok b ?s (words ret) c s'"
      by (rule parsed_ok_token [OF _ g b0 less.prems(3)]) (simp add: arg(1) add_arg_words(1) less.prems(4))
    then show ?thesis using less.prems(2) by (rule parsed_ok_skip)
  qed
qed

lemma parseback_ok:
  assumes "parseback b cmd ps = (c, s')" "between b ps" "CHR 0x00 \<notin> set b"
  shows "parsed_ok b ps (words cmd) c s'"
  using assms
proof (induction "length b - ps" arbitrary: cmd ps rule: less_induct)
  case less
  let ?s = "skip_ws b ps"
  obtain tok q eq s1 where g: "gettoken b ?s = (tok, q, eq, s1)" by (metis prod_cases4)
  have b0: "between b ?s" and b1: "between b s1"
    using skip_ws_between(1) less.prems(2) gettoken_words [OF g _ less.prems(3)] by auto
  show ?case
  proof (cases "snd (peek b ps ''&'')")
    case True
    then have p: "peek b ps ''&'' = (?s, True)" by (simp add: peek_def Let_def)
    have t: "tok \<noteq> CHR ''a''" "ps \<le> ?s" "?s < length b" "?s < s1"
      using peek_gettoken [OF p _ g] by (simp_all add: symbols_def)
    have "parseback b (backcmd cmd) s1 = (c, s')" using less.prems(1) p g by (subst (asm) parseback.simps) simp
    then have "parsed_ok b s1 (words (backcmd cmd)) c s'" using less.hyps b1 less.prems(3) t by simp
    then have "parsed_ok b ?s (words cmd) c s'"
      by (rule parsed_ok_token [OF _ g b0 less.prems(3)]) (simp add: t backcmd_def)
    then show ?thesis using less.prems(2) by (rule parsed_ok_skip)
  next
    case False
    then show ?thesis using less.prems parsed_ok_stop by (subst (asm) parseback.simps) (auto simp: peek_def Let_def)
  qed
qed

text \<open>\<^verbatim>\<open>peek\<close> and \<^verbatim>\<open>gettoken\<close> of a symbol.\<close>

lemma eat_symbol:
  assumes "peek b s toks = (s1, True)" "set toks \<subseteq> set symbols" "gettoken b s1 = (tok, q, eq, s2)" "between b s"
    "CHR 0x00 \<notin> set b"
  shows "between b s2" "s < s2" "s < length b" "parsed_ok b s2 W c s' \<Longrightarrow> parsed_ok b s W c s'"
proof -
  note p = peek_gettoken [OF assms(1,2,3)]
  have b1: "between b s1" using skip_ws_between(1) [OF assms(4)] p(1) by simp
  show "between b s2" using gettoken_words(1) [OF assms(3) b1 assms(5)] .
  show "s < s2" "s < length b" using p(4,5,6) by simp_all
  assume "parsed_ok b s2 W c s'"
  then have "parsed_ok b s1 W c s'" by (rule parsed_ok_token [OF _ assms(3) b1 assms(5)]) (simp add: p(2))
  then show "parsed_ok b s W c s'" using assms(4) p(1) parsed_ok_skip [of b s W c s'] by simp
qed

lemma peek_false: "peek b s toks = (s1, False) \<Longrightarrow> s1 = skip_ws b s"
  by (simp add: peek_def Let_def)

lemma parsed_ok_join:
  assumes "parsed_ok b s {} c1 s1" "parsed_ok b s1 {} c2 s'" "words c = words c1 \<union> words c2"
  shows "parsed_ok b s {} c s'"
  using assms words_in_append [of s s1 s' b] by (auto simp: parsed_ok_def)

definition parser_ok :: "string \<Rightarrow> (string \<Rightarrow> nat \<Rightarrow> parsed) \<Rightarrow> bool" where
  "parser_ok b f \<longleftrightarrow> (\<forall>ps c s'. between b ps \<longrightarrow> f b ps = Inr (c, s') \<longrightarrow> parsed_ok b ps {} c s')"

text \<open>A command, and perhaps a symbol and another command.\<close>

lemma parsed_ok_follow:
  assumes l: "parsed_ok b ps {} cmd s1" and m: "peek b s1 toks = (s2, mo)" "set toks \<subseteq> set symbols"
    and g: "gettoken b s2 = (tok, q, eq, s3)" and nul: "CHR 0x00 \<notin> set b"
    and f: "parser_ok b f" "mo \<Longrightarrow> \<exists>right. f b s3 = Inr (right, s') \<and> words c = words cmd \<union> words right"
    and stop: "\<not> mo \<Longrightarrow> c = cmd \<and> s' = s2"
  shows "parsed_ok b ps {} c s'"
proof -
  have b1: "between b s1" using l by (simp add: parsed_ok_def)
  show ?thesis
  proof (cases mo)
    case True
    then have "peek b s1 toks = (s2, True)" using m by simp
    note e = eat_symbol [OF this m(2) g b1 nul]
    obtain right where r: "parsed_ok b s3 {} right s'" "words c = words cmd \<union> words right"
      using f True e(1) unfolding parser_ok_def by blast
    show ?thesis using parsed_ok_join [OF l e(4) [OF r(1)] r(2)] .
  next
    case False
    then have "c = cmd" "s' = skip_ws b s1" using stop m peek_false [of b s1 toks] by auto
    then show ?thesis using parsed_ok_stop [OF b1, of cmd] l words_in_append [of ps s1 s' b] by (auto simp: parsed_ok_def)
  qed
qed

lemma parseline_ok:
  assumes nul: "CHR 0x00 \<notin> set b" and "parser_ok b (parsepipe n)" "parser_ok b (parseline n)"
  shows "parser_ok b (parseline (Suc n))"
  unfolding parser_ok_def
proof (intro allI impI)
  fix ps c s' assume b: "between b ps" and r: "parseline (Suc n) b ps = Inr (c, s')"
  obtain cmd0 s0 where p: "parsepipe n b ps = Inr (cmd0, s0)" using r by (auto split: sum.splits)
  obtain cmd s1 where k: "parseback b cmd0 s0 = (cmd, s1)" by (cases "parseback b cmd0 s0")
  obtain s2 mo where m: "peek b s1 '';'' = (s2, mo)" by (cases "peek b s1 '';''")
  obtain tok q eq s3 where g: "gettoken b s2 = (tok, q, eq, s3)" by (metis prod_cases4)
  have "parsed_ok b ps {} cmd0 s0" using assms(2) p b by (simp add: parser_ok_def)
  moreover from this have "parsed_ok b s0 (words cmd0) cmd s1" using parseback_ok [OF k _ nul] by (simp add: parsed_ok_def)
  ultimately have l: "parsed_ok b ps {} cmd s1" using words_in_append [of ps s0 s1 b] by (auto simp: parsed_ok_def)
  show "parsed_ok b ps {} c s'"
    using r p k m g by (intro parsed_ok_follow [OF l m _ g nul assms(3)])
      (auto simp: symbols_def listcmd_def split: sum.splits)
qed

lemma parsepipe_ok:
  assumes nul: "CHR 0x00 \<notin> set b" and "parser_ok b (parseexec n)" "parser_ok b (parsepipe n)"
  shows "parser_ok b (parsepipe (Suc n))"
  unfolding parser_ok_def
proof (intro allI impI)
  fix ps c s' assume b: "between b ps" and r: "parsepipe (Suc n) b ps = Inr (c, s')"
  obtain cmd s1 where p: "parseexec n b ps = Inr (cmd, s1)" using r by (auto split: sum.splits)
  obtain s2 mo where m: "peek b s1 ''|'' = (s2, mo)" by (cases "peek b s1 ''|''")
  obtain tok q eq s3 where g: "gettoken b s2 = (tok, q, eq, s3)" by (metis prod_cases4)
  have l: "parsed_ok b ps {} cmd s1" using assms(2) p b by (simp add: parser_ok_def)
  show "parsed_ok b ps {} c s'"
    using r p m g by (intro parsed_ok_follow [OF l m _ g nul assms(3)])
      (auto simp: symbols_def pipecmd_def split: sum.splits)
qed

lemma parseblock_ok:
  assumes nul: "CHR 0x00 \<notin> set b" and "parser_ok b (parseline n)"
  shows "parser_ok b (parseblock (Suc n))"
  unfolding parser_ok_def
proof (intro allI impI)
  fix ps c s' assume b: "between b ps" and r: "parseblock (Suc n) b ps = Inr (c, s')"
  obtain s0 where m: "peek b ps ''('' = (s0, True)" using r by (cases "peek b ps ''(''") (auto split: if_splits)
  obtain tok q eq s1 where g: "gettoken b s0 = (tok, q, eq, s1)" by (metis prod_cases4)
  obtain cmd s2 where p: "parseline n b s1 = Inr (cmd, s2)" using r m g by (auto split: sum.splits)
  obtain s3 where m': "peek b s2 '')'' = (s3, True)" using r m g p by (cases "peek b s2 '')''") (auto split: if_splits)
  obtain tok' q' eq' s4 where g': "gettoken b s3 = (tok', q', eq', s4)" by (metis prod_cases4)
  have sym: "set ''('' \<subseteq> set symbols" "set '')'' \<subseteq> set symbols" by (simp_all add: symbols_def)
  note e = eat_symbol [OF m sym(1) g b nul]
  have l: "parsed_ok b s1 {} cmd s2" using assms(2) p e(1) by (simp add: parser_ok_def)
  then have "between b s2" by (simp add: parsed_ok_def)
  note e' = eat_symbol [OF m' sym(2) g' this nul]
  have "parseredirs b cmd s4 = Inr (c, s')" using r m g p m' g' by simp
  then have "parsed_ok b s4 (words cmd) c s'" using parseredirs_ok [OF _ e'(1) nul] by simp
  from e'(4) [OF this] have "parsed_ok b s1 {} c s'"
    by (rule parsed_ok_trans) (use l in \<open>simp_all add: parsed_ok_def\<close>)
  then show "parsed_ok b ps {} c s'" by (rule e(4))
qed

lemma parseexec_ok:
  assumes nul: "CHR 0x00 \<notin> set b" and "parser_ok b (parseblock n)"
  shows "parser_ok b (parseexec (Suc n))"
  unfolding parser_ok_def
proof (intro allI impI)
  fix ps c s' assume b: "between b ps" and r: "parseexec (Suc n) b ps = Inr (c, s')"
  let ?s0 = "skip_ws b ps"
  have b0: "between b ?s0" using skip_ws_between(1) [OF b] .
  have "parsed_ok b ?s0 {} c s'"
  proof (cases "snd (peek b ps ''('')")
    case True
    then have "parseblock n b ?s0 = Inr (c, s')" using r by (simp add: peek_def Let_def split: if_splits)
    then show ?thesis using assms(2) b0 by (simp add: parser_ok_def)
  next
    case False
    then obtain ret s1 where 1: "parseredirs b execcmd ?s0 = Inr (ret, s1)" "parseargs b 0 ret s1 = Inr (c, s')"
      using r by (auto simp: peek_def Let_def split: if_splits sum.splits)
    note l = parseredirs_ok [OF 1(1) b0 nul]
    have "parsed_ok b s1 (words ret) c s'" using parseargs_ok [OF 1(2) _ nul] l by (simp add: parsed_ok_def execcmd_def)
    then show ?thesis by (rule parsed_ok_trans) (use l in \<open>simp_all add: parsed_ok_def execcmd_def\<close>)
  qed
  then show "parsed_ok b ps {} c s'" using b by (rule parsed_ok_skip)
qed

lemma parse_ok:
  assumes "CHR 0x00 \<notin> set b"
  shows "parser_ok b (parseline n)" "parser_ok b (parsepipe n)" "parser_ok b (parseblock n)" "parser_ok b (parseexec n)"
proof (induction n)
  case 0
  { case 1 then show ?case by (simp add: parser_ok_def) }
  { case 2 then show ?case by (simp add: parser_ok_def) }
  { case 3 then show ?case by (simp add: parser_ok_def) }
  { case 4 then show ?case by (simp add: parser_ok_def) }
next
  case (Suc n)
  { case 1 then show ?case using parseline_ok [OF assms Suc(2,1)] . }
  { case 2 then show ?case using parsepipe_ok [OF assms Suc(4,2)] . }
  { case 3 then show ?case using parseblock_ok [OF assms Suc(1)] . }
  { case 4 then show ?case using parseexec_ok [OF assms Suc(3)] . }
qed

section \<open>Enough fuel\<close>

lemma parseredirs_total: "parseredirs b cmd ps \<noteq> Inl Nofuel"
proof (induction "length b - ps" arbitrary: cmd ps rule: less_induct)
  case less
  obtain d where d: "peek b ps ''<>'' = (skip_ws b ps, d)" by (simp add: peek_def Let_def)
  obtain tok q0 eq0 s1 where g1: "gettoken b (skip_ws b ps) = (tok, q0, eq0, s1)" by (metis prod_cases4)
  obtain tok' q eq s2 where g2: "gettoken b s1 = (tok', q, eq, s2)" by (metis prod_cases4)
  have "length b - s2 < length b - ps" if "tok' = CHR ''a''"
    using gettoken_forward(2) [OF g2] gettoken_forward(1) [OF g1] skip_ws_bounds(1) [of ps b] that by auto
  then show ?case using less by (subst parseredirs.simps) (simp add: d g1 g2)
qed

lemma parseargs_total: "parseargs b argc ret ps \<noteq> Inl Nofuel"
proof (induction "MAXARGS - argc" arbitrary: argc ret ps rule: less_induct)
  case less
  obtain d where d: "peek b ps ''|)&;'' = (skip_ws b ps, d)" by (simp add: peek_def Let_def)
  obtain tok q eq s1 where g: "gettoken b (skip_ws b ps) = (tok, q, eq, s1)" by (metis prod_cases4)
  show ?case
    using less [of "Suc argc"] parseredirs_total [of b "add_arg (q, eq) ret" s1]
    by (subst parseargs.simps) (auto simp: d g split: sum.split)
qed

text \<open>A call has enough fuel when it has four units for every character that is left, and the units
  the functions below it need before one is consumed.\<close>

lemma parse_enough_fuel:
  assumes nul: "CHR 0x00 \<notin> set b"
  shows "between b ps \<Longrightarrow> 4 * (length b - ps) + 4 \<le> n \<Longrightarrow> parseline n b ps \<noteq> Inl Nofuel"
    and "between b ps \<Longrightarrow> 4 * (length b - ps) + 3 \<le> n \<Longrightarrow> parsepipe n b ps \<noteq> Inl Nofuel"
    and "between b ps \<Longrightarrow> 4 * (length b - ps) + 1 \<le> n \<Longrightarrow> parseblock n b ps \<noteq> Inl Nofuel"
    and "between b ps \<Longrightarrow> 4 * (length b - ps) + 2 \<le> n \<Longrightarrow> parseexec n b ps \<noteq> Inl Nofuel"
proof (induction n arbitrary: ps)
  case (Suc n)
  { case 1
    have p: "parsepipe n b ps \<noteq> Inl Nofuel" using Suc(2) 1 by simp
    have "parseline n b s3 \<noteq> Inl Nofuel"
      if "parsepipe n b ps = Inr (c0, s0)" "parseback b c0 s0 = (c1, s1)" "peek b s1 '';'' = (s2, True)"
        "gettoken b s2 = (tok, q, eq, s3)" for c0 s0 c1 s1 s2 tok q eq s3
    proof -
      have p0: "parsed_ok b ps {} c0 s0" using parse_ok(2) [OF nul] that(1) 1(1) by (simp add: parser_ok_def)
      then have "parsed_ok b s0 (words c0) c1 s1" using parseback_ok [OF that(2) _ nul] by (simp add: parsed_ok_def)
      then have "between b s1" "ps \<le> s1" using p0 by (auto simp: parsed_ok_def)
      moreover from this have "between b s3" "s1 < s3" "s1 < length b"
        using eat_symbol [OF that(3) _ that(4) _ nul] by (simp_all add: symbols_def)
      ultimately show ?thesis using Suc(1) [of s3] 1(2) by simp
    qed
    then show ?case using p by (auto split: sum.split prod.split if_split) }
  { case 2
    have p: "parseexec n b ps \<noteq> Inl Nofuel" using Suc(4) 2 by simp
    have "parsepipe n b s3 \<noteq> Inl Nofuel"
      if "parseexec n b ps = Inr (c1, s1)" "peek b s1 ''|'' = (s2, True)" "gettoken b s2 = (tok, q, eq, s3)"
      for c1 s1 s2 tok q eq s3
    proof -
      have "parsed_ok b ps {} c1 s1" using parse_ok(4) [OF nul] that(1) 2(1) by (simp add: parser_ok_def)
      then have "between b s1" "ps \<le> s1" by (auto simp: parsed_ok_def)
      moreover from this have "between b s3" "s1 < s3" "s1 < length b"
        using eat_symbol [OF that(2) _ that(3) _ nul] by (simp_all add: symbols_def)
      ultimately show ?thesis using Suc(2) [of s3] 2(2) by simp
    qed
    then show ?case using p by (auto split: sum.split prod.split if_split) }
  { case 3
    have "parseline n b s1 \<noteq> Inl Nofuel"
      if "peek b ps ''('' = (s0, True)" "gettoken b s0 = (tok, q, eq, s1)" for s0 tok q eq s1
    proof -
      have "between b s1" "ps < s1" "ps < length b"
        using eat_symbol [OF that(1) _ that(2) 3(1) nul] by (simp_all add: symbols_def)
      then show ?thesis using Suc(1) [of s1] 3(2) by simp
    qed
    then show ?case using parseredirs_total by (auto split: sum.split prod.split if_split) }
  { case 4
    have b0: "between b (skip_ws b ps)" using skip_ws_between(1) [OF 4(1)] .
    have "4 * (length b - skip_ws b ps) + 1 \<le> n" using 4(2) skip_ws_bounds(1) [of ps b] by linarith
    then have "parseblock n b (skip_ws b ps) \<noteq> Inl Nofuel" using Suc(3) b0 by simp
    then show ?case using parseredirs_total parseargs_total
      by (auto simp: peek_def Let_def split: sum.split prod.split if_split) }
qed simp_all

section \<open>The terminated words\<close>

lemma nulterminate_nth:
  "length (nulterminate c b) = length b \<and>
   (i < length b \<longrightarrow> nulterminate c b ! i = (if i \<in> snd ` words c then CHR 0x00 else b ! i))"
proof (induction c arbitrary: b)
  case (Execcmd args)
  show ?case
  proof (induction args arbitrary: b)
    case (Cons a args)
    then show ?case by (cases a) (auto simp: nth_list_update)
  qed simp
next
  case (Redircmd c f e m fd)
  then show ?case by (cases "i = e") simp_all
qed auto

text \<open>The C string that starts at a position.\<close>

definition cstr_at :: "string \<Rightarrow> nat \<Rightarrow> string" where
  "cstr_at b q = takeWhile (\<lambda>c. c \<noteq> CHR 0x00) (drop q b)"

lemma cstr_at_eq:
  assumes "q \<le> e" "e \<le> length b" "\<And>i. q \<le> i \<Longrightarrow> i < e \<Longrightarrow> b ! i \<noteq> CHR 0x00" "e < length b \<Longrightarrow> b ! e = CHR 0x00"
  shows "cstr_at b q = take (e - q) (drop q b)"
  unfolding cstr_at_def
proof (rule takeWhile_eq_take_P_nth)
  fix i assume "i < e - q" "i < length (drop q b)"
  then show "drop q b ! i \<noteq> CHR 0x00" using assms(3) [of "q + i"] by simp
next
  assume "e - q < length (drop q b)"
  then show "\<not> drop q b ! (e - q) \<noteq> CHR 0x00" using assms(1,4) by simp
qed

lemma words_length: "is_word b (q, e) \<Longrightarrow> q < e \<and> e \<le> length b"
  by (auto simp: is_word_def wordchar_def dest: spec [of _ "e - 1"])

lemma nulterminate_word:
  assumes "words c = {w. is_word b w}" "is_word b (q, e)" "CHR 0x00 \<notin> set b"
  shows "cstr_at (nulterminate c b) q = take (e - q) (drop q b)"
proof -
  note qe = words_length [OF assms(2)] and n = nulterminate_nth [of c b]
  have same: "nulterminate c b ! i = b ! i" if "q \<le> i" "i < e" for i
    using n [of i] assms(1,2) that qe by (force simp: is_word_def)
  have "cstr_at (nulterminate c b) q = take (e - q) (drop q (nulterminate c b))"
  proof (rule cstr_at_eq)
    fix i assume i: "q \<le> i" "i < e"
    then have "b ! i \<in> set b" using qe by simp
    then show "nulterminate c b ! i \<noteq> CHR 0x00" using same [OF i] assms(3) by auto
  next
    assume "e < length (nulterminate c b)"
    then show "nulterminate c b ! e = CHR 0x00" using n [of e] assms(1,2) by force
  qed (use qe n in auto)
  also have "\<dots> = take (e - q) (drop q b)"
    by (rule nth_equalityI) (use n same qe in auto)
  finally show ?thesis .
qed

section \<open>Running commands\<close>

text \<open>
  A process that runs a command is a tree of system calls: the next call, and what it does with the
  reply.  The reply of \<^verbatim>\<open>pipe\<close> is its result followed by the two descriptors.  A formatted message is
  one write of its text.
\<close>

datatype sysreq =
    SClose int | SOpen string int | SFork | SExec string "string list" | SPipe | SDup int | SWait
  | SChdir string | SWrite int string

datatype uprog = Exit int | Req sysreq "int list \<Rightarrow> uprog"

definition nl :: string where
  "nl = [CHR 0x0A]"

definition sh_panic :: "string \<Rightarrow> uprog" where
  "sh_panic s = Req (SWrite 2 (s @ nl)) (\<lambda>_. Exit 1)"

definition fork1 :: "(int \<Rightarrow> uprog) \<Rightarrow> uprog" where
  "fork1 k = Req SFork (\<lambda>r. if hd r = - 1 then sh_panic ''fork'' else k (hd r))"

primrec runcmd :: "string \<Rightarrow> cmd \<Rightarrow> uprog" where
  "runcmd b (Execcmd args) =
     (case args of
        [] \<Rightarrow> Exit 1
      | a # _ \<Rightarrow> Req (SExec (cstr_at b (fst a)) (map (\<lambda>w. cstr_at b (fst w)) args))
          (\<lambda>_. Req (SWrite 2 (''exec '' @ cstr_at b (fst a) @ '' failed'' @ nl)) (\<lambda>_. Exit 0)))"
| "runcmd b (Redircmd c file efile mode fd) =
     Req (SClose fd) (\<lambda>_. Req (SOpen (cstr_at b file) mode)
       (\<lambda>r. if hd r < 0 then Req (SWrite 2 (''open '' @ cstr_at b file @ '' failed'' @ nl)) (\<lambda>_. Exit 1)
            else runcmd b c))"
| "runcmd b (Listcmd left right) =
     fork1 (\<lambda>pid. if pid = 0 then runcmd b left else Req SWait (\<lambda>_. runcmd b right))"
| "runcmd b (Pipecmd left right) =
     Req SPipe (\<lambda>p. if hd p < 0 then sh_panic ''pipe''
       else fork1 (\<lambda>pid.
         if pid = 0 then
           Req (SClose 1) (\<lambda>_. Req (SDup (p ! 2)) (\<lambda>_. Req (SClose (p ! 1)) (\<lambda>_. Req (SClose (p ! 2)) (\<lambda>_. runcmd b left))))
         else fork1 (\<lambda>pid.
           if pid = 0 then
             Req (SClose 0) (\<lambda>_. Req (SDup (p ! 1)) (\<lambda>_. Req (SClose (p ! 1)) (\<lambda>_. Req (SClose (p ! 2)) (\<lambda>_. runcmd b right))))
           else
             Req (SClose (p ! 1)) (\<lambda>_. Req (SClose (p ! 2)) (\<lambda>_. Req SWait (\<lambda>_. Req SWait (\<lambda>_. Exit 0)))))))"
| "runcmd b (Backcmd c) = fork1 (\<lambda>pid. if pid = 0 then runcmd b c else Exit 0)"

text \<open>The child's \<^verbatim>\<open>runcmd(parsecmd(buf))\<close>.\<close>

definition run_line :: "string \<Rightarrow> uprog" where
  "run_line buf =
     (case parsecmd buf of
        Inl (Leftovers s) \<Rightarrow> Req (SWrite 2 (''leftovers: '' @ drop s buf @ nl)) (\<lambda>_. sh_panic ''syntax'')
      | Inl (Shpanic m) \<Rightarrow> sh_panic m
      | Inl Nofuel \<Rightarrow> Exit 1
      | Inr (c, b) \<Rightarrow> runcmd b c)"

text \<open>The command loop of \<^verbatim>\<open>main\<close> over the lines that \<^verbatim>\<open>gets\<close> returns; an empty one is the end of the
  input (\<^verbatim>\<open>getcmd\<close>).\<close>

primrec sh_loop :: "string list \<Rightarrow> uprog" where
  "sh_loop [] = Req (SWrite 2 ''$ '') (\<lambda>_. Exit 0)"
| "sh_loop (buf # rest) =
     Req (SWrite 2 ''$ '') (\<lambda>_.
       if buf = [] then Exit 0
       else if take 3 buf = ''cd '' then
         Req (SChdir (drop 3 (butlast buf))) (\<lambda>r.
           if hd r < 0 then Req (SWrite 2 (''cannot cd '' @ drop 3 (butlast buf) @ nl)) (\<lambda>_. sh_loop rest)
           else sh_loop rest)
       else fork1 (\<lambda>pid. if pid = 0 then run_line buf else Req SWait (\<lambda>_. sh_loop rest)))"

section \<open>Descriptors of the processes\<close>

text \<open>What an open descriptor stands for, and the effect of the system calls on the table of 16
  descriptors of a process: the lowest free one is used.\<close>

datatype ofile = OFile string int | PipeR nat | PipeW nat | OOther nat

type_synonym fdtab = "int \<Rightarrow> ofile option"

definition lowest :: "fdtab \<Rightarrow> int option" where
  "lowest t = find (\<lambda>fd. t fd = None) (map int [0..<16])"

text \<open>A process takes a step: its call succeeds, and after a \<^verbatim>\<open>fork\<close> it is the parent or the child.\<close>

inductive fdstep :: "fdtab \<times> uprog \<Rightarrow> fdtab \<times> uprog \<Rightarrow> bool" where
  close: "fdstep (t, Req (SClose fd) k) (t(fd := None), k [0])"
| opn: "lowest t = Some fd \<Longrightarrow> fdstep (t, Req (SOpen path mode) k) (t(fd := Some (OFile path mode)), k [fd])"
| dup: "t old = Some f \<Longrightarrow> lowest t = Some fd \<Longrightarrow> fdstep (t, Req (SDup old) k) (t(fd := Some f), k [fd])"
| pipe: "lowest t = Some r \<Longrightarrow> lowest (t(r := Some (PipeR n))) = Some w \<Longrightarrow>
    fdstep (t, Req SPipe k) (t(r := Some (PipeR n), w := Some (PipeW n)), k [0, r, w])"
| parent: "pid > 0 \<Longrightarrow> fdstep (t, Req SFork k) (t, k [pid])"
| child: "fdstep (t, Req SFork k) (t, k [0])"
| wait: "fdstep (t, Req SWait k) (t, k [pid])"
| wr: "fdstep (t, Req (SWrite fd s) k) (t, k [int (length s)])"

inductive_simps fdstep_simps [simp]:
  "fdstep (t, Req (SClose fd) k) y" "fdstep (t, Req (SOpen path mode) k) y" "fdstep (t, Req (SDup old) k) y"
  "fdstep (t, Req SPipe k) y" "fdstep (t, Req SFork k) y" "fdstep (t, Req SWait k) y" "fdstep (t, Exit n) y"

lemma lowest_free: "lowest t = Some fd \<Longrightarrow> t fd = None \<and> 0 \<le> fd \<and> fd < 16"
  by (auto simp: lowest_def find_Some_iff)

lemma lowest_0: "t 0 = None \<Longrightarrow> lowest t = Some 0"
  by (simp add: lowest_def upt_rec)

lemma lowest_1: "t 0 \<noteq> None \<Longrightarrow> t 1 = None \<Longrightarrow> lowest t = Some 1"
  by (simp add: lowest_def upt_rec)

lemma fd_then: "fdstep x y \<Longrightarrow> fdstep\<^sup>*\<^sup>* y z \<Longrightarrow> fdstep\<^sup>*\<^sup>* x z"
  by (rule converse_rtranclp_into_rtranclp)

lemma close_then: "fdstep\<^sup>*\<^sup>* (t(fd := None), q) z \<Longrightarrow> fdstep\<^sup>*\<^sup>* (t, Req (SClose fd) (\<lambda>_. q)) z"
  by (rule fd_then [OF fdstep.close [of t fd "\<lambda>_. q"]])

lemma dup_then:
  "t old = Some f \<Longrightarrow> lowest t = Some fd \<Longrightarrow> fdstep\<^sup>*\<^sup>* (t(fd := Some f), q) z \<Longrightarrow> fdstep\<^sup>*\<^sup>* (t, Req (SDup old) (\<lambda>_. q)) z"
  by (rule fd_then [OF fdstep.dup [of t old f fd "\<lambda>_. q"]])

lemma wait_then: "fdstep\<^sup>*\<^sup>* (t, q) z \<Longrightarrow> fdstep\<^sup>*\<^sup>* (t, Req SWait (\<lambda>_. q)) z"
  by (rule fd_then [OF fdstep.wait [of t "\<lambda>_. q"]])

lemma pipe_then:
  "lowest t = Some r \<Longrightarrow> lowest (t(r := Some (PipeR n))) = Some w \<Longrightarrow>
   fdstep\<^sup>*\<^sup>* (t(r := Some (PipeR n), w := Some (PipeW n)), k [0, r, w]) z \<Longrightarrow> fdstep\<^sup>*\<^sup>* (t, Req SPipe k) z"
  by (rule fd_then [OF fdstep.pipe [of t r n w k]])

lemma fork_child: "fdstep\<^sup>*\<^sup>* (t, k 0) z \<Longrightarrow> fdstep\<^sup>*\<^sup>* (t, fork1 k) z"
  unfolding fork1_def by (rule fd_then [OF fdstep.child [of t]]) simp

lemma fork_parent: "0 < pid \<Longrightarrow> fdstep\<^sup>*\<^sup>* (t, k pid) z \<Longrightarrow> fdstep\<^sup>*\<^sup>* (t, fork1 k) z"
  unfolding fork1_def by (rule fd_then [OF fdstep.parent [of pid t]]) simp_all

section \<open>Properties\<close>

text \<open>C25: the parser returns for every line, and when it accepts one, the words of the command are
  exactly the words of the line, the longest pieces without white space and symbols, none lost and
  none cut; after \<^verbatim>\<open>nulterminate\<close> each of them is a C string of its own in the buffer.\<close>

theorem parsecmd_finds_words:
  assumes "CHR 0x00 \<notin> set b"
  shows "parsecmd b \<noteq> Inl Nofuel \<and>
    (\<forall>c b'. parsecmd b = Inr (c, b') \<longrightarrow>
       words c = {w. is_word b w} \<and>
       (\<forall>(q, e) \<in> words c. cstr_at b' q = take (e - q) (drop q b)))"
proof (intro conjI allI impI)
  have b0: "between b 0" by (simp add: between_def)
  show "parsecmd b \<noteq> Inl Nofuel"
    using parse_enough_fuel(1) [OF assms b0, of "4 * length b + 4"]
    by (auto simp: parsecmd_def Let_def split: sum.split prod.split)
  fix c b' assume "parsecmd b = Inr (c, b')"
  then obtain s where p: "parseline (4 * length b + 4) b 0 = Inr (c, s)" "skip_ws b s = length b" "b' = nulterminate c b"
    by (auto simp: parsecmd_def peek_def Let_def split: sum.splits prod.splits if_splits)
  have l: "parsed_ok b 0 {} c s" using parse_ok(1) [OF assms] p(1) b0 by (simp add: parser_ok_def)
  then have "words_in b s (length b) = {}" "s \<le> length b" using skip_ws_between(2) [of b s] p(2) by (auto simp: parsed_ok_def between_def)
  then have "words c = words_in b 0 (length b)" using l words_in_append [of 0 s "length b" b] by (simp add: parsed_ok_def)
  also have "\<dots> = {w. is_word b w}" using words_length by (fastforce simp: words_in_def)
  finally show w: "words c = {w. is_word b w}" .
  show "\<forall>(q, e) \<in> words c. cstr_at b' q = take (e - q) (drop q b)"
    using nulterminate_word [OF w _ assms] w p(3) by auto
qed

theorem parsecmd_finds_words_witness:
  "\<exists>c b'. parsecmd ''a|b'' = Inr (c, b') \<and> words c = {w. is_word ''a|b'' w} \<and> cstr_at b' 0 = ''a''"
proof -
  have "parsecmd ''a|b'' = Inr (Pipecmd (Execcmd [(0, 1)]) (Execcmd [(2, 3)]), [CHR ''a'', CHR 0x00, CHR ''b''])"
    by code_simp
  then show ?thesis using parsecmd_finds_words [of "''a|b''"] by auto
qed

text \<open>C26: a pipeline connects its two commands.  The left command starts with the write end of the
  pipe as its standard output, the right one with the read end as its standard input, and in both,
  as in the shell, no other descriptor is left open or changed.\<close>

theorem runcmd_connects_pipe:
  assumes "t 0 \<noteq> None" "t 1 \<noteq> None" "lowest t = Some r" "lowest (t(r := Some (PipeR n))) = Some w"
  shows "fdstep\<^sup>*\<^sup>* (t, runcmd b (Pipecmd c1 c2)) (t(1 := Some (PipeW n)), runcmd b c1) \<and>
    fdstep\<^sup>*\<^sup>* (t, runcmd b (Pipecmd c1 c2)) (t(0 := Some (PipeR n)), runcmd b c2) \<and>
    fdstep\<^sup>*\<^sup>* (t, runcmd b (Pipecmd c1 c2)) (t, Exit 0)"
proof -
  have f: "t r = None" "t w = None" "r \<noteq> w" "r \<noteq> 0" "r \<noteq> 1" "w \<noteq> 0" "w \<noteq> 1"
    using lowest_free [OF assms(3)] lowest_free [OF assms(4)] assms(1,2) by (auto split: if_splits)
  define t1 where "t1 = t(r := Some (PipeR n), w := Some (PipeW n))"
  have l: "t1(1 := Some (PipeW n), r := None, w := None) = t(1 := Some (PipeW n))"
    and r: "t1(0 := Some (PipeR n), r := None, w := None) = t(0 := Some (PipeR n))"
    and p: "t1(r := None, w := None) = t"
    using f by (auto simp: t1_def fun_eq_iff)
  have d: "(t1(1 := None)) w = Some (PipeW n)" "lowest (t1(1 := None)) = Some 1"
    "(t1(0 := None)) r = Some (PipeR n)" "lowest (t1(0 := None)) = Some 0"
    using f assms(1) by (auto simp: t1_def intro: lowest_0 lowest_1)
  have left: "fdstep\<^sup>*\<^sup>* (t1, Req (SClose 1) (\<lambda>_. Req (SDup w) (\<lambda>_. Req (SClose r) (\<lambda>_. Req (SClose w) (\<lambda>_. runcmd b c1)))))
      (t(1 := Some (PipeW n)), runcmd b c1)"
    by (rule close_then, rule dup_then [OF d(1,2)], rule close_then, rule close_then) (simp add: l)
  have right: "fdstep\<^sup>*\<^sup>* (t1, Req (SClose 0) (\<lambda>_. Req (SDup r) (\<lambda>_. Req (SClose r) (\<lambda>_. Req (SClose w) (\<lambda>_. runcmd b c2)))))
      (t(0 := Some (PipeR n)), runcmd b c2)"
    by (rule close_then, rule dup_then [OF d(3,4)], rule close_then, rule close_then) (simp add: r)
  have up: "fdstep\<^sup>*\<^sup>* (t1, Req (SClose r) (\<lambda>_. Req (SClose w) (\<lambda>_. Req SWait (\<lambda>_. Req SWait (\<lambda>_. Exit 0))))) (t, Exit 0)"
    by (rule close_then, rule close_then, rule wait_then, rule wait_then) (simp add: p)
  note start = pipe_then [OF assms(3,4), folded t1_def]
  show ?thesis
  proof (intro conjI)
    show "fdstep\<^sup>*\<^sup>* (t, runcmd b (Pipecmd c1 c2)) (t(1 := Some (PipeW n)), runcmd b c1)"
      by (simp only: runcmd.simps, rule start, simp, rule fork_child, simp add: left)
    show "fdstep\<^sup>*\<^sup>* (t, runcmd b (Pipecmd c1 c2)) (t(0 := Some (PipeR n)), runcmd b c2)"
      by (simp only: runcmd.simps, rule start, simp, rule fork_parent [of 1], simp, simp, rule fork_child, simp add: right)
    show "fdstep\<^sup>*\<^sup>* (t, runcmd b (Pipecmd c1 c2)) (t, Exit 0)"
      by (simp only: runcmd.simps, rule start, simp, rule fork_parent [of 1], simp, simp, rule fork_parent [of 1], simp, simp add: up)
  qed
qed

definition std_tab :: fdtab where
  "std_tab = (\<lambda>fd. if fd < 3 then Some (OOther (nat fd)) else None)"

theorem runcmd_connects_pipe_witness:
  "fdstep\<^sup>*\<^sup>* (std_tab, runcmd ''ls'' (Pipecmd (Execcmd [(0, 2)]) (Execcmd [(0, 2)])))
     (std_tab(1 := Some (PipeW 7)), runcmd ''ls'' (Execcmd [(0, 2)]))"
  using runcmd_connects_pipe [of std_tab 3 7 4 "''ls''" "Execcmd [(0, 2)]" "Execcmd [(0, 2)]"]
  by (simp add: std_tab_def lowest_def upt_rec)

end
