(* ===== verification/Proc.thy ===== *)
theory Proc
  imports Aspace
begin

text \<open>
  \<^verbatim>\<open>kernel/proc.c\<close>, the part on which the rest of the kernel is built: the process table, the current
  process, \<^verbatim>\<open>sleep\<close> and \<^verbatim>\<open>wakeup\<close>, \<^verbatim>\<open>kill\<close>, the switch to and from the scheduler.

  A context switch ends what a function does on this hart, so each function that calls \<^verbatim>\<open>swtch\<close> is
  given in two halves: \<open>_out\<close> ends at the switch, \<open>_in\<close> starts when the process runs again.  A caller
  that sleeps until another process changes the state has the outcome \<open>Asleep\<close>.
\<close>

section \<open>State\<close>

datatype procstate = UNUSED | USED | SLEEPING | RUNNABLE | RUNNING | ZOMBIE

text \<open>\<^verbatim>\<open>struct context\<close>: \<open>ra\<close>, \<open>sp\<close> and the twelve callee-saved registers.\<close>

record swcontext =
  ctx_ra :: uint64
  ctx_sp :: uint64
  ctx_s :: "nat \<Rightarrow> uint64"

text \<open>\<^verbatim>\<open>struct proc\<close> without its lock, which is \<open>Proc_lock p\<close>.  \<open>ofile\<close> and \<open>cwd\<close> are indices of the
  file table and of the inode table; \<open>None\<close> is the null pointer.  The name is the C string in the
  16 bytes of \<^verbatim>\<open>name\<close>.\<close>

record proc =
  pstate :: procstate
  pchan :: "chan option"
  killed :: bool
  xstate :: uint32
  pid :: int
  parent :: "nat option"
  kstack :: uint64
  psz :: uint64
  pagetable :: addr
  trapframe :: addr
  pcontext :: swcontext
  ofile :: "nat \<Rightarrow> nat option"
  cwd :: "nat option"
  pname :: string

record ptable = pmem +
  procs :: "nat \<Rightarrow> proc"
  nextpid :: int
  initproc :: "nat option"

abbreviation getp :: "(proc \<Rightarrow> 'x) \<Rightarrow> nat \<Rightarrow> ('a ptable_scheme, 'x) km" where
  "getp f p \<equiv> kgets (\<lambda>s. f (procs s p))"

abbreviation updp :: "nat \<Rightarrow> (proc \<Rightarrow> proc) \<Rightarrow> ('a ptable_scheme, unit) km" where
  "updp p g \<equiv> kmod (\<lambda>s. s\<lparr>procs := (procs s)(p := g (procs s p))\<rparr>)"

section \<open>Processes and identifiers\<close>

definition procinit :: "('a ptable_scheme, unit) km" where
  "procinit =
     kseq (on_mach (initlock Pid_lock ''nextpid''))
    (kseq (on_mach (initlock Wait_lock ''wait_lock''))
    (kfor [0..<NPROC] (\<lambda>p.
       kseq (on_mach (initlock (Proc_lock p) ''proc''))
            (updp p (\<lambda>x. x\<lparr>kstack := KSTACK p\<rparr>)))))"

definition myproc :: "('a pmem_scheme, nat option) km" where
  "myproc =
     kseq (on_mach push_off)
    (kbind (kgets (\<lambda>s. cpu_proc (mycpu (mach s)))) (\<lambda>p.
     kseq (on_mach pop_off)
          (kret p)))"

text \<open>A use of \<^verbatim>\<open>myproc()\<close> that is followed by an access to the process.\<close>

definition curproc :: "('a pmem_scheme, nat) km" where
  "curproc = kbind myproc deref"

definition allocpid :: "('a ptable_scheme, int) km" where
  "allocpid =
     kseq (lock_k Pid_lock)
    (kbind (kgets nextpid) (\<lambda>pid.
     kseq (kmod (\<lambda>s. s\<lparr>nextpid := pid + 1\<rparr>))
    (kseq (unlock_k Pid_lock)
          (kret pid))))"

section \<open>The scheduler\<close>

text \<open>The body of the loop of \<^verbatim>\<open>scheduler\<close> for one process: \<open>True\<close> when it switches to it; then the
  second half runs when the process switches back.\<close>

definition scheduler_out :: "nat \<Rightarrow> ('a ptable_scheme, bool) km" where
  "scheduler_out p =
     kseq (lock_k (Proc_lock p))
    (kbind (getp pstate p) (\<lambda>st.
     if st = RUNNABLE
     then kseq (updp p (\<lambda>x. x\<lparr>pstate := RUNNING\<rparr>))
         (kseq (on_mach (kmod (upd_cpu (\<lambda>c. c\<lparr>cpu_proc := Some p\<rparr>))))
               (kret True))
     else kseq (unlock_k (Proc_lock p))
               (kret False)))"

definition scheduler_in :: "nat \<Rightarrow> ('a ptable_scheme, unit) km" where
  "scheduler_in p =
     kseq (on_mach (kmod (upd_cpu (\<lambda>c. c\<lparr>cpu_proc := None\<rparr>))))
          (unlock_k (Proc_lock p))"

text \<open>\<^verbatim>\<open>sched\<close> up to \<^verbatim>\<open>swtch\<close> returns the \<^verbatim>\<open>intena\<close> it saves on its stack.\<close>

definition sched_out :: "('a ptable_scheme, bool) km" where
  "sched_out =
     kbind curproc (\<lambda>p.
     kbind (kgets (\<lambda>s. holding (Proc_lock p) (mach s))) (\<lambda>h.
     if \<not> h then kpanic ''sched p->lock''
     else kbind (kgets (\<lambda>s. noff (mycpu (mach s)))) (\<lambda>n.
     if n \<noteq> 1 then kpanic ''sched locks''
     else kbind (getp pstate p) (\<lambda>st.
     if st = RUNNING then kpanic ''sched running''
     else kbind (kgets (\<lambda>s. intr_get (mach s))) (\<lambda>i.
     if i then kpanic ''sched interruptible''
     else kgets (\<lambda>s. intena (mycpu (mach s))))))))"

definition sched_in :: "bool \<Rightarrow> ('a pmem_scheme, unit) km" where
  "sched_in ie = on_mach (kmod (upd_cpu (\<lambda>c. c\<lparr>intena := ie\<rparr>)))"

definition yield_out :: "('a ptable_scheme, bool) km" where
  "yield_out =
     kbind curproc (\<lambda>p.
     kseq (lock_k (Proc_lock p))
    (kseq (updp p (\<lambda>x. x\<lparr>pstate := RUNNABLE\<rparr>))
          sched_out))"

definition yield_in :: "nat \<Rightarrow> bool \<Rightarrow> ('a ptable_scheme, unit) km" where
  "yield_in p ie = kseq (sched_in ie) (unlock_k (Proc_lock p))"

section \<open>Sleep and wakeup\<close>

definition sleep_out :: "chan \<Rightarrow> lockid \<Rightarrow> ('a ptable_scheme, bool) km" where
  "sleep_out chan lk =
     kbind curproc (\<lambda>p.
     kseq (lock_k (Proc_lock p))
    (kseq (unlock_k lk)
    (kseq (updp p (\<lambda>x. x\<lparr>pchan := Some chan\<rparr>))
    (kseq (updp p (\<lambda>x. x\<lparr>pstate := SLEEPING\<rparr>))
          sched_out))))"

definition sleep_in :: "nat \<Rightarrow> lockid \<Rightarrow> bool \<Rightarrow> ('a ptable_scheme, unit) km" where
  "sleep_in p lk ie =
     kseq (sched_in ie)
    (kseq (updp p (\<lambda>x. x\<lparr>pchan := None\<rparr>))
    (kseq (unlock_k (Proc_lock p))
          (lock_k lk)))"

text \<open>\<^verbatim>\<open>sleep\<close> as its callers see it when no other process runs.\<close>

definition sleep :: "chan \<Rightarrow> lockid \<Rightarrow> ('a ptable_scheme, 'x) km" where
  "sleep chan lk = kseq (sleep_out chan lk) (kfail (Asleep chan))"

definition wakeup_body :: "chan \<Rightarrow> nat \<Rightarrow> ('a ptable_scheme, unit) km" where
  "wakeup_body chan p =
     kbind myproc (\<lambda>me.
     kwhen (Some p \<noteq> me)
       (kseq (lock_k (Proc_lock p))
       (kbind (kgets (\<lambda>s. procs s p)) (\<lambda>x.
        kseq (kwhen (pstate x = SLEEPING \<and> pchan x = Some chan) (updp p (\<lambda>x. x\<lparr>pstate := RUNNABLE\<rparr>)))
             (unlock_k (Proc_lock p))))))"

definition wakeup :: "chan \<Rightarrow> ('a ptable_scheme, unit) km" where
  "wakeup chan = kfor [0..<NPROC] (wakeup_body chan)"

definition kill_body :: "int \<Rightarrow> nat \<Rightarrow> ('a ptable_scheme, int option) km" where
  "kill_body ident p =
     kseq (lock_k (Proc_lock p))
    (kbind (getp pid p) (\<lambda>i.
     if i = ident
     then kseq (updp p (\<lambda>x. x\<lparr>killed := True\<rparr>))
         (kbind (getp pstate p) (\<lambda>st.
          kseq (kwhen (st = SLEEPING) (updp p (\<lambda>x. x\<lparr>pstate := RUNNABLE\<rparr>)))
         (kseq (unlock_k (Proc_lock p))
               (kret (Some 0)))))
     else kseq (unlock_k (Proc_lock p))
               (kret None)))"

definition kill :: "int \<Rightarrow> ('a ptable_scheme, int) km" where
  "kill ident = kbind (kscan [0..<NPROC] (kill_body ident)) (\<lambda>r. kret (case r of None \<Rightarrow> - 1 | Some x \<Rightarrow> x))"

section \<open>Memory of the current process\<close>

definition growproc :: "32 word \<Rightarrow> ('a ptable_scheme, int) km" where
  "growproc n =
     kbind curproc (\<lambda>p.
     kbind (kgets (\<lambda>s. procs s p)) (\<lambda>x.
     let sz = ucast (psz x) :: uint32 in
     if 0 <s n then
       kbind (uvmalloc (pagetable x) (ucast sz) (ucast (sz + n))) (\<lambda>sz'.
       if (ucast sz' :: uint32) = 0 then kret (- 1)
       else kseq (updp p (\<lambda>x. x\<lparr>psz := ucast (ucast sz' :: uint32)\<rparr>)) (kret 0))
     else if n <s 0 then
       kbind (uvmdealloc (pagetable x) (ucast sz) (ucast (sz + n))) (\<lambda>sz'.
       kseq (updp p (\<lambda>x. x\<lparr>psz := ucast (ucast sz' :: uint32)\<rparr>)) (kret 0))
     else kseq (updp p (\<lambda>x. x\<lparr>psz := ucast sz\<rparr>)) (kret 0)))"

definition either_copyout :: "bool \<Rightarrow> uint64 \<Rightarrow> addr \<Rightarrow> uint64 \<Rightarrow> ('a ptable_scheme, int) km" where
  "either_copyout user_dst dst src len =
     kbind myproc (\<lambda>p.
     if user_dst then kbind (deref p) (\<lambda>p. kbind (getp pagetable p) (\<lambda>pt. copyout pt dst src len))
     else kseq (upd_ram (\<lambda>m. memmove m dst src (ucast len))) (kret 0))"

definition either_copyin :: "addr \<Rightarrow> bool \<Rightarrow> uint64 \<Rightarrow> uint64 \<Rightarrow> ('a ptable_scheme, int) km" where
  "either_copyin dst user_src src len =
     kbind myproc (\<lambda>p.
     if user_src then kbind (deref p) (\<lambda>p. kbind (getp pagetable p) (\<lambda>pt. copyin pt dst src len))
     else kseq (upd_ram (\<lambda>m. memmove m dst src (ucast len))) (kret 0))"

section \<open>The effect of the operations when their locks are free\<close>

definition mcur :: "machine \<Rightarrow> nat option" where
  "mcur m = cpu_proc (mycpu m)"

abbreviation cur :: "'a pmem_scheme \<Rightarrow> nat option" where
  "cur s \<equiv> mcur (mach s)"

abbreviation proc_locks :: "lockid set" where
  "proc_locks \<equiv> Proc_lock ` {..<64}"

lemma mcur_simps [simp]: "mcur (settle m) = mcur m" "mcur (taken l m) = mcur m" "mcur (pushed m) = mcur m"
  by (simp_all add: mcur_def mycpu_def cpuid_def pushed_def upd_cpu_def)

lemma on_mach_push [simp]: "on_mach push_off s = Inr ((), s\<lparr>mach := pushed (mach s)\<rparr>)"
  by (simp add: on_mach_def push_off_eq)

lemma myproc_eq: "irq_ok (mach s) \<Longrightarrow> myproc s = Inr (cur s, settled s)"
  by (simp add: myproc_def kmonad on_mach_def push_off_eq pop_off_pushed mcur_def [symmetric])

lemma curproc_eq: "irq_ok (mach s) \<Longrightarrow> cur s = Some p \<Longrightarrow> curproc s = Inr (p, settled s)"
  by (simp add: curproc_def kmonad myproc_eq)

lemma curproc_none: "irq_ok (mach s) \<Longrightarrow> cur s = None \<Longrightarrow> curproc s = Inl (Panic ''kerneltrap'')"
  by (simp add: curproc_def kmonad myproc_eq)

definition woken :: "chan \<Rightarrow> nat option \<Rightarrow> nat \<Rightarrow> (nat \<Rightarrow> proc) \<Rightarrow> nat \<Rightarrow> proc" where
  "woken c me n P = (\<lambda>p. if p < n \<and> Some p \<noteq> me \<and> pstate (P p) = SLEEPING \<and> pchan (P p) = Some c
     then (P p)\<lparr>pstate := RUNNABLE\<rparr> else P p)"

lemma wakeup_body_eq:
  assumes "irq_ok (mach s)" "Some p \<noteq> cur s \<Longrightarrow> lk_free (mach s) (Proc_lock p)"
  shows "wakeup_body c p s = Inr ((), (settled s)\<lparr>procs := (procs s)(p :=
    if Some p \<noteq> cur s \<and> pstate (procs s p) = SLEEPING \<and> pchan (procs s p) = Some c
    then (procs s p)\<lparr>pstate := RUNNABLE\<rparr> else procs s p)\<rparr>)"
  using assms by (simp add: wakeup_body_def kmonad myproc_eq locking)

lemma wakeup_upto:
  assumes "irq_ok (mach s)" "\<And>p. p < n \<Longrightarrow> Some p \<noteq> cur s \<Longrightarrow> lk_free (mach s) (Proc_lock p)"
  shows "kfor [0..<n] (wakeup_body c) s =
    Inr ((), s\<lparr>mach := (if n = 0 then mach s else settle (mach s)), procs := woken c (cur s) n (procs s)\<rparr>)"
  using assms
proof (induction n)
  case (Suc n)
  let ?s = "s\<lparr>mach := (if n = 0 then mach s else settle (mach s)), procs := woken c (cur s) n (procs s)\<rparr>"
  have "kfor [0..<n] (wakeup_body c) s = Inr ((), ?s)" using Suc by simp
  moreover have "cur ?s = cur s" by simp
  moreover have "irq_ok (mach ?s)" "Some n \<noteq> cur ?s \<Longrightarrow> lk_free (mach ?s) (Proc_lock n)"
    using Suc.prems calculation(2) by auto
  ultimately have "kfor [0..<Suc n] (wakeup_body c) s = Inr ((), (settled ?s)\<lparr>procs := (procs ?s)(n :=
    if Some n \<noteq> cur s \<and> pstate (procs ?s n) = SLEEPING \<and> pchan (procs ?s n) = Some c
    then (procs ?s n)\<lparr>pstate := RUNNABLE\<rparr> else procs ?s n)\<rparr>)"
    using wakeup_body_eq [of ?s n c] by (simp add: kfor_append kmonad)
  then show ?case by (simp add: woken_def fun_eq_iff less_Suc_eq)
qed (simp add: woken_def)

lemma woken_awake:
  "q < n \<Longrightarrow> Some q \<noteq> me \<Longrightarrow> \<not> (pstate (woken c me n P q) = SLEEPING \<and> pchan (woken c me n P q) = Some c)"
  by (simp add: woken_def)

lemma wakeup_eq:
  assumes "quiet proc_locks s"
  shows "wakeup c s = Inr ((), (settled s)\<lparr>procs := woken c (cur s) 64 (procs s)\<rparr>)"
  using assms wakeup_upto [of s 64 c] by (simp add: wakeup_def quiet_def)

text \<open>A process that sleeps gives up \<open>lk\<close> and keeps its own lock across the switch.\<close>

lemma release_under:
  assumes "lk_free m l" "irq_ok m" "l \<noteq> l'"
  shows "release l (taken l' (taken l m)) = Inr ((), taken l' m)"
proof -
  let ?t = "taken l' (taken l m)"
  have h: "holding l ?t" using assms(3) by (simp add: holding_def taken_def pushed_def machine_defs)
  have "upd_lk l (\<lambda>lk. lk\<lparr>locked := False\<rparr>) (upd_lk l (\<lambda>lk. lk\<lparr>lk_cpu := None\<rparr>) ?t) = pushed (taken l' m)"
    using assms by (cases m; cases "lks m l"; cases "cpus m (tp m)")
      (auto simp: taken_def pushed_def lk_free_def irq_ok_def machine_defs fun_eq_iff)
  moreover have "pop_off (pushed (taken l' m)) = Inr ((), taken l' m)"
    using pop_off_pushed [of "taken l' m"] assms(2) by simp
  ultimately show ?thesis using h by (simp add: release_def)
qed

lemma sleep_out_eq:
  assumes "cur s = Some p" "mach s = taken lk m" "lk_free m lk" "lk_free m (Proc_lock p)" "irq_ok m" "lk \<noteq> Proc_lock p"
    "noff (mycpu m) = 0"
  shows "sleep_out c lk s = Inr (sie m, s\<lparr>mach := taken (Proc_lock p) m,
    procs := (procs s)(p := (procs s p)\<lparr>pchan := Some c, pstate := SLEEPING\<rparr>)\<rparr>)"
proof -
  have c: "mcur m = Some p" using assms by simp
  have "holding (Proc_lock p) (taken (Proc_lock p) m)" "noff (mycpu (taken (Proc_lock p) m)) = 1"
    "\<not> intr_get (taken (Proc_lock p) m)" "intena (mycpu (taken (Proc_lock p) m)) = sie m"
    using assms by (auto simp: holding_def taken_def pushed_def machine_defs)
  moreover have "unlock_k lk (s\<lparr>mach := taken (Proc_lock p) (taken lk m)\<rparr>) = Inr ((), s\<lparr>mach := taken (Proc_lock p) m\<rparr>)"
    using assms by (simp add: on_mach_def release_under)
  ultimately show ?thesis
    using assms c by (simp add: sleep_out_def sched_out_def kmonad curproc_eq locking)
qed

lemma sleep_eq:
  assumes "cur s = Some p" "mach s = taken lk m" "lk_free m lk" "lk_free m (Proc_lock p)" "irq_ok m" "lk \<noteq> Proc_lock p"
    "noff (mycpu m) = 0"
  shows "sleep c lk s = Inl (Asleep c)"
  by (simp add: sleep_def kmonad sleep_out_eq [OF assms])

section \<open>The switch to the scheduler and back\<close>

definition set_cur :: "nat option \<Rightarrow> machine \<Rightarrow> machine" where
  "set_cur p m = upd_cpu (\<lambda>c. c\<lparr>cpu_proc := p\<rparr>) m"

lemma set_cur_simps [simp]:
  "mcur (set_cur p m) = p" "irq_ok (set_cur p m) = irq_ok m" "lk_free (set_cur p m) l = lk_free m l"
  "sie (set_cur p m) = sie m" "noff (mycpu (set_cur p m)) = noff (mycpu m)"
  "set_cur p (taken l m) = taken l (set_cur p m)" "settle (set_cur p m) = set_cur p (settle m)"
  "set_cur p (set_cur q m) = set_cur p m"
  by (simp_all add: set_cur_def mcur_def irq_ok_def lk_free_def taken_def pushed_def settle_def machine_defs)
    (cases m; cases "cpus m (tp m)"; simp)+

lemma set_cur_same: "mcur m = p \<Longrightarrow> set_cur p m = m"
  by (cases m) (auto simp: set_cur_def mcur_def machine_defs fun_eq_iff)

lemma scheduler_in_eq:
  assumes "mach s = taken (Proc_lock p) m" "lk_free m (Proc_lock p)" "irq_ok m"
  shows "scheduler_in p s = Inr ((), s\<lparr>mach := set_cur None (settle m)\<rparr>)"
  using assms by (simp add: scheduler_in_def kmonad on_mach_def set_cur_def [symmetric] release_taken)

lemma scheduler_out_eq:
  assumes "lk_free (mach s) (Proc_lock p)" "pstate (procs s p) = RUNNABLE"
  shows "scheduler_out p s = Inr (True, s\<lparr>mach := taken (Proc_lock p) (set_cur (Some p) (mach s)),
    procs := (procs s)(p := (procs s p)\<lparr>pstate := RUNNING\<rparr>)\<rparr>)"
  using assms by (simp add: scheduler_out_def kmonad on_mach_def acquire_eq set_cur_def [symmetric])

lemma sleep_in_eq:
  assumes "mach s = taken (Proc_lock p) m" "lk_free m (Proc_lock p)" "lk_free m lk" "irq_ok m" "noff (mycpu m) = 0"
  shows "sleep_in p lk (sie m) s = Inr ((), s\<lparr>mach := taken lk (settle m), procs := (procs s)(p := (procs s p)\<lparr>pchan := None\<rparr>)\<rparr>)"
proof -
  have "upd_cpu (\<lambda>c. c\<lparr>intena := sie m\<rparr>) (taken (Proc_lock p) m) = taken (Proc_lock p) m"
    using assms(5) by (cases m; cases "cpus m (tp m)") (simp add: taken_def pushed_def machine_defs)
  then show ?thesis
    using assms by (simp add: sleep_in_def sched_in_def kmonad on_mach_def release_taken acquire_eq)
qed

end
