(* ===== verification/Sleepwake.thy ===== *)
theory Sleepwake
  imports Proc
begin

text \<open>
  The protocol of \<^verbatim>\<open>sleep\<close> and \<^verbatim>\<open>wakeup\<close>, several harts at once.  A sleeper runs the loop that every
  caller of \<^verbatim>\<open>sleep\<close> runs,
  \<^verbatim>\<open>acquire(lk); while(!cond) sleep(chan, lk); release(lk)\<close>, and a waker runs
  \<^verbatim>\<open>acquire(lk); cond = 1; wakeup(chan); release(lk)\<close>.  A step is one lock operation or one access to
  the process state, in the order in which \<^verbatim>\<open>sleep\<close>, \<^verbatim>\<open>wakeup\<close>, \<^verbatim>\<open>sched\<close> and \<^verbatim>\<open>scheduler\<close> make them; a
  spinlock that is taken blocks its hart.  The scheduler's hart runs the sleeper when it is \<open>RUNNABLE\<close>,
  and releases its lock when it has switched away.
\<close>

datatype who = Sleeper | Waker | Sched

text \<open>Where the sleeper is: \<open>S_acq\<close> before \<^verbatim>\<open>acquire(lk)\<close>, \<open>S_test\<close> at the test of the loop,
  \<open>S_plock\<close> to \<open>S_swtch\<close> in \<^verbatim>\<open>sleep\<close>, \<open>S_off\<close> switched away, \<open>S_back\<close> and \<open>S_pun\<close> after \<^verbatim>\<open>sched\<close> returned,
  \<open>S_rel\<close> before the final release.\<close>

datatype spc = S_acq | S_test | S_plock | S_unlk | S_chan | S_state | S_swtch | S_off | S_back | S_pun | S_rel | S_done

datatype wpc = W_acq | W_cond | W_plock | W_wake | W_pun | W_rel | W_done

record swproto =
  sat :: spc
  wat :: wpc
  lkowner :: "who option"
  plowner :: "who option"
  st :: procstate
  onchan :: bool
  cond :: bool

inductive swstep :: "swproto \<Rightarrow> swproto \<Rightarrow> bool" where
  s_acq: "sat p = S_acq \<Longrightarrow> lkowner p = None \<Longrightarrow> swstep p (p\<lparr>lkowner := Some Sleeper, sat := S_test\<rparr>)"
| s_go: "sat p = S_test \<Longrightarrow> cond p \<Longrightarrow> swstep p (p\<lparr>sat := S_rel\<rparr>)"
| s_sleep: "sat p = S_test \<Longrightarrow> \<not> cond p \<Longrightarrow> swstep p (p\<lparr>sat := S_plock\<rparr>)"
| s_plock: "sat p = S_plock \<Longrightarrow> plowner p = None \<Longrightarrow> swstep p (p\<lparr>plowner := Some Sleeper, sat := S_unlk\<rparr>)"
| s_unlk: "sat p = S_unlk \<Longrightarrow> swstep p (p\<lparr>lkowner := None, sat := S_chan\<rparr>)"
| s_chan: "sat p = S_chan \<Longrightarrow> swstep p (p\<lparr>onchan := True, sat := S_state\<rparr>)"
| s_state: "sat p = S_state \<Longrightarrow> swstep p (p\<lparr>st := SLEEPING, sat := S_swtch\<rparr>)"
| sch_off: "sat p = S_swtch \<Longrightarrow> swstep p (p\<lparr>plowner := None, sat := S_off\<rparr>)"
| sch_run: "sat p = S_off \<Longrightarrow> plowner p = None \<Longrightarrow> st p = RUNNABLE \<Longrightarrow>
    swstep p (p\<lparr>plowner := Some Sched, st := RUNNING, sat := S_back\<rparr>)"
| s_back: "sat p = S_back \<Longrightarrow> swstep p (p\<lparr>onchan := False, sat := S_pun\<rparr>)"
| s_pun: "sat p = S_pun \<Longrightarrow> swstep p (p\<lparr>plowner := None, sat := S_acq\<rparr>)"
| s_rel: "sat p = S_rel \<Longrightarrow> swstep p (p\<lparr>lkowner := None, sat := S_done\<rparr>)"
| w_acq: "wat p = W_acq \<Longrightarrow> lkowner p = None \<Longrightarrow> swstep p (p\<lparr>lkowner := Some Waker, wat := W_cond\<rparr>)"
| w_cond: "wat p = W_cond \<Longrightarrow> swstep p (p\<lparr>cond := True, wat := W_plock\<rparr>)"
| w_plock: "wat p = W_plock \<Longrightarrow> plowner p = None \<Longrightarrow> swstep p (p\<lparr>plowner := Some Waker, wat := W_wake\<rparr>)"
| w_wake: "wat p = W_wake \<Longrightarrow> swstep p (p\<lparr>st := (if st p = SLEEPING \<and> onchan p then RUNNABLE else st p), wat := W_pun\<rparr>)"
| w_pun: "wat p = W_pun \<Longrightarrow> swstep p (p\<lparr>plowner := None, wat := W_rel\<rparr>)"
| w_rel: "wat p = W_rel \<Longrightarrow> swstep p (p\<lparr>lkowner := None, wat := W_done\<rparr>)"

definition swinit :: swproto where
  "swinit = \<lparr>sat = S_acq, wat = W_acq, lkowner = None, plowner = None, st = RUNNING, onchan = False, cond = False\<rparr>"

section \<open>The invariant\<close>

text \<open>Who holds the locks follows from where the two are; the condition is set from \<open>W_plock\<close> on; the
  sleeper is \<open>SLEEPING\<close> from \<open>S_swtch\<close> on until the waker, which is past \<open>W_wake\<close>, has woken it; and it
  enters \<^verbatim>\<open>sleep\<close> only while the waker has not yet got \<^verbatim>\<open>lk\<close>, so that the waker's \<^verbatim>\<open>acquire\<close> of its
  lock comes after \<open>S_swtch\<close>.\<close>

definition s_has_lk :: "spc \<Rightarrow> bool" where
  "s_has_lk x \<longleftrightarrow> x \<in> {S_test, S_plock, S_unlk, S_rel}"

definition w_has_lk :: "wpc \<Rightarrow> bool" where
  "w_has_lk x \<longleftrightarrow> x \<in> {W_cond, W_plock, W_wake, W_pun, W_rel}"

definition s_has_pl :: "spc \<Rightarrow> bool" where
  "s_has_pl x \<longleftrightarrow> x \<in> {S_unlk, S_chan, S_state, S_swtch, S_back, S_pun}"

definition w_has_pl :: "wpc \<Rightarrow> bool" where
  "w_has_pl x \<longleftrightarrow> x \<in> {W_wake, W_pun}"

definition swinv :: "swproto \<Rightarrow> bool" where
  "swinv p \<longleftrightarrow>
     (lkowner p = None \<longleftrightarrow> \<not> s_has_lk (sat p) \<and> \<not> w_has_lk (wat p)) \<and>
     (s_has_lk (sat p) \<longrightarrow> \<not> w_has_lk (wat p)) \<and>
     (plowner p = None \<longleftrightarrow> \<not> s_has_pl (sat p) \<and> \<not> w_has_pl (wat p)) \<and>
     (s_has_pl (sat p) \<longrightarrow> \<not> w_has_pl (wat p)) \<and>
     (cond p \<longleftrightarrow> wat p \<notin> {W_acq, W_cond}) \<and>
     (sat p \<in> {S_plock, S_unlk} \<longrightarrow> wat p = W_acq) \<and>
     (sat p \<in> {S_chan, S_state} \<longrightarrow> wat p \<in> {W_acq, W_cond, W_plock} \<and> st p = RUNNING) \<and>
     (sat p = S_state \<longrightarrow> onchan p) \<and>
     (sat p = S_swtch \<longrightarrow> wat p \<in> {W_acq, W_cond, W_plock}) \<and>
     (sat p \<in> {S_swtch, S_off} \<longrightarrow> onchan p \<and>
        st p = (if wat p \<in> {W_acq, W_cond, W_plock, W_wake} then SLEEPING else RUNNABLE)) \<and>
     (sat p \<in> {S_back, S_pun} \<longrightarrow> wat p \<in> {W_rel, W_done} \<and> st p = RUNNING) \<and>
     (sat p = S_acq \<or> sat p = S_rel \<or> sat p = S_done \<or> sat p = S_test \<or> sat p = S_plock \<or> sat p = S_unlk \<longrightarrow> st p = RUNNING) \<and>
     (sat p \<in> {S_rel, S_done} \<longrightarrow> cond p)"

lemmas sw_defs = s_has_lk_def w_has_lk_def s_has_pl_def w_has_pl_def

lemma swinv_init: "swinv swinit"
  by (simp add: swinv_def swinit_def sw_defs)

lemma swinv_step: "swstep p q \<Longrightarrow> swinv p \<Longrightarrow> swinv q"
  by (induction rule: swstep.induct; auto simp: swinv_def sw_defs split: if_splits; metis wpc.exhaust)

section \<open>No run is stuck, and none is endless\<close>

lemma sw_progress:
  assumes "swinv p" "\<not> (sat p = S_done \<and> wat p = W_done)"
  shows "\<exists>q. swstep p q"
proof (cases "wat p")
  case W_acq
  then show ?thesis using assms
    by (cases "sat p") (auto simp: swinv_def sw_defs intro: swstep.intros)
next
  case W_plock
  then show ?thesis using assms
    by (cases "sat p") (auto simp: swinv_def sw_defs intro: swstep.intros)
next
  case W_done
  then show ?thesis using assms
    by (cases "sat p") (auto simp: swinv_def sw_defs intro: swstep.intros)
qed (auto intro: swstep.intros)

text \<open>The number of steps that are left.\<close>

primrec wleft :: "wpc \<Rightarrow> nat" where
  "wleft W_acq = 6" | "wleft W_cond = 5" | "wleft W_plock = 4" | "wleft W_wake = 3" | "wleft W_pun = 2"
| "wleft W_rel = 1" | "wleft W_done = 0"

primrec sleft :: "bool \<Rightarrow> spc \<Rightarrow> nat" where
  "sleft c S_acq = (if c then 3 else 13)" | "sleft c S_test = (if c then 2 else 12)" | "sleft c S_plock = 11"
| "sleft c S_unlk = 10" | "sleft c S_chan = 9" | "sleft c S_state = 8" | "sleft c S_swtch = 7" | "sleft c S_off = 6"
| "sleft c S_back = 5" | "sleft c S_pun = 4" | "sleft c S_rel = 1" | "sleft c S_done = 0"

definition swleft :: "swproto \<Rightarrow> nat" where
  "swleft p = wleft (wat p) + sleft (cond p) (sat p)"

lemma sw_decreases: "swstep p q \<Longrightarrow> swinv p \<Longrightarrow> swleft q < swleft p"
proof (induction rule: swstep.induct)
  case (w_cond p)
  then show ?case by (cases "sat p") (auto simp: swleft_def)
qed (auto simp: swleft_def swinv_def)

lemma sw_run: "(swstep ^^ n) swinit p \<Longrightarrow> swinv p \<and> n + swleft p \<le> 19"
proof (induction n arbitrary: p)
  case 0
  then show ?case using swinv_init by (auto simp: swleft_def swinit_def)
next
  case (Suc n)
  then obtain q where q: "(swstep ^^ n) swinit q" "swstep q p" by auto
  then show ?case using Suc.IH [OF q(1)] swinv_step sw_decreases by fastforce
qed

section \<open>Property\<close>

text \<open>C13: no wakeup is lost.  In every interleaving of a process that sleeps until a condition holds and
  one that makes it hold and calls \<^verbatim>\<open>wakeup\<close>, a step is possible until both are finished, every run
  ends after at most 19 steps, and once \<^verbatim>\<open>wakeup\<close> is over a process that is still switched away is
  \<open>RUNNABLE\<close>.\<close>

theorem no_lost_wakeup:
  assumes "(swstep ^^ n) swinit p"
  shows "n \<le> 19 \<and> ((\<exists>q. swstep p q) \<or> sat p = S_done \<and> wat p = W_done) \<and>
    (sat p = S_off \<and> wat p \<in> {W_pun, W_rel, W_done} \<longrightarrow> st p = RUNNABLE)"
proof -
  have "swinv p" "n + swleft p \<le> 19" using sw_run [OF assms] by auto
  moreover from this(1) have "sat p = S_off \<and> wat p \<in> {W_pun, W_rel, W_done} \<longrightarrow> st p = RUNNABLE"
    by (auto simp: swinv_def)
  ultimately show ?thesis using sw_progress [of p] by auto
qed

theorem no_lost_wakeup_witness:
  "(swstep ^^ 2) swinit (swinit\<lparr>lkowner := Some Waker, wat := W_plock, cond := True\<rparr>) \<and>
   (\<exists>q. swstep (swinit\<lparr>lkowner := Some Waker, wat := W_plock, cond := True\<rparr>) q)"
proof -
  let ?p = "swinit\<lparr>lkowner := Some Waker, wat := W_cond\<rparr>"
  have 1: "swstep swinit ?p" using w_acq [of swinit] by (simp add: swinit_def)
  have 2: "swstep ?p (swinit\<lparr>lkowner := Some Waker, wat := W_plock, cond := True\<rparr>)"
    using w_cond [of ?p] by (simp add: swinit_def)
  have "(swstep ^^ 2) swinit (swinit\<lparr>lkowner := Some Waker, wat := W_plock, cond := True\<rparr>)"
    using 1 2 by (auto simp: numeral_2_eq_2)
  from no_lost_wakeup [OF this] this show ?thesis by (simp add: swinit_def)
qed

end
