(* ===== verification/Sleeplock.thy ===== *)
theory Sleeplock
  imports Proc
begin

text \<open>
  \<^verbatim>\<open>kernel/sleeplock.c\<close>.  A sleep lock is named by the buffer or the inode that embeds it; its spinlock
  and its wait channel follow from the name.
\<close>

datatype sleepid = Buf_sl nat | Inode_sl nat

record sleeplock =
  sl_locked :: bool
  sl_name :: string
  sl_pid :: int

record sltable = ptable +
  sls :: "sleepid \<Rightarrow> sleeplock"

primrec sl_lk :: "sleepid \<Rightarrow> lockid" where
  "sl_lk (Buf_sl n) = Buf_lk n"
| "sl_lk (Inode_sl n) = Inode_lk n"

primrec sl_chan :: "sleepid \<Rightarrow> chan" where
  "sl_chan (Buf_sl n) = Chan_buf_lock n"
| "sl_chan (Inode_sl n) = Chan_inode_lock n"

abbreviation upd_sl :: "sleepid \<Rightarrow> (sleeplock \<Rightarrow> sleeplock) \<Rightarrow> ('a sltable_scheme, unit) km" where
  "upd_sl l f \<equiv> kmod (\<lambda>s. s\<lparr>sls := (sls s)(l := f (sls s l))\<rparr>)"

section \<open>Operations\<close>

definition initsleeplock :: "sleepid \<Rightarrow> string \<Rightarrow> ('a sltable_scheme, unit) km" where
  "initsleeplock l name =
     kseq (on_mach (initlock (sl_lk l) ''sleep lock''))
    (kseq (upd_sl l (\<lambda>x. x\<lparr>sl_name := name\<rparr>))
    (kseq (upd_sl l (\<lambda>x. x\<lparr>sl_locked := False\<rparr>))
          (upd_sl l (\<lambda>x. x\<lparr>sl_pid := 0\<rparr>))))"

text \<open>The loop of \<^verbatim>\<open>acquiresleep\<close> leaves at once when the lock is free; otherwise the process sleeps.\<close>

definition acquiresleep :: "sleepid \<Rightarrow> ('a sltable_scheme, unit) km" where
  "acquiresleep l =
     kseq (lock_k (sl_lk l))
    (kbind (kgets (\<lambda>s. sl_locked (sls s l))) (\<lambda>busy.
     if busy then sleep (sl_chan l) (sl_lk l)
     else kseq (upd_sl l (\<lambda>x. x\<lparr>sl_locked := True\<rparr>))
         (kbind curproc (\<lambda>p.
          kbind (getp pid p) (\<lambda>id.
          kseq (upd_sl l (\<lambda>x. x\<lparr>sl_pid := id\<rparr>))
               (unlock_k (sl_lk l)))))))"

definition releasesleep :: "sleepid \<Rightarrow> ('a sltable_scheme, unit) km" where
  "releasesleep l =
     kseq (lock_k (sl_lk l))
    (kseq (upd_sl l (\<lambda>x. x\<lparr>sl_locked := False\<rparr>))
    (kseq (upd_sl l (\<lambda>x. x\<lparr>sl_pid := 0\<rparr>))
    (kseq (wakeup (sl_chan l))
          (unlock_k (sl_lk l)))))"

definition holdingsleep :: "sleepid \<Rightarrow> ('a sltable_scheme, bool) km" where
  "holdingsleep l =
     kseq (lock_k (sl_lk l))
    (kbind (kgets (\<lambda>s. sls s l)) (\<lambda>x.
     kbind (if sl_locked x then kbind curproc (\<lambda>p. kbind (getp pid p) (\<lambda>id. kret (sl_pid x = id))) else kret False) (\<lambda>r.
     kseq (unlock_k (sl_lk l))
          (kret r))))"

section \<open>Their effect when the spinlocks are free\<close>

text \<open>\<open>runs p s\<close>: this hart runs process \<open>p\<close> and can take every spinlock without spinning.\<close>

definition runs :: "nat \<Rightarrow> 'a ptable_scheme \<Rightarrow> bool" where
  "runs p s \<longleftrightarrow> cur s = Some p \<and> irq_ok (mach s) \<and> (\<forall>l. lk_free (mach s) l)"

lemma runs_settled [simp]: "runs p (s\<lparr>mach := settle m\<rparr>) = runs p (s\<lparr>mach := m\<rparr>)"
  by (simp add: runs_def)

lemma runs_quiet: "runs p s \<Longrightarrow> quiet L s"
  by (simp add: runs_def quiet_def)

lemma sl_lk_not_proc [simp]: "Proc_lock q \<noteq> sl_lk l" "sl_lk l \<noteq> Proc_lock q"
  by (cases l; simp)+

lemma acquiresleep_eq:
  assumes "runs p s" "\<not> sl_locked (sls s l)"
  shows "acquiresleep l s = Inr ((), (settled s)\<lparr>sls := (sls s)(l := (sls s l)\<lparr>sl_locked := True, sl_pid := pid (procs s p)\<rparr>)\<rparr>)"
  using assms by (simp add: acquiresleep_def runs_def kmonad locking curproc_eq)

lemma acquiresleep_busy:
  assumes "runs p s" "sl_locked (sls s l)" "noff (mycpu (mach s)) = 0"
  shows "acquiresleep l s = Inl (Asleep (sl_chan l))"
  using assms sleep_eq [of "s\<lparr>mach := taken (sl_lk l) (mach s)\<rparr>" p "sl_lk l" "mach s" "sl_chan l"]
  by (simp add: acquiresleep_def runs_def kmonad locking)

lemma wakeup_taken:
  assumes "runs p s" "\<forall>q. l \<noteq> Proc_lock q"
  shows "wakeup c (s\<lparr>mach := taken l (mach s)\<rparr>) = Inr ((), s\<lparr>mach := taken l (mach s), procs := woken c (Some p) 64 (procs s)\<rparr>)"
proof -
  have "quiet proc_locks (s\<lparr>mach := taken l (mach s)\<rparr>)" using assms by (auto simp: quiet_def runs_def)
  then show ?thesis using assms by (simp add: wakeup_eq runs_def)
qed

lemma releasesleep_eq:
  assumes "runs p s"
  shows "releasesleep l s = Inr ((), (settled s)\<lparr>sls := (sls s)(l := (sls s l)\<lparr>sl_locked := False, sl_pid := 0\<rparr>),
    procs := woken (sl_chan l) (Some p) 64 (procs s)\<rparr>)"
proof -
  have q: "quiet proc_locks (s\<lparr>mach := taken (sl_lk l) (mach s), sls := f\<rparr>)" for f
    using assms by (auto simp: quiet_def runs_def)
  show ?thesis using assms
    by (simp add: releasesleep_def runs_def kmonad locking wakeup_eq [OF q])
qed

lemma holdingsleep_eq:
  assumes "runs p s"
  shows "holdingsleep l s = Inr (sl_locked (sls s l) \<and> sl_pid (sls s l) = pid (procs s p), settled s)"
  using assms by (simp add: holdingsleep_def runs_def kmonad locking curproc_eq)

end
