(* ===== verification/Bio.thy ===== *)
theory Bio
  imports Sleeplock
begin

text \<open>
  \<^verbatim>\<open>kernel/bio.c\<close>: the cache of disk blocks.  Buffers are numbered; \<open>HEAD\<close> is \<^verbatim>\<open>bcache.head\<close>.  The data of a
  buffer lies in the modelled memory, inside the array \<^verbatim>\<open>bcache.buf\<close>, at the address \<open>bdata\<close>.  The list of
  buffers in order of use is the doubly linked list of the C code; \<open>lru\<close> reads it back.

  The disk is a map from block numbers to blocks.  \<open>disk_rw\<close> is what a disk driver has to do; theory
  \<open>Vring\<close> shows that \<^verbatim>\<open>virtio_disk_rw\<close> does it.  \<open>dtrace\<close> records the writes to the disk in their
  order: a crash leaves the disk as some prefix of them made it.
\<close>

abbreviation (input) BSIZE :: nat where "BSIZE \<equiv> 1024"
abbreviation (input) HEAD :: nat where "HEAD \<equiv> 30"

type_synonym block = "uint8 list"

record buf =
  b_valid :: bool
  b_disk :: bool
  b_dev :: uint32
  b_blockno :: uint32
  b_refcnt :: uint32
  b_prev :: nat
  b_next :: nat

record bcache = sltable +
  bufs :: "nat \<Rightarrow> buf"
  bcache_at :: addr
  disk :: "uint32 \<Rightarrow> block"
  dtrace :: "(uint32 \<times> block) list"

abbreviation upd_buf :: "nat \<Rightarrow> (buf \<Rightarrow> buf) \<Rightarrow> ('a bcache_scheme, unit) km" where
  "upd_buf b f \<equiv> kmod (\<lambda>s. s\<lparr>bufs := (bufs s)(b := f (bufs s b))\<rparr>)"

abbreviation getb :: "(buf \<Rightarrow> 'x) \<Rightarrow> nat \<Rightarrow> ('a bcache_scheme, 'x) km" where
  "getb f b \<equiv> kgets (\<lambda>s. f (bufs s b))"

text \<open>\<^verbatim>\<open>struct buf\<close> takes 1112 bytes, with \<^verbatim>\<open>data\<close> at offset 88; the array follows the spinlock of 24 bytes.\<close>

definition bdata_at :: "addr \<Rightarrow> nat \<Rightarrow> addr" where
  "bdata_at base b = base + 24 + 1112 * of_nat b + 88"

abbreviation bdata :: "'a bcache_scheme \<Rightarrow> nat \<Rightarrow> addr" where
  "bdata s b \<equiv> bdata_at (bcache_at s) b"

section \<open>Blocks in memory\<close>

definition rd_block :: "ram \<Rightarrow> addr \<Rightarrow> block" where
  "rd_block m a = map (\<lambda>i. m (a + of_nat i)) [0..<BSIZE]"

definition wr_block :: "ram \<Rightarrow> addr \<Rightarrow> block \<Rightarrow> ram" where
  "wr_block m a v = (\<lambda>x. if unat (x - a) < BSIZE then v ! unat (x - a) else m x)"

text \<open>What the disk driver does for a buffer: it transfers the block.\<close>

definition disk_rw :: "nat \<Rightarrow> bool \<Rightarrow> ('a bcache_scheme, unit) km" where
  "disk_rw b wr = kmod (\<lambda>s.
     let n = b_blockno (bufs s b); v = rd_block (ram s) (bdata s b) in
     if wr then s\<lparr>disk := (disk s)(n := v), dtrace := dtrace s @ [(n, v)]\<rparr>
     else s\<lparr>ram := wr_block (ram s) (bdata s b) (disk s n)\<rparr>)"

section \<open>Operations\<close>

definition set_next :: "nat \<Rightarrow> nat \<Rightarrow> ('a bcache_scheme, unit) km" where
  "set_next b x = upd_buf b (\<lambda>y. y\<lparr>b_next := x\<rparr>)"

definition set_prev :: "nat \<Rightarrow> nat \<Rightarrow> ('a bcache_scheme, unit) km" where
  "set_prev b x = upd_buf b (\<lambda>y. y\<lparr>b_prev := x\<rparr>)"

text \<open>\<^verbatim>\<open>b->next = bcache.head.next; b->prev = &bcache.head;\<close> and, after \<^verbatim>\<open>middle\<close>,
  \<^verbatim>\<open>bcache.head.next->prev = b; bcache.head.next = b;\<close>\<close>

definition link_front :: "nat \<Rightarrow> ('a bcache_scheme, unit) km \<Rightarrow> ('a bcache_scheme, unit) km" where
  "link_front b middle =
     kbind (getb b_next HEAD) (\<lambda>h.
     kseq (set_next b h)
    (kseq (set_prev b HEAD)
    (kseq middle
    (kbind (getb b_next HEAD) (\<lambda>h.
     kseq (set_prev h b)
          (set_next HEAD b))))))"

definition binit :: "('a bcache_scheme, unit) km" where
  "binit =
     kseq (on_mach (initlock Bcache_lock ''bcache''))
    (kseq (set_prev HEAD HEAD)
    (kseq (set_next HEAD HEAD)
    (kfor [0..<NBUF] (\<lambda>b. link_front b (initsleeplock (Buf_sl b) ''buffer'')))))"

text \<open>The two searches of \<^verbatim>\<open>bget\<close>, from buffer \<open>b\<close> on; the list has at most \<open>NBUF\<close> buffers before \<open>HEAD\<close>.\<close>

primrec bget_cached :: "nat \<Rightarrow> uint32 \<Rightarrow> uint32 \<Rightarrow> nat \<Rightarrow> ('a bcache_scheme, nat option) km" where
  "bget_cached 0 dev blockno b = kfail Out_of_fuel"
| "bget_cached (Suc n) dev blockno b =
     (if b = HEAD then kret None
      else kbind (kgets (\<lambda>s. bufs s b)) (\<lambda>x.
           if b_dev x = dev \<and> b_blockno x = blockno
           then kseq (upd_buf b (\<lambda>y. y\<lparr>b_refcnt := b_refcnt y + 1\<rparr>))
               (kseq (unlock_k Bcache_lock)
               (kseq (acquiresleep (Buf_sl b))
                     (kret (Some b))))
           else bget_cached n dev blockno (b_next x)))"

primrec bget_recycle :: "nat \<Rightarrow> uint32 \<Rightarrow> uint32 \<Rightarrow> nat \<Rightarrow> ('a bcache_scheme, nat) km" where
  "bget_recycle 0 dev blockno b = kfail Out_of_fuel"
| "bget_recycle (Suc n) dev blockno b =
     (if b = HEAD then kpanic ''bget: no buffers''
      else kbind (kgets (\<lambda>s. bufs s b)) (\<lambda>x.
           if b_refcnt x = 0
           then kseq (upd_buf b (\<lambda>y. y\<lparr>b_dev := dev, b_blockno := blockno, b_valid := False, b_refcnt := 1\<rparr>))
               (kseq (unlock_k Bcache_lock)
               (kseq (acquiresleep (Buf_sl b))
                     (kret b)))
           else bget_recycle n dev blockno (b_prev x)))"

definition bget :: "uint32 \<Rightarrow> uint32 \<Rightarrow> ('a bcache_scheme, nat) km" where
  "bget dev blockno =
     kseq (lock_k Bcache_lock)
    (kbind (getb b_next HEAD) (\<lambda>first.
     kbind (bget_cached (Suc NBUF) dev blockno first) (\<lambda>r.
     case r of
       Some b \<Rightarrow> kret b
     | None \<Rightarrow> kbind (getb b_prev HEAD) (\<lambda>last. bget_recycle (Suc NBUF) dev blockno last))))"

definition bread :: "uint32 \<Rightarrow> uint32 \<Rightarrow> ('a bcache_scheme, nat) km" where
  "bread dev blockno =
     kbind (bget dev blockno) (\<lambda>b.
     kbind (getb b_valid b) (\<lambda>v.
     kseq (kwhen (\<not> v) (kseq (disk_rw b False) (upd_buf b (\<lambda>y. y\<lparr>b_valid := True\<rparr>))))
          (kret b)))"

definition bwrite :: "nat \<Rightarrow> ('a bcache_scheme, unit) km" where
  "bwrite b =
     kbind (holdingsleep (Buf_sl b)) (\<lambda>h.
     if \<not> h then kpanic ''bwrite'' else disk_rw b True)"

definition brelse :: "nat \<Rightarrow> ('a bcache_scheme, unit) km" where
  "brelse b =
     kbind (holdingsleep (Buf_sl b)) (\<lambda>h.
     if \<not> h then kpanic ''brelse''
     else kseq (releasesleep (Buf_sl b))
    (kseq (lock_k Bcache_lock)
    (kseq (upd_buf b (\<lambda>y. y\<lparr>b_refcnt := b_refcnt y - 1\<rparr>))
    (kbind (getb b_refcnt b) (\<lambda>c.
     kseq (kwhen (c = 0)
       (kbind (kgets (\<lambda>s. bufs s b)) (\<lambda>x.
        kseq (set_prev (b_next x) (b_prev x))
       (kbind (kgets (\<lambda>s. bufs s b)) (\<lambda>x.
        kseq (set_next (b_prev x) (b_next x))
             (link_front b (kret ())))))))
          (unlock_k Bcache_lock))))))"

definition bpin :: "nat \<Rightarrow> ('a bcache_scheme, unit) km" where
  "bpin b =
     kseq (lock_k Bcache_lock)
    (kseq (upd_buf b (\<lambda>y. y\<lparr>b_refcnt := b_refcnt y + 1\<rparr>))
          (unlock_k Bcache_lock))"

definition bunpin :: "nat \<Rightarrow> ('a bcache_scheme, unit) km" where
  "bunpin b =
     kseq (lock_k Bcache_lock)
    (kseq (upd_buf b (\<lambda>y. y\<lparr>b_refcnt := b_refcnt y - 1\<rparr>))
          (unlock_k Bcache_lock))"

end
