(* ===== verification/Bring.thy ===== *)
theory Bring
  imports Bio
begin

text \<open>
  The doubly linked list of the buffer cache: \<open>ring B xs\<close> says that following \<^verbatim>\<open>next\<close> from \<^verbatim>\<open>bcache.head\<close>
  visits the buffers \<open>xs\<close> and comes back, and that \<^verbatim>\<open>prev\<close> visits them in the opposite order.
\<close>

primrec path :: "(nat \<Rightarrow> nat) \<Rightarrow> nat \<Rightarrow> nat list \<Rightarrow> nat \<Rightarrow> bool" where
  "path nx a [] z \<longleftrightarrow> nx a = z"
| "path nx a (x # xs) z \<longleftrightarrow> nx a = x \<and> path nx x xs z"

definition ring :: "(nat \<Rightarrow> buf) \<Rightarrow> nat list \<Rightarrow> bool" where
  "ring B xs \<longleftrightarrow> path (\<lambda>b. b_next (B b)) HEAD xs HEAD \<and> path (\<lambda>b. b_prev (B b)) HEAD (rev xs) HEAD \<and>
     distinct xs \<and> HEAD \<notin> set xs"

lemma path_append: "path nx a (xs @ y # ys) z \<longleftrightarrow> path nx a xs y \<and> path nx y ys z"
  by (induction xs arbitrary: a) auto

lemma path_cong: "(\<And>x. x = a \<or> x \<in> set xs \<Longrightarrow> nx x = nx' x) \<Longrightarrow> path nx a xs z = path nx' a xs z"
  by (induction xs arbitrary: a) auto

lemma path_first: "path nx a xs z \<Longrightarrow> nx a = hd (xs @ [z])"
  by (cases xs) auto

lemma path_remove:
  assumes "path nx a (xs @ b # ys) z" "distinct (a # xs @ b # ys)"
  shows "path (nx(last (a # xs) := nx b)) a (xs @ ys) z"
  using assms
proof (induction xs arbitrary: a)
  case Nil
  define nx' where "nx' = nx(a := nx b)"
  have "path nx' y zs z = path nx y zs z" if "ys = y # zs" for y zs
    using Nil.prems that by (intro path_cong) (auto simp: nx'_def)
  moreover have "nx' a = nx b" by (simp add: nx'_def)
  ultimately have "path nx' a ys z" using Nil by (cases ys) auto
  then show ?case by (simp only: nx'_def last.simps simp_thms if_True append_Nil)
next
  case (Cons x xs)
  then have "last (x # xs) \<noteq> a" by (metis distinct.simps(2) in_set_conv_decomp last_in_set list.discI set_append UnI1 append_Cons)
  then show ?case using Cons by auto
qed

lemma path_last: "path nx a xs z \<Longrightarrow> nx (last (a # xs)) = z"
  by (induction xs arbitrary: a) auto

text \<open>The links depend only on the two pointer fields.\<close>

lemma ring_cong:
  "(\<And>b. b_next (B b) = b_next (B' b) \<and> b_prev (B b) = b_prev (B' b)) \<Longrightarrow> ring B xs = ring B' xs"
  by (simp add: ring_def)

lemma ring_data [simp]:
  "b_next y = b_next (B b) \<Longrightarrow> b_prev y = b_prev (B b) \<Longrightarrow> ring (B(b := y)) xs = ring B xs"
  by (rule ring_cong) simp

section \<open>Insertion at the front and removal\<close>

definition linked :: "(nat \<Rightarrow> buf) \<Rightarrow> nat \<Rightarrow> nat \<Rightarrow> buf" where
  "linked B b =
     (let h = b_next (B HEAD);
          B1 = B(b := (B b)\<lparr>b_next := h\<rparr>);
          B2 = B1(b := (B1 b)\<lparr>b_prev := HEAD\<rparr>);
          h = b_next (B2 HEAD);
          B3 = B2(h := (B2 h)\<lparr>b_prev := b\<rparr>)
      in B3(HEAD := (B3 HEAD)\<lparr>b_next := b\<rparr>))"

definition unlinked :: "(nat \<Rightarrow> buf) \<Rightarrow> nat \<Rightarrow> nat \<Rightarrow> buf" where
  "unlinked B b =
     (let n = b_next (B b);
          B1 = B(n := (B n)\<lparr>b_prev := b_prev (B b)\<rparr>);
          p = b_prev (B1 b)
      in B1(p := (B1 p)\<lparr>b_next := b_next (B1 b)\<rparr>))"

lemma link_front_eq:
  assumes "middle (s\<lparr>bufs := B2\<rparr>) = Inr ((), s'\<lparr>bufs := B2\<rparr>)"
    "B2 = (bufs s)(b := (bufs s b)\<lparr>b_next := b_next (bufs s HEAD), b_prev := HEAD\<rparr>)"
  shows "link_front b middle s = Inr ((), s'\<lparr>bufs := linked (bufs s) b\<rparr>)"
  using assms by (simp add: link_front_def set_next_def set_prev_def kmonad linked_def Let_def)

lemma linked_next:
  assumes "b \<noteq> HEAD"
  shows "b_next (linked B b x) = (if x = HEAD then b else if x = b then b_next (B HEAD) else b_next (B x))"
  using assms by (simp add: linked_def Let_def)

lemma linked_prev:
  assumes "b \<noteq> HEAD" "b_next (B HEAD) \<noteq> b"
  shows "b_prev (linked B b x) = (if x = b_next (B HEAD) then b else if x = b then HEAD else b_prev (B x))"
  using assms by (auto simp: linked_def Let_def)

lemma ring_linked:
  assumes "ring B xs" "b \<notin> set xs" "b \<noteq> HEAD"
  shows "ring (linked B b) (b # xs)"
proof -
  have h: "b_next (B HEAD) = hd (xs @ [HEAD])" using assms(1) path_first [of "\<lambda>b. b_next (B b)" HEAD xs HEAD] by (simp add: ring_def)
  then have hb: "b_next (B HEAD) \<noteq> b" using assms(2,3) by (cases xs) auto
  have "path (\<lambda>x. b_next (linked B b x)) b xs HEAD"
  proof (cases xs)
    case Nil
    then show ?thesis using assms h by (simp add: linked_next)
  next
    case (Cons y ys)
    then have "path (\<lambda>x. b_next (B x)) y ys HEAD" "b_next (B HEAD) = y" using assms(1) by (auto simp: ring_def)
    moreover have "path (\<lambda>x. b_next (linked B b x)) y ys HEAD = path (\<lambda>x. b_next (B x)) y ys HEAD"
      using Cons assms by (intro path_cong) (auto simp: linked_next ring_def)
    ultimately show ?thesis using Cons assms(3) by (simp add: linked_next)
  qed
  moreover have "path (\<lambda>x. b_prev (linked B b x)) HEAD (rev (b # xs)) HEAD"
  proof (cases xs)
    case Nil
    then show ?thesis using assms h hb by (simp add: linked_prev)
  next
    case (Cons y ys)
    then have "path (\<lambda>x. b_prev (B x)) HEAD (rev ys) y" using assms(1) by (simp add: ring_def path_append)
    moreover have "path (\<lambda>x. b_prev (linked B b x)) HEAD (rev ys) y = path (\<lambda>x. b_prev (B x)) HEAD (rev ys) y"
      using Cons assms h hb by (intro path_cong) (auto simp: linked_prev ring_def)
    ultimately show ?thesis using Cons h hb assms(2,3) by (simp add: path_append linked_prev)
  qed
  ultimately show ?thesis using assms by (simp add: ring_def linked_next)
qed

lemma ring_neighbours:
  assumes "ring B (xs @ b # ys)"
  shows "b_next (B b) = hd (ys @ [HEAD])" "b_prev (B b) = last (HEAD # xs)"
proof -
  show "b_next (B b) = hd (ys @ [HEAD])" using assms by (auto simp: ring_def path_append dest: path_first)
  have "path (\<lambda>x. b_prev (B x)) b (rev xs) HEAD" using assms by (simp add: ring_def path_append)
  then show "b_prev (B b) = last (HEAD # xs)" by (auto simp: hd_rev dest!: path_first split: if_splits)
qed

lemma unlinked_next:
  assumes "b_prev (B b) \<noteq> b" "b_next (B b) \<noteq> b"
  shows "b_next (unlinked B b x) = (if x = b_prev (B b) then b_next (B b) else b_next (B x))"
  using assms by (auto simp: unlinked_def Let_def)

lemma unlinked_prev:
  assumes "b_prev (B b) \<noteq> b" "b_next (B b) \<noteq> b"
  shows "b_prev (unlinked B b x) = (if x = b_next (B b) then b_prev (B b) else b_prev (B x))"
  using assms by (auto simp: unlinked_def Let_def)

lemma ring_unlinked:
  assumes r: "ring B (xs @ b # ys)"
  shows "ring (unlinked B b) (xs @ ys)"
proof -
  let ?p = "last (HEAD # xs)" and ?n = "hd (ys @ [HEAD])"
  note nb = ring_neighbours [OF r]
  have d: "b \<noteq> HEAD" "b \<notin> set xs" "b \<notin> set ys" "HEAD \<notin> set xs" "HEAD \<notin> set ys" "set xs \<inter> set ys = {}"
    using r by (auto simp: ring_def)
  have ne: "b_prev (B b) \<noteq> b" "b_next (B b) \<noteq> b" using nb d by (cases xs rule: rev_cases; cases ys; auto)+
  have nx: "(\<lambda>x. b_next (unlinked B b x)) = (\<lambda>x. b_next (B x))(?p := b_next (B b))"
    and pv: "(\<lambda>x. b_prev (unlinked B b x)) = (\<lambda>x. b_prev (B x))(?n := b_prev (B b))"
    using ne nb by (auto simp: fun_eq_iff unlinked_next unlinked_prev)
  have n: "?n = last (HEAD # rev ys)" by (cases ys) auto
  have "path (\<lambda>x. b_next (unlinked B b x)) HEAD (xs @ ys) HEAD"
    unfolding nx by (rule path_remove) (use r in \<open>auto simp: ring_def\<close>)
  moreover have "path (\<lambda>x. b_prev (unlinked B b x)) HEAD (rev ys @ rev xs) HEAD"
    unfolding pv n by (rule path_remove) (use r in \<open>auto simp: ring_def\<close>)
  ultimately show ?thesis using r by (simp add: ring_def)
qed

end
