(* ===== verification/Bcoh.thy ===== *)
theory Bcoh
  imports Bring
begin

text \<open>
  What the buffer cache promises.  \<open>binv H P s\<close> is its invariant: \<open>H\<close> are the buffers this process has
  locked, \<open>P\<close> the ones the log has pinned.  \<open>blk s n\<close> is the block \<open>n\<close> as the kernel sees it, the cached copy when there is one.
  \<open>bread\<close> returns a locked buffer that holds it; only a write to the memory of a locked buffer changes it.
\<close>

section \<open>Blocks in memory\<close>

lemma length_rd_block [simp]: "length (rd_block m a) = BSIZE"
  by (simp add: rd_block_def)

lemma rd_block_nth [simp]: "i < BSIZE \<Longrightarrow> rd_block m a ! i = m (a + of_nat i)"
  by (simp add: rd_block_def)

lemma unat_small_add: "i < BSIZE \<Longrightarrow> unat ((a + of_nat i) - (a :: uint64)) = i"
  by (simp add: unat_of_nat)

lemma rd_wr_block [simp]: "length v = BSIZE \<Longrightarrow> rd_block (wr_block m a v) a = v"
  by (rule nth_equalityI) (simp_all add: wr_block_def unat_of_nat)

lemma rd_block_cong: "(\<And>x. unat (x - a) < BSIZE \<Longrightarrow> m x = m' x) \<Longrightarrow> rd_block m a = rd_block m' a"
  by (rule nth_equalityI) (simp_all add: unat_of_nat)

lemma bdata_disjoint:
  assumes "b < 30" "c < 30" "b \<noteq> c" "unat (x - bdata_at base b) < BSIZE"
  shows "\<not> unat (x - bdata_at base c) < BSIZE"
proof -
  define u where "u = unat (x - bdata_at base b)"
  have x: "x - bdata_at base b = of_nat u" by (simp add: u_def)
  have "u < 1024" using assms(4) by (simp only: u_def)
  then have "int u < 1024" by linarith
  define d where "d = int u + 1112 * int b - 1112 * int c"
  have "x - bdata_at base c = (x - bdata_at base b) + (1112 * of_nat b - 1112 * of_nat c)"
    by (simp add: bdata_at_def)
  also have "\<dots> = of_int d" by (simp add: x d_def)
  finally have e: "x - bdata_at base c = of_int d" .
  have d: "- 40000 < d" "d < 40000" "d < 0 \<or> 1024 \<le> d"
    using assms \<open>int u < 1024\<close> by (auto simp: d_def)
  have "uint (of_int d :: uint64) = d mod 2 ^ 64" by (simp add: uint_word_of_int)
  also have "\<dots> = (if d < 0 then d + 2 ^ 64 else d)"
  proof (cases "d < 0")
    case True
    have "d mod 2 ^ 64 = (d + 2 ^ 64) mod 2 ^ 64" by simp
    also have "\<dots> = d + 2 ^ 64" using d True by (intro mod_pos_pos_trivial) auto
    finally show ?thesis using True by simp
  qed (use d in simp)
  finally show ?thesis using d e by (auto simp: unat_eq_nat_uint split: if_splits)
qed

section \<open>The searches of bget\<close>

lemma find_SomeD: "find Q xs = Some b \<Longrightarrow> b \<in> set xs \<and> Q b"
  by (auto simp: find_Some_iff)

lemma bget_cached_eq:
  assumes "path (\<lambda>b. b_next (bufs s b)) a zs HEAD" "length zs < n" "HEAD \<notin> set zs"
  shows "bget_cached n dev bn (b_next (bufs s a)) s =
    (case find (\<lambda>b. b_dev (bufs s b) = dev \<and> b_blockno (bufs s b) = bn) zs of
       None \<Rightarrow> Inr (None, s)
     | Some b \<Rightarrow> kseq (upd_buf b (\<lambda>y. y\<lparr>b_refcnt := b_refcnt y + 1\<rparr>))
               (kseq (unlock_k Bcache_lock) (kseq (acquiresleep (Buf_sl b)) (kret (Some b)))) s)"
  using assms
proof (induction zs arbitrary: a n)
  case Nil
  then show ?case by (cases n) auto
next
  case (Cons z zs)
  obtain k where "n = Suc k" using Cons.prems(2) by (cases n) auto
  then show ?case using Cons.IH [of z k] Cons.prems by auto
qed

lemma bget_recycle_eq:
  assumes "path (\<lambda>b. b_prev (bufs s b)) a zs HEAD" "length zs < n" "HEAD \<notin> set zs"
  shows "bget_recycle n dev bn (b_prev (bufs s a)) s =
    (case find (\<lambda>b. b_refcnt (bufs s b) = 0) zs of
       None \<Rightarrow> Inl (Panic ''bget: no buffers'')
     | Some b \<Rightarrow> kseq (upd_buf b (\<lambda>y. y\<lparr>b_dev := dev, b_blockno := bn, b_valid := False, b_refcnt := 1\<rparr>))
               (kseq (unlock_k Bcache_lock) (kseq (acquiresleep (Buf_sl b)) (kret b))) s)"
  using assms
proof (induction zs arbitrary: a n)
  case Nil
  then show ?case by (cases n) auto
next
  case (Cons z zs)
  obtain k where "n = Suc k" using Cons.prems(2) by (cases n) auto
  then show ?case using Cons.IH [of z k] Cons.prems by auto
qed

text \<open>The buffer \<open>b\<close>, changed by \<open>f\<close> and locked by process \<open>p\<close>.\<close>

definition grabbed :: "nat \<Rightarrow> nat \<Rightarrow> (buf \<Rightarrow> buf) \<Rightarrow> 'a bcache_scheme \<Rightarrow> 'a bcache_scheme" where
  "grabbed p b f s = (settled s)\<lparr>bufs := (bufs s)(b := f (bufs s b)),
     sls := (sls s)(Buf_sl b := (sls s (Buf_sl b))\<lparr>sl_locked := True, sl_pid := pid (procs s p)\<rparr>)\<rparr>"

lemma bget_eq:
  assumes "runs p s" "ring (bufs s) xs" "length xs \<le> 30" "\<And>b. b \<in> set xs \<Longrightarrow> b_refcnt (bufs s b) = 0 \<Longrightarrow> \<not> sl_locked (sls s (Buf_sl b))"
    "\<And>b. b \<in> set xs \<Longrightarrow> b_dev (bufs s b) = dev \<Longrightarrow> b_blockno (bufs s b) = bn \<Longrightarrow> \<not> sl_locked (sls s (Buf_sl b))"
  shows "bget dev bn s =
    (case find (\<lambda>b. b_dev (bufs s b) = dev \<and> b_blockno (bufs s b) = bn) xs of
       Some b \<Rightarrow> Inr (b, grabbed p b (\<lambda>y. y\<lparr>b_refcnt := b_refcnt y + 1\<rparr>) s)
     | None \<Rightarrow> (case find (\<lambda>b. b_refcnt (bufs s b) = 0) (rev xs) of
         Some b \<Rightarrow> Inr (b, grabbed p b (\<lambda>y. y\<lparr>b_dev := dev, b_blockno := bn, b_valid := False, b_refcnt := 1\<rparr>) s)
       | None \<Rightarrow> Inl (Panic ''bget: no buffers'')))"
proof -
  let ?s = "s\<lparr>mach := taken Bcache_lock (mach s)\<rparr>"
  have m: "irq_ok (mach s)" "lk_free (mach s) Bcache_lock" using assms(1) by (auto simp: runs_def)
  have take: "kseq (upd_buf b f) (kseq (unlock_k Bcache_lock) (kseq (acquiresleep (Buf_sl b)) (kret r))) ?s =
      Inr (r, grabbed p b f s)" if "\<not> sl_locked (sls s (Buf_sl b))" for b f and r :: 'r
  proof -
    have "runs p (s\<lparr>bufs := (bufs s)(b := f (bufs s b)), mach := settle (mach s)\<rparr>)"
      using assms(1) by (simp add: runs_def)
    then show ?thesis using m that
      by (simp add: kmonad locking acquiresleep_eq grabbed_def)
  qed
  have nx: "bget_cached (Suc 30) dev bn (b_next (bufs ?s HEAD)) ?s =
    (case find (\<lambda>b. b_dev (bufs s b) = dev \<and> b_blockno (bufs s b) = bn) xs of
       None \<Rightarrow> Inr (None, ?s)
     | Some b \<Rightarrow> Inr (Some b, grabbed p b (\<lambda>y. y\<lparr>b_refcnt := b_refcnt y + 1\<rparr>) s))"
  proof (cases "find (\<lambda>b. b_dev (bufs s b) = dev \<and> b_blockno (bufs s b) = bn) xs")
    case None
    then show ?thesis using bget_cached_eq [of ?s HEAD xs "Suc 30" dev bn] assms(2,3) by (simp add: ring_def)
  next
    case (Some b)
    then have "\<not> sl_locked (sls s (Buf_sl b))" using assms(5) by (auto dest: find_SomeD)
    from take [OF this, of "\<lambda>y. y\<lparr>b_refcnt := b_refcnt y + 1\<rparr>" "Some b"]
    show ?thesis using bget_cached_eq [of ?s HEAD xs "Suc 30" dev bn] assms(2,3) Some by (simp add: ring_def)
  qed
  have pv: "bget_recycle (Suc 30) dev bn (b_prev (bufs ?s HEAD)) ?s =
    (case find (\<lambda>b. b_refcnt (bufs s b) = 0) (rev xs) of
       None \<Rightarrow> Inl (Panic ''bget: no buffers'')
     | Some b \<Rightarrow> Inr (b, grabbed p b (\<lambda>y. y\<lparr>b_dev := dev, b_blockno := bn, b_valid := False, b_refcnt := 1\<rparr>) s))"
  proof (cases "find (\<lambda>b. b_refcnt (bufs s b) = 0) (rev xs)")
    case None
    then show ?thesis using bget_recycle_eq [of ?s HEAD "rev xs" "Suc 30" dev bn] assms(2,3) by (simp add: ring_def)
  next
    case (Some b)
    then have "\<not> sl_locked (sls s (Buf_sl b))" using assms(4) by (auto dest: find_SomeD)
    from take [OF this, of "\<lambda>y. y\<lparr>b_dev := dev, b_blockno := bn, b_valid := False, b_refcnt := 1\<rparr>" b]
    show ?thesis using bget_recycle_eq [of ?s HEAD "rev xs" "Suc 30" dev bn] assms(2,3) Some by (simp add: ring_def)
  qed
  have "bget dev bn s = kbind (bget_cached (Suc 30) dev bn (b_next (bufs ?s HEAD))) (\<lambda>r.
     case r of
       Some b \<Rightarrow> kret b
     | None \<Rightarrow> kbind (getb b_prev HEAD) (\<lambda>last. bget_recycle (Suc 30) dev bn last)) ?s"
    by (simp only: bget_def kseq_Inr [where m = "lock_k Bcache_lock" and s = s, OF lock_k_eq [OF m(2)]] kbind_prim)
  then show ?thesis by (simp only: kbind_apply nx) (simp add: pv [simplified] split: option.split)
qed

section \<open>The invariant and the view\<close>

abbreviation bd :: "'a bcache_scheme \<Rightarrow> nat \<Rightarrow> block" where
  "bd s b \<equiv> rd_block (ram s) (bdata s b)"

definition caches :: "(nat \<Rightarrow> buf) \<Rightarrow> nat \<Rightarrow> uint32 \<Rightarrow> bool" where
  "caches B b n \<longleftrightarrow> b_dev (B b) = 1 \<and> b_blockno (B b) = n"

definition blk :: "'a bcache_scheme \<Rightarrow> uint32 \<Rightarrow> block" where
  "blk s n = (case find (\<lambda>b. caches (bufs s) b n) [0..<30] of Some b \<Rightarrow> bd s b | None \<Rightarrow> disk s n)"

definition uniq :: "(nat \<Rightarrow> buf) \<Rightarrow> bool" where
  "uniq B \<longleftrightarrow> (\<forall>b<30. \<forall>c<30. \<forall>n. caches B b n \<and> caches B c n \<longrightarrow> b = c)"

definition binv :: "nat set \<Rightarrow> nat set \<Rightarrow> 'a bcache_scheme \<Rightarrow> bool" where
  "binv H P s \<longleftrightarrow>
     (\<exists>xs. ring (bufs s) xs \<and> set xs = {..<30}) \<and> H \<union> P \<subseteq> {..<30} \<and>
     (\<forall>b<30. b_refcnt (bufs s b) = of_bool (b \<in> H) + of_bool (b \<in> P)) \<and>
     (\<forall>b<30. sl_locked (sls s (Buf_sl b)) \<longleftrightarrow> b \<in> H) \<and>
     (\<forall>b\<in>H. sl_pid (sls s (Buf_sl b)) = pid (procs s (the (cur s)))) \<and>
     (\<forall>b\<in>H \<union> P. b_dev (bufs s b) = 1) \<and>
     (\<forall>b<30. b_valid (bufs s b) \<longleftrightarrow> b_dev (bufs s b) = 1) \<and>
     uniq (bufs s) \<and>
     (\<forall>b<30. \<forall>n. caches (bufs s) b n \<and> b \<notin> H \<union> P \<longrightarrow> bd s b = disk s n) \<and>
     (\<forall>n. length (disk s n) = BSIZE) \<and>
     unat (bcache_at s) + 40000 < 2 ^ 64"

lemma binvD:
  assumes "binv H P s"
  shows "\<exists>xs. ring (bufs s) xs \<and> set xs = {..<30}" "H \<subseteq> {..<30}" "P \<subseteq> {..<30}"
    "b < 30 \<Longrightarrow> b_refcnt (bufs s b) = of_bool (b \<in> H) + of_bool (b \<in> P)"
    "b < 30 \<Longrightarrow> sl_locked (sls s (Buf_sl b)) \<longleftrightarrow> b \<in> H"
    "b \<in> H \<Longrightarrow> sl_pid (sls s (Buf_sl b)) = pid (procs s (the (cur s)))"
    "b \<in> H \<Longrightarrow> b_dev (bufs s b) = 1" "b \<in> P \<Longrightarrow> b_dev (bufs s b) = 1"
    "b < 30 \<Longrightarrow> b_valid (bufs s b) \<longleftrightarrow> b_dev (bufs s b) = 1"
    "uniq (bufs s)"
    "b < 30 \<Longrightarrow> caches (bufs s) b n \<Longrightarrow> b \<notin> H \<Longrightarrow> b \<notin> P \<Longrightarrow> bd s b = disk s n"
    "length (disk s n) = BSIZE" "unat (bcache_at s) + 40000 < 2 ^ 64"
  using assms by (auto simp: binv_def)

lemma binv_free: "binv H P s \<Longrightarrow> b < 30 \<Longrightarrow> b_refcnt (bufs s b) = 0 \<longleftrightarrow> b \<notin> H \<and> b \<notin> P"
  by (simp add: binvD(4))

lemma uniqD: "uniq B \<Longrightarrow> b < 30 \<Longrightarrow> c < 30 \<Longrightarrow> caches B b n \<Longrightarrow> caches B c n \<Longrightarrow> b = c"
  by (auto simp: uniq_def)

lemma blk_cached:
  assumes "uniq (bufs s)" "b < 30" "caches (bufs s) b n"
  shows "blk s n = bd s b"
proof (cases "find (\<lambda>b. caches (bufs s) b n) [0..<30]")
  case None
  then show ?thesis using assms by (auto simp: find_None_iff)
next
  case (Some a)
  then have "a < 30" "caches (bufs s) a n" by (auto dest!: find_SomeD)
  then have "a = b" using uniqD assms by blast
  then show ?thesis using Some by (simp add: blk_def)
qed

lemma blk_uncached: "\<forall>b<30. \<not> caches (bufs s) b n \<Longrightarrow> blk s n = disk s n"
  unfolding blk_def
  by (cases "find (\<lambda>b. caches (bufs s) b n) [0..<30]") (auto dest!: find_SomeD)

lemma blk_cong:
  assumes "\<And>b n. caches (bufs s') b n = caches (bufs s) b n" "ram s' = ram s" "bcache_at s' = bcache_at s" "disk s' = disk s"
  shows "blk s' = blk s"
  using assms by (intro ext) (simp add: blk_def split: option.split)

lemma uniq_cong: "(\<And>b n. caches B' b n = caches B b n) \<Longrightarrow> uniq B' = uniq B"
  by (simp add: uniq_def)

text \<open>What the operations of the cache leave alone: everything but the buffers, their memory, the
  disk, and which processes are runnable.\<close>

definition bframe :: "'a bcache_scheme \<Rightarrow> 'a bcache_scheme \<Rightarrow> bool" where
  "bframe s s' \<longleftrightarrow>
     settle (mach s') = settle (mach s) \<and> freelist s' = freelist s \<and> refcnt s' = refcnt s \<and> kend s' = kend s \<and>
     nextpid s' = nextpid s \<and> initproc s' = initproc s \<and> bcache_at s' = bcache_at s \<and>
     (\<forall>q. (procs s' q)\<lparr>pstate := UNUSED\<rparr> = (procs s q)\<lparr>pstate := UNUSED\<rparr>) \<and>
     (\<forall>i. sls s' (Inode_sl i) = sls s (Inode_sl i)) \<and>
     (\<forall>x. (\<forall>b<30. \<not> unat (x - bdata s b) < BSIZE) \<longrightarrow> ram s' x = ram s x) \<and>
     bcache.more s' = bcache.more s"

lemma bframe_refl [simp]: "bframe s s"
  by (simp add: bframe_def)

lemma bframe_trans: "bframe s t \<Longrightarrow> bframe t u \<Longrightarrow> bframe s u"
  by (simp add: bframe_def)

lemma settle_same:
  assumes "settle m' = settle m"
  shows "mcur m' = mcur m" "irq_ok m' = irq_ok m" "lk_free m' l = lk_free m l" "noff (mycpu m') = noff (mycpu m)"
proof -
  show "mcur m' = mcur m" "irq_ok m' = irq_ok m" "lk_free m' l = lk_free m l"
    using mcur_simps(1) irq_ok_settle lk_free_settle assms by metis+
  have "tp m' = tp m" using tp_settle assms by metis
  then show "noff (mycpu m') = noff (mycpu m)" using noff_settle assms by (metis mycpu_def cpuid_def)
qed

lemma bframe_runs: "bframe s s' \<Longrightarrow> runs p s' = runs p s"
  using settle_same [of "mach s'" "mach s"] by (simp add: bframe_def runs_def)

lemma proc_but_state: "(x :: proc)\<lparr>pstate := UNUSED\<rparr> = y\<lparr>pstate := UNUSED\<rparr> \<Longrightarrow> pid x = pid y \<and> pagetable x = pagetable y"
  by (cases x; cases y) simp

lemma bframe_pid: "bframe s s' \<Longrightarrow> pid (procs s' q) = pid (procs s q) \<and> pagetable (procs s' q) = pagetable (procs s q)"
  by (auto simp: bframe_def dest!: spec [of _ q] proc_but_state)

lemma woken_frame: "(woken c me n P q)\<lparr>pstate := UNUSED\<rparr> = (P q)\<lparr>pstate := UNUSED\<rparr>"
  by (simp add: woken_def)

lemma woken_pid [simp]: "pid (woken c me n P q) = pid (P q)"
  by (simp add: woken_def)

section \<open>bread\<close>

text \<open>The block view depends on which buffers cache what, on their data, and on the disk.\<close>

lemma blk_eqI:
  assumes "uniq (bufs s)" "uniq (bufs s')"
    "\<And>b n. b < 30 \<Longrightarrow> caches (bufs s') b n \<Longrightarrow> bd s' b = blk s n"
    "\<And>n. \<forall>b<30. \<not> caches (bufs s') b n \<Longrightarrow> disk s' n = blk s n"
  shows "blk s' = blk s"
proof
  fix n show "blk s' n = blk s n"
  proof (cases "\<exists>b<30. caches (bufs s') b n")
    case True
    then show ?thesis using blk_cached [OF assms(2)] assms(3) by auto
  next
    case False
    then show ?thesis using blk_uncached [of s' n] assms(4) by auto
  qed
qed

lemma free_buffer:
  assumes "binv H P s" "card (H \<union> P) < 30" "set xs = {..<30}"
  obtains b where "find (\<lambda>b. b_refcnt (bufs s b) = 0) (rev xs) = Some b" "b < 30" "b \<notin> H \<union> P"
proof -
  have fin: "finite (H \<union> P)" using binvD(2,3) [OF assms(1)] finite_subset by blast
  have "\<not> {..<30} \<subseteq> H \<union> P" using assms(2) card_mono [OF fin, of "{..<30}"] by auto
  then obtain c where c: "c < 30" "c \<notin> H \<union> P" by auto
  then have "b_refcnt (bufs s c) = 0" using binv_free [OF assms(1)] by simp
  then have "find (\<lambda>b. b_refcnt (bufs s b) = 0) (rev xs) \<noteq> None"
    using c assms(3) by (auto simp: find_None_iff)
  then obtain b where b: "find (\<lambda>b. b_refcnt (bufs s b) = 0) (rev xs) = Some b" by blast
  have "b < 30" "b_refcnt (bufs s b) = 0" using find_SomeD [OF b] assms(3) by auto
  moreover from this have "b \<notin> H \<union> P" using binv_free [OF assms(1)] by simp
  ultimately show thesis using that b by blast
qed

text \<open>Buffers that are held or pinned keep their block and their data.\<close>

definition bkeep :: "nat set \<Rightarrow> 'a bcache_scheme \<Rightarrow> 'a bcache_scheme \<Rightarrow> bool" where
  "bkeep K s s' \<longleftrightarrow> (\<forall>c\<in>K. b_blockno (bufs s' c) = b_blockno (bufs s c) \<and> bd s' c = bd s c)"

lemma bread_hit:
  assumes i: "binv H P s" and r: "runs p s" and b: "b < 30" "caches (bufs s) b n" "b \<notin> H"
    and s': "s' = grabbed p b (\<lambda>y. y\<lparr>b_refcnt := b_refcnt y + 1\<rparr>) s"
  shows "binv (insert b H) P s'" "bd s' c = bd s c" "b_blockno (bufs s' c) = b_blockno (bufs s c)" "blk s' = blk s"
    "bframe s s'" "disk s' = disk s" "dtrace s' = dtrace s"
proof -
  note D = binvD [OF i]
  have ca: "caches (bufs s') c m \<longleftrightarrow> caches (bufs s) c m" for c m
    by (simp add: s' grabbed_def caches_def)
  have u: "uniq (bufs s')" using D(10) by (simp add: uniq_def ca)
  show bds: "bd s' c = bd s c" "b_blockno (bufs s' c) = b_blockno (bufs s c)" for c by (simp_all add: s' grabbed_def)
  show dk: "disk s' = disk s" "dtrace s' = dtrace s" by (simp_all add: s' grabbed_def)
  show "blk s' = blk s"
    by (rule blk_eqI [OF D(10) u])
      (auto simp: ca bds dk blk_cached [OF D(10)] blk_uncached)
  show "bframe s s'" by (simp add: bframe_def s' grabbed_def)
  obtain xs where xs: "ring (bufs s) xs" "set xs = {..<30}" using D(1) by blast
  have "ring (bufs s') xs" using xs(1) by (simp add: s' grabbed_def)
  then show "binv (insert b H) P s'"
    unfolding binv_def using xs(2) D u b r
    apply (intro conjI)
    subgoal by blast
    subgoal by auto
    subgoal by (auto simp: s' grabbed_def)
    subgoal by (auto simp: s' grabbed_def)
    subgoal by (auto simp: s' grabbed_def runs_def)
    subgoal by (auto simp: s' grabbed_def caches_def)
    subgoal by (auto simp: s' grabbed_def)
    subgoal by simp
    subgoal by (auto simp: ca bds dk)
    subgoal by (simp add: dk)
    subgoal by (simp add: s' grabbed_def)
    done
qed

lemma bread_miss:
  assumes i: "binv H P s" and r: "runs p s" and b: "b < 30" "b \<notin> H" "b \<notin> P" and no: "\<forall>c<30. \<not> caches (bufs s) c n"
    and s': "s' = (grabbed p b (\<lambda>y. y\<lparr>b_dev := 1, b_blockno := n, b_refcnt := 1, b_valid := True\<rparr>) s)
      \<lparr>ram := wr_block (ram s) (bdata s b) (disk s n)\<rparr>"
  shows "binv (insert b H) P s'" "c < 30 \<Longrightarrow> c \<noteq> b \<Longrightarrow> bd s' c = bd s c" "c \<noteq> b \<Longrightarrow> bufs s' c = bufs s c"
    "caches (bufs s') b n" "bd s' b = disk s n" "blk s' = blk s" "bframe s s'" "disk s' = disk s" "dtrace s' = dtrace s"
proof -
  note D = binvD [OF i]
  show oth: "c \<noteq> b \<Longrightarrow> bufs s' c = bufs s c" for c by (simp add: s' grabbed_def)
  show cb: "caches (bufs s') b n" by (simp add: s' grabbed_def caches_def)
  have ca: "caches (bufs s') c m \<longleftrightarrow> (if c = b then m = n else caches (bufs s) c m)" for c m
    by (auto simp: s' grabbed_def caches_def)
  then have u: "uniq (bufs s')" using D(10) no unfolding uniq_def by metis
  show bdb: "bd s' b = disk s n" using D(12) by (simp add: s' grabbed_def)
  show bdc: "c < 30 \<Longrightarrow> c \<noteq> b \<Longrightarrow> bd s' c = bd s c" for c
    using bdata_disjoint [of c b _ "bcache_at s"] b(1)
    by (auto simp: s' grabbed_def wr_block_def intro!: rd_block_cong)
  show dk: "disk s' = disk s" "dtrace s' = dtrace s" by (simp_all add: s' grabbed_def)
  show "blk s' = blk s"
  proof (rule blk_eqI [OF D(10) u])
    fix c m assume "c < 30" "caches (bufs s') c m"
    then show "bd s' c = blk s m" using ca bdb bdc blk_uncached [OF no] blk_cached [OF D(10)] by (auto split: if_splits)
  next
    fix m assume *: "\<forall>c<30. \<not> caches (bufs s') c m"
    show "disk s' m = blk s m"
    proof (cases "caches (bufs s) b m")
      case True
      then show ?thesis using D(11) b blk_cached [OF D(10) b(1)] dk by simp
    next
      case False
      then show ?thesis using * ca dk by (metis blk_uncached)
    qed
  qed
  show "bframe s s'" using b(1) by (auto simp: bframe_def s' grabbed_def wr_block_def)
  obtain xs where xs: "ring (bufs s) xs" "set xs = {..<30}" using D(1) by blast
  have "ring (bufs s') xs" using xs(1) by (simp add: s' grabbed_def)
  then show "binv (insert b H) P s'"
    unfolding binv_def using xs(2) D u b r bdc
    apply (intro conjI)
    subgoal by blast
    subgoal by auto
    subgoal by (auto simp: s' grabbed_def)
    subgoal by (auto simp: s' grabbed_def)
    subgoal by (auto simp: s' grabbed_def runs_def)
    subgoal by (auto simp: s' grabbed_def)
    subgoal by (auto simp: s' grabbed_def)
    subgoal by simp
    subgoal by (auto simp: ca dk)
    subgoal by (simp add: dk)
    subgoal by (simp add: s' grabbed_def)
    done
qed

lemma bread_ok:
  assumes i: "binv H P s" and r: "runs p s" and n: "\<forall>b\<in>H. b_blockno (bufs s b) \<noteq> n"
    and room: "card (H \<union> P) < 30 \<or> (\<exists>b<30. caches (bufs s) b n)"
  obtains b s' where "bread 1 n s = Inr (b, s')" "b < 30" "b \<notin> H" "binv (insert b H) P s'" "caches (bufs s') b n"
    "bd s' b = blk s n" "blk s' = blk s" "bkeep (H \<union> P) s s'" "bframe s s'" "disk s' = disk s" "dtrace s' = dtrace s"
proof -
  note D = binvD [OF i]
  obtain xs where xs: "ring (bufs s) xs" "set xs = {..<30}" using D(1) by blast
  then have len: "length xs \<le> 30" using distinct_card [of xs] by (simp add: ring_def)
  have "bget 1 n s =
    (case find (\<lambda>b. b_dev (bufs s b) = 1 \<and> b_blockno (bufs s b) = n) xs of
       Some b \<Rightarrow> Inr (b, grabbed p b (\<lambda>y. y\<lparr>b_refcnt := b_refcnt y + 1\<rparr>) s)
     | None \<Rightarrow> (case find (\<lambda>b. b_refcnt (bufs s b) = 0) (rev xs) of
         Some b \<Rightarrow> Inr (b, grabbed p b (\<lambda>y. y\<lparr>b_dev := 1, b_blockno := n, b_valid := False, b_refcnt := 1\<rparr>) s)
       | None \<Rightarrow> Inl (Panic ''bget: no buffers'')))"
    by (rule bget_eq [OF r xs(1) len]) (use D(5) binv_free [OF i] n xs(2) in auto)
  note g = this
  show thesis
  proof (cases "find (\<lambda>b. b_dev (bufs s b) = 1 \<and> b_blockno (bufs s b) = n) xs")
    case (Some b)
    have b: "b < 30" "caches (bufs s) b n" using find_SomeD [OF Some] xs(2) by (auto simp: caches_def)
    have bH: "b \<notin> H" using n b by (auto simp: caches_def)
    define s' where "s' = grabbed p b (\<lambda>y. y\<lparr>b_refcnt := b_refcnt y + 1\<rparr>) s"
    note h = bread_hit [OF i r b bH s'_def]
    have "b_valid (bufs s' b)" using D(9) [OF b(1)] b(2) by (simp add: s'_def grabbed_def caches_def)
    then have "bread 1 n s = Inr (b, s')" using g Some by (simp add: bread_def kmonad s'_def)
    moreover have "caches (bufs s') b n" using b(2) by (simp add: s'_def grabbed_def caches_def)
    ultimately show thesis using that h b bH blk_cached [OF D(10) b] by (simp add: bkeep_def)
  next
    case None
    then have no: "\<forall>c<30. \<not> caches (bufs s) c n" using xs(2) by (auto simp: find_None_iff caches_def)
    obtain b where b: "find (\<lambda>b. b_refcnt (bufs s b) = 0) (rev xs) = Some b" "b < 30" "b \<notin> H" "b \<notin> P"
      using free_buffer [OF i _ xs(2)] room no by blast
    define s' where "s' = (grabbed p b (\<lambda>y. y\<lparr>b_dev := 1, b_blockno := n, b_refcnt := 1, b_valid := True\<rparr>) s)
      \<lparr>ram := wr_block (ram s) (bdata s b) (disk s n)\<rparr>"
    note h = bread_miss [OF i r b(2-4) no s'_def]
    have "bread 1 n s = Inr (b, s')"
      using g None b(1) by (simp add: bread_def kmonad disk_rw_def Let_def s'_def grabbed_def)
    moreover have "bkeep (H \<union> P) s s'" using h(2,3) b D(2,3) unfolding bkeep_def by (metis UnE lessThan_iff subsetD)
    ultimately show thesis using that h b blk_uncached [OF no] by simp
  qed
qed

section \<open>brelse\<close>

lemma linked_fields [simp]:
  "b_dev (linked B b x) = b_dev (B x)" "b_blockno (linked B b x) = b_blockno (B x)"
  "b_valid (linked B b x) = b_valid (B x)" "b_refcnt (linked B b x) = b_refcnt (B x)"
  by (simp_all add: linked_def Let_def)

lemma unlinked_fields [simp]:
  "b_dev (unlinked B b x) = b_dev (B x)" "b_blockno (unlinked B b x) = b_blockno (B x)"
  "b_valid (unlinked B b x) = b_valid (B x)" "b_refcnt (unlinked B b x) = b_refcnt (B x)"
  by (simp_all add: unlinked_def Let_def)

text \<open>The buffers after \<open>b\<close> lost a reference; when it was the last one, \<open>b\<close> becomes the most recently used.\<close>

definition dropped :: "(nat \<Rightarrow> buf) \<Rightarrow> nat \<Rightarrow> nat \<Rightarrow> buf" where
  "dropped B b =
     (let B1 = B(b := (B b)\<lparr>b_refcnt := b_refcnt (B b) - 1\<rparr>)
      in if b_refcnt (B1 b) = 0 then linked (unlinked B1 b) b else B1)"

lemma dropped_fields [simp]:
  "b_dev (dropped B b x) = b_dev (B x)" "b_blockno (dropped B b x) = b_blockno (B x)" "b_valid (dropped B b x) = b_valid (B x)"
  "b_refcnt (dropped B b x) = (if x = b then b_refcnt (B b) - 1 else b_refcnt (B x))"
  by (simp_all add: dropped_def Let_def)

lemma ring_dropped:
  assumes "ring B xs" "b \<in> set xs"
  shows "ring (dropped B b) (if b_refcnt (B b) = 1 then b # remove1 b xs else xs)"
proof -
  let ?B = "B(b := (B b)\<lparr>b_refcnt := b_refcnt (B b) - 1\<rparr>)"
  have r: "ring ?B xs" using assms(1) by simp
  obtain ys zs where xs: "xs = ys @ b # zs" "b \<notin> set ys" using split_list_first [OF assms(2)] by blast
  have "ring (unlinked ?B b) (ys @ zs)" using r unfolding xs(1) by (rule ring_unlinked)
  then have "ring (linked (unlinked ?B b) b) (b # ys @ zs)"
    by (rule ring_linked) (use assms(1) xs in \<open>auto simp: ring_def\<close>)
  moreover have "remove1 b xs = ys @ zs" using xs by (simp add: remove1_append)
  ultimately show ?thesis using r by (cases "b_refcnt (B b) = 1") (simp_all add: dropped_def Let_def)
qed

lemma brelse_eq:
  assumes "runs p s" "sl_locked (sls s (Buf_sl b))" "sl_pid (sls s (Buf_sl b)) = pid (procs s p)"
  shows "brelse b s = Inr ((), (settled s)\<lparr>
    sls := (sls s)(Buf_sl b := (sls s (Buf_sl b))\<lparr>sl_locked := False, sl_pid := 0\<rparr>),
    procs := woken (Chan_buf_lock b) (Some p) 64 (procs s), bufs := dropped (bufs s) b\<rparr>)"
proof -
  let ?s = "(settled s)\<lparr>sls := (sls s)(Buf_sl b := (sls s (Buf_sl b))\<lparr>sl_locked := False, sl_pid := 0\<rparr>),
    procs := woken (Chan_buf_lock b) (Some p) 64 (procs s)\<rparr>"
  have "runs p (settled s)" using assms(1) by (simp add: runs_def)
  then have rel: "releasesleep (Buf_sl b) (settled s) = Inr ((), ?s)" by (simp add: releasesleep_eq)
  have m: "irq_ok (mach s)" "lk_free (mach s) Bcache_lock" using assms(1) by (auto simp: runs_def)
  show ?thesis
    using assms m rel
    by (simp add: brelse_def kmonad holdingsleep_eq locking dropped_def Let_def link_front_def set_next_def set_prev_def
        linked_def unlinked_def)
qed

lemma brelse_ok:
  assumes i: "binv H P s" and r: "runs p s" and b: "b \<in> H" and clean: "b \<in> P \<or> bd s b = disk s (b_blockno (bufs s b))"
  obtains s' where "brelse b s = Inr ((), s')" "binv (H - {b}) P s'" "blk s' = blk s" "ram s' = ram s"
    "\<And>c. b_dev (bufs s' c) = b_dev (bufs s c) \<and> b_blockno (bufs s' c) = b_blockno (bufs s c)"
    "bframe s s'" "disk s' = disk s" "dtrace s' = dtrace s"
proof -
  note D = binvD [OF i]
  have b30: "b < 30" using D(2) b by auto
  have cur: "cur s = Some p" using r by (simp add: runs_def)
  define s' where "s' = (settled s)\<lparr>
    sls := (sls s)(Buf_sl b := (sls s (Buf_sl b))\<lparr>sl_locked := False, sl_pid := 0\<rparr>),
    procs := woken (Chan_buf_lock b) (Some p) 64 (procs s), bufs := dropped (bufs s) b\<rparr>"
  have e: "brelse b s = Inr ((), s')"
    unfolding s'_def by (rule brelse_eq [OF r]) (use D(5,6) b b30 cur in auto)
  have ca: "caches (bufs s') c m \<longleftrightarrow> caches (bufs s) c m" for c m by (simp add: s'_def caches_def)
  have u: "uniq (bufs s')" using D(10) by (simp add: uniq_def ca)
  have bds: "bd s' c = bd s c" for c by (simp add: s'_def)
  have dk: "disk s' = disk s" "dtrace s' = dtrace s" by (simp_all add: s'_def)
  have "blk s' = blk s"
    by (rule blk_eqI [OF D(10) u]) (auto simp: ca bds dk blk_cached [OF D(10)] blk_uncached)
  moreover have "bframe s s'" by (simp add: bframe_def s'_def woken_frame)
  moreover have "binv (H - {b}) P s'"
  proof -
    obtain xs where xs: "ring (bufs s) xs" "set xs = {..<30}" using D(1) by blast
    let ?ys = "if b_refcnt (bufs s b) = 1 then b # remove1 b xs else xs"
    have "ring (bufs s') ?ys" using ring_dropped [OF xs(1)] xs(2) b30 by (simp add: s'_def)
    moreover have "set ?ys = {..<30}" using xs b30 by (auto simp: ring_def set_remove1_eq)
    ultimately have "\<exists>xs. ring (bufs s') xs \<and> set xs = {..<30}" by blast
    moreover have cl: "bd s c = disk s m" if "c < 30" "caches (bufs s) c m" "c \<notin> P" "c \<notin> H \<or> c = b" for c m
      using that D(11) clean by (cases "c = b") (auto simp: caches_def)
    ultimately show ?thesis
      unfolding binv_def using D u b b30
      apply (intro conjI)
      subgoal by assumption
      subgoal by auto
      subgoal by (auto simp: s'_def)
      subgoal by (auto simp: s'_def)
      subgoal by (auto simp: s'_def)
      subgoal by (auto simp: s'_def)
      subgoal by (auto simp: s'_def)
      subgoal by assumption
      subgoal using cl by (auto simp: ca bds dk)
      subgoal by (simp add: dk)
      subgoal by (simp add: s'_def)
      done
  qed
  ultimately show thesis using that e dk by (simp add: s'_def)
qed

section \<open>Writing, pinning and changing a locked buffer\<close>

lemma bwrite_ok:
  assumes i: "binv H P s" and r: "runs p s" and b: "b \<in> H"
  obtains s' where "bwrite b s = Inr ((), s')" "binv H P s'" "blk s' = blk s" "ram s' = ram s" "bufs s' = bufs s" "bframe s s'"
    "disk s' = (disk s)(b_blockno (bufs s b) := bd s b)" "dtrace s' = dtrace s @ [(b_blockno (bufs s b), bd s b)]"
proof -
  note D = binvD [OF i]
  have b30: "b < 30" using D(2) b by auto
  define s' where "s' = (settled s)\<lparr>disk := (disk s)(b_blockno (bufs s b) := bd s b), dtrace := dtrace s @ [(b_blockno (bufs s b), bd s b)]\<rparr>"
  have e: "bwrite b s = Inr ((), s')"
    using r b D(5) [OF b30] D(6) [OF b] by (simp add: bwrite_def kmonad holdingsleep_eq disk_rw_def Let_def s'_def runs_def)
  have cb: "caches (bufs s) b (b_blockno (bufs s b))" using D(7) [OF b] by (simp add: caches_def)
  have nb: "\<not> caches (bufs s) c (b_blockno (bufs s b))" if "c < 30" "c \<notin> H" for c
    using uniqD [OF D(10) that(1) b30 _ cb] that b by auto
  have "blk s' n = blk s n" for n
  proof (cases "\<exists>c<30. caches (bufs s) c n")
    case True
    then obtain c where c: "c < 30" "caches (bufs s) c n" by blast
    have "blk s' n = bd s' c" by (rule blk_cached) (use c D(10) in \<open>simp_all add: s'_def\<close>)
    then show ?thesis using blk_cached [OF D(10) c] by (simp add: s'_def)
  next
    case False
    then have "n \<noteq> b_blockno (bufs s b)" using cb b30 by auto
    then show ?thesis using False blk_uncached [of s n] blk_uncached [of s' n] by (simp add: s'_def)
  qed
  then have "blk s' = blk s" by (rule ext)
  moreover have "bframe s s'" by (simp add: bframe_def s'_def)
  moreover have "binv H P s'"
    unfolding binv_def using D
    apply (intro conjI)
    subgoal by (simp add: s'_def)
    subgoal by (simp add: s'_def)
    subgoal by (simp add: s'_def)
    subgoal by (simp add: s'_def)
    subgoal by (simp add: s'_def)
    subgoal by (auto simp: s'_def)
    subgoal by (simp add: s'_def)
    subgoal by (simp add: s'_def)
    subgoal using nb by (auto simp: s'_def)
    subgoal by (simp add: s'_def)
    subgoal by (simp add: s'_def)
    done
  ultimately show thesis using that e by (simp add: s'_def)
qed

text \<open>A held buffer may be pinned and unpinned.\<close>

lemma brefcnt_ok:
  assumes i: "binv H P s" and b: "b \<in> H" and P': "P' - {b} = P - {b}"
    and s': "s' = (settled s)\<lparr>bufs := (bufs s)(b := (bufs s b)\<lparr>b_refcnt := 1 + of_bool (b \<in> P')\<rparr>)\<rparr>"
  shows "binv H P' s'" "blk s' = blk s" "bframe s s'"
proof -
  note D = binvD [OF i]
  have b30: "b < 30" using D(2) b by auto
  have ca: "caches (bufs s') c m = caches (bufs s) c m" for c m by (simp add: s' caches_def)
  have other: "c \<in> P' \<longleftrightarrow> c \<in> P" if "c \<noteq> b" for c using P' that by blast
  have sub: "P' \<subseteq> insert b P" using P' by blast
  have cl: "bd s' c = disk s' m" if "c < 30" "caches (bufs s') c m" "c \<notin> H \<union> P'" for c m
  proof -
    have cb: "c \<noteq> b" "c \<notin> H" using that(3) b by auto
    have "c \<notin> P" using other [OF cb(1)] that(3) by simp
    then have "bd s c = disk s m" using D(11) that ca cb by blast
    then show ?thesis by (simp add: s')
  qed
  show "blk s' = blk s" by (rule blk_cong) (simp_all add: s' caches_def)
  show "bframe s s'" by (simp add: bframe_def s')
  show "binv H P' s'"
    unfolding binv_def using D b b30
    apply (intro conjI)
    subgoal by (auto simp: s')
    subgoal using sub by auto
    subgoal using other by (auto simp: s')
    subgoal by (simp add: s')
    subgoal by (simp add: s')
    subgoal using sub by (auto simp: s')
    subgoal by (auto simp: s')
    subgoal using uniq_cong [of "bufs s'" "bufs s"] ca by simp
    subgoal using cl by blast
    subgoal by (simp add: s')
    subgoal by (simp add: s')
    done
qed

lemma bpin_ok:
  assumes i: "binv H P s" and r: "runs p s" and b: "b \<in> H" "b \<notin> P"
  obtains s' where "bpin b s = Inr ((), s')" "binv H (insert b P) s'" "blk s' = blk s" "ram s' = ram s"
    "\<And>c. b_dev (bufs s' c) = b_dev (bufs s c) \<and> b_blockno (bufs s' c) = b_blockno (bufs s c)"
    "bframe s s'" "disk s' = disk s" "dtrace s' = dtrace s"
proof -
  have "b_refcnt (bufs s b) = 1" using binvD(2,4) [OF i] b by auto
  then have "bpin b s = Inr ((), (settled s)\<lparr>bufs := (bufs s)(b := (bufs s b)\<lparr>b_refcnt := 1 + of_bool (b \<in> insert b P)\<rparr>)\<rparr>)"
    using r by (simp add: bpin_def kmonad locking runs_def)
  then show thesis using that brefcnt_ok [OF i b(1) _ refl, of "insert b P"] by simp
qed

lemma bunpin_ok:
  assumes i: "binv H P s" and r: "runs p s" and b: "b \<in> H" "b \<in> P"
  obtains s' where "bunpin b s = Inr ((), s')" "binv H (P - {b}) s'" "blk s' = blk s" "ram s' = ram s"
    "\<And>c. b_dev (bufs s' c) = b_dev (bufs s c) \<and> b_blockno (bufs s' c) = b_blockno (bufs s c)"
    "bframe s s'" "disk s' = disk s" "dtrace s' = dtrace s"
proof -
  have "b_refcnt (bufs s b) = 2" using binvD(2,4) [OF i] b by auto
  then have "bunpin b s = Inr ((), (settled s)\<lparr>bufs := (bufs s)(b := (bufs s b)\<lparr>b_refcnt := 1 + of_bool (b \<in> P - {b})\<rparr>)\<rparr>)"
    using r by (simp add: bunpin_def kmonad locking runs_def)
  then show thesis using that brefcnt_ok [OF i b(1) _ refl, of "P - {b}"] by simp
qed

text \<open>A change of the memory of a locked buffer changes its block and no other.\<close>

lemma bmodify_ok:
  assumes i: "binv H P s" and b: "b \<in> H" and m: "\<And>x. \<not> unat (x - bdata s b) < BSIZE \<Longrightarrow> m x = ram s x"
  shows "binv H P (s\<lparr>ram := m\<rparr>)" "blk (s\<lparr>ram := m\<rparr>) = (blk s)(b_blockno (bufs s b) := rd_block m (bdata s b))"
    "c < 30 \<Longrightarrow> c \<noteq> b \<Longrightarrow> bd (s\<lparr>ram := m\<rparr>) c = bd s c" "bframe s (s\<lparr>ram := m\<rparr>)"
proof -
  note D = binvD [OF i]
  have b30: "b < 30" using D(2) b by auto
  have cb: "caches (bufs s) b (b_blockno (bufs s b))" using D(7) [OF b] by (simp add: caches_def)
  show other: "c < 30 \<Longrightarrow> c \<noteq> b \<Longrightarrow> bd (s\<lparr>ram := m\<rparr>) c = bd s c" for c
    using bdata_disjoint [of c b _ "bcache_at s"] b30 m by (auto intro!: rd_block_cong)
  show "bframe s (s\<lparr>ram := m\<rparr>)" using m b30 by (auto simp: bframe_def)
  show "blk (s\<lparr>ram := m\<rparr>) = (blk s)(b_blockno (bufs s b) := rd_block m (bdata s b))"
  proof
    fix n
    show "blk (s\<lparr>ram := m\<rparr>) n = ((blk s)(b_blockno (bufs s b) := rd_block m (bdata s b))) n"
    proof (cases "\<exists>c<30. caches (bufs s) c n")
      case True
      then obtain c where c: "c < 30" "caches (bufs s) c n" by blast
      have "blk (s\<lparr>ram := m\<rparr>) n = bd (s\<lparr>ram := m\<rparr>) c" by (rule blk_cached) (use c D(10) in simp_all)
      moreover have "n = b_blockno (bufs s b) \<longleftrightarrow> c = b" using uniqD [OF D(10) c(1) b30 _ cb] c cb by (auto simp: caches_def)
      ultimately show ?thesis using blk_cached [OF D(10) c] other [OF c(1)] by auto
    next
      case False
      then have "n \<noteq> b_blockno (bufs s b)" using cb b30 by auto
      then show ?thesis using False blk_uncached [of s n] blk_uncached [of "s\<lparr>ram := m\<rparr>" n] by simp
    qed
  qed
  have oth': "rd_block m (bdata s c) = bd s c" if "c < 30" "c \<notin> H" for c
    using other [of c] that b by auto
  show "binv H P (s\<lparr>ram := m\<rparr>)"
    unfolding binv_def using D
    apply (intro conjI)
    subgoal by simp
    subgoal by simp
    subgoal by simp
    subgoal by simp
    subgoal by simp
    subgoal by auto
    subgoal by simp
    subgoal by simp
    subgoal using oth' by auto
    subgoal by simp
    subgoal by simp
    done
qed

text \<open>Copying one buffer into another.\<close>

lemma unat_bdata:
  assumes "unat base + 40000 < 2 ^ 64" "b < 30"
  shows "unat (bdata_at base b) = unat base + 112 + 1112 * b"
proof -
  have "bdata_at base b = base + of_nat (112 + 1112 * b)" by (simp add: bdata_at_def algebra_simps)
  moreover have "unat (of_nat (112 + 1112 * b) :: uint64) = 112 + 1112 * b" using assms(2) by (subst unat_of_nat) simp
  ultimately show ?thesis using assms by (subst \<open>bdata_at base b = _\<close>, subst unat_add_lt) simp_all
qed

lemma memmove_bufs:
  assumes "binv H P s" "b < 30" "c < 30"
  shows "memmove (ram s) (bdata s b) (bdata s c) 1024 = wr_block (ram s) (bdata s b) (bd s c)"
proof -
  have "memmove (ram s) (bdata s b) (bdata s c) 1024 = copied (ram s) (bdata s b) (bdata s c) (unat (1024 :: uint32))"
    using unat_bdata [OF binvD(13) [OF assms(1)]] assms(2,3) binvD(13) [OF assms(1)] by (intro memmove_eq) simp_all
  then show ?thesis by (simp add: copied_def wr_block_def fun_eq_iff)
qed

end
