(* ===== verification/Blockenc.thy ===== *)
theory Blockenc
  imports Bcoh
begin

text \<open>
  Integers in a block.  The C code casts the data of a buffer to a structure and reads and writes its
  fields; \<open>ldb\<close> and \<open>stb\<close> are the field of \<open>k\<close> bytes at an offset of a block, little-endian.
\<close>

definition ldb :: "nat \<Rightarrow> block \<Rightarrow> nat \<Rightarrow> 'w::len word" where
  "ldb k v i = ldw k (\<lambda>x. if unat x < BSIZE then v ! unat x else 0) (of_nat i)"

definition stb :: "nat \<Rightarrow> block \<Rightarrow> nat \<Rightarrow> 'w::len word \<Rightarrow> block" where
  "stb k v i w = map (\<lambda>j. if i \<le> j \<and> j < i + k then ucast (drop_bit (8 * (j - i)) w) else v ! j) [0..<BSIZE]"

lemma length_stb [simp]: "length (stb k v i w) = BSIZE"
  by (simp add: stb_def)

lemma stb_nth: "j < BSIZE \<Longrightarrow> stb k v i w ! j = (if i \<le> j \<and> j < i + k then ucast (drop_bit (8 * (j - i)) w) else v ! j)"
  by (simp add: stb_def)

lemma unat_off: "i < BSIZE \<Longrightarrow> j < BSIZE \<Longrightarrow> unat (of_nat i + of_nat j :: uint64) = i + j"
  by (simp add: unat_word_ariths unat_of_nat)

lemma ldb_bit:
  assumes "i + k \<le> BSIZE"
  shows "bit (ldb k v i :: 'w::len word) n \<longleftrightarrow> n < LENGTH('w) \<and> n < 8 * k \<and> bit (v ! (i + n div 8)) (n mod 8)"
proof (cases "n < 8 * k")
  case True
  then have "n div 8 < k" by auto
  then have "unat (of_nat i + of_nat (n div 8) :: uint64) = i + n div 8" "i + n div 8 < BSIZE"
    using assms by (simp_all add: unat_word_ariths unat_of_nat)
  then show ?thesis by (simp add: ldb_def bit_ldw)
next
  case False
  then show ?thesis by (simp add: ldb_def bit_ldw)
qed

text \<open>A load from the memory of a buffer is the load from its block.\<close>

lemma ldw_block:
  assumes "i + k \<le> BSIZE"
  shows "(ldw k m (a + of_nat i) :: 'w::len word) = ldb k (rd_block m a) i"
proof (rule bit_word_eqI)
  fix n assume "n < LENGTH('w)"
  show "bit (ldw k m (a + of_nat i) :: 'w word) n = bit (ldb k (rd_block m a) i :: 'w word) n"
  proof (cases "n < 8 * k")
    case True
    then have "n div 8 < k" by auto
    then have "i + n div 8 < BSIZE" using assms by simp
    then have "rd_block m a ! (i + n div 8) = m (a + of_nat (i + n div 8))" by simp
    then show ?thesis by (simp add: bit_ldw ldb_bit [OF assms] add.assoc)
  qed (simp add: bit_ldw ldb_bit [OF assms])
qed

lemma unat_neg:
  assumes "0 < e" "e < 2 ^ 64"
  shows "unat (- of_nat e :: uint64) = 2 ^ 64 - e"
proof -
  have "(of_nat (2 ^ 64 - e) :: uint64) = of_nat (2 ^ 64) - of_nat e" using assms by (intro of_nat_diff) simp
  then have "(- of_nat e :: uint64) = of_nat (2 ^ 64 - e)" by simp
  moreover have "unat (of_nat (2 ^ 64 - e) :: uint64) = 2 ^ 64 - e" using assms by (subst unat_of_nat) simp
  ultimately show ?thesis by (simp only:)
qed

text \<open>A store into the memory of a buffer is the store into its block.\<close>

lemma stw_block:
  assumes "i + k \<le> BSIZE"
  shows "rd_block (stw k m (a + of_nat i) w) a = stb k (rd_block m a) i w"
proof (rule nth_equalityI)
  fix j assume "j < length (rd_block (stw k m (a + of_nat i) w) a)"
  then have j: "j < BSIZE" by simp
  have d: "a + of_nat j - (a + of_nat i) = (of_nat j - of_nat i :: uint64)" by simp
  show "rd_block (stw k m (a + of_nat i) w) a ! j = stb k (rd_block m a) i w ! j"
  proof (cases "i \<le> j")
    case True
    then have "(of_nat j - of_nat i :: uint64) = of_nat (j - i)" by simp
    then have "unat (a + of_nat j - (a + of_nat i)) = j - i" using j d by (simp add: unat_of_nat)
    then show ?thesis using j True by (auto simp: stw_def stb_nth)
  next
    case False
    define e where "e = i - j"
    have e: "0 < e" "e \<le> BSIZE" "i = j + e" using False assms by (auto simp: e_def)
    have "(of_nat j - of_nat i :: uint64) = - of_nat e" using e(3) by simp
    moreover have "unat (- of_nat e :: uint64) = 2 ^ 64 - e" using e by (intro unat_neg) auto
    ultimately have "\<not> unat (a + of_nat j - (a + of_nat i)) < k" using d e assms by simp
    then show ?thesis using j False by (simp add: stw_def stb_nth)
  qed
qed simp

lemma stw_outside:
  assumes "i + k \<le> BSIZE" "\<not> unat (x - a) < BSIZE"
  shows "stw k m (a + of_nat i) w x = m x"
proof (rule stw_other)
  define u where "u = unat (x - a)"
  have "x - a = of_nat u" "BSIZE \<le> u" "u < 2 ^ 64" using assms(2) unat_lt64 [of "x - a"] by (auto simp: u_def)
  moreover have "x - (a + of_nat i) = (x - a) - of_nat i" by simp
  ultimately have e: "x - (a + of_nat i) = of_nat (u - i)" using assms(1) by simp
  have "unat (of_nat (u - i) :: uint64) = u - i" using \<open>u < 2 ^ 64\<close> by (subst unat_of_nat) simp
  then show "k \<le> unat (x - (a + of_nat i))" unfolding e using assms(1) \<open>BSIZE \<le> u\<close> by linarith
qed

lemma ldb_stb:
  assumes "i + k \<le> BSIZE" "8 * k = LENGTH('w::len)"
  shows "ldb k (stb k v i w) i = (w :: 'w word)"
proof (rule bit_word_eqI)
  fix n assume n: "n < LENGTH('w)"
  then have "n div 8 < k" using assms(2) by auto
  then show "bit (ldb k (stb k v i w) i :: 'w word) n = bit w n"
    using assms n by (simp add: ldb_bit stb_nth bit_simps)
qed

lemma ldb_stb_other:
  assumes "i + k \<le> BSIZE" "j + l \<le> BSIZE" "i + k \<le> j \<or> j + l \<le> i"
  shows "ldb k (stb l v j w) i = (ldb k v i :: 'w::len word)"
proof (rule bit_word_eqI)
  fix n
  show "bit (ldb k (stb l v j w) i :: 'w word) n = bit (ldb k v i :: 'w word) n"
  proof (cases "n < 8 * k")
    case True
    then have "n div 8 < k" by auto
    then show ?thesis using assms by (auto simp: ldb_bit stb_nth)
  qed (use assms in \<open>simp add: ldb_bit\<close>)
qed

lemma ldb_cong: "i + k \<le> BSIZE \<Longrightarrow> (\<And>j. i \<le> j \<Longrightarrow> j < i + k \<Longrightarrow> v ! j = v' ! j) \<Longrightarrow> ldb k v i = ldb k v' i"
  by (rule bit_word_eqI) (auto simp: ldb_bit less_mult_imp_div_less mult.commute)

end
