(* ===== verification/Virtio.thy ===== *)
theory Virtio
  imports Bio
begin

text \<open>
  \<^verbatim>\<open>kernel/virtio_disk.c\<close>: the driver of the disk.  The structures that the driver shares with the device, in
  \<^verbatim>\<open>disk.pages\<close>, and its own book-keeping are fields of the state; a descriptor refers to the headers, to the
  status bytes and to the data of a buffer by their addresses, the first two inside \<^verbatim>\<open>struct disk\<close>.  The registers
  of the device are read from \<open>v_regs\<close>, and what is written to them is appended to \<open>v_wr\<close>.
\<close>

section \<open>State\<close>

record virtq_desc =
  d_addr :: uint64
  d_len :: uint32
  d_flags :: uint16
  d_next :: uint16

record virtio_blk_req =
  q_type :: uint32
  q_reserved :: uint32
  q_sector :: uint64

record vdisk = bcache +
  v_desc :: "nat \<Rightarrow> virtq_desc"
  avail_idx :: uint16
  avail_ring :: "nat \<Rightarrow> uint16"
  uring_idx :: uint16
  uring_id :: "nat \<Rightarrow> uint32"
  v_free :: "nat \<Rightarrow> bool"
  used_idx :: uint16
  info_b :: "nat \<Rightarrow> nat option"
  info_status :: "nat \<Rightarrow> uint8"
  v_ops :: "nat \<Rightarrow> virtio_blk_req"
  v_at :: addr
  v_regs :: "nat \<Rightarrow> uint32"
  v_wr :: "(nat \<times> uint32) list"

abbreviation (input) NUM :: nat where "NUM \<equiv> 8"
abbreviation (input) VRING_DESC_F_NEXT :: uint16 where "VRING_DESC_F_NEXT \<equiv> 1"
abbreviation (input) VRING_DESC_F_WRITE :: uint16 where "VRING_DESC_F_WRITE \<equiv> 2"

definition zero_desc :: virtq_desc where
  "zero_desc = \<lparr>d_addr = 0, d_len = 0, d_flags = 0, d_next = 0\<rparr>"

text \<open>\<^verbatim>\<open>&disk.ops[i]\<close> and \<^verbatim>\<open>&disk.info[i].status\<close>.\<close>

definition ops_at :: "addr \<Rightarrow> nat \<Rightarrow> addr" where
  "ops_at base i = base + 8360 + 16 * of_nat i"

definition status_at :: "addr \<Rightarrow> nat \<Rightarrow> addr" where
  "status_at base i = base + 8232 + 16 * of_nat i + 8"

abbreviation upd_desc :: "nat \<Rightarrow> virtq_desc \<Rightarrow> ('a vdisk_scheme, unit) km" where
  "upd_desc i d \<equiv> kmod (\<lambda>s. s\<lparr>v_desc := (v_desc s)(i := d)\<rparr>)"

definition wr_reg :: "nat \<Rightarrow> uint32 \<Rightarrow> ('a vdisk_scheme, unit) km" where
  "wr_reg r v = kmod (\<lambda>s. s\<lparr>v_wr := v_wr s @ [(r, v)]\<rparr>)"

section \<open>Operations\<close>

text \<open>The masks are those of \<^verbatim>\<open>VIRTIO_BLK_F_RO\<close> to \<^verbatim>\<open>VIRTIO_RING_F_INDIRECT_DESC\<close>, in the order of the code.\<close>

definition virtio_disk_init :: "('a vdisk_scheme, unit) km" where
  "virtio_disk_init =
     kseq (on_mach (initlock Vdisk_lock ''virtio_disk''))
    (kbind (kgets v_regs) (\<lambda>R.
     if R 0x000 \<noteq> 0x74726976 \<or> R 0x004 \<noteq> 1 \<or> R 0x008 \<noteq> 2 \<or> R 0x00c \<noteq> 0x554d4551 then kpanic ''could not find virtio disk''
     else kseq (wr_reg 0x070 1)
    (kseq (wr_reg 0x070 (1 OR 2))
    (kseq (wr_reg 0x020 (fold (\<lambda>i f. f AND NOT (push_bit i 1)) [5, 7, 11, 12, 27, 29, 28] (R 0x010)))
    (kseq (wr_reg 0x070 (1 OR 2 OR 8))
    (kseq (wr_reg 0x070 (1 OR 2 OR 8 OR 4))
    (kseq (wr_reg 0x028 4096)
    (kseq (wr_reg 0x030 0)
    (if R 0x034 = 0 then kpanic ''virtio disk has no queue 0''
     else if R 0x034 < 8 then kpanic ''virtio disk max queue too short''
     else kseq (wr_reg 0x038 8)
    (kseq (kmod (\<lambda>s. s\<lparr>v_desc := (\<lambda>_. zero_desc), avail_idx := 0, avail_ring := (\<lambda>_. 0), uring_idx := 0, uring_id := (\<lambda>_. 0)\<rparr>))
    (kseq (kbind (kgets v_at) (\<lambda>a. wr_reg 0x040 (ucast (drop_bit 12 a))))
          (kfor [0..<NUM] (\<lambda>i. kmod (\<lambda>s. s\<lparr>v_free := (v_free s)(i := True)\<rparr>))))))))))))))"

definition alloc_desc :: "('a vdisk_scheme, nat option) km" where
  "alloc_desc =
     kscan [0..<NUM] (\<lambda>i.
       kbind (kgets (\<lambda>s. v_free s i)) (\<lambda>f.
       if f then kseq (kmod (\<lambda>s. s\<lparr>v_free := (v_free s)(i := False)\<rparr>)) (kret (Some i))
       else kret None))"

definition free_desc :: "nat \<Rightarrow> ('a vdisk_scheme, unit) km" where
  "free_desc i =
     (if i \<ge> NUM then kpanic ''free_desc 1''
      else kbind (kgets (\<lambda>s. v_free s i)) (\<lambda>f.
      if f then kpanic ''free_desc 2''
      else kseq (upd_desc i zero_desc)
          (kseq (kmod (\<lambda>s. s\<lparr>v_free := (v_free s)(i := True)\<rparr>))
                (wakeup Chan_disk_free))))"

text \<open>The loop frees a descriptor in each turn, and panics on one that is free: \<open>NUM + 1\<close> turns are enough.\<close>

primrec free_chain :: "nat \<Rightarrow> nat \<Rightarrow> ('a vdisk_scheme, unit) km" where
  "free_chain 0 i = kfail Out_of_fuel"
| "free_chain (Suc k) i =
     kbind (kgets (\<lambda>s. v_desc s i)) (\<lambda>d.
     kseq (free_desc i)
    (if d_flags d AND VRING_DESC_F_NEXT \<noteq> 0 then free_chain k (unat (d_next d)) else kret ()))"

primrec alloc3_loop :: "nat \<Rightarrow> nat list \<Rightarrow> ('a vdisk_scheme, nat list option) km" where
  "alloc3_loop 0 idx = kret (Some idx)"
| "alloc3_loop (Suc k) idx =
     kbind alloc_desc (\<lambda>r.
     case r of
       None \<Rightarrow> kseq (kfor idx free_desc) (kret None)
     | Some i \<Rightarrow> alloc3_loop k (idx @ [i]))"

definition alloc3_desc :: "('a vdisk_scheme, nat list option) km" where
  "alloc3_desc = alloc3_loop 3 []"

text \<open>\<^verbatim>\<open>virtio_disk_rw\<close> up to the wait: the request is formatted and the device notified.  The sector number is a
  32-bit product.\<close>

definition virtio_format :: "nat \<Rightarrow> bool \<Rightarrow> nat \<Rightarrow> nat \<Rightarrow> nat \<Rightarrow> ('a vdisk_scheme, unit) km" where
  "virtio_format b wr i0 i1 i2 =
     kbind (kgets (\<lambda>s. ucast (b_blockno (bufs s b) * 2))) (\<lambda>sector.
     kbind (kgets v_at) (\<lambda>base.
     kbind (kgets (\<lambda>s. bdata s b)) (\<lambda>data.
     kseq (kmod (\<lambda>s. s\<lparr>v_ops := (v_ops s)(i0 := \<lparr>q_type = (if wr then 1 else 0), q_reserved = 0, q_sector = sector\<rparr>)\<rparr>))
    (kseq (upd_desc i0 \<lparr>d_addr = ops_at base i0, d_len = 16, d_flags = VRING_DESC_F_NEXT, d_next = of_nat i1\<rparr>)
    (kseq (upd_desc i1 \<lparr>d_addr = data, d_len = 1024, d_flags = (if wr then 0 else VRING_DESC_F_WRITE) OR VRING_DESC_F_NEXT, d_next = of_nat i2\<rparr>)
    (kseq (kmod (\<lambda>s. s\<lparr>info_status := (info_status s)(i0 := 0xff)\<rparr>))
    (kseq (upd_desc i2 \<lparr>d_addr = status_at base i0, d_len = 1, d_flags = VRING_DESC_F_WRITE, d_next = 0\<rparr>)
    (kseq (upd_buf b (\<lambda>y. y\<lparr>b_disk := True\<rparr>))
    (kseq (kmod (\<lambda>s. s\<lparr>info_b := (info_b s)(i0 := Some b)\<rparr>))
    (kseq (kmod (\<lambda>s. s\<lparr>avail_ring := (avail_ring s)(unat (avail_idx s mod 8) := of_nat i0)\<rparr>))
    (kseq (kmod (\<lambda>s. s\<lparr>avail_idx := avail_idx s + 1\<rparr>))
          (wr_reg 0x050 0))))))))))))"

definition virtio_submit :: "nat \<Rightarrow> bool \<Rightarrow> ('a vdisk_scheme, nat) km" where
  "virtio_submit b wr =
     kseq (lock_k Vdisk_lock)
    (kbind alloc3_desc (\<lambda>r.
     case r of
       Some [i0, i1, i2] \<Rightarrow> kseq (virtio_format b wr i0 i1 i2) (kret i0)
     | _ \<Rightarrow> sleep Chan_disk_free Vdisk_lock))"

text \<open>The wait, and what follows when the request has finished.\<close>

definition virtio_wait :: "nat \<Rightarrow> ('a vdisk_scheme, unit) km" where
  "virtio_wait b = kbind (getb b_disk b) (\<lambda>d. if d then sleep (Chan_buf b) Vdisk_lock else kret ())"

definition virtio_finish :: "nat \<Rightarrow> ('a vdisk_scheme, unit) km" where
  "virtio_finish i0 =
     kseq (kmod (\<lambda>s. s\<lparr>info_b := (info_b s)(i0 := None)\<rparr>))
    (kseq (free_chain (Suc NUM) i0)
          (unlock_k Vdisk_lock))"

definition virtio_disk_rw :: "nat \<Rightarrow> bool \<Rightarrow> ('a vdisk_scheme, unit) km" where
  "virtio_disk_rw b wr = kbind (virtio_submit b wr) (\<lambda>i0. kseq (virtio_wait b) (virtio_finish i0))"

text \<open>The loop of \<^verbatim>\<open>virtio_disk_intr\<close> takes the entries of the used ring; there are as many as the two
  indexes are apart.\<close>

primrec virtio_intr_loop :: "nat \<Rightarrow> ('a vdisk_scheme, unit) km" where
  "virtio_intr_loop 0 = kfail Out_of_fuel"
| "virtio_intr_loop (Suc k) =
     kbind (kgets (\<lambda>s. used_idx s = uring_idx s)) (\<lambda>e.
     if e then kret ()
     else kbind (kgets (\<lambda>s. unat (uring_id s (unat (used_idx s mod 8))))) (\<lambda>i.
     kbind (kgets (\<lambda>s. info_status s i)) (\<lambda>st.
     if st \<noteq> 0 then kpanic ''virtio_disk_intr status''
     else kbind (kgets (\<lambda>s. info_b s i)) (\<lambda>b0.
     kbind (deref b0) (\<lambda>b.
     kseq (upd_buf b (\<lambda>y. y\<lparr>b_disk := False\<rparr>))
    (kseq (wakeup (Chan_buf b))
    (kseq (kmod (\<lambda>s. s\<lparr>used_idx := used_idx s + 1\<rparr>))
          (virtio_intr_loop k))))))))"

definition virtio_disk_intr :: "('a vdisk_scheme, unit) km" where
  "virtio_disk_intr =
     kseq (lock_k Vdisk_lock)
    (kbind (kgets v_regs) (\<lambda>R.
     kseq (wr_reg 0x064 (R 0x060 AND 3))
    (kseq (kbind (kgets (\<lambda>s. unat (uring_idx s - used_idx s))) (\<lambda>n. virtio_intr_loop (Suc n)))
          (unlock_k Vdisk_lock))))"

end
