(* ===== verification/Log.thy ===== *)
theory Log
  imports Blockenc Virtio
begin

text \<open>
  \<^verbatim>\<open>kernel/log.c\<close>: transactions on disk blocks.  The header is a structure of 32-bit integers, \<^verbatim>\<open>n\<close> and
  \<^verbatim>\<open>block[LOGSIZE]\<close>, both in memory and in the data of the header block.
\<close>

section \<open>State\<close>

record superblock =
  sb_magic :: uint32
  sb_size :: uint32
  sb_nblocks :: uint32
  sb_ninodes :: uint32
  sb_nlog :: uint32
  sb_logstart :: uint32
  sb_inodestart :: uint32
  sb_bmapstart :: uint32

record xlog = vdisk +
  l_start :: uint32
  l_size :: int
  l_outstanding :: int
  l_committing :: bool
  l_dev :: uint32
  lh_n :: int
  lh_block :: "nat \<Rightarrow> uint32"

section \<open>Reading and writing the header\<close>

definition read_head :: "('a xlog_scheme, unit) km" where
  "read_head =
     kbind (kgets l_dev) (\<lambda>dev.
     kbind (kgets l_start) (\<lambda>start.
     kbind (bread dev start) (\<lambda>b.
     kbind (kgets (\<lambda>s. bdata s b)) (\<lambda>lh.
     kbind (kgets (\<lambda>s. ld32 (ram s) lh)) (\<lambda>n.
     kseq (kmod (\<lambda>s. s\<lparr>lh_n := sint n\<rparr>))
    (kseq (kfor [0..<nat (sint n)] (\<lambda>i.
             kmod (\<lambda>s. s\<lparr>lh_block := (lh_block s)(i := ld32 (ram s) (lh + of_nat (4 + 4 * i)))\<rparr>)))
          (brelse b)))))))"

definition write_head :: "('a xlog_scheme, unit) km" where
  "write_head =
     kbind (kgets l_dev) (\<lambda>dev.
     kbind (kgets l_start) (\<lambda>start.
     kbind (bread dev start) (\<lambda>b.
     kbind (kgets (\<lambda>s. bdata s b)) (\<lambda>hb.
     kbind (kgets lh_n) (\<lambda>n.
     kseq (upd_ram (\<lambda>m. st32 m hb (word_of_int n)))
    (kseq (kfor [0..<nat n] (\<lambda>i.
             kmod (\<lambda>s. s\<lparr>ram := st32 (ram s) (hb + of_nat (4 + 4 * i)) (lh_block s i)\<rparr>)))
    (kseq (bwrite b)
          (brelse b))))))))"

section \<open>Commit and recovery\<close>

definition install_body :: "bool \<Rightarrow> nat \<Rightarrow> ('a xlog_scheme, unit) km" where
  "install_body recovering tail =
     kbind (kgets l_dev) (\<lambda>dev.
     kbind (kgets l_start) (\<lambda>start.
     kbind (bread dev (start + of_nat tail + 1)) (\<lambda>lbuf.
     kbind (kgets (\<lambda>s. lh_block s tail)) (\<lambda>bn.
     kbind (bread dev bn) (\<lambda>dbuf.
     kseq (kmod (\<lambda>s. s\<lparr>ram := memmove (ram s) (bdata s dbuf) (bdata s lbuf) 1024\<rparr>))
    (kseq (bwrite dbuf)
    (kseq (kwhen (\<not> recovering) (bunpin dbuf))
    (kseq (brelse lbuf)
          (brelse dbuf)))))))))"

definition install_trans :: "bool \<Rightarrow> ('a xlog_scheme, unit) km" where
  "install_trans recovering = kbind (kgets lh_n) (\<lambda>n. kfor [0..<nat n] (install_body recovering))"

definition recover_from_log :: "('a xlog_scheme, unit) km" where
  "recover_from_log =
     kseq read_head
    (kseq (install_trans True)
    (kseq (kmod (\<lambda>s. s\<lparr>lh_n := 0\<rparr>))
          write_head))"

text \<open>\<^verbatim>\<open>sizeof(struct logheader)\<close> is 124.\<close>

definition initlog :: "uint32 \<Rightarrow> superblock \<Rightarrow> ('a xlog_scheme, unit) km" where
  "initlog dev sb =
     (if (124 :: nat) \<ge> BSIZE then kpanic ''initlog: too big logheader''
      else kseq (on_mach (initlock Log_lock ''log''))
          (kseq (kmod (\<lambda>s. s\<lparr>l_start := sb_logstart sb\<rparr>))
          (kseq (kmod (\<lambda>s. s\<lparr>l_size := sint (sb_nlog sb)\<rparr>))
          (kseq (kmod (\<lambda>s. s\<lparr>l_dev := dev\<rparr>))
                recover_from_log))))"

definition write_log_body :: "nat \<Rightarrow> ('a xlog_scheme, unit) km" where
  "write_log_body tail =
     kbind (kgets l_dev) (\<lambda>dev.
     kbind (kgets l_start) (\<lambda>start.
     kbind (bread dev (start + of_nat tail + 1)) (\<lambda>to.
     kbind (kgets (\<lambda>s. lh_block s tail)) (\<lambda>bn.
     kbind (bread dev bn) (\<lambda>from.
     kseq (kmod (\<lambda>s. s\<lparr>ram := memmove (ram s) (bdata s to) (bdata s from) 1024\<rparr>))
    (kseq (bwrite to)
    (kseq (brelse from)
          (brelse to))))))))"

definition write_log :: "('a xlog_scheme, unit) km" where
  "write_log = kbind (kgets lh_n) (\<lambda>n. kfor [0..<nat n] write_log_body)"

definition commit :: "('a xlog_scheme, unit) km" where
  "commit =
     kbind (kgets lh_n) (\<lambda>n.
     kwhen (n > 0)
       (kseq write_log
       (kseq write_head
       (kseq (install_trans False)
       (kseq (kmod (\<lambda>s. s\<lparr>lh_n := 0\<rparr>))
             write_head)))))"

section \<open>Operations\<close>

definition begin_op :: "('a xlog_scheme, unit) km" where
  "begin_op =
     kseq (lock_k Log_lock)
    (kbind (kgets l_committing) (\<lambda>c.
     if c then sleep Chan_log Log_lock
     else kbind (kgets (\<lambda>s. lh_n s + (l_outstanding s + 1) * MAXOPBLOCKS)) (\<lambda>need.
     if need > LOGSIZE then sleep Chan_log Log_lock
     else kseq (kmod (\<lambda>s. s\<lparr>l_outstanding := l_outstanding s + 1\<rparr>))
               (unlock_k Log_lock))))"

definition end_op :: "('a xlog_scheme, unit) km" where
  "end_op =
     kseq (lock_k Log_lock)
    (kseq (kmod (\<lambda>s. s\<lparr>l_outstanding := l_outstanding s - 1\<rparr>))
    (kbind (kgets l_committing) (\<lambda>c.
     if c then kpanic ''log.committing''
     else kbind (kgets (\<lambda>s. l_outstanding s = 0)) (\<lambda>do_commit.
     kseq (if do_commit then kmod (\<lambda>s. s\<lparr>l_committing := True\<rparr>) else wakeup Chan_log)
    (kseq (unlock_k Log_lock)
          (kwhen do_commit
             (kseq commit
             (kseq (lock_k Log_lock)
             (kseq (kmod (\<lambda>s. s\<lparr>l_committing := False\<rparr>))
             (kseq (wakeup Chan_log)
                   (unlock_k Log_lock)))))))))))"

text \<open>\<^verbatim>\<open>log_write\<close>: the search for the block number leaves its index, or \<^verbatim>\<open>log.lh.n\<close>.\<close>

definition log_slot :: "(nat \<Rightarrow> uint32) \<Rightarrow> nat \<Rightarrow> uint32 \<Rightarrow> nat" where
  "log_slot bs n bn = length (takeWhile (\<lambda>i. bs i \<noteq> bn) [0..<n])"

definition log_write :: "nat \<Rightarrow> ('a xlog_scheme, unit) km" where
  "log_write b =
     kseq (lock_k Log_lock)
    (kbind (kgets (\<lambda>s. lh_n s)) (\<lambda>n.
     kbind (kgets l_size) (\<lambda>sz.
     if n \<ge> LOGSIZE \<or> n \<ge> sz - 1 then kpanic ''too big a transaction''
     else kbind (kgets l_outstanding) (\<lambda>o'.
     if o' < 1 then kpanic ''log_write outside of trans''
     else kbind (getb b_blockno b) (\<lambda>bn.
     kbind (kgets (\<lambda>s. log_slot (lh_block s) (nat n) bn)) (\<lambda>i.
     kseq (kmod (\<lambda>s. s\<lparr>lh_block := (lh_block s)(i := bn)\<rparr>))
    (kseq (kwhen (int i = n) (kseq (bpin b) (kmod (\<lambda>s. s\<lparr>lh_n := lh_n s + 1\<rparr>))))
          (unlock_k Log_lock))))))))"

end
