(* ===== verification/Crash.thy ===== *)
theory Crash
  imports Log
begin

text \<open>
  Disk images and what a crash leaves of them.  A disk is a map from block numbers to blocks; a
  sequence of writes is applied in order, and a crash stops it anywhere.  \<open>recovered\<close> is what recovery
  is meant to make of a disk: the blocks that a header with \<^verbatim>\<open>n > 0\<close> lists are taken from the log.
\<close>

type_synonym dimg = "uint32 \<Rightarrow> block"

definition writes :: "(uint32 \<times> block) list \<Rightarrow> dimg \<Rightarrow> dimg" where
  "writes ws d = fold (\<lambda>(n, v) d. d(n := v)) ws d"

definition logblk :: "uint32 \<Rightarrow> nat \<Rightarrow> uint32" where
  "logblk st i = st + of_nat i + 1"

definition in_log :: "uint32 \<Rightarrow> nat \<Rightarrow> uint32 \<Rightarrow> bool" where
  "in_log st sz n \<longleftrightarrow> unat st \<le> unat n \<and> unat n < unat st + sz"

definition hdr_n :: "block \<Rightarrow> int" where
  "hdr_n v = sint (ldb 4 v 0 :: uint32)"

definition hdr_b :: "block \<Rightarrow> nat \<Rightarrow> uint32" where
  "hdr_b v i = ldb 4 v (4 + 4 * i)"

definition assign :: "(nat \<Rightarrow> uint32) \<Rightarrow> (nat \<Rightarrow> block) \<Rightarrow> nat \<Rightarrow> dimg \<Rightarrow> dimg" where
  "assign bs vs n d = fold (\<lambda>i d. d(bs i := vs i)) [0..<n] d"

definition recovered :: "uint32 \<Rightarrow> dimg \<Rightarrow> dimg" where
  "recovered st d = assign (hdr_b (d st)) (\<lambda>i. d (logblk st i)) (nat (hdr_n (d st))) d"

section \<open>Lemmas\<close>

lemma writes_simps [simp]: "writes [] d = d" "writes ((n, v) # ws) d = writes ws (d(n := v))"
  "writes (us @ ws) d = writes ws (writes us d)"
  by (simp_all add: writes_def)

lemma writes_map: "writes (map (\<lambda>i. (bs i, vs i)) [0..<n]) d = assign bs vs n d"
  unfolding writes_def assign_def by (simp add: fold_map comp_def)

lemma assign_Suc: "assign bs vs (Suc n) d = (assign bs vs n d)(bs n := vs n)"
  by (simp add: assign_def)

lemma assign_0 [simp]: "assign bs vs 0 d = d"
  by (simp add: assign_def)

lemma assign_other: "\<forall>i<n. bs i \<noteq> m \<Longrightarrow> assign bs vs n d m = d m"
  by (induction n) (auto simp: assign_Suc)

lemma assign_hit: "i < n \<Longrightarrow> \<forall>j<n. bs j = bs i \<longrightarrow> j = i \<Longrightarrow> assign bs vs n d (bs i) = vs i"
proof (induction n)
  case (Suc n)
  show ?case
  proof (cases "i = n")
    case False
    have "i < n" using Suc.prems(1) False by simp
    moreover have "\<forall>j<n. bs j = bs i \<longrightarrow> j = i" using Suc.prems(2) by (meson less_SucI)
    ultimately have "assign bs vs n d (bs i) = vs i" by (rule Suc.IH)
    moreover have "bs n \<noteq> bs i" using Suc.prems(2) False by (metis lessI)
    ultimately show ?thesis by (simp add: assign_Suc)
  qed (simp add: assign_Suc)
qed simp

lemma assign_cong: "(\<And>i. i < n \<Longrightarrow> bs i = bs' i \<and> vs i = vs' i) \<Longrightarrow> assign bs vs n d = assign bs' vs' n d"
  by (induction n) (simp_all add: assign_Suc)

lemma assign_pointwise: "d m = d' m \<Longrightarrow> assign bs vs n d m = assign bs vs n d' m"
  by (induction n) (auto simp: assign_Suc)

text \<open>A prefix of the assignments, then all of them.\<close>

lemma assign_again: "k \<le> n \<Longrightarrow> assign bs vs n (assign bs vs k d) m = assign bs vs n d m" if "inj_on bs {..<n}"
proof (cases "\<exists>i<n. bs i = m")
  case True
  then obtain i where i: "i < n" "m = bs i" by blast
  then have "\<forall>j<n. bs j = bs i \<longrightarrow> j = i" using that by (auto simp: inj_on_def)
  then show ?thesis using i assign_hit by metis
next
  case False
  assume "k \<le> n"
  then show ?thesis using False by (simp add: assign_other)
qed

lemma unat_logblk:
  assumes "unat st + sz \<le> 2 ^ 32" "Suc i < sz"
  shows "unat (logblk st i) = unat st + i + 1"
proof -
  have "logblk st i = of_nat (unat st + i + 1)" by (simp add: logblk_def)
  moreover have "unat (of_nat (unat st + i + 1) :: uint32) = unat st + i + 1" using assms by (subst unat_of_nat) simp
  ultimately show ?thesis by simp
qed

lemma logblk_facts:
  assumes "unat st + sz \<le> 2 ^ 32" "Suc i < sz"
  shows "in_log st sz (logblk st i)" "logblk st i \<noteq> st"
    "Suc j < sz \<Longrightarrow> logblk st j = logblk st i \<Longrightarrow> j = i"
proof -
  show "in_log st sz (logblk st i)" using assms by (simp add: in_log_def unat_logblk)
  show "logblk st i \<noteq> st" using unat_logblk [OF assms] by auto
  show "Suc j < sz \<Longrightarrow> logblk st j = logblk st i \<Longrightarrow> j = i" using unat_logblk [OF assms] unat_logblk [of st sz j] assms(1) by auto
qed

section \<open>A commit is atomic\<close>

text \<open>The writes of a commit of the blocks \<open>bs\<close> with contents \<open>vs\<close>: the log, the header, the home
  locations, the cleared header.\<close>

definition commit_writes :: "uint32 \<Rightarrow> (nat \<Rightarrow> uint32) \<Rightarrow> (nat \<Rightarrow> block) \<Rightarrow> nat \<Rightarrow> block \<Rightarrow> block \<Rightarrow> (uint32 \<times> block) list" where
  "commit_writes st bs vs n h1 h0 =
     map (\<lambda>i. (logblk st i, vs i)) [0..<n] @ (st, h1) # map (\<lambda>i. (bs i, vs i)) [0..<n] @ [(st, h0)]"

definition log_layout :: "uint32 \<Rightarrow> nat \<Rightarrow> (nat \<Rightarrow> uint32) \<Rightarrow> nat \<Rightarrow> bool" where
  "log_layout st sz bs n \<longleftrightarrow> unat st + sz \<le> 2 ^ 32 \<and> n < sz \<and> inj_on bs {..<n} \<and> (\<forall>i<n. \<not> in_log st sz (bs i))"

lemma take_commit_writes:
  "k \<le> n \<Longrightarrow> take k (commit_writes st bs vs n h1 h0) = map (\<lambda>i. (logblk st i, vs i)) [0..<k]"
  "j \<le> n \<Longrightarrow> take (Suc (n + j)) (commit_writes st bs vs n h1 h0) =
     map (\<lambda>i. (logblk st i, vs i)) [0..<n] @ (st, h1) # map (\<lambda>i. (bs i, vs i)) [0..<j]"
  "2 * n + 2 \<le> k \<Longrightarrow> take k (commit_writes st bs vs n h1 h0) = commit_writes st bs vs n h1 h0"
  by (simp_all add: commit_writes_def take_map take_upt)

lemma commit_writes_crash:
  assumes L: "log_layout st sz bs n" and h: "hdr_n (d st) = 0" "hdr_n h1 = int n" "\<And>i. i < n \<Longrightarrow> hdr_b h1 i = bs i" "hdr_n h0 = 0"
    and m: "\<not> in_log st sz m"
  shows "recovered st (writes (take k (commit_writes st bs vs n h1 h0)) d) m = (if k \<le> n then d m else assign bs vs n d m)"
proof -
  have lay: "unat st + sz \<le> 2 ^ 32" "n < sz" "inj_on bs {..<n}" and out: "\<And>i. i < n \<Longrightarrow> \<not> in_log st sz (bs i)"
    using L by (auto simp: log_layout_def)
  have st: "in_log st sz st" using lay by (simp add: in_log_def)
  have lb: "in_log st sz (logblk st i)" "logblk st i \<noteq> st" if "i < n" for i
    using logblk_facts [OF lay(1), of i] that lay(2) by auto
  have linj: "\<forall>j<n. logblk st j = logblk st i \<longrightarrow> j = i" if "i < n" for i
    using logblk_facts(3) [OF lay(1), of i] that lay(2) by auto
  let ?d1 = "\<lambda>k. assign (logblk st) vs k d"
  have d1: "?d1 k st = d st" "?d1 k m = d m" if "k \<le> n" for k
    using lb m that by (auto intro!: assign_other)
  have d1l: "?d1 n (logblk st i) = vs i" if "i < n" for i using assign_hit linj that by blast
  define d2 where "d2 = (?d1 n)(st := h1)"
  have mst: "m \<noteq> st" using m st by auto
  have d2: "d2 m = d m" "d2 st = h1" using d1 [of n] mst by (auto simp: d2_def)
  have d2l: "d2 (logblk st i) = vs i" if "i < n" for i using d1l lb that by (simp add: d2_def)
  have d3: "assign bs vs j d2 x = d2 x" if "in_log st sz x" "j \<le> n" for j x
    using out that by (intro assign_other) auto
  have "k \<le> n \<or> n + 1 \<le> k \<and> k - (n + 1) \<le> n \<or> 2 * n + 2 \<le> k" by linarith
  then consider (log) "k \<le> n" | (home) j where "k = n + 1 + j" "j \<le> n" | (all) "2 * n + 2 \<le> k"
    by (metis le_add_diff_inverse)
  then show ?thesis
  proof cases
    case log
    then show ?thesis using d1 h(1) by (simp add: take_commit_writes writes_map recovered_def)
  next
    case home
    have "recovered st (assign bs vs j d2) = assign bs vs n (assign bs vs j d2)"
      unfolding recovered_def d3 [OF st home(2)] d2 h(2) nat_int
      by (rule assign_cong) (use h(3) d3 home(2) lb d2l in auto)
    then have "recovered st (assign bs vs j d2) m = assign bs vs n d m"
      using assign_again [OF lay(3) home(2)] assign_pointwise [where d = d2 and m = m and d' = d, OF d2(1)] by metis
    then show ?thesis using home by (simp add: take_commit_writes writes_map d2_def)
  next
    case all
    have "recovered st ((assign bs vs n d2)(st := h0)) m = assign bs vs n d2 m"
      using h(4) mst by (simp add: recovered_def)
    then show ?thesis using all assign_pointwise [where d = d2 and m = m and d' = d, OF d2(1), of bs vs n]
      by (simp add: take_commit_writes) (simp add: commit_writes_def writes_map d2_def)
  qed
qed

text \<open>Recovery may itself be cut off: every prefix of its writes leaves a disk that recovers to the same.\<close>

lemma recovery_crash:
  assumes L: "log_layout st sz bs n" and h: "hdr_n (d st) = int n" "\<And>i. i < n \<Longrightarrow> hdr_b (d st) i = bs i" "hdr_n h0 = 0"
    and m: "\<not> in_log st sz m"
  shows "recovered st (writes (take k (map (\<lambda>i. (bs i, d (logblk st i))) [0..<n] @ [(st, h0)])) d) m = recovered st d m"
proof -
  have lay: "unat st + sz \<le> 2 ^ 32" "n < sz" "inj_on bs {..<n}" and out: "\<And>i. i < n \<Longrightarrow> \<not> in_log st sz (bs i)"
    using L by (auto simp: log_layout_def)
  have st: "in_log st sz st" using lay by (simp add: in_log_def)
  have mst: "m \<noteq> st" using m st by auto
  let ?vs = "\<lambda>i. d (logblk st i)"
  have keep: "assign bs ?vs j d x = d x" if "in_log st sz x" "j \<le> n" for j x
    using out that by (intro assign_other) auto
  have rd: "recovered st d = assign bs ?vs n d"
    unfolding recovered_def h(1) nat_int by (rule assign_cong) (simp add: h(2))
  have j: "recovered st (assign bs ?vs j d) m = recovered st d m" if "j \<le> n" for j
  proof -
    have "recovered st (assign bs ?vs j d) = assign bs ?vs n (assign bs ?vs j d)"
      unfolding recovered_def keep [OF st that] h(1) nat_int
      by (rule assign_cong) (use h(2) keep that logblk_facts(1) [OF lay(1)] lay(2) in auto)
    then show ?thesis using assign_again [OF lay(3) that] rd by simp
  qed
  show ?thesis
  proof (cases "k \<le> n")
    case True
    then show ?thesis using j by (simp add: take_map take_upt writes_map)
  next
    case False
    then have "take k (map (\<lambda>i. (bs i, ?vs i)) [0..<n] @ [(st, h0)]) = map (\<lambda>i. (bs i, ?vs i)) [0..<n] @ [(st, h0)]" by simp
    then show ?thesis using mst h(3) rd by (simp add: writes_map) (simp add: recovered_def)
  qed
qed

section \<open>The header\<close>

definition header :: "block \<Rightarrow> nat \<Rightarrow> (nat \<Rightarrow> uint32) \<Rightarrow> block" where
  "header v n bs = fold (\<lambda>i v. stb 4 v (4 + 4 * i) (bs i)) [0..<n] (stb 4 v 0 (of_nat n :: uint32))"

lemma header_Suc: "fold (\<lambda>i v. stb 4 v (4 + 4 * i) (bs i)) [0..<Suc n] v = stb 4 (fold (\<lambda>i v. stb 4 v (4 + 4 * i) (bs i)) [0..<n] v) (4 + 4 * n) (bs n)"
  by simp

lemma header_fields:
  assumes "n \<le> 30"
  shows "length (header v n bs) = BSIZE" "hdr_n (header v n bs) = int n" "i < n \<Longrightarrow> hdr_b (header v n bs) i = bs i"
proof -
  let ?f = "\<lambda>k. fold (\<lambda>i v. stb 4 v (4 + 4 * i) (bs i)) [0..<k] (stb 4 v 0 (of_nat n :: uint32))"
  have "k \<le> 30 \<Longrightarrow> length (?f k) = BSIZE \<and> ldb 4 (?f k) 0 = (of_nat n :: uint32) \<and> (\<forall>i<k. ldb 4 (?f k) (4 + 4 * i) = bs i)" for k
  proof (induction k)
    case 0
    then show ?case by (simp add: ldb_stb)
  next
    case (Suc k)
    then show ?case unfolding header_Suc by (auto simp: ldb_stb ldb_stb_other less_Suc_eq)
  qed
  note f = this [of n, OF assms]
  have "sint (of_nat n :: uint32) = int n" using assms by (simp add: sint_uint unat_of_nat signed_take_bit_int_eq_self_iff uint_nat)
  then show "length (header v n bs) = BSIZE" "hdr_n (header v n bs) = int n" "i < n \<Longrightarrow> hdr_b (header v n bs) i = bs i"
    using f by (auto simp: header_def hdr_n_def hdr_b_def)
qed

end
