(* ===== verification/Logops.thy ===== *)
theory Logops
  imports Crash
begin

text \<open>
  What the functions of the log do to the disk, block by block, and that a crash at any point of a
  commit or of a recovery leaves either none or all of the transaction.
\<close>

section \<open>The log fields and the operations of the cache\<close>

lemma xlog_more:
  "bcache.more s' = bcache.more (s :: 'a xlog_scheme) \<Longrightarrow>
   l_start s' = l_start s \<and> l_size s' = l_size s \<and> l_outstanding s' = l_outstanding s \<and> l_committing s' = l_committing s \<and>
   l_dev s' = l_dev s \<and> lh_n s' = lh_n s \<and> lh_block s' = lh_block s \<and> xlog.more s' = xlog.more s"
  by (cases s; cases s') simp

lemma bframe_log:
  "bframe s (s' :: 'a xlog_scheme) \<Longrightarrow>
   l_start s' = l_start s \<and> l_size s' = l_size s \<and> l_outstanding s' = l_outstanding s \<and> l_committing s' = l_committing s \<and>
   l_dev s' = l_dev s \<and> lh_n s' = lh_n s \<and> lh_block s' = lh_block s \<and> xlog.more s' = xlog.more s"
  by (rule xlog_more) (simp add: bframe_def)

lemma binv_log [simp]:
  "binv H P (s\<lparr>lh_n := n\<rparr>) = binv H P s" "binv H P (s\<lparr>lh_block := f\<rparr>) = binv H P s"
  "blk (s\<lparr>lh_n := n\<rparr>) = blk s" "blk (s\<lparr>lh_block := f\<rparr>) = blk s"
  "runs p (s\<lparr>lh_n := n\<rparr>) = runs p s" "runs p (s\<lparr>lh_block := f\<rparr>) = runs p s"
  by (simp_all add: binv_def runs_def blk_def fun_eq_iff split: option.split)

lemma blk_clean:
  assumes "binv H P s" "\<forall>b\<in>H \<union> P. \<not> caches (bufs s) b n"
  shows "blk s n = disk s n"
proof (cases "\<exists>b<30. caches (bufs s) b n")
  case True
  then obtain b where b: "b < 30" "caches (bufs s) b n" by blast
  then have "b \<notin> H" "b \<notin> P" using assms(2) by auto
  then show ?thesis using blk_cached [OF binvD(10) [OF assms(1)] b] binvD(11) [OF assms(1) b] by simp
qed (simp add: blk_uncached)

section \<open>Reading two blocks\<close>

definition pinned :: "nat set \<Rightarrow> 'a bcache_scheme \<Rightarrow> uint32 \<Rightarrow> bool" where
  "pinned P s n \<longleftrightarrow> (\<exists>b\<in>P. caches (bufs s) b n)"

text \<open>The pinned buffers stay with their blocks.\<close>

definition same_pins :: "nat set \<Rightarrow> 'a bcache_scheme \<Rightarrow> 'a bcache_scheme \<Rightarrow> bool" where
  "same_pins P s s' \<longleftrightarrow> (\<forall>b\<in>P. b_blockno (bufs s' b) = b_blockno (bufs s b))"

lemma same_pins_refl [simp]: "same_pins P s s"
  by (simp add: same_pins_def)

lemma same_pins_trans: "same_pins P s t \<Longrightarrow> same_pins P t u \<Longrightarrow> same_pins P s u"
  by (simp add: same_pins_def)

lemma same_pins_caches:
  assumes "same_pins P s s'" "binv H P s" "binv H' P s'" "b \<in> P"
  shows "caches (bufs s') b n \<longleftrightarrow> caches (bufs s) b n"
  using assms binvD(8) [OF assms(2,4)] binvD(8) [OF assms(3,4)] by (simp add: same_pins_def caches_def)

lemma same_pins_pinned:
  assumes "same_pins P s s'" "binv H P s" "binv H' P s'"
  shows "pinned P s' n \<longleftrightarrow> pinned P s n"
  using same_pins_caches [OF assms] by (auto simp: pinned_def)

lemma read_two:
  assumes i: "binv {} P s" and r: "runs p s" and xy: "x \<noteq> y" and room: "card P < 30" "Suc (card P) < 30 \<or> pinned P s x \<or> pinned P s y"
  obtains bx b s1 s2 where "bread 1 x s = Inr (bx, s1)" "bread 1 y s1 = Inr (b, s2)" "bx \<noteq> b" "binv {bx, b} P s2"
    "caches (bufs s2) bx x" "caches (bufs s2) b y" "bd s2 bx = blk s x" "bd s2 b = blk s y" "blk s2 = blk s"
    "bframe s s2" "disk s2 = disk s" "dtrace s2 = dtrace s" "same_pins P s s2" "bframe s s1"
proof -
  obtain bx s1 where 1: "bread 1 x s = Inr (bx, s1)" "bx < 30" "binv {bx} P s1" "caches (bufs s1) bx x" "bd s1 bx = blk s x"
    "blk s1 = blk s" "bkeep P s s1" "bframe s s1" "disk s1 = disk s" "dtrace s1 = dtrace s"
    using bread_ok [OF i r, of x] room(1) by auto
  have pins: "same_pins P s s1" using 1(7) by (simp add: same_pins_def bkeep_def)
  have r1: "runs p s1" using bframe_runs [OF 1(8)] r by simp
  have room1: "card ({bx} \<union> P) < 30 \<or> (\<exists>b<30. caches (bufs s1) b y)"
  proof -
    have fin: "finite P" using binvD(3) [OF i] finite_subset by blast
    consider "Suc (card P) < 30" | "pinned P s x" | "pinned P s y" using room(2) by blast
    then show ?thesis
    proof cases
      case 1
      then show ?thesis using fin by (simp add: card_insert_if)
    next
      case 2
      then obtain c where "c \<in> P" "caches (bufs s1) c x" using same_pins_pinned [OF pins i 1(3)] by (auto simp: pinned_def)
      then have "bx \<in> P" using uniqD [OF binvD(10) [OF 1(3)], of bx c x] 1(2,4) binvD(3) [OF i] by auto
      then show ?thesis using room(1) by (simp add: insert_absorb)
    next
      case 3
      then show ?thesis using same_pins_pinned [OF pins i 1(3)] binvD(3) [OF i] by (auto simp: pinned_def)
    qed
  qed
  have ne: "\<forall>b\<in>{bx}. b_blockno (bufs s1 b) \<noteq> y" using 1(4) xy by (simp add: caches_def)
  obtain b s2 where 2: "bread 1 y s1 = Inr (b, s2)" "b \<notin> {bx}" "binv (insert b {bx}) P s2" "caches (bufs s2) b y" "bd s2 b = blk s1 y"
    "blk s2 = blk s1" "bkeep ({bx} \<union> P) s1 s2" "bframe s1 s2" "disk s2 = disk s1" "dtrace s2 = dtrace s1"
    using bread_ok [OF 1(3) r1 ne room1] by blast
  have "caches (bufs s2) bx x" "bd s2 bx = bd s1 bx"
    using 2(7) 1(4) binvD(7) [OF 2(3), of bx] by (auto simp: bkeep_def caches_def)
  moreover have "same_pins P s s2"
    using pins 2(7) by (auto simp: same_pins_def bkeep_def)
  moreover have "binv {bx, b} P s2" using 2(3) by (simp add: insert_commute)
  ultimately show thesis using that [of bx s1 b s2] 1 2 bframe_trans [OF 1(8) 2(8)] by auto
qed

section \<open>One block into the log\<close>

lemma wr_block_outside: "\<not> unat (x - a) < BSIZE \<Longrightarrow> wr_block m a v x = m x"
  by (simp add: wr_block_def)

text \<open>\<^verbatim>\<open>memmove(to->data, from->data, BSIZE); bwrite(to);\<close> for two locked buffers.\<close>

lemma copy_and_write:
  assumes i: "binv {to, fr} P s" and r: "runs p s" and ne: "to \<noteq> fr" and to: "caches (bufs s) to x"
    and s1: "s1 = s\<lparr>ram := memmove (ram s) (bdata s to) (bdata s fr) 1024\<rparr>"
  obtains s2 where "bwrite to s1 = Inr ((), s2)" "binv {to, fr} P s2" "blk s2 = (blk s)(x := bd s fr)" "bufs s2 = bufs s"
    "bd s2 to = bd s fr" "bd s2 fr = bd s fr" "bframe s s2" "disk s2 = (disk s)(x := bd s fr)" "dtrace s2 = dtrace s @ [(x, bd s fr)]"
proof -
  have b: "to < 30" "fr < 30" using binvD(2) [OF i] by auto
  have s1': "s1 = s\<lparr>ram := wr_block (ram s) (bdata s to) (bd s fr)\<rparr>" using memmove_bufs [OF i b] by (simp add: s1)
  note m = bmodify_ok [OF i, of to "wr_block (ram s) (bdata s to) (bd s fr)", OF _ wr_block_outside, simplified, folded s1']
  have bn: "b_blockno (bufs s to) = x" using to by (simp add: caches_def)
  have r1: "runs p s1" using r by (simp add: s1' runs_def)
  have bd1: "bd s1 to = bd s fr" by (simp add: s1')
  have fr1: "bd s1 fr = bd s fr" using m(3) [of fr] b ne by (simp add: s1')
  obtain s2 where 2: "bwrite to s1 = Inr ((), s2)" "binv {to, fr} P s2" "blk s2 = blk s1" "ram s2 = ram s1" "bufs s2 = bufs s1" "bframe s1 s2"
    "disk s2 = (disk s1)(b_blockno (bufs s1 to) := bd s1 to)" "dtrace s2 = dtrace s1 @ [(b_blockno (bufs s1 to), bd s1 to)]"
    using bwrite_ok [OF m(1) r1, of to] by blast
  have p1: "bufs s1 = bufs s" "bcache_at s1 = bcache_at s" "disk s1 = disk s" "dtrace s1 = dtrace s" by (simp_all add: s1')
  have at: "bcache_at s2 = bcache_at s" using 2(6) by (simp add: bframe_def p1)
  show thesis
  proof (rule that [of s2])
    show "blk s2 = (blk s)(x := bd s fr)" using 2(3) m(2) bn by simp
    show "bd s2 to = bd s fr" "bd s2 fr = bd s fr" using bd1 fr1 by (simp_all only: 2(4) at p1)
    show "bframe s s2" using bframe_trans [OF m(4) 2(6)] .
    show "disk s2 = (disk s)(x := bd s fr)" "dtrace s2 = dtrace s @ [(x, bd s fr)]" 
      by (simp_all only: 2(7,8) bd1 [unfolded p1] bn p1)
    show "bufs s2 = bufs s" by (simp only: 2(5) p1)
  qed (fact 2(1,2))+
qed

lemma pinned_buf:
  assumes i: "binv H P s" and "pinned P s n" and c: "caches (bufs s) b n" and b: "b < 30"
  shows "b \<in> P"
proof -
  obtain c where "c \<in> P" "caches (bufs s) c n" using assms(2) by (auto simp: pinned_def)
  moreover from this have "c < 30" using binvD(3) [OF i] by auto
  ultimately show ?thesis using uniqD [OF binvD(10) [OF i] b _ c, of c] by simp
qed

text \<open>\<^verbatim>\<open>brelse(x); brelse(y);\<close>\<close>

definition settled_buf :: "nat set \<Rightarrow> 'a bcache_scheme \<Rightarrow> nat \<Rightarrow> bool" where
  "settled_buf P s b \<longleftrightarrow> b \<in> P \<or> bd s b = disk s (b_blockno (bufs s b))"

lemma release_two:
  assumes i: "binv {x, y} P s" and r: "runs p s" and ne: "x \<noteq> y" and cl: "settled_buf P s x" "settled_buf P s y"
  obtains s1 s' where "brelse x s = Inr ((), s1)" "brelse y s1 = Inr ((), s')" "binv {} P s'" "blk s' = blk s"
    "\<And>c. b_blockno (bufs s' c) = b_blockno (bufs s c)" "bframe s s'" "disk s' = disk s" "dtrace s' = dtrace s"
proof -
  obtain s1 where 1: "brelse x s = Inr ((), s1)" "binv ({x, y} - {x}) P s1" "blk s1 = blk s" "ram s1 = ram s"
    "\<And>c. b_dev (bufs s1 c) = b_dev (bufs s c) \<and> b_blockno (bufs s1 c) = b_blockno (bufs s c)"
    "bframe s s1" "disk s1 = disk s" "dtrace s1 = dtrace s"
    using brelse_ok [OF i r, of x] cl(1) unfolding settled_buf_def by blast
  have r1: "runs p s1" using bframe_runs [OF 1(6)] r by simp
  have i1: "binv {y} P s1" using 1(2) ne by (simp add: insert_Diff_if)
  have at: "bcache_at s1 = bcache_at s" using 1(6) by (simp add: bframe_def)
  have "y \<in> P \<or> bd s1 y = disk s1 (b_blockno (bufs s1 y))" using cl(2) by (simp add: settled_buf_def at 1(4,5,7))
  then obtain s2 where 2: "brelse y s1 = Inr ((), s2)" "binv ({y} - {y}) P s2" "blk s2 = blk s1" "ram s2 = ram s1"
    "\<And>c. b_dev (bufs s2 c) = b_dev (bufs s1 c) \<and> b_blockno (bufs s2 c) = b_blockno (bufs s1 c)"
    "bframe s1 s2" "disk s2 = disk s1" "dtrace s2 = dtrace s1"
    using brelse_ok [OF i1 r1, of y] by blast
  show thesis
    by (rule that [of s1 s2]) (use 1 2 bframe_trans [OF 1(6) 2(6)] in simp_all)
qed

lemma write_log_body_ok:
  assumes i: "binv {} P s" and r: "runs p s" and d: "l_dev s = 1" and bn: "bn = lh_block s t" and lb: "lb = logblk (l_start s) t"
    and ne: "lb \<noteq> bn" and pin: "pinned P s bn" "card P < 30"
  obtains s' where "write_log_body t s = Inr ((), s')" "binv {} P s'" "blk s' = (blk s)(lb := blk s bn)"
    "disk s' = (disk s)(lb := blk s bn)" "dtrace s' = dtrace s @ [(lb, blk s bn)]" "bframe s s'" "same_pins P s s'"
proof -
  obtain to fr s1 s2 where 2: "bread 1 lb s = Inr (to, s1)" "bread 1 bn s1 = Inr (fr, s2)" "to \<noteq> fr" "binv {to, fr} P s2"
    "caches (bufs s2) to lb" "caches (bufs s2) fr bn" "bd s2 to = blk s lb" "bd s2 fr = blk s bn" "blk s2 = blk s"
    "bframe s s2" "disk s2 = disk s" "dtrace s2 = dtrace s" "same_pins P s s2" "bframe s s1"
    by (rule read_two [OF i r ne pin(2) disjI2 [OF disjI2 [OF pin(1)]]])
  define s3 where "s3 = s2\<lparr>ram := memmove (ram s2) (bdata s2 to) (bdata s2 fr) 1024\<rparr>"
  have r2: "runs p s2" using bframe_runs [OF 2(10)] r by simp
  obtain s4 where 4: "bwrite to s3 = Inr ((), s4)" "binv {to, fr} P s4" "blk s4 = (blk s2)(lb := bd s2 fr)" "bufs s4 = bufs s2"
    "bd s4 to = bd s2 fr" "bd s4 fr = bd s2 fr" "bframe s2 s4" "disk s4 = (disk s2)(lb := bd s2 fr)" "dtrace s4 = dtrace s2 @ [(lb, bd s2 fr)]"
    by (rule copy_and_write [OF 2(4) r2 2(3,5) s3_def])
  have r4: "runs p s4" using bframe_runs [OF 4(7)] r2 by simp
  have "fr \<in> P" using pinned_buf [OF 2(4) _ 2(6)] binvD(2) [OF 2(4)] same_pins_pinned [OF 2(13) i 2(4)] pin(1) by simp
  then have "settled_buf P s4 fr" "settled_buf P s4 to" using 4(4,5,8) 2(5) by (simp_all add: settled_buf_def caches_def)
  then obtain s5 s6 where 6: "brelse fr s4 = Inr ((), s5)" "brelse to s5 = Inr ((), s6)" "binv {} P s6" "blk s6 = blk s4"
    "\<And>c. b_blockno (bufs s6 c) = b_blockno (bufs s4 c)" "bframe s4 s6" "disk s6 = disk s4" "dtrace s6 = dtrace s4"
    using release_two [OF 4(2) [unfolded insert_commute [of to fr]] r4 2(3) [symmetric]] by metis
  show thesis
  proof (rule that [of s6])
    show "write_log_body t s = Inr ((), s6)"
      using d 2(1,2) 4(1) 6(1,2) bframe_log [OF 2(14)]
      by (simp add: write_log_body_def kmonad logblk_def [symmetric] lb [symmetric] bn [symmetric] s3_def)
    show "bframe s s6" using bframe_trans 2(10) 4(7) 6(6) by blast
    show "same_pins P s s6" using 2(13) by (simp add: same_pins_def 6(5) 4(4))
  qed (simp_all add: 6 4 2)
qed

text \<open>One block from the log to its home location; the buffer is no longer pinned, unless recovering.\<close>

definition unpins :: "bool \<Rightarrow> nat set \<Rightarrow> 'a bcache_scheme \<Rightarrow> uint32 \<Rightarrow> nat set" where
  "unpins recovering P s n = (if recovering then P else P - {b. caches (bufs s) b n})"

lemma install_unpin:
  assumes i: "binv {b, c} P s" and r: "runs p s" and b: "caches (bufs s) b n" "recovering \<or> b \<in> P"
  obtains s' where "kwhen (\<not> recovering) (bunpin b) s = Inr ((), s')" "binv {b, c} (unpins recovering P s n) s'" "blk s' = blk s" "ram s' = ram s"
    "\<And>c. b_dev (bufs s' c) = b_dev (bufs s c) \<and> b_blockno (bufs s' c) = b_blockno (bufs s c)"
    "bframe s s'" "disk s' = disk s" "dtrace s' = dtrace s"
proof (cases recovering)
  case True
  then show thesis using that [of s] i by (simp add: kmonad unpins_def)
next
  case False
  have "x = b" if "x \<in> P" "caches (bufs s) x n" for x
    using uniqD [OF binvD(10) [OF i], of x b n] that b(1) binvD(2,3) [OF i] by auto
  then have "P - {x. caches (bufs s) x n} = P - {b}" using b(1) by blast
  then have "unpins recovering P s n = P - {b}" using False by (simp add: unpins_def)
  then show thesis using bunpin_ok [OF i r, of b] b(2) False that by (simp add: kmonad) blast
qed

lemma install_body_ok:
  assumes i: "binv {} P s" and r: "runs p s" and d: "l_dev s = 1" and bn: "bn = lh_block s t" and lb: "lb = logblk (l_start s) t"
    and ne: "lb \<noteq> bn" and pin: "recovering \<and> P = {} \<or> \<not> recovering \<and> pinned P s bn" "card P < 30" "\<not> pinned P s lb"
  obtains s' where "install_body recovering t s = Inr ((), s')" "binv {} (unpins recovering P s bn) s'" "blk s' = (blk s)(bn := blk s lb)"
    "disk s' = (disk s)(bn := blk s lb)" "dtrace s' = dtrace s @ [(bn, blk s lb)]" "bframe s s'" "same_pins P s s'"
proof -
  have "Suc (card P) < 30 \<or> pinned P s lb \<or> pinned P s bn" using pin(1) by auto
  then obtain fr to s1 s2 where 2: "bread 1 lb s = Inr (fr, s1)" "bread 1 bn s1 = Inr (to, s2)" "fr \<noteq> to" "binv {fr, to} P s2"
    "caches (bufs s2) fr lb" "caches (bufs s2) to bn" "bd s2 fr = blk s lb" "bd s2 to = blk s bn" "blk s2 = blk s"
    "bframe s s2" "disk s2 = disk s" "dtrace s2 = dtrace s" "same_pins P s s2" "bframe s s1"
    by (rule read_two [OF i r ne pin(2)])
  define s3 where "s3 = s2\<lparr>ram := memmove (ram s2) (bdata s2 to) (bdata s2 fr) 1024\<rparr>"
  have r2: "runs p s2" using bframe_runs [OF 2(10)] r by simp
  obtain s4 where 4: "bwrite to s3 = Inr ((), s4)" "binv {to, fr} P s4" "blk s4 = (blk s2)(bn := bd s2 fr)" "bufs s4 = bufs s2"
    "bd s4 to = bd s2 fr" "bd s4 fr = bd s2 fr" "bframe s2 s4" "disk s4 = (disk s2)(bn := bd s2 fr)" "dtrace s4 = dtrace s2 @ [(bn, bd s2 fr)]"
    by (rule copy_and_write [OF 2(4) [unfolded insert_commute [of fr to]] r2 2(3) [symmetric] 2(6) s3_def])
  have r4: "runs p s4" using bframe_runs [OF 4(7)] r2 by simp
  have P': "unpins recovering P s4 bn = unpins recovering P s bn"
    using same_pins_caches [OF 2(13) i 2(4)] by (auto simp: unpins_def 4(4))
  have "recovering \<or> to \<in> P" using pinned_buf [OF 2(4) _ 2(6)] binvD(2) [OF 2(4)] same_pins_pinned [OF 2(13) i 2(4)] pin(1) by auto
  moreover have "caches (bufs s4) to bn" using 2(6) 4(4) by simp
  ultimately obtain s5 where 5: "kwhen (\<not> recovering) (bunpin to) s4 = Inr ((), s5)" "binv {to, fr} (unpins recovering P s bn) s5" "blk s5 = blk s4" "ram s5 = ram s4"
    "\<And>c. b_dev (bufs s5 c) = b_dev (bufs s4 c) \<and> b_blockno (bufs s5 c) = b_blockno (bufs s4 c)"
    "bframe s4 s5" "disk s5 = disk s4" "dtrace s5 = dtrace s4"
    using install_unpin [OF 4(2) r4] P' by metis
  have r5: "runs p s5" using bframe_runs [OF 5(6)] r4 by simp
  have at: "bcache_at s5 = bcache_at s4" "bcache_at s4 = bcache_at s2" using 5(6) 4(7) by (simp_all add: bframe_def)
  have "blk s lb = disk s lb" using pin(3) by (intro blk_clean [OF i]) (auto simp: pinned_def)
  then have "settled_buf Q s5 fr" "settled_buf Q s5 to" for Q
    using 4(4,5,6,8) 2(5,6,7,11) ne by (simp_all add: settled_buf_def caches_def at 5(4,5,7))
  then obtain s6 s7 where 7: "brelse fr s5 = Inr ((), s6)" "brelse to s6 = Inr ((), s7)" "binv {} (unpins recovering P s bn) s7" "blk s7 = blk s5"
    "\<And>c. b_blockno (bufs s7 c) = b_blockno (bufs s5 c)" "bframe s5 s7" "disk s7 = disk s5" "dtrace s7 = dtrace s5"
    using release_two [OF 5(2) [unfolded insert_commute [of to fr]] r5 2(3)] by metis
  show thesis
  proof (rule that [of s7])
    show "install_body recovering t s = Inr ((), s7)"
      using d 2(1,2) 4(1) 5(1) 7(1,2) bframe_log [OF 2(14)]
      by (simp add: install_body_def kbind_def kseq_def kgets_def kmod_def logblk_def [symmetric] lb [symmetric] bn [symmetric] s3_def)
    show "bframe s s7" using bframe_trans 2(10) 4(7) 5(6) 7(6) by blast
    show "same_pins P s s7" using 2(13) by (simp add: same_pins_def 7(5) 5(5) 4(4))
  qed (simp_all add: 7 5(3,7,8) 4(3,8,9) 2(7,9,11,12))
qed

section \<open>The header block\<close>

lemma kfor_Suc: "kfor [0..<k] f s = Inr ((), s1) \<Longrightarrow> kfor [0..<Suc k] f s = f k s1"
  by (simp add: kfor_append kseq_def kbind_def kret_def split: sum.split)

definition header_ram :: "ram \<Rightarrow> addr \<Rightarrow> nat \<Rightarrow> (nat \<Rightarrow> uint32) \<Rightarrow> nat \<Rightarrow> ram" where
  "header_ram m a n bs k = fold (\<lambda>i m. st32 m (a + of_nat (4 + 4 * i)) (bs i)) [0..<k] (st32 m a (of_nat n))"

lemma header_ram_block:
  "k \<le> 30 \<Longrightarrow> rd_block (header_ram m a n bs k) a =
     fold (\<lambda>i v. stb 4 v (4 + 4 * i) (bs i)) [0..<k] (stb 4 (rd_block m a) 0 (of_nat n :: uint32))"
proof (induction k)
  case 0
  then show ?case using stw_block [of 0 4 m a "of_nat n :: uint32"] by (simp add: header_ram_def)
next
  case (Suc k)
  have "header_ram m a n bs (Suc k) = st32 (header_ram m a n bs k) (a + of_nat (4 + 4 * k)) (bs k)" by (simp add: header_ram_def)
  then show ?case using Suc stw_block [of "4 + 4 * k" 4 "header_ram m a n bs k" a "bs k"] by (simp del: of_nat_add of_nat_mult)
qed

lemma header_ram_outside: "k \<le> 30 \<Longrightarrow> \<not> unat (x - a) < BSIZE \<Longrightarrow> header_ram m a n bs k x = m x"
proof (induction k)
  case 0
  then show ?case using stw_outside [of 0 4 x a m "of_nat n :: uint32"] by (simp add: header_ram_def)
next
  case (Suc k)
  have "header_ram m a n bs (Suc k) = st32 (header_ram m a n bs k) (a + of_nat (4 + 4 * k)) (bs k)" by (simp add: header_ram_def)
  then show ?case using Suc stw_outside [of "4 + 4 * k" 4 x a "header_ram m a n bs k" "bs k"] by (simp del: of_nat_add of_nat_mult)
qed

lemma header_stores:
  "kfor [0..<k] (\<lambda>i. kmod (\<lambda>s. s\<lparr>ram := st32 (ram s) (a + of_nat (4 + 4 * i)) (lh_block s i)\<rparr>)) (s\<lparr>ram := st32 (ram s) a (of_nat n)\<rparr>) =
   Inr ((), s\<lparr>ram := header_ram (ram s) a n (lh_block s) k\<rparr>)"
proof (induction k)
  case 0
  then show ?case by (simp add: header_ram_def kmonad)
next
  case (Suc k)
  show ?case unfolding kfor_Suc [OF Suc] by (simp add: header_ram_def kmonad)
qed

text \<open>A block read, changed in memory, written and released.\<close>

lemma change_block:
  assumes i: "binv {} P s" and r: "runs p s" and room: "card P < 30"
  obtains b s1 where "bread 1 n s = Inr (b, s1)" "bframe s s1" "bd s1 b = blk s n"
    "\<And>m. \<forall>x. \<not> unat (x - bdata s1 b) < BSIZE \<longrightarrow> m x = ram s1 x \<Longrightarrow>
      \<exists>s2 s'. bwrite b (s1\<lparr>ram := m\<rparr>) = Inr ((), s2) \<and> brelse b s2 = Inr ((), s') \<and> binv {} P s' \<and>
        blk s' = (blk s)(n := rd_block m (bdata s1 b)) \<and> disk s' = (disk s)(n := rd_block m (bdata s1 b)) \<and>
        dtrace s' = dtrace s @ [(n, rd_block m (bdata s1 b))] \<and> bframe s s' \<and> same_pins P s s'"
proof -
  obtain b s1 where 1: "bread 1 n s = Inr (b, s1)" "b < 30" "b \<notin> {}" "binv (insert b {}) P s1" "caches (bufs s1) b n"
    "bd s1 b = blk s n" "blk s1 = blk s" "bkeep ({} \<union> P) s s1" "bframe s s1" "disk s1 = disk s" "dtrace s1 = dtrace s"
    using bread_ok [OF i r, of n] room by auto
  have bn: "b_blockno (bufs s1 b) = n" using 1(5) by (simp add: caches_def)
  have "\<exists>s2 s'. bwrite b (s1\<lparr>ram := m\<rparr>) = Inr ((), s2) \<and> brelse b s2 = Inr ((), s') \<and> binv {} P s' \<and>
      blk s' = (blk s)(n := rd_block m (bdata s1 b)) \<and> disk s' = (disk s)(n := rd_block m (bdata s1 b)) \<and>
      dtrace s' = dtrace s @ [(n, rd_block m (bdata s1 b))] \<and> bframe s s' \<and> same_pins P s s'"
    if m: "\<forall>x. \<not> unat (x - bdata s1 b) < BSIZE \<longrightarrow> m x = ram s1 x" for m
  proof -
    let ?s = "s1\<lparr>ram := m\<rparr>" and ?v = "rd_block m (bdata s1 b)"
    note md = bmodify_ok [where m = m and b = b, OF 1(4) insertI1 m [rule_format]]
    have r1: "runs p ?s" using bframe_runs [OF 1(9)] bframe_runs [OF md(4)] r by simp
    obtain s2 where 2: "bwrite b ?s = Inr ((), s2)" "binv {b} P s2" "blk s2 = blk ?s" "ram s2 = m" "bufs s2 = bufs s1"
      "bframe ?s s2" "disk s2 = (disk s)(n := ?v)" "dtrace s2 = dtrace s @ [(n, ?v)]"
      using bwrite_ok [OF md(1) r1 insertI1] by (auto simp: bn 1(10,11))
    have r2: "runs p s2" using bframe_runs [OF 2(6)] r1 by simp
    have at: "bcache_at s2 = bcache_at s1" using 2(6) by (simp add: bframe_def)
    have "b \<in> P \<or> bd s2 b = disk s2 (b_blockno (bufs s2 b))" by (simp add: 2(4,5,7) at bn)
    then obtain s3 where 3: "brelse b s2 = Inr ((), s3)" "binv ({b} - {b}) P s3" "blk s3 = blk s2"
      "\<And>c. b_dev (bufs s3 c) = b_dev (bufs s2 c) \<and> b_blockno (bufs s3 c) = b_blockno (bufs s2 c)"
      "bframe s2 s3" "disk s3 = disk s2" "dtrace s3 = dtrace s2"
      using brelse_ok [OF 2(2) r2 insertI1] by blast
    have "same_pins P s s3" using 1(8) by (simp add: same_pins_def bkeep_def 3(4) 2(5))
    moreover have "bframe s s3" using bframe_trans 1(9) md(4) 2(6) 3(5) by blast
    moreover have "blk s3 = (blk s)(n := ?v)" using md(2) by (simp add: 3(3) 2(3) 1(7) bn)
    ultimately show ?thesis using 2(1,7,8) 3(1,2,6,7) by auto
  qed
  then show thesis by (rule that [OF 1(1) 1(9) 1(6)])
qed

lemma write_head_ok:
  assumes i: "binv {} P s" and r: "runs p s" and d: "l_dev s = 1" and n: "lh_n s = int n" "n \<le> 30" and room: "card P < 30"
    and h: "h = header (blk s (l_start s)) n (lh_block s)"
  obtains s' where "write_head s = Inr ((), s')" "binv {} P s'" "blk s' = (blk s)(l_start s := h)"
    "disk s' = (disk s)(l_start s := h)" "dtrace s' = dtrace s @ [(l_start s, h)]" "bframe s s'" "same_pins P s s'"
proof -
  obtain b s1 where 1: "bread 1 (l_start s) s = Inr (b, s1)" "bframe s s1" "bd s1 b = blk s (l_start s)"
    and ch: "\<And>m. \<forall>x. \<not> unat (x - bdata s1 b) < BSIZE \<longrightarrow> m x = ram s1 x \<Longrightarrow>
      \<exists>s2 s'. bwrite b (s1\<lparr>ram := m\<rparr>) = Inr ((), s2) \<and> brelse b s2 = Inr ((), s') \<and> binv {} P s' \<and>
        blk s' = (blk s)(l_start s := rd_block m (bdata s1 b)) \<and> disk s' = (disk s)(l_start s := rd_block m (bdata s1 b)) \<and>
        dtrace s' = dtrace s @ [(l_start s, rd_block m (bdata s1 b))] \<and> bframe s s' \<and> same_pins P s s'"
    using change_block [OF i r room, of "l_start s"] by metis
  let ?m = "header_ram (ram s1) (bdata s1 b) n (lh_block s) n"
  have "rd_block ?m (bdata s1 b) = h" using header_ram_block [OF n(2)] 1(3) by (simp add: h header_def)
  then obtain s2 s' where 2: "bwrite b (s1\<lparr>ram := ?m\<rparr>) = Inr ((), s2)" "brelse b s2 = Inr ((), s')" "binv {} P s'"
     "blk s' = (blk s)(l_start s := h)" "disk s' = (disk s)(l_start s := h)" "dtrace s' = dtrace s @ [(l_start s, h)]" "bframe s s'" "same_pins P s s'"
    using ch [of ?m] header_ram_outside [OF n(2)] by auto
  have "write_head s = Inr ((), s')"
    using d n(1) 1(1) 2(1,2) header_stores [of n "bdata s1 b" s1 n] bframe_log [OF 1(2)]
    by (simp add: write_head_def kbind_def kseq_def kgets_def kmod_def)
  then show thesis using that 2 by blast
qed

section \<open>The loops\<close>

lemma same_pins_mono: "same_pins P s s' \<Longrightarrow> Q \<subseteq> P \<Longrightarrow> same_pins Q s s'"
  by (auto simp: same_pins_def)

lemma log_layoutD:
  assumes "log_layout st sz bs n" "i < n" "j < n"
  shows "logblk st i \<noteq> bs j" "logblk st i \<noteq> st" "bs i \<noteq> st" "bs i = bs j \<longleftrightarrow> i = j"
proof -
  have lay: "unat st + sz \<le> 2 ^ 32" "n < sz" "inj_on bs {..<n}" and out: "\<And>i. i < n \<Longrightarrow> \<not> in_log st sz (bs i)"
    using assms(1) by (auto simp: log_layout_def)
  have "in_log st sz st" using lay by (simp add: in_log_def)
  moreover have "in_log st sz (logblk st i)" "logblk st i \<noteq> st" using logblk_facts [OF lay(1), of i] lay(2) assms(2) by auto
  ultimately show "logblk st i \<noteq> bs j" "logblk st i \<noteq> st" "bs i \<noteq> st" using out assms(2,3) by metis+
  show "bs i = bs j \<longleftrightarrow> i = j" using lay(3) assms(2,3) by (auto simp: inj_on_def)
qed

definition copied :: "(nat \<Rightarrow> uint32) \<Rightarrow> (nat \<Rightarrow> block) \<Rightarrow> nat \<Rightarrow> nat set \<Rightarrow> 'a xlog_scheme \<Rightarrow> 'a xlog_scheme \<Rightarrow> bool" where
  "copied bs vs k P s s' \<longleftrightarrow> binv {} P s' \<and> blk s' = assign bs vs k (blk s) \<and> disk s' = assign bs vs k (disk s) \<and>
     dtrace s' = dtrace s @ map (\<lambda>i. (bs i, vs i)) [0..<k] \<and> bframe s s' \<and> same_pins P s s'"

lemma write_log_loop:
  assumes i: "binv {} P s" and r: "runs p s" and d: "l_dev s = 1" and lay: "log_layout (l_start s) sz (lh_block s) n"
    and pin: "\<forall>i<n. pinned P s (lh_block s i)" "card P < 30" and k: "k \<le> n"
  shows "\<exists>s'. kfor [0..<k] write_log_body s = Inr ((), s') \<and> copied (logblk (l_start s)) (\<lambda>i. blk s (lh_block s i)) k P s s'"
  using k
proof (induction k)
  case 0
  then show ?case using i by (simp add: copied_def kmonad)
next
  case (Suc k)
  let ?st = "l_start s" and ?bs = "lh_block s"
  obtain s1 where 1: "kfor [0..<k] write_log_body s = Inr ((), s1)" "binv {} P s1" "blk s1 = assign (logblk ?st) (\<lambda>i. blk s (?bs i)) k (blk s)"
    "disk s1 = assign (logblk ?st) (\<lambda>i. blk s (?bs i)) k (disk s)" "dtrace s1 = dtrace s @ map (\<lambda>i. (logblk ?st i, blk s (?bs i))) [0..<k]"
    "bframe s s1" "same_pins P s s1" using Suc by (auto simp: copied_def)
  note f = bframe_log [OF 1(6)]
  have kn: "k < n" using Suc.prems by simp
  have r1: "runs p s1" using bframe_runs [OF 1(6)] r by simp
  have v: "blk s1 (?bs k) = blk s (?bs k)" unfolding 1(3) using log_layoutD(1) [OF lay] kn by (intro assign_other) simp
  have p1: "pinned P s1 (?bs k)" using pin(1) kn same_pins_pinned [OF 1(7) i 1(2)] by simp
  obtain s2 where 2: "write_log_body k s1 = Inr ((), s2)" "binv {} P s2" "blk s2 = (blk s1)(logblk ?st k := blk s1 (?bs k))"
    "disk s2 = (disk s1)(logblk ?st k := blk s1 (?bs k))" "dtrace s2 = dtrace s1 @ [(logblk ?st k, blk s1 (?bs k))]" "bframe s1 s2" "same_pins P s1 s2"
    using write_log_body_ok [OF 1(2) r1 _ _ _ log_layoutD(1) [OF lay kn kn] p1 pin(2)] f d by metis
  have "copied (logblk ?st) (\<lambda>i. blk s (?bs i)) (Suc k) P s s2"
    unfolding copied_def using 2(2,3,4,5) v 1(3,4,5) bframe_trans [OF 1(6) 2(6)] same_pins_trans [OF 1(7) 2(7)]
    by (simp add: assign_Suc)
  then show ?case using kfor_Suc [OF 1(1)] 2(1) by auto
qed

definition still :: "bool \<Rightarrow> nat set \<Rightarrow> (nat \<Rightarrow> buf) \<Rightarrow> (nat \<Rightarrow> uint32) \<Rightarrow> nat \<Rightarrow> nat set" where
  "still recovering P B bs k = (if recovering then P else P - {b. \<exists>i<k. caches B b (bs i)})"

lemma still_pinned:
  assumes lay: "log_layout st sz bs n" and pin: "pinned P s (bs k)" and k: "k < n"
  shows "pinned (still recovering P (bufs s) bs k) s (bs k)"
proof -
  obtain c where c: "c \<in> P" "caches (bufs s) c (bs k)" using pin by (auto simp: pinned_def)
  have "\<not> caches (bufs s) c (bs i)" if "i < k" for i
    using log_layoutD(4) [OF lay, of i k] that k c(2) by (auto simp: caches_def)
  then show ?thesis using c by (auto simp: pinned_def still_def)
qed

lemma unpins_still:
  assumes "same_pins (still r P (bufs s) bs k) s s1" "binv {} P s" "binv {} (still r P (bufs s) bs k) s1"
  shows "unpins r (still r P (bufs s) bs k) s1 (bs k) = still r P (bufs s) bs (Suc k)"
proof -
  have "caches (bufs s1) b (bs k) \<longleftrightarrow> caches (bufs s) b (bs k)" if "b \<in> still r P (bufs s) bs k" for b
    using assms(1) that binvD(8) [OF assms(3) that] binvD(8) [OF assms(2), of b]
    by (auto simp: same_pins_def caches_def still_def split: if_splits)
  then have "still r P (bufs s) bs k - {b. caches (bufs s1) b (bs k)} = still r P (bufs s) bs k - {b. caches (bufs s) b (bs k)}" by blast
  moreover have "still r P (bufs s) bs (Suc k) = still r P (bufs s) bs k - {b. caches (bufs s) b (bs k)}" if "\<not> r"
    using that by (auto simp: still_def less_Suc_eq)
  ultimately show ?thesis by (cases r) (simp_all add: unpins_def, simp add: still_def)
qed

lemma install_loop:
  assumes i: "binv {} P s" and r: "runs p s" and d: "l_dev s = 1" and lay: "log_layout (l_start s) sz (lh_block s) n"
    and pin: "recovering \<and> P = {} \<or> \<not> recovering \<and> (\<forall>i<n. pinned P s (lh_block s i))" "card P < 30"
      "\<forall>i<n. \<not> pinned P s (logblk (l_start s) i)" and k: "k \<le> n"
  shows "\<exists>s'. kfor [0..<k] (install_body recovering) s = Inr ((), s') \<and>
     copied (lh_block s) (\<lambda>i. blk s (logblk (l_start s) i)) k (still recovering P (bufs s) (lh_block s) k) s s'"
  using k
proof (induction k)
  case 0
  then show ?case using i by (simp add: copied_def kmonad still_def)
next
  case (Suc k)
  let ?st = "l_start s" and ?bs = "lh_block s"
  define Q where "Q = still recovering P (bufs s) ?bs k"
  obtain s1 where 1: "kfor [0..<k] (install_body recovering) s = Inr ((), s1)" "binv {} Q s1" "blk s1 = assign ?bs (\<lambda>i. blk s (logblk ?st i)) k (blk s)"
    "disk s1 = assign ?bs (\<lambda>i. blk s (logblk ?st i)) k (disk s)" "dtrace s1 = dtrace s @ map (\<lambda>i. (?bs i, blk s (logblk ?st i))) [0..<k]"
    "bframe s s1" "same_pins Q s s1" using Suc by (auto simp: copied_def Q_def)
  note f = bframe_log [OF 1(6)]
  have kn: "k < n" using Suc.prems by simp
  have r1: "runs p s1" using bframe_runs [OF 1(6)] r by simp
  have QP: "Q \<subseteq> P" by (auto simp: Q_def still_def)
  have "finite P" using binvD(3) [OF i] finite_subset by blast
  then have cQ: "card Q < 30" using card_mono [OF _ QP] pin(2) by simp
  have iQ: "pinned Q s1 m \<longleftrightarrow> pinned Q s m" for m
    using 1(7) binvD(8) [OF 1(2)] binvD(8) [OF i] QP unfolding pinned_def same_pins_def caches_def by (metis subsetD)
  have v: "blk s1 (logblk ?st k) = blk s (logblk ?st k)" unfolding 1(3) using log_layoutD(1) [OF lay kn] kn by (intro assign_other) (metis less_trans)
  have p1: "recovering \<and> Q = {} \<or> \<not> recovering \<and> pinned Q s1 (?bs k)"
    using pin(1) QP still_pinned [OF lay _ kn, of P s recovering, folded Q_def] kn by (auto simp: iQ)
  have l1: "\<not> pinned Q s1 (logblk ?st k)" unfolding iQ using pin(3) kn QP unfolding pinned_def by blast
  obtain s2 where 2: "install_body recovering k s1 = Inr ((), s2)" "binv {} (unpins recovering Q s1 (?bs k)) s2" "blk s2 = (blk s1)(?bs k := blk s1 (logblk ?st k))"
    "disk s2 = (disk s1)(?bs k := blk s1 (logblk ?st k))" "dtrace s2 = dtrace s1 @ [(?bs k, blk s1 (logblk ?st k))]" "bframe s1 s2" "same_pins Q s1 s2"
    using install_body_ok [OF 1(2) r1 _ _ _ log_layoutD(1) [OF lay kn kn] p1 cQ l1] f d by metis
  have u: "unpins recovering Q s1 (?bs k) = still recovering P (bufs s) ?bs (Suc k)"
    using unpins_still [of recovering P s ?bs k s1] 1(2,7) i by (simp add: Q_def)
  have "still recovering P (bufs s) ?bs (Suc k) \<subseteq> Q" by (auto simp: still_def Q_def)
  then have "same_pins (still recovering P (bufs s) ?bs (Suc k)) s s2" using same_pins_trans [OF 1(7) 2(7)] same_pins_mono by blast
  then have "copied ?bs (\<lambda>i. blk s (logblk ?st i)) (Suc k) (still recovering P (bufs s) ?bs (Suc k)) s s2"
    unfolding copied_def using 2(2,3,4,5) v 1(3,4,5) bframe_trans [OF 1(6) 2(6)] u by (simp add: assign_Suc)
  then show ?case using kfor_Suc [OF 1(1)] 2(1) by auto
qed

end
