(* ===== verification/Txn.thy ===== *)
theory Txn
  imports Logops
begin

text \<open>
  Transactions.  \<open>loginv H P s\<close> is the invariant of the log between commits: the blocks that the header in
  memory lists are pinned in the cache and are the only pinned ones, and the header on disk is empty.
\<close>

section \<open>Invariant\<close>

definition loginv :: "nat set \<Rightarrow> nat set \<Rightarrow> 'a xlog_scheme \<Rightarrow> bool" where
  "loginv H P s \<longleftrightarrow> binv H P s \<and> l_dev s = 1 \<and> l_size s \<le> 30 \<and> 0 \<le> lh_n s \<and>
     log_layout (l_start s) (nat (l_size s)) (lh_block s) (nat (lh_n s)) \<and> hdr_n (disk s (l_start s)) = 0 \<and>
     (\<forall>i<nat (lh_n s). pinned P s (lh_block s i)) \<and>
     (\<forall>b\<in>P. \<exists>i<nat (lh_n s). caches (bufs s) b (lh_block s i))"

abbreviation outside_log :: "'a xlog_scheme \<Rightarrow> uint32 \<Rightarrow> bool" where
  "outside_log s m \<equiv> \<not> in_log (l_start s) (nat (l_size s)) m"

lemma loginvD:
  assumes "loginv H P s"
  shows "binv H P s" "l_dev s = 1" "l_size s \<le> 30" "0 \<le> lh_n s" "log_layout (l_start s) (nat (l_size s)) (lh_block s) (nat (lh_n s))"
    "hdr_n (disk s (l_start s)) = 0" "\<forall>i<nat (lh_n s). pinned P s (lh_block s i)"
    "\<forall>b\<in>P. \<exists>i<nat (lh_n s). caches (bufs s) b (lh_block s i)" "nat (lh_n s) < 30"
  using assms by (auto simp: loginv_def log_layout_def)

text \<open>At most one buffer is pinned for each listed block.\<close>

lemma loginv_card:
  assumes "loginv H P s"
  shows "card P \<le> nat (lh_n s)"
proof -
  note D = loginvD [OF assms]
  obtain f where f: "\<And>b. b \<in> P \<Longrightarrow> f b < nat (lh_n s) \<and> caches (bufs s) b (lh_block s (f b))" using D(8) by metis
  have "inj_on f P"
  proof (rule inj_onI)
    fix b c assume "b \<in> P" "c \<in> P" "f b = f c"
    then show "b = c" using f uniqD [OF binvD(10) [OF D(1)], of b c] binvD(3) [OF D(1)] by (metis lessThan_iff subsetD)
  qed
  moreover have "f ` P \<subseteq> {..<nat (lh_n s)}" using f by auto
  ultimately show ?thesis using card_inj_on_le [of f P "{..<nat (lh_n s)}"] by simp
qed

lemma loginv_not_pinned:
  assumes "loginv H P s"
  shows "in_log (l_start s) (nat (l_size s)) m \<Longrightarrow> \<not> pinned P s m"
    "H = {} \<Longrightarrow> \<forall>i<nat (lh_n s). lh_block s i \<noteq> m \<Longrightarrow> blk s m = disk s m"
proof -
  note D = loginvD [OF assms]
  show "in_log (l_start s) (nat (l_size s)) m \<Longrightarrow> \<not> pinned P s m"
    using D(5,8) by (fastforce simp: pinned_def log_layout_def caches_def)
  show "H = {} \<Longrightarrow> \<forall>i<nat (lh_n s). lh_block s i \<noteq> m \<Longrightarrow> blk s m = disk s m"
    using D(8) by (intro blk_clean [OF D(1)]) (fastforce simp: caches_def)
qed

lemma assign_view: "assign bs (\<lambda>i. f (bs i)) n d m = (if \<exists>i<n. bs i = m then f m else d m)"
  by (induction n) (auto simp: assign_Suc less_Suc_eq)

section \<open>Commit\<close>

lemma commit_ok:
  assumes I: "loginv {} P s" and r: "runs p s" and n: "n = nat (lh_n s)" "0 < n" and st: "st = l_start s" and bs: "bs = lh_block s"
  obtains s' h1 h0 where "commit s = Inr ((), s')" "binv {} {} s'" "lh_n s' = 0" "l_start s' = st" "l_size s' = l_size s" "l_dev s' = 1"
    "dtrace s' = dtrace s @ commit_writes st bs (\<lambda>i. blk s (bs i)) n h1 h0"
    "disk s' = writes (commit_writes st bs (\<lambda>i. blk s (bs i)) n h1 h0) (disk s)"
    "blk s' = writes (commit_writes st bs (\<lambda>i. blk s (bs i)) n h1 h0) (blk s)"
    "hdr_n h1 = int n" "\<forall>i<n. hdr_b h1 i = bs i" "hdr_n h0 = 0" "runs p s'"
proof -
  note D = loginvD [OF I]
  have lay: "log_layout st (nat (l_size s)) bs n" and n30: "n < 30" "int n = lh_n s" using D(4,5,9) by (auto simp: n st bs)
  have card: "card P < 30" using loginv_card [OF I] n30(1) n by simp
  have inlog: "in_log st (nat (l_size s)) (logblk st i)" if "i < n" for i
    using that lay logblk_facts(1) [of st "nat (l_size s)" i] by (auto simp: log_layout_def)
  let ?vs = "\<lambda>i. blk s (bs i)"
  obtain s1 where 1: "write_log s = Inr ((), s1)" "binv {} P s1" "blk s1 = assign (logblk st) ?vs n (blk s)"
    "disk s1 = assign (logblk st) ?vs n (disk s)" "dtrace s1 = dtrace s @ map (\<lambda>i. (logblk st i, ?vs i)) [0..<n]" "bframe s s1" "same_pins P s s1"
    using write_log_loop [OF D(1) r D(2) D(5,7) card order_refl]
    unfolding copied_def n st bs write_log_def by (auto simp: kmonad)
  note f1 = bframe_log [OF 1(6)]
  have r1: "runs p s1" using bframe_runs [OF 1(6)] r by simp
  define h1 where "h1 = header (blk s1 st) n bs"
  obtain s2 where 2: "write_head s1 = Inr ((), s2)" "binv {} P s2" "blk s2 = (blk s1)(st := h1)"
    "disk s2 = (disk s1)(st := h1)" "dtrace s2 = dtrace s1 @ [(st, h1)]" "bframe s1 s2" "same_pins P s1 s2"
    using write_head_ok [OF 1(2) r1 _ _ _ card, of n h1] f1 D(2) n30 by (auto simp: h1_def st bs)
  note f2 = bframe_log [OF 2(6)]
  have r2: "runs p s2" using bframe_runs [OF 2(6)] r1 by simp
  have p2: "same_pins P s s2" using same_pins_trans 1(7) 2(7) by blast
  have "pinned P s2 m \<longleftrightarrow> pinned P s m" for m by (rule same_pins_pinned [OF p2 D(1) 2(2)])
  then have pins: "\<forall>i<n. pinned P s2 (bs i)" "\<forall>i<n. \<not> pinned P s2 (logblk st i)"
    using D(7) loginv_not_pinned(1) [OF I] inlog by (auto simp: n st bs)
  have v2: "blk s2 (logblk st i) = ?vs i" if "i < n" for i
  proof -
    have "\<forall>j<n. logblk st j = logblk st i \<longrightarrow> j = i"
      using that lay logblk_facts(3) [of st "nat (l_size s)" i] by (auto simp: log_layout_def)
    then show ?thesis using that log_layoutD(2) [OF lay that that] assign_hit [of i n "logblk st"] by (simp add: 2(3) 1(3))
  qed
  have "still False P (bufs s2) bs n = {}"
    using D(8) same_pins_caches [OF p2 D(1) 2(2)] by (auto simp: still_def n bs)
  then obtain s3 where "kfor [0..<n] (install_body False) s2 = Inr ((), s3)" "copied bs (\<lambda>i. blk s2 (logblk st i)) n {} s2 s3"
    using install_loop [OF 2(2) r2, of "nat (l_size s)" n False n] lay pins card f1 f2 D(2) by (auto simp: st bs)
  then have 3: "install_trans False s2 = Inr ((), s3)" "binv {} {} s3" "blk s3 = assign bs ?vs n (blk s2)" "disk s3 = assign bs ?vs n (disk s2)"
    "dtrace s3 = dtrace s2 @ map (\<lambda>i. (bs i, ?vs i)) [0..<n]" "bframe s2 s3"
    using f1 f2 n v2 assign_cong [of n bs bs "\<lambda>i. blk s2 (logblk st i)" ?vs] by (auto simp: copied_def install_trans_def kmonad)
  note f3 = bframe_log [OF 3(6)]
  have r3: "runs p s3" using bframe_runs [OF 3(6)] r2 by simp
  define h0 where "h0 = header (blk s3 st) 0 bs"
  obtain s4 where 4: "write_head (s3\<lparr>lh_n := 0\<rparr>) = Inr ((), s4)" "binv {} {} s4" "blk s4 = (blk s3)(st := h0)"
    "disk s4 = (disk s3)(st := h0)" "dtrace s4 = dtrace s3 @ [(st, h0)]" "bframe (s3\<lparr>lh_n := 0\<rparr>) s4"
    using write_head_ok [of "{}" "s3\<lparr>lh_n := 0\<rparr>" p 0 h0] 3(2) r3 f1 f2 f3 D(2) by (auto simp: h0_def st bs)
  note f4 = bframe_log [OF 4(6)]
  show thesis
  proof (rule that [of s4 h1 h0])
    show "commit s = Inr ((), s4)" using 1(1) 2(1) 3(1) 4(1) n by (simp add: commit_def kmonad)
    show "runs p s4" using bframe_runs [OF 4(6)] r3 by simp
    show "hdr_n h1 = int n" "\<forall>i<n. hdr_b h1 i = bs i" "hdr_n h0 = 0" using header_fields n30(1) by (auto simp: h1_def h0_def)
    show "dtrace s4 = dtrace s @ commit_writes st bs ?vs n h1 h0" by (simp add: 4(5) 3(5) 2(5) 1(5) commit_writes_def)
  qed (use f1 f2 f3 f4 D(2) 4(2) in \<open>simp_all add: 4(3,4) 3(3,4) 2(3,4) 1(3,4) commit_writes_def writes_map st\<close>)
qed

section \<open>Recovery\<close>

lemma head_loads:
  assumes "n \<le> 30"
  shows "kfor [0..<n] (\<lambda>i. kmod (\<lambda>s. s\<lparr>lh_block := (lh_block s)(i := ld32 (ram s) (a + of_nat (4 + 4 * i)))\<rparr>)) s =
    Inr ((), s\<lparr>lh_block := (\<lambda>i. if i < n then hdr_b (rd_block (ram s) a) i else lh_block s i)\<rparr>)"
  using assms
proof (induction n)
  case 0
  then show ?case by (simp add: kmonad)
next
  case (Suc n)
  have "ld32 (ram s) (a + of_nat (4 + 4 * n)) = hdr_b (rd_block (ram s) a) n"
    unfolding hdr_b_def by (rule ldw_block) (use Suc.prems in simp)
  then show ?case unfolding kfor_Suc [OF Suc.IH [OF Suc_leD [OF Suc.prems]]]
    by (auto simp: kmonad fun_eq_iff less_Suc_eq simp del: of_nat_add of_nat_mult)
qed

lemma read_head_ok:
  assumes i: "binv {} {} s" and r: "runs p s" and d: "l_dev s = 1" and v: "v = disk s (l_start s)" and n: "nat (hdr_n v) \<le> 30"
  obtains s' where "read_head s = Inr ((), s')" "binv {} {} s'" "blk s' = blk s" "disk s' = disk s" "dtrace s' = dtrace s" "runs p s'"
    "lh_n s' = hdr_n v" "\<forall>i<nat (hdr_n v). lh_block s' i = hdr_b v i" "l_start s' = l_start s" "l_size s' = l_size s" "l_dev s' = l_dev s"
proof -
  have cl: "blk s (l_start s) = v" unfolding v by (rule blk_clean [OF i]) simp
  obtain b s1 where 1: "bread 1 (l_start s) s = Inr (b, s1)" "b < 30" "b \<notin> {}" "binv (insert b {}) {} s1" "caches (bufs s1) b (l_start s)"
    "bd s1 b = blk s (l_start s)" "blk s1 = blk s" "bframe s s1" "disk s1 = disk s" "dtrace s1 = dtrace s"
    using bread_ok [OF i r, of "l_start s"] by (metis card.empty empty_iff sup_bot.right_neutral zero_less_numeral)
  define bs where "bs = (\<lambda>i. if i < nat (hdr_n v) then hdr_b v i else lh_block s1 i)"
  define s2 where "s2 = s1\<lparr>lh_n := hdr_n v, lh_block := bs\<rparr>"
  have r2: "runs p s2" using bframe_runs [OF 1(8)] r by (simp add: s2_def)
  have i2: "binv {b} {} s2" using 1(4) by (simp add: s2_def)
  have b2: "bd s2 b = v" using 1(6) cl by (simp add: s2_def)
  have "b \<in> {} \<or> bd s2 b = disk s2 (b_blockno (bufs s2 b))" using 1(5) b2 v by (simp add: s2_def caches_def 1(9))
  then obtain s3 where 3: "brelse b s2 = Inr ((), s3)" "binv ({b} - {b}) {} s3" "blk s3 = blk s2" "bframe s2 s3" "disk s3 = disk s2" "dtrace s3 = dtrace s2"
    using brelse_ok [OF i2 r2 insertI1] by blast
  have "ld32 (ram s1) (bdata s1 b) = ldb 4 v 0" using ldw_block [of 0 4 "ram s1" "bdata s1 b"] b2 by (simp add: s2_def)
  then have "read_head s = Inr ((), s3)"
    using 1(1) d 3(1) head_loads [OF n, of "bdata s1 b" "s1\<lparr>lh_n := hdr_n v\<rparr>"] b2
    by (simp add: read_head_def kbind_def kseq_def kgets_def kmod_def hdr_n_def [symmetric] s2_def bs_def cong: if_cong)
  moreover have "runs p s3" using bframe_runs [OF 3(4)] r2 by simp
  ultimately show thesis
    using that [of s3] 3 bframe_log [OF 1(8)] bframe_log [OF 3(4)] 1(7,9,10) by (simp add: s2_def bs_def)
qed

lemma recover_ok:
  assumes i: "binv {} {} s" and r: "runs p s" and d: "l_dev s = 1" and st: "st = l_start s" and v: "v = disk s st"
    and n: "n = nat (hdr_n v)" "n \<le> 29" "sz = nat (l_size s)" and lay: "log_layout st sz (hdr_b v) n"
  obtains s' h0 where "recover_from_log s = Inr ((), s')" "binv {} {} s'" "runs p s'" "lh_n s' = 0" "l_start s' = st" "l_size s' = l_size s" "l_dev s' = 1"
    "hdr_n h0 = 0"
    "dtrace s' = dtrace s @ map (\<lambda>i. (hdr_b v i, disk s (logblk st i))) [0..<n] @ [(st, h0)]"
    "disk s' = writes (map (\<lambda>i. (hdr_b v i, disk s (logblk st i))) [0..<n] @ [(st, h0)]) (disk s)"
proof -
  have cl: "blk s m = disk s m" for m by (rule blk_clean [OF i]) simp
  obtain s1 where 1: "read_head s = Inr ((), s1)" "binv {} {} s1" "blk s1 = blk s" "disk s1 = disk s" "dtrace s1 = dtrace s" "runs p s1"
    "lh_n s1 = hdr_n v" "\<forall>i<n. lh_block s1 i = hdr_b v i" "l_start s1 = st" "l_size s1 = l_size s" "l_dev s1 = 1"
    using read_head_ok [OF i r d, of v] n v st d by auto
  have bs: "assign (lh_block s1) f n e = assign (hdr_b v) f n e" for f e using 1(8) by (intro assign_cong) simp
  have bs': "map (\<lambda>i. (lh_block s1 i, f i)) [0..<n] = map (\<lambda>i. (hdr_b v i, f i)) [0..<n]" for f :: "nat \<Rightarrow> block" using 1(8) by simp
  have "log_layout (l_start s1) sz (lh_block s1) n" using lay 1(8,9) by (auto simp: log_layout_def inj_on_def)
  then obtain s2 where "kfor [0..<n] (install_body True) s1 = Inr ((), s2)" "copied (lh_block s1) (\<lambda>i. disk s (logblk st i)) n {} s1 s2"
    using install_loop [OF 1(2,6,11), of sz n True n] cl 1(3,9) by (auto simp: still_def pinned_def)
  then have 2: "install_trans True s1 = Inr ((), s2)" "binv {} {} s2" "disk s2 = assign (hdr_b v) (\<lambda>i. disk s (logblk st i)) n (disk s)"
    "dtrace s2 = dtrace s @ map (\<lambda>i. (hdr_b v i, disk s (logblk st i))) [0..<n]" "bframe s1 s2"
    using n(1) [symmetric] 1(4,5,7) by (auto simp: copied_def install_trans_def kmonad bs bs')
  note f2 = bframe_log [OF 2(5)]
  have r2: "runs p s2" using bframe_runs [OF 2(5)] 1(6) by simp
  define h0 where "h0 = header (blk s2 st) 0 (lh_block s2)"
  obtain s3 where 3: "write_head (s2\<lparr>lh_n := 0\<rparr>) = Inr ((), s3)" "binv {} {} s3"
    "disk s3 = (disk s2)(st := h0)" "dtrace s3 = dtrace s2 @ [(st, h0)]" "bframe (s2\<lparr>lh_n := 0\<rparr>) s3"
    using write_head_ok [of "{}" "s2\<lparr>lh_n := 0\<rparr>" p 0 h0] 2(2) r2 f2 1(9,11) by (auto simp: h0_def)
  note f3 = bframe_log [OF 3(5)]
  show thesis
  proof (rule that [of s3 h0])
    show "recover_from_log s = Inr ((), s3)" using 1(1) 2(1) 3(1) by (simp add: recover_from_log_def kmonad)
    show "runs p s3" using bframe_runs [OF 3(5)] r2 by simp
    show "hdr_n h0 = 0" using header_fields by (simp add: h0_def)
  qed (use f2 f3 1(9,10,11) 3(2) in \<open>simp_all add: 3(3,4) 2(3,4) writes_map\<close>)
qed

section \<open>Initialisation of the log\<close>

lemma binv_fields [simp]:
  "binv H P (s\<lparr>l_start := a\<rparr>) = binv H P s" "binv H P (s\<lparr>l_size := z\<rparr>) = binv H P s" "binv H P (s\<lparr>l_dev := v\<rparr>) = binv H P s"
  "runs p (s\<lparr>l_start := a\<rparr>) = runs p s" "runs p (s\<lparr>l_size := z\<rparr>) = runs p s" "runs p (s\<lparr>l_dev := v\<rparr>) = runs p s"
  by (simp_all add: binv_def runs_def)

lemma initlock_keeps:
  assumes "initlock l x m = Inr ((), m')"
  shows "mcur m' = mcur m" "irq_ok m \<Longrightarrow> irq_ok m'" "lk_free m k \<Longrightarrow> lk_free m' k" "lk_free m' l"
  using assms by (auto simp: initlock_def kmonad mcur_def irq_ok_def lk_free_def machine_defs split: if_splits)

lemma initlog_ok:
  assumes i: "binv {} {} s" and r: "runs p s" and h: "hdr_n (disk s (sb_logstart sb)) = int n" and z: "sint (sb_nlog sb) \<le> 30"
    and lay: "log_layout (sb_logstart sb) (nat (sint (sb_nlog sb))) (hdr_b (disk s (sb_logstart sb))) n"
  obtains s' h0 where "initlog 1 sb s = Inr ((), s')" "loginv {} {} s'" "runs p s'" "lh_n s' = 0" "l_start s' = sb_logstart sb" "l_size s' = sint (sb_nlog sb)"
    "hdr_n h0 = 0"
    "dtrace s' = dtrace s @ map (\<lambda>i. (hdr_b (disk s (sb_logstart sb)) i, disk s (logblk (sb_logstart sb) i))) [0..<n] @ [(sb_logstart sb, h0)]"
    "disk s' = writes (map (\<lambda>i. (hdr_b (disk s (sb_logstart sb)) i, disk s (logblk (sb_logstart sb) i))) [0..<n] @ [(sb_logstart sb, h0)]) (disk s)"
proof -
  let ?st = "sb_logstart sb"
  define m0 where "m0 = upd_lk Log_lock (\<lambda>lk. lk\<lparr>lk_name := ''log'', locked := False, lk_cpu := None\<rparr>) (mach s)"
  define s0 where "s0 = s\<lparr>mach := m0, l_start := ?st, l_size := sint (sb_nlog sb), l_dev := 1\<rparr>"
  have m0: "initlock Log_lock ''log'' (mach s) = Inr ((), m0)" by (simp add: initlock_def kmonad m0_def)
  note k = initlock_keeps [OF m0]
  have e: "initlog 1 sb s = recover_from_log s0" by (simp add: initlog_def kmonad on_mach_def m0 s0_def)
  have i0: "binv {} {} s0" using i by (simp add: s0_def binv_def k)
  have r0: "runs p s0" using r k by (simp add: s0_def runs_def)
  have z0: "n \<le> 29" using lay z by (auto simp: log_layout_def)
  have f0: "l_dev s0 = 1" "?st = l_start s0" "disk s ?st = disk s0 ?st" "nat (sint (sb_nlog sb)) = nat (l_size s0)" "disk s0 = disk s" "dtrace s0 = dtrace s"
    "l_size s0 = sint (sb_nlog sb)"
    by (simp_all add: s0_def)
  have n0: "n = nat (hdr_n (disk s ?st))" using h by simp
  obtain s' h0 where 1: "recover_from_log s0 = Inr ((), s')" "binv {} {} s'" "runs p s'" "lh_n s' = 0" "l_start s' = ?st" "l_size s' = l_size s0" "l_dev s' = 1"
    "hdr_n h0 = 0" "dtrace s' = dtrace s0 @ map (\<lambda>i. (hdr_b (disk s ?st) i, disk s0 (logblk ?st i))) [0..<n] @ [(?st, h0)]"
    "disk s' = writes (map (\<lambda>i. (hdr_b (disk s ?st) i, disk s0 (logblk ?st i))) [0..<n] @ [(?st, h0)]) (disk s0)"
    by (rule recover_ok [OF i0 r0 f0(1,2,3) n0 z0 f0(4) lay])
  have "disk s' ?st = h0" by (simp add: 1(10))
  then have "loginv {} {} s'" using 1(2,4-8) f0(7) z lay by (auto simp: loginv_def log_layout_def)
  then show thesis by (rule that [OF 1(1) [folded e] _ 1(3-5) 1(6) [unfolded f0(7)] 1(8) 1(9,10) [unfolded f0(5,6)]])
qed

lemma recovered_writes:
  assumes L: "log_layout st sz (hdr_b (d st)) n" and h: "hdr_n (d st) = int n" "hdr_n h0 = 0" and m: "\<not> in_log st sz m"
  shows "writes (map (\<lambda>i. (hdr_b (d st) i, d (logblk st i))) [0..<n] @ [(st, h0)]) d m = recovered st d m"
proof -
  have "in_log st sz st" using L by (simp add: log_layout_def in_log_def)
  then have "m \<noteq> st" using m by auto
  then show ?thesis using h(1) by (simp add: writes_map recovered_def)
qed

section \<open>Atomicity\<close>

lemma commit_headers:
  assumes L: "log_layout st sz bs n" and h: "hdr_n (d st) = 0" "hdr_n h1 = int n" "\<forall>i<n. hdr_b h1 i = bs i" "hdr_n h0 = 0"
  shows "\<exists>j. hdr_n (writes (take k (commit_writes st bs vs n h1 h0)) d st) = int j \<and>
    log_layout st sz (hdr_b (writes (take k (commit_writes st bs vs n h1 h0)) d st)) j"
proof -
  have l: "logblk st i \<noteq> st" "bs i \<noteq> st" if "i < n" for i using log_layoutD(2,3) [OF L that that] by auto
  have z: "log_layout st sz f 0" for f using L by (simp add: log_layout_def)
  have hb: "log_layout st sz (hdr_b h1) n" using L h(3) by (auto simp: log_layout_def inj_on_def)
  have "k \<le> n \<or> n + 1 \<le> k \<and> k - (n + 1) \<le> n \<or> 2 * n + 2 \<le> k" by linarith
  then consider "k \<le> n" | j where "k = Suc (n + j)" "j \<le> n" | "2 * n + 2 \<le> k" by (metis add.commute le_add_diff_inverse plus_1_eq_Suc add_Suc)
  then show ?thesis
  proof cases
    case 1
    then have "writes (take k (commit_writes st bs vs n h1 h0)) d st = d st"
      using l by (auto simp: take_commit_writes writes_map intro!: assign_other)
    then show ?thesis using h(1) z by (intro exI [of _ 0]) simp
  next
    case 2
    then have "writes (take k (commit_writes st bs vs n h1 h0)) d st = h1"
      using l assign_other [of j bs st] by (simp add: take_commit_writes(2) writes_map)
    then show ?thesis using h(2) hb by auto
  next
    case 3
    then have "writes (take k (commit_writes st bs vs n h1 h0)) d st = h0" by (simp add: take_commit_writes(3)) (simp add: commit_writes_def)
    then show ?thesis using h(4) z by (intro exI [of _ 0]) simp
  qed
qed

lemma commit_atomic:
  assumes "loginv {} P s" "runs p s"
  shows "\<exists>s' ws. commit s = Inr ((), s') \<and> dtrace s' = dtrace s @ ws \<and> disk s' = writes ws (disk s) \<and>
    loginv {} {} s' \<and> lh_n s' = 0 \<and> runs p s' \<and> l_start s' = l_start s \<and> l_size s' = l_size s \<and>
    (\<forall>m. outside_log s m \<longrightarrow> disk s' m = blk s m \<and> blk s' m = blk s m) \<and>
    (\<forall>k m. outside_log s m \<longrightarrow>
       recovered (l_start s) (writes (take k ws) (disk s)) m = (if k \<le> nat (lh_n s) then disk s m else blk s m)) \<and>
    (\<forall>k. \<exists>n. hdr_n (writes (take k ws) (disk s) (l_start s)) = int n \<and>
       log_layout (l_start s) (nat (l_size s)) (hdr_b (writes (take k ws) (disk s) (l_start s))) n)"
proof (cases "lh_n s > 0")
  case False
  note D = loginvD [OF assms(1)]
  have n0: "lh_n s = 0" using False D(4) by simp
  moreover have "P = {}" using D(8) n0 by auto
  moreover have "blk s m = disk s m" for m using loginv_not_pinned(2) [OF assms(1)] n0 by simp
  moreover have "recovered (l_start s) (disk s) = disk s" using D(6) by (simp add: recovered_def)
  moreover have "\<exists>n. hdr_n (disk s (l_start s)) = int n \<and> log_layout (l_start s) (nat (l_size s)) (hdr_b (disk s (l_start s))) n"
    using D(5,6) by (intro exI [of _ 0]) (simp add: log_layout_def)
  ultimately show ?thesis using assms by (intro exI [of _ s] exI [of _ "[]"]) (simp add: commit_def kmonad)
next
  case True
  note D = loginvD [OF assms(1)]
  define n where "n = nat (lh_n s)"
  have n: "0 < n" using True by (simp add: n_def)
  let ?st = "l_start s" and ?bs = "lh_block s"
  obtain s' h1 h0 where 1: "commit s = Inr ((), s')" "binv {} {} s'" "lh_n s' = 0" "l_start s' = ?st" "l_size s' = l_size s" "l_dev s' = 1"
    "dtrace s' = dtrace s @ commit_writes ?st ?bs (\<lambda>i. blk s (?bs i)) n h1 h0"
    "disk s' = writes (commit_writes ?st ?bs (\<lambda>i. blk s (?bs i)) n h1 h0) (disk s)"
    "blk s' = writes (commit_writes ?st ?bs (\<lambda>i. blk s (?bs i)) n h1 h0) (blk s)"
    "hdr_n h1 = int n" "\<forall>i<n. hdr_b h1 i = ?bs i" "hdr_n h0 = 0" "runs p s'"
    by (rule commit_ok [OF assms n_def n refl refl])
  let ?ws = "commit_writes ?st ?bs (\<lambda>i. blk s (?bs i)) n h1 h0"
  note lay = D(5) [folded n_def]
  have new: "assign ?bs (\<lambda>i. blk s (?bs i)) n (disk s) m = blk s m" for m
    using loginv_not_pinned(2) [OF assms(1)] by (auto simp: assign_view n_def)
  have cr: "recovered ?st (writes (take k ?ws) (disk s)) m = (if k \<le> n then disk s m else blk s m)" if "outside_log s m" for k m
    using commit_writes_crash [where d = "disk s" and ?h0.0 = h0 and ?h1.0 = h1 and bs = ?bs, OF lay D(6) 1(10) _ 1(12) that] 1(11) new by simp
  have fin: "writes ?ws d m = (if \<exists>i<n. ?bs i = m then blk s m else d m)" if "outside_log s m" for d m
    using that lay logblk_facts(1) [of ?st "nat (l_size s)"]
    by (auto simp: commit_writes_def writes_map assign_view log_layout_def in_log_def intro!: assign_other)
  have ds: "disk s' m = blk s m \<and> blk s' m = blk s m" if "outside_log s m" for m
    using fin [OF that] new [of m] by (simp add: 1(8,9) assign_view)
  have st: "disk s' ?st = h0" by (simp add: 1(8) commit_writes_def)
  have "loginv {} {} s'"
    using 1(2-6,12) D(3,5) st by (simp add: loginv_def log_layout_def)
  then show ?thesis using 1(1,3,4,5,7,8,13) cr ds commit_headers [where d = "disk s", OF lay D(6) 1(10,11,12)] by (intro exI [of _ s'] exI [of _ ?ws]) (simp add: n_def)
qed

text \<open>A disk of zeroes, a ring of buffers of which \<open>P\<close> are pinned, and a log of 30 blocks from block 2 on that lists the first \<open>n\<close> buffers.\<close>

definition proc0 :: proc where
  "proc0 = \<lparr>pstate = RUNNING, pchan = None, killed = False, xstate = 0, pid = 1, parent = None, kstack = 0, psz = 4096, pagetable = 0,
     trapframe = 0, pcontext = \<lparr>ctx_ra = 0, ctx_sp = 0, ctx_s = (\<lambda>_. 0)\<rparr>, ofile = (\<lambda>_. None), cwd = None, pname = ''init''\<rparr>"

definition ring_bufs :: "nat set \<Rightarrow> nat \<Rightarrow> buf" where
  "ring_bufs P b = \<lparr>b_valid = (b \<in> P), b_disk = False, b_dev = of_bool (b \<in> P), b_blockno = 40 + of_nat b,
     b_refcnt = of_bool (b \<in> P), b_prev = (if b = 0 then 30 else b - 1), b_next = (if b = 30 then 0 else b + 1)\<rparr>"

definition xlog0 :: "nat set \<Rightarrow> (uint32 \<Rightarrow> block) \<Rightarrow> nat \<Rightarrow> 'a \<Rightarrow> 'a xlog_scheme" where
  "xlog0 P d n x = \<lparr>mach = machine0\<lparr>cpus := (\<lambda>_. \<lparr>noff = 0, intena = False, cpu_proc = Some 0\<rparr>)\<rparr>, ram = (\<lambda>_. 7), freelist = 0, refcnt = (\<lambda>_. 0), kend = 0x80024000,
     procs = (\<lambda>_. proc0), nextpid = 2, initproc = Some 0, sls = (\<lambda>_. \<lparr>sl_locked = False, sl_name = [], sl_pid = 0\<rparr>),
     bufs = ring_bufs P, bcache_at = 0x80010000, disk = d, dtrace = [],
     v_desc = (\<lambda>_. zero_desc), avail_idx = 0, avail_ring = (\<lambda>_. 0), uring_idx = 0, uring_id = (\<lambda>_. 0), v_free = (\<lambda>_. True), used_idx = 0,
     info_b = (\<lambda>_. None), info_status = (\<lambda>_. 0), v_ops = (\<lambda>_. \<lparr>q_type = 0, q_reserved = 0, q_sector = 0\<rparr>), v_at = 0x80020000,
     v_regs = (\<lambda>_. 0), v_wr = [], l_start = 2, l_size = 30, l_outstanding = 0, l_committing = False,
     l_dev = 1, lh_n = int n, lh_block = (\<lambda>i. 40 + of_nat i), \<dots> = x\<rparr>"

definition blank_disk :: "uint32 \<Rightarrow> block" where
  "blank_disk n = replicate 1024 0"

lemma ring_bufs_ring: "ring (ring_bufs P) [0..<30]"
  by (simp add: ring_def ring_bufs_def upt_rec)

lemma xlog0_runs: "runs 0 (xlog0 P d n x)"
  by (simp add: runs_def xlog0_def mcur_def irq_ok_def lk_free_def machine0_def machine_defs)

lemma xlog0_binv:
  assumes "P \<subseteq> {..<30}" "\<And>m. length (d m) = BSIZE"
  shows "binv {} P (xlog0 P d n x)"
proof -
  have "(of_nat b :: uint32) = of_nat c \<Longrightarrow> b = c" if "b < 30" "c < 30" for b c
    using that by (simp add: word_of_nat_eq_iff take_bit_nat_eq_self)
  then have "uniq (ring_bufs P)" by (auto simp: uniq_def caches_def ring_bufs_def)
  then show ?thesis
    unfolding binv_def using assms ring_bufs_ring [of P]
    apply (intro conjI)
    subgoal by (auto simp: xlog0_def)
    subgoal by simp
    subgoal by (simp add: xlog0_def ring_bufs_def)
    subgoal by (simp add: xlog0_def)
    subgoal by simp
    subgoal by (simp add: xlog0_def ring_bufs_def)
    subgoal by (simp add: xlog0_def ring_bufs_def)
    subgoal by (simp add: xlog0_def)
    subgoal by (auto simp: xlog0_def ring_bufs_def caches_def)
    subgoal by (simp add: xlog0_def)
    subgoal by (simp add: xlog0_def)
    done
qed

lemma blank_hdr: "hdr_n (blank_disk m) = 0"
proof -
  have "(ldb 4 (blank_disk m) 0 :: uint32) = 0" by (rule bit_word_eqI) (auto simp: ldb_bit blank_disk_def)
  then show ?thesis by (simp add: hdr_n_def)
qed

lemma xlog0_fields [simp]:
  "l_start (xlog0 P d n x) = 2" "l_size (xlog0 P d n x) = 30" "lh_n (xlog0 P d n x) = int n" "lh_block (xlog0 P d n x) = (\<lambda>i. 40 + of_nat i)"
  "disk (xlog0 P d n x) = d" "bufs (xlog0 P d n x) = ring_bufs P" "l_dev (xlog0 P d n x) = 1" "dtrace (xlog0 P d n x) = []"
  by (simp_all add: xlog0_def)

lemma xlog0_loginv: "loginv {} {0} (xlog0 {0} blank_disk 1 x)"
  using xlog0_binv [of "{0}" blank_disk 1 x] blank_hdr
  by (simp add: loginv_def log_layout_def in_log_def pinned_def caches_def ring_bufs_def blank_disk_def inj_on_def)

section \<open>Properties\<close>

text \<open>C10: a commit is atomic and durable.  It returns; the writes it sends to the disk, cut off by a crash
  after any number \<open>k\<close> of them, leave a disk that recovery maps to the old contents of every block
  outside the log, while the header is not written, and to the new contents of every block as soon as
  it is; in the end the disk holds what the kernel sees and the log is empty.\<close>

theorem commit_crash_safe:
  assumes "loginv {} P s" "runs p s"
  shows "\<exists>s' ws. commit s = Inr ((), s') \<and> dtrace s' = dtrace s @ ws \<and> disk s' = writes ws (disk s) \<and>
    loginv {} {} s' \<and> lh_n s' = 0 \<and>
    (\<forall>m. outside_log s m \<longrightarrow> disk s' m = blk s m \<and> blk s' m = blk s m) \<and>
    (\<forall>k m. outside_log s m \<longrightarrow>
       recovered (l_start s) (writes (take k ws) (disk s)) m = (if k \<le> nat (lh_n s) then disk s m else blk s m))"
  using commit_atomic [OF assms] by blast

theorem commit_crash_safe_witness:
  "\<exists>s'. commit (xlog0 {0} blank_disk 1 ()) = Inr ((), s') \<and> disk s' 40 = blk (xlog0 {0} blank_disk 1 ()) 40"
  using commit_crash_safe [OF xlog0_loginv xlog0_runs, of "()"] by (auto simp: in_log_def)

text \<open>C11: a crash during a commit, then a restart.  Whatever the cache holds after the restart, as long as its
  invariant does, \<^verbatim>\<open>initlog\<close> returns and leaves every block outside the log, on disk and as the kernel sees it, as it
  was before the transaction if the header had not reached the disk, and as the transaction left it
  otherwise; never a mixture.\<close>

theorem crash_then_initlog:
  assumes "loginv {} P s" "runs p s" "commit s = Inr ((), s')" "binv {} {} t" "runs q t"
    "disk t = writes (take k (drop (length (dtrace s)) (dtrace s'))) (disk s)"
    "sb_logstart sb = l_start s" "sint (sb_nlog sb) = l_size s"
  shows "\<exists>t'. initlog 1 sb t = Inr ((), t') \<and> loginv {} {} t' \<and>
    (\<forall>m. outside_log s m \<longrightarrow> disk t' m = (if k \<le> nat (lh_n s) then disk s m else blk s m) \<and> blk t' m = disk t' m)"
proof -
  obtain ws where ws: "dtrace s' = dtrace s @ ws"
    "\<And>k m. outside_log s m \<Longrightarrow> recovered (l_start s) (writes (take k ws) (disk s)) m = (if k \<le> nat (lh_n s) then disk s m else blk s m)"
    "\<And>k. \<exists>n. hdr_n (writes (take k ws) (disk s) (l_start s)) = int n \<and>
       log_layout (l_start s) (nat (l_size s)) (hdr_b (writes (take k ws) (disk s) (l_start s))) n"
    using commit_atomic [OF assms(1,2)] assms(3) by auto
  have d: "disk t = writes (take k ws) (disk s)" using assms(6) by (simp add: ws(1))
  obtain n where n: "hdr_n (disk t (l_start s)) = int n" "log_layout (l_start s) (nat (l_size s)) (hdr_b (disk t (l_start s))) n"
    using ws(3) [of k] by (auto simp: d)
  obtain t' h0 where t: "initlog 1 sb t = Inr ((), t')" "loginv {} {} t'" "lh_n t' = 0" "hdr_n h0 = 0"
    "disk t' = writes (map (\<lambda>i. (hdr_b (disk t (l_start s)) i, disk t (logblk (l_start s) i))) [0..<n] @ [(l_start s, h0)]) (disk t)"
    using initlog_ok [OF assms(4,5), of sb n, unfolded assms(7,8), OF n(1) loginvD(3) [OF assms(1)] n(2)] by blast
  have "disk t' m = (if k \<le> nat (lh_n s) then disk s m else blk s m)" if "outside_log s m" for m
    using recovered_writes [where d = "disk t", OF n(2,1) t(4) that] ws(2) [OF that, of k] by (simp only: t(5) d)
  moreover have "blk t' m = disk t' m" for m using loginv_not_pinned(2) [OF t(2)] t(3) by simp
  ultimately show ?thesis using t(1,2) by blast
qed

definition super0 :: superblock where
  "super0 = \<lparr>sb_magic = 0x10203040, sb_size = 1000, sb_nblocks = 954, sb_ninodes = 200, sb_nlog = 30, sb_logstart = 2, sb_inodestart = 32, sb_bmapstart = 45\<rparr>"

theorem crash_then_initlog_witness:
  "\<exists>s' t'. commit (xlog0 {0} blank_disk 1 ()) = Inr ((), s') \<and> initlog 1 super0 (xlog0 {} (disk s') 0 ()) = Inr ((), t') \<and>
     disk t' 40 = blk (xlog0 {0} blank_disk 1 ()) 40"
proof -
  let ?s = "xlog0 {0} blank_disk 1 ()"
  have n1: "1 = nat (lh_n ?s)" and st2: "2 = l_start ?s" by simp_all
  obtain s' h1 h0 where s': "commit ?s = Inr ((), s')" "binv {} {} s'" "lh_n s' = 0" "l_start s' = 2" "l_size s' = l_size ?s" "l_dev s' = 1"
    "dtrace s' = dtrace ?s @ commit_writes 2 (lh_block ?s) (\<lambda>i. blk ?s (lh_block ?s i)) 1 h1 h0"
    "disk s' = writes (commit_writes 2 (lh_block ?s) (\<lambda>i. blk ?s (lh_block ?s i)) 1 h1 h0) (disk ?s)"
    "blk s' = writes (commit_writes 2 (lh_block ?s) (\<lambda>i. blk ?s (lh_block ?s i)) 1 h1 h0) (blk ?s)"
    "hdr_n h1 = int 1" "\<forall>i<1. hdr_b h1 i = lh_block ?s i" "hdr_n h0 = 0" "runs 0 s'"
    by (rule commit_ok [OF xlog0_loginv [of "()"] xlog0_runs n1 zero_less_one st2 refl])
  have "disk s' = writes (take 4 (drop (length (dtrace ?s)) (dtrace s'))) (disk ?s)" unfolding s'(7,8) by (simp add: commit_writes_def)
  moreover have "binv {} {} (xlog0 {} (disk s') 0 ())" using binvD(12) [OF s'(2)] by (intro xlog0_binv) auto
  ultimately show ?thesis
    using crash_then_initlog [OF xlog0_loginv xlog0_runs s'(1) _ xlog0_runs [of "{}"], of "disk s'" 0 "()" 4 super0] s'(1)
    by (auto simp: super0_def in_log_def)
qed

text \<open>C12: recovery may itself be cut off.  \<^verbatim>\<open>initlog\<close> on a disk with a committed transaction returns
  with every block outside the log as the header prescribes, and after any number \<open>k\<close> of its writes the
  disk still recovers to the same contents.\<close>

theorem initlog_recovers:
  assumes "binv {} {} s" "runs p s" "st = sb_logstart sb" "z = sint (sb_nlog sb)" "z \<le> 30" "hdr_n (disk s st) = int n"
    "log_layout st (nat z) (hdr_b (disk s st)) n"
  shows "\<exists>s' ws. initlog 1 sb s = Inr ((), s') \<and> loginv {} {} s' \<and> dtrace s' = dtrace s @ ws \<and>
    (\<forall>m. \<not> in_log st (nat z) m \<longrightarrow> disk s' m = recovered st (disk s) m) \<and>
    (\<forall>k m. \<not> in_log st (nat z) m \<longrightarrow> recovered st (writes (take k ws) (disk s)) m = recovered st (disk s) m)"
proof -
  let ?ws = "\<lambda>h0. map (\<lambda>i. (hdr_b (disk s st) i, disk s (logblk st i))) [0..<n] @ [(st, h0)]"
  obtain s' h0 where s': "initlog 1 sb s = Inr ((), s')" "loginv {} {} s'" "hdr_n h0 = 0" "dtrace s' = dtrace s @ ?ws h0" "disk s' = writes (?ws h0) (disk s)"
    using initlog_ok [OF assms(1,2), of sb n, folded assms(3,4), OF assms(6,5,7)] by blast
  moreover have "disk s' m = recovered st (disk s) m" if "\<not> in_log st (nat z) m" for m
    using recovered_writes [where d = "disk s", OF assms(7,6) s'(3) that] by (simp only: s'(5))
  moreover have "recovered st (writes (take k (?ws h0)) (disk s)) m = recovered st (disk s) m" if "\<not> in_log st (nat z) m" for k m
    by (rule recovery_crash [where d = "disk s", OF assms(7,6) refl s'(3) that])
  ultimately show ?thesis by blast
qed

theorem initlog_recovers_witness:
  "\<exists>s'. initlog 1 super0 (xlog0 {} blank_disk 0 ()) = Inr ((), s') \<and> disk s' 40 = recovered 2 blank_disk 40"
proof -
  have i: "binv {} {} (xlog0 {} blank_disk 0 ())" by (rule xlog0_binv) (simp_all add: blank_disk_def)
  have "log_layout 2 30 (hdr_b (blank_disk 2)) 0" by (simp add: log_layout_def)
  then show ?thesis
    using initlog_recovers [OF i xlog0_runs, of 2 super0 30 0] blank_hdr by (auto simp: super0_def in_log_def)
qed

end
