(* ===== verification/Vring.thy ===== *)
theory Vring
  imports Txn
begin

text \<open>
  A disk request from \<^verbatim>\<open>virtio_disk_rw\<close> to its completion: the driver (theory \<open>Virtio\<close>), the device, the interrupt,
  and \<^verbatim>\<open>sleep\<close>, \<^verbatim>\<open>wakeup\<close> and the scheduler (theory \<open>Proc\<close>) in the order in which they act, refine the one step
  \<open>disk_rw\<close> that the buffer cache (theory \<open>Bio\<close>) is verified with.
\<close>

section \<open>One request\<close>

text \<open>\<open>vdisk_idle\<close>: every descriptor is free, and the device and the driver have handled every request.\<close>

definition vdisk_idle :: "'a vdisk_scheme \<Rightarrow> bool" where
  "vdisk_idle s \<longleftrightarrow> (\<forall>i < 8. v_free s i) \<and> uring_idx s = avail_idx s \<and> used_idx s = avail_idx s"

lemma upt8: "[0..<8] = [0, 1, 2, 3, 4, 5, 6, 7::nat]"
  by (simp add: upt_rec)

lemma alloc3_idle:
  assumes "\<forall>i < 8. v_free s i"
  shows "alloc3_desc s = Inr (Some [0, 1, 2], s\<lparr>v_free := (v_free s)(0 := False, 1 := False, 2 := False)\<rparr>)"
  using assms by (simp add: alloc3_desc_def numeral_3_eq_3 alloc_desc_def upt8 kmonad)

text \<open>The state in which the device finds the request.\<close>

definition posted :: "nat \<Rightarrow> bool \<Rightarrow> 'a vdisk_scheme \<Rightarrow> 'a vdisk_scheme" where
  "posted b wr s = s\<lparr>
     v_free := (v_free s)(0 := False, 1 := False, 2 := False),
     v_ops := (v_ops s)(0 := \<lparr>q_type = (if wr then 1 else 0), q_reserved = 0, q_sector = ucast (b_blockno (bufs s b) * 2)\<rparr>),
     v_desc := (v_desc s)(
       0 := \<lparr>d_addr = ops_at (v_at s) 0, d_len = 16, d_flags = 1, d_next = 1\<rparr>,
       1 := \<lparr>d_addr = bdata s b, d_len = 1024, d_flags = (if wr then 1 else 3), d_next = 2\<rparr>,
       2 := \<lparr>d_addr = status_at (v_at s) 0, d_len = 1, d_flags = 2, d_next = 0\<rparr>),
     info_status := (info_status s)(0 := 0xff),
     bufs := (bufs s)(b := (bufs s b)\<lparr>b_disk := True\<rparr>),
     info_b := (info_b s)(0 := Some b),
     avail_ring := (avail_ring s)(unat (avail_idx s mod 8) := 0),
     avail_idx := avail_idx s + 1,
     v_wr := v_wr s @ [(0x50, 0)]\<rparr>"

lemma virtio_submit_idle:
  assumes "\<forall>i < 8. v_free s i" "lk_free (mach s) Vdisk_lock"
  shows "virtio_submit b wr s = Inr (0, (posted b wr s)\<lparr>mach := taken Vdisk_lock (mach s)\<rparr>)"
  using assms by (simp add: virtio_submit_def kmonad locking alloc3_idle virtio_format_def wr_reg_def posted_def)


section \<open>The device\<close>

text \<open>
  The device is not part of the kernel: it is a function \<open>dev\<close> on the state it shares with the driver.
  \<open>blk_request s h wr n a\<close> says that the chain of descriptors from \<open>h\<close> is a request as sections 2.6 and 5.2.6 of the
  virtio specification have it: a header, 1024 bytes of data at \<open>a\<close>, and a status byte; it asks for the two
  sectors of block \<open>n\<close>.  \<open>blk_device dev\<close> says what the specification promises of a device that finds one
  such request in the available ring and can serve it: it transfers the data, sets the status byte to 0, appends the head of the
  chain to the used ring, and raises an interrupt.
\<close>

definition blk_request :: "'a vdisk_scheme \<Rightarrow> nat \<Rightarrow> bool \<Rightarrow> uint32 \<Rightarrow> addr \<Rightarrow> bool" where
  "blk_request s h wr n a \<longleftrightarrow>
     (let d0 = v_desc s h; d1 = v_desc s (unat (d_next d0)); d2 = v_desc s (unat (d_next d1)) in
      d_addr d0 = ops_at (v_at s) h \<and> d_len d0 = 16 \<and> d_flags d0 = 1 \<and>
      q_type (v_ops s h) = (if wr then 1 else 0) \<and> q_sector (v_ops s h) = ucast n * 2 \<and>
      d_addr d1 = a \<and> d_len d1 = 1024 \<and> d_flags d1 = (if wr then 1 else 3) \<and>
      d_addr d2 = status_at (v_at s) h \<and> d_len d2 = 1 \<and> d_flags d2 = 2)"

definition transferred :: "bool \<Rightarrow> uint32 \<Rightarrow> addr \<Rightarrow> 'a bcache_scheme \<Rightarrow> 'a bcache_scheme" where
  "transferred wr n a s =
     (if wr then s\<lparr>disk := (disk s)(n := rd_block (ram s) a), dtrace := dtrace s @ [(n, rd_block (ram s) a)]\<rparr>
      else s\<lparr>ram := wr_block (ram s) a (disk s n)\<rparr>)"

definition completed :: "nat \<Rightarrow> 'a vdisk_scheme \<Rightarrow> 'a vdisk_scheme" where
  "completed h s = s\<lparr>
     info_status := (info_status s)(h := 0),
     uring_id := (uring_id s)(unat (uring_idx s mod 8) := of_nat h),
     uring_idx := uring_idx s + 1,
     v_regs := (v_regs s)(0x60 := 1)\<rparr>"

definition blk_device :: "('a vdisk_scheme \<Rightarrow> 'a vdisk_scheme) \<Rightarrow> bool" where
  "blk_device dev \<longleftrightarrow>
     (\<forall>s h wr n a. avail_idx s = uring_idx s + 1 \<longrightarrow> h = unat (avail_ring s (unat (uring_idx s mod 8))) \<longrightarrow>
        blk_request s h wr n a \<longrightarrow> dev s = completed h (transferred wr n a s))"

lemma disk_rw_transfers: "disk_rw b wr s = Inr ((), transferred wr (b_blockno (bufs s b)) (bdata s b) s)"
  by (simp add: disk_rw_def transferred_def kmod_def Let_def)

lemma sector_of_block:
  fixes n :: uint32
  assumes "n < 0x80000000"
  shows "(ucast (n * 2) :: uint64) = ucast n * 2"
proof -
  have "uint n < 0x80000000" using assms by (simp add: word_less_alt)
  then have "uint (n * 2) = uint n * 2" by (simp add: uint_word_ariths)
  moreover have "uint (ucast n * 2 :: uint64) = uint n * 2"
    using \<open>uint n < 0x80000000\<close> by (simp add: uint_word_ariths unsigned_ucast_eq take_bit_eq_mod)
  ultimately show ?thesis
    using \<open>uint n < 0x80000000\<close> by (simp add: word_uint_eq_iff unsigned_ucast_eq take_bit_eq_mod)
qed

lemma posted_is_request:
  "b_blockno (bufs s b) < 0x80000000 \<Longrightarrow> blk_request (posted b wr s) 0 wr (b_blockno (bufs s b)) (bdata s b)"
  by (simp add: blk_request_def posted_def sector_of_block Let_def)

lemma blk_request_frame [simp]: "blk_request (s\<lparr>mach := m, procs := P\<rparr>) h wr n a = blk_request s h wr n a"
  by (simp add: blk_request_def Let_def)

lemma device_serves:
  assumes "blk_device dev" "uring_idx s = avail_idx s" "b_blockno (bufs s b) < 0x80000000"
  shows "dev ((posted b wr s)\<lparr>mach := m, procs := P\<rparr>) =
    completed 0 (transferred wr (b_blockno (bufs s b)) (bdata s b) ((posted b wr s)\<lparr>mach := m, procs := P\<rparr>))"
proof -
  let ?t = "(posted b wr s)\<lparr>mach := m, procs := P\<rparr>"
  have "avail_idx ?t = uring_idx ?t + 1" "0 = unat (avail_ring ?t (unat (uring_idx ?t mod 8)))"
    using assms(2) by (simp_all add: posted_def)
  moreover have "blk_request ?t 0 wr (b_blockno (bufs s b)) (bdata s b)" using posted_is_request [OF assms(3)] by simp
  ultimately show ?thesis using assms(1) unfolding blk_device_def by blast
qed


section \<open>The interrupt and the end of the request\<close>

lemma virtio_intr_one:
  assumes "quiet (insert Vdisk_lock proc_locks) s" "uring_idx s = used_idx s + 1"
    "uring_id s (unat (used_idx s mod 8)) = 0" "info_status s 0 = 0" "info_b s 0 = Some b"
  shows "virtio_disk_intr s = Inr ((), s\<lparr>mach := settle (mach s), procs := woken (Chan_buf b) (cur s) 64 (procs s),
     bufs := (bufs s)(b := (bufs s b)\<lparr>b_disk := False\<rparr>),
     used_idx := used_idx s + 1, v_wr := v_wr s @ [(0x64, v_regs s 0x60 AND 3)]\<rparr>)"
proof -
  have q: "irq_ok (mach s)" "lk_free (mach s) Vdisk_lock" "\<forall>p < 64. lk_free (mach s) (Proc_lock p)"
    using assms(1) by (auto simp: quiet_def)
  have "wakeup c t = Inr ((), t\<lparr>procs := woken c (cur t) 64 (procs t)\<rparr>)"
    if "mach t = taken Vdisk_lock (mach s)" for c and t :: "'a vdisk_scheme"
    using q that by (subst wakeup_eq) (auto simp: quiet_def)
  then show ?thesis
    using assms q by (simp add: virtio_disk_intr_def wr_reg_def kmonad locking numeral_2_eq_2)
qed

lemma woken_again [simp]: "woken c me n (woken c me n P) = woken c me n P"
  by (simp add: woken_def fun_eq_iff)

lemma free_desc_eq:
  assumes "quiet proc_locks s" "mach s = taken l m" "irq_ok m" "i < 8" "\<not> v_free s i"
  shows "free_desc i s = Inr ((), s\<lparr>v_desc := (v_desc s)(i := zero_desc), v_free := (v_free s)(i := True),
    procs := woken Chan_disk_free (cur s) 64 (procs s)\<rparr>)"
proof -
  have "wakeup c t = Inr ((), t\<lparr>procs := woken c (cur t) 64 (procs t)\<rparr>)" if "mach t = taken l m" for c and t :: "'a vdisk_scheme"
    using assms that by (subst wakeup_eq) (auto simp: quiet_def)
  then show ?thesis using assms by (simp add: free_desc_def kmonad)
qed

lemma free_chain_three:
  assumes "quiet proc_locks s" "mach s = taken l m" "irq_ok m"
    "\<not> v_free s 0" "\<not> v_free s 1" "\<not> v_free s 2"
    "d_flags (v_desc s 0) AND 1 \<noteq> 0" "d_next (v_desc s 0) = 1" "d_flags (v_desc s 1) AND 1 \<noteq> 0" "d_next (v_desc s 1) = 2"
    "d_flags (v_desc s 2) AND 1 = 0"
  shows "free_chain (Suc (Suc (Suc k))) 0 s = Inr ((), s\<lparr>v_desc := (v_desc s)(0 := zero_desc, 1 := zero_desc, 2 := zero_desc),
     v_free := (v_free s)(0 := True, 1 := True, 2 := True), procs := woken Chan_disk_free (cur s) 64 (procs s)\<rparr>)"
proof -
  have w: "quiet proc_locks (s\<lparr>v_desc := d, v_free := f, procs := P\<rparr>)" for d f P
    using assms(1) by (simp add: quiet_def)
  show ?thesis using assms w by (simp add: kmonad free_desc_eq [of _ l m])
qed

section \<open>A request from submission to completion\<close>

text \<open>Process \<open>p\<close> posts the request and sleeps, which switches to the scheduler of its hart; the device serves the
  request and interrupts; the scheduler runs \<open>p\<close> again, which tests \<^verbatim>\<open>b->disk\<close> once more and finishes.\<close>

definition virtio_cycle :: "('a vdisk_scheme \<Rightarrow> 'a vdisk_scheme) \<Rightarrow> nat \<Rightarrow> nat \<Rightarrow> bool \<Rightarrow> ('a vdisk_scheme, unit) km" where
  "virtio_cycle dev p b wr =
     kbind (virtio_submit b wr) (\<lambda>i0.
     kbind (sleep_out (Chan_buf b) Vdisk_lock) (\<lambda>ie.
     kseq (scheduler_in p)
    (kseq (kmod dev)
    (kseq virtio_disk_intr
    (kseq (scheduler_out p)
    (kseq (sleep_in p Vdisk_lock ie)
    (kseq (virtio_wait b)
          (virtio_finish i0))))))))"

lemma virtio_finish_eq:
  assumes "mach s = taken Vdisk_lock m" "irq_ok m" "\<forall>l. lk_free m l"
    "\<not> v_free s 0" "\<not> v_free s 1" "\<not> v_free s 2"
    "d_flags (v_desc s 0) AND 1 \<noteq> 0" "d_next (v_desc s 0) = 1" "d_flags (v_desc s 1) AND 1 \<noteq> 0" "d_next (v_desc s 1) = 2"
    "d_flags (v_desc s 2) AND 1 = 0"
  shows "virtio_finish 0 s = Inr ((), s\<lparr>info_b := (info_b s)(0 := None),
     v_desc := (v_desc s)(0 := zero_desc, 1 := zero_desc, 2 := zero_desc),
     v_free := (v_free s)(0 := True, 1 := True, 2 := True),
     procs := woken Chan_disk_free (mcur m) 64 (procs s), mach := settle m\<rparr>)"
proof -
  let ?s = "s\<lparr>info_b := (info_b s)(0 := None)\<rparr>"
  have 9: "free_chain (Suc 8) 0 ?s = Inr ((), ?s\<lparr>v_desc := (v_desc s)(0 := zero_desc, 1 := zero_desc, 2 := zero_desc),
     v_free := (v_free s)(0 := True, 1 := True, 2 := True), procs := woken Chan_disk_free (mcur m) 64 (procs s)\<rparr>)"
    using free_chain_three [of ?s Vdisk_lock m 6] assms by (simp add: quiet_def)
  then show ?thesis using assms by (simp add: virtio_finish_def kmonad locking)
qed


lemma transferred_fields [simp]:
  fixes s :: "'a vdisk_scheme" and wr :: bool and n :: uint32 and a :: addr
  defines "t \<equiv> transferred wr n a s"
  shows "mach t = mach s" "procs t = procs s" "bufs t = bufs s" "sls t = sls s" "bcache_at t = bcache_at s" "v_desc t = v_desc s"
    "avail_idx t = avail_idx s" "uring_idx t = uring_idx s" "uring_id t = uring_id s" "v_free t = v_free s" "used_idx t = used_idx s"
    "info_b t = info_b s" "info_status t = info_status s" "v_regs t = v_regs s" "v_wr t = v_wr s" "vdisk.more t = vdisk.more s"
  by (simp_all add: t_def transferred_def)

lemma transferred_same:
  fixes s t :: "'a vdisk_scheme"
  assumes "ram s = ram t" "disk s = disk t" "dtrace s = dtrace t"
  shows "ram (transferred wr n a s) = ram (transferred wr n a t)" "disk (transferred wr n a s) = disk (transferred wr n a t)"
    "dtrace (transferred wr n a s) = dtrace (transferred wr n a t)"
  using assms by (simp_all add: transferred_def)

text \<open>The first half: after the interrupt the process is \<open>RUNNABLE\<close> and its request complete.\<close>

lemma posted_fields [simp]:
  "mach (posted b wr s) = mach s" "procs (posted b wr s) = procs s" "ram (posted b wr s) = ram s" "disk (posted b wr s) = disk s"
  "dtrace (posted b wr s) = dtrace s" "sls (posted b wr s) = sls s" "vdisk.more (posted b wr s) = vdisk.more s"
  "bufs (posted b wr s) = (bufs s)(b := (bufs s b)\<lparr>b_disk := True\<rparr>)" "info_b (posted b wr s) 0 = Some b"
  "used_idx (posted b wr s) = used_idx s" "uring_idx (posted b wr s) = uring_idx s" "avail_idx (posted b wr s) = avail_idx s + 1"
  "bcache_at (posted b wr s) = bcache_at s"
  "v_free (posted b wr s) = (v_free s)(0 := False, 1 := False, 2 := False)"
  by (simp_all add: posted_def)

definition off :: "nat \<Rightarrow> chan \<Rightarrow> (nat \<Rightarrow> proc) \<Rightarrow> nat \<Rightarrow> proc" where
  "off p c P = P(p := (P p)\<lparr>pchan := Some c, pstate := SLEEPING\<rparr>)"

lemma virtio_served:
  fixes s :: "'a vdisk_scheme" and wr :: bool
  assumes "blk_device dev" "vdisk_idle s" "runs p s" "noff (mycpu (mach s)) = 0" "b_blockno (bufs s b) < 0x80000000"
  defines "t \<equiv> (posted b wr s)\<lparr>mach := set_cur None (settle (mach s)), procs := off p (Chan_buf b) (procs s)\<rparr>"
  defines "u \<equiv> completed 0 (transferred wr (b_blockno (bufs s b)) (bdata s b) t)"
  shows "virtio_cycle dev p b wr s =
    kseq (scheduler_out p) (kseq (sleep_in p Vdisk_lock (sie (mach s))) (kseq (virtio_wait b) (virtio_finish 0)))
      (u\<lparr>procs := woken (Chan_buf b) None 64 (procs t), bufs := (bufs t)(b := (bufs t b)\<lparr>b_disk := False\<rparr>),
         used_idx := used_idx s + 1, v_wr := v_wr t @ [(0x64, 1)]\<rparr>)"
proof -
  let ?c = "Chan_buf b"
  have r: "cur s = Some p" "irq_ok (mach s)" "lk_free (mach s) l" for l using assms(3) by (simp_all add: runs_def)
  have i: "\<forall>i < 8. v_free s i" "uring_idx s = avail_idx s" "used_idx s = avail_idx s" using assms(2) by (simp_all add: vdisk_idle_def)
  have 1: "virtio_submit b wr s = Inr (0, (posted b wr s)\<lparr>mach := taken Vdisk_lock (mach s)\<rparr>)"
    by (rule virtio_submit_idle) (use i r in auto)
  have 2: "sleep_out ?c Vdisk_lock ((posted b wr s)\<lparr>mach := taken Vdisk_lock (mach s)\<rparr>) =
      Inr (sie (mach s), (posted b wr s)\<lparr>mach := taken (Proc_lock p) (mach s), procs := off p ?c (procs s)\<rparr>)"
    by (subst sleep_out_eq [of _ p _ "mach s"]) (use r assms(4) in \<open>simp_all add: off_def\<close>)
  have 3: "scheduler_in p ((posted b wr s)\<lparr>mach := taken (Proc_lock p) (mach s), procs := off p ?c (procs s)\<rparr>) = Inr ((), t)"
    by (subst scheduler_in_eq [of _ p "mach s"]) (use r in \<open>simp_all add: t_def\<close>)
  have 4: "dev t = u" unfolding t_def u_def by (rule device_serves) (use i assms in auto)
  have u: "mach u = mach t" "procs u = procs t" "bufs u = bufs t" "uring_idx u = uring_idx s + 1" "used_idx u = used_idx s"
      "uring_id u (unat (uring_idx s mod 8)) = 0" "info_status u 0 = 0" "info_b u 0 = Some b" "v_regs u 0x60 = 1" "v_wr u = v_wr t"
    by (simp_all add: u_def completed_def t_def)
  have q: "quiet (insert Vdisk_lock proc_locks) u" "mach t = set_cur None (settle (mach s))"
    using r by (simp_all add: quiet_def u t_def)
  have 5: "virtio_disk_intr u = Inr ((), u\<lparr>procs := woken ?c None 64 (procs t),
      bufs := (bufs t)(b := (bufs t b)\<lparr>b_disk := False\<rparr>), used_idx := used_idx s + 1, v_wr := v_wr t @ [(0x64, 1)]\<rparr>)"
    by (subst virtio_intr_one [of _ b]) (use u q i in simp_all)
  show ?thesis using 1 2 3 4 5 by (simp add: virtio_cycle_def kmonad)
qed


text \<open>The second half.\<close>

lemma virtio_resumes:
  fixes s :: "'a vdisk_scheme"
  assumes "irq_ok (mach s)" "\<forall>l. lk_free (mach s) l" "noff (mycpu (mach s)) = 0" "pstate (procs s p) = RUNNABLE" "\<not> b_disk (bufs s b)"
    "\<not> v_free s 0" "\<not> v_free s 1" "\<not> v_free s 2"
    "d_flags (v_desc s 0) AND 1 \<noteq> 0" "d_next (v_desc s 0) = 1" "d_flags (v_desc s 1) AND 1 \<noteq> 0" "d_next (v_desc s 1) = 2"
    "d_flags (v_desc s 2) AND 1 = 0"
  shows "kseq (scheduler_out p) (kseq (sleep_in p Vdisk_lock (sie (mach s))) (kseq (virtio_wait b) (virtio_finish 0))) s =
    Inr ((), s\<lparr>info_b := (info_b s)(0 := None),
     v_desc := (v_desc s)(0 := zero_desc, 1 := zero_desc, 2 := zero_desc),
     v_free := (v_free s)(0 := True, 1 := True, 2 := True),
     procs := woken Chan_disk_free (Some p) 64 ((procs s)(p := (procs s p)\<lparr>pstate := RUNNING, pchan := None\<rparr>)),
     mach := set_cur (Some p) (settle (mach s))\<rparr>)"
proof -
  let ?m = "set_cur (Some p) (mach s)"
  let ?P = "(procs s)(p := (procs s p)\<lparr>pstate := RUNNING, pchan := None\<rparr>)"
  have 1: "scheduler_out p s = Inr (True, s\<lparr>mach := taken (Proc_lock p) ?m, procs := (procs s)(p := (procs s p)\<lparr>pstate := RUNNING\<rparr>)\<rparr>)"
    by (rule scheduler_out_eq) (use assms in auto)
  have 2: "sleep_in p Vdisk_lock (sie (mach s)) (s\<lparr>mach := taken (Proc_lock p) ?m, procs := (procs s)(p := (procs s p)\<lparr>pstate := RUNNING\<rparr>)\<rparr>) =
      Inr ((), s\<lparr>mach := taken Vdisk_lock (settle ?m), procs := ?P\<rparr>)"
    using sleep_in_eq [of "s\<lparr>mach := taken (Proc_lock p) ?m, procs := (procs s)(p := (procs s p)\<lparr>pstate := RUNNING\<rparr>)\<rparr>" p ?m Vdisk_lock] assms
    by simp
  have 3: "virtio_wait b (s\<lparr>mach := taken Vdisk_lock (settle ?m), procs := ?P\<rparr>) = Inr ((), s\<lparr>mach := taken Vdisk_lock (settle ?m), procs := ?P\<rparr>)"
    using assms by (simp add: virtio_wait_def kmonad)
  have 4: "virtio_finish 0 (s\<lparr>mach := taken Vdisk_lock (settle ?m), procs := ?P\<rparr>) = Inr ((), s\<lparr>info_b := (info_b s)(0 := None),
     v_desc := (v_desc s)(0 := zero_desc, 1 := zero_desc, 2 := zero_desc),
     v_free := (v_free s)(0 := True, 1 := True, 2 := True),
     procs := woken Chan_disk_free (Some p) 64 ?P, mach := set_cur (Some p) (settle (mach s))\<rparr>)"
    by (subst virtio_finish_eq [of _ "settle ?m"]) (use assms in auto)
  show ?thesis using 1 2 3 4 by (simp add: kmonad)
qed

section \<open>Property\<close>

text \<open>C14: \<^verbatim>\<open>virtio_disk_rw\<close> does what the buffer cache takes it to do.  On an idle disk, with a device that keeps the
  virtio specification, a process posts a request in three descriptors, sleeps, is switched away, is woken by the
  interrupt and scheduled, and frees the descriptors; then the memory, the disk, its write history and the
  buffers are as the one-step transfer \<open>disk_rw\<close> leaves them, the rest of the kernel's state is unchanged,
  the process runs with every spinlock free, and the disk is idle again.  The block number is below \<open>2 ^ 31\<close>,
  because the sector number is computed in 32 bits.\<close>

theorem virtio_disk_rw_refines:
  fixes s :: "'a vdisk_scheme"
  assumes "blk_device dev" "vdisk_idle s" "runs p s" "p < 64" "noff (mycpu (mach s)) = 0"
    "\<not> b_disk (bufs s b)" "b_blockno (bufs s b) < 0x80000000"
  shows "\<exists>s' t. virtio_cycle dev p b wr s = Inr ((), s') \<and> disk_rw b wr s = Inr ((), t) \<and>
    ram s' = ram t \<and> disk s' = disk t \<and> dtrace s' = dtrace t \<and> bufs s' = bufs t \<and> sls s' = sls t \<and>
    vdisk.more s' = vdisk.more t \<and> vdisk_idle s' \<and> runs p s' \<and> pstate (procs s' p) = RUNNING"
proof -
  let ?n = "b_blockno (bufs s b)" and ?c = "Chan_buf b"
  define t where "t = (posted b wr s)\<lparr>mach := set_cur None (settle (mach s)), procs := off p ?c (procs s)\<rparr>"
  define u where "u = completed 0 (transferred wr ?n (bdata s b) t)"
  define w where "w = u\<lparr>procs := woken ?c None 64 (procs t), bufs := (bufs t)(b := (bufs t b)\<lparr>b_disk := False\<rparr>),
     used_idx := used_idx s + 1, v_wr := v_wr t @ [(0x64, 1)]\<rparr>"
  have i: "\<forall>i < 8. v_free s i" "uring_idx s = avail_idx s" "used_idx s = avail_idx s" using assms(2) by (simp_all add: vdisk_idle_def)
  have r: "cur s = Some p" "irq_ok (mach s)" "\<forall>l. lk_free (mach s) l" using assms(3) by (simp_all add: runs_def)
  have b: "bufs w = bufs s" using assms(6) by (cases "bufs s b") (auto simp: w_def t_def)
  have d: "v_desc w = v_desc (posted b wr s)" "v_free w = v_free (posted b wr s)" "mach w = set_cur None (settle (mach s))"
    "procs w = woken ?c None 64 (off p ?c (procs s))" "uring_idx w = avail_idx s + 1" "used_idx w = avail_idx s + 1"
    "avail_idx w = avail_idx s + 1" "sls w = sls s" "vdisk.more w = vdisk.more s"
    using i by (simp_all add: w_def u_def t_def completed_def)
  have same: "ram w = ram (transferred wr ?n (bdata s b) s)" "disk w = disk (transferred wr ?n (bdata s b) s)"
      "dtrace w = dtrace (transferred wr ?n (bdata s b) s)"
    using transferred_same [of t s wr ?n "bdata s b"] by (simp_all add: w_def u_def completed_def) (simp_all add: t_def)
  have n: "noff (mycpu (settle (mach s))) = 0" using assms(5) by (simp add: mycpu_def cpuid_def)
  have ready: "pstate (procs w p) = RUNNABLE" using assms(4) by (simp add: d woken_def off_def)
  have "virtio_cycle dev p b wr s =
      kseq (scheduler_out p) (kseq (sleep_in p Vdisk_lock (sie (mach s))) (kseq (virtio_wait b) (virtio_finish 0))) w"
    unfolding w_def u_def t_def by (rule virtio_served) (use assms in auto)
  also have "sie (mach s) = sie (mach w)" by (simp add: d)
  also note virtio_resumes [of w p b]
  finally have "virtio_cycle dev p b wr s = Inr ((), w\<lparr>info_b := (info_b w)(0 := None),
     v_desc := (v_desc w)(0 := zero_desc, 1 := zero_desc, 2 := zero_desc),
     v_free := (v_free w)(0 := True, 1 := True, 2 := True),
     procs := woken Chan_disk_free (Some p) 64 ((procs w)(p := (procs w p)\<lparr>pstate := RUNNING, pchan := None\<rparr>)),
     mach := set_cur (Some p) (settle (mach w))\<rparr>)"
    using r ready b assms n by (cases wr) (simp_all add: d posted_def)
  then show ?thesis
    using i r by (auto simp: disk_rw_transfers same b d vdisk_idle_def runs_def woken_def)
qed


text \<open>A device as the specification has it: it reads the request from the descriptors and the header.\<close>

definition dev0 :: "'a vdisk_scheme \<Rightarrow> 'a vdisk_scheme" where
  "dev0 s =
     (let h = unat (avail_ring s (unat (uring_idx s mod 8))); q = v_ops s h; d1 = v_desc s (unat (d_next (v_desc s h)))
      in completed h (transferred (q_type q = 1) (ucast (q_sector q div 2)) (d_addr d1) s))"

lemma block_of_sector: "(ucast ((ucast (n :: uint32) * 2 :: uint64) div 2) :: uint32) = n"
proof -
  have u: "uint n < 0x100000000" using uint_bounded [of n] by simp
  then have "uint (ucast n * 2 :: uint64) = uint n * 2"
    by (simp add: uint_word_ariths unsigned_ucast_eq take_bit_eq_mod)
  then show ?thesis
    using u by (simp add: word_uint_eq_iff unsigned_ucast_eq uint_div take_bit_eq_mod)
qed

lemma dev0_device: "blk_device dev0"
  by (auto simp: blk_device_def blk_request_def dev0_def Let_def block_of_sector)

theorem virtio_disk_rw_refines_witness:
  "\<exists>s' t. virtio_cycle dev0 0 3 True (xlog0 {} blank_disk 0 ()) = Inr ((), s') \<and>
    disk_rw 3 True (xlog0 {} blank_disk 0 ()) = Inr ((), t) \<and> disk s' = disk t \<and> vdisk_idle s'"
proof -
  let ?s = "xlog0 {} blank_disk 0 ()"
  have "vdisk_idle ?s" "noff (mycpu (mach ?s)) = 0" "\<not> b_disk (bufs ?s 3)" "b_blockno (bufs ?s 3) < 0x80000000"
    by (simp_all add: vdisk_idle_def xlog0_def ring_bufs_def machine_defs)
  from virtio_disk_rw_refines [OF dev0_device this(1) xlog0_runs _ this(2-4), of True] show ?thesis by auto
qed

end
