(* ===== verification/Fs.thy ===== *)
theory Fs
  imports Log
begin

text \<open>
  \<^verbatim>\<open>kernel/fs.c\<close>: blocks, inodes, directories and path names.  The table of inodes in memory is part of
  the state; what is on disk is reached through the buffers.  Local variables whose address is taken
  (a directory entry, a name, a path) live on the kernel stack; \<open>lvar_at\<close> gives their addresses.
  A result that C returns as \<^verbatim>\<open>int\<close> or \<^verbatim>\<open>uint\<close> is a 32-bit word.
\<close>

section \<open>State\<close>

record inode =
  i_dev :: uint32
  i_inum :: uint32
  i_ref :: int
  i_valid :: bool
  i_type :: uint16
  i_major :: uint16
  i_minor :: uint16
  i_nlink :: uint16
  i_size :: uint32
  i_addrs :: "nat \<Rightarrow> uint32"

datatype lvar = Lv_de | Lv_name | Lv_path | Lv_old | Lv_new | Lv_stat | Lv_xstate | Lv_char | Lv_elf | Lv_ph | Lv_ustack | Lv_uarg | Lv_fd

record fstab = xlog +
  fs_sb :: superblock
  inodes :: "nat \<Rightarrow> inode"
  lvar_at :: "lvar \<Rightarrow> addr"

abbreviation (input) FSMAGIC :: uint32 where "FSMAGIC \<equiv> 0x10203040"
abbreviation (input) ROOTINO :: uint32 where "ROOTINO \<equiv> 1"
abbreviation (input) NDIRECT :: nat where "NDIRECT \<equiv> 12"
abbreviation (input) NINDIRECT :: nat where "NINDIRECT \<equiv> 256"
abbreviation (input) MAXFILE :: nat where "MAXFILE \<equiv> NDIRECT + NINDIRECT"
abbreviation (input) IPB :: nat where "IPB \<equiv> 16"
abbreviation (input) BPB :: nat where "BPB \<equiv> 8192"
abbreviation (input) DIRSIZ :: nat where "DIRSIZ \<equiv> 14"
abbreviation (input) T_DIR :: uint16 where "T_DIR \<equiv> 1"
abbreviation (input) T_FILE :: uint16 where "T_FILE \<equiv> 2"
abbreviation (input) T_DEVICE :: uint16 where "T_DEVICE \<equiv> 3"

definition IBLOCK :: "uint32 \<Rightarrow> superblock \<Rightarrow> uint32" where
  "IBLOCK i sb = i div 16 + sb_inodestart sb"

definition BBLOCK :: "uint32 \<Rightarrow> superblock \<Rightarrow> uint32" where
  "BBLOCK b sb = b div 8192 + sb_bmapstart sb"

abbreviation geti :: "(inode \<Rightarrow> 'x) \<Rightarrow> nat \<Rightarrow> ('a fstab_scheme, 'x) km" where
  "geti f ip \<equiv> kgets (\<lambda>s. f (inodes s ip))"

abbreviation updi :: "nat \<Rightarrow> (inode \<Rightarrow> inode) \<Rightarrow> ('a fstab_scheme, unit) km" where
  "updi ip f \<equiv> kmod (\<lambda>s. s\<lparr>inodes := (inodes s)(ip := f (inodes s ip))\<rparr>)"

section \<open>The superblock\<close>

definition readsb :: "uint32 \<Rightarrow> ('a fstab_scheme, unit) km" where
  "readsb dev =
     kbind (bread dev 1) (\<lambda>bp.
     kseq (kmod (\<lambda>s. let a = bdata s bp; m = ram s in s\<lparr>fs_sb :=
             \<lparr>sb_magic = ld32 m a, sb_size = ld32 m (a + 4), sb_nblocks = ld32 m (a + 8), sb_ninodes = ld32 m (a + 12),
              sb_nlog = ld32 m (a + 16), sb_logstart = ld32 m (a + 20), sb_inodestart = ld32 m (a + 24), sb_bmapstart = ld32 m (a + 28)\<rparr>\<rparr>))
          (brelse bp))"

definition fsinit :: "uint32 \<Rightarrow> ('a fstab_scheme, unit) km" where
  "fsinit dev =
     kseq (readsb dev)
    (kbind (kgets fs_sb) (\<lambda>sb.
     if sb_magic sb \<noteq> FSMAGIC then kpanic ''invalid file system''
     else initlog dev sb))"

section \<open>Blocks\<close>

definition bzero :: "uint32 \<Rightarrow> uint32 \<Rightarrow> ('a fstab_scheme, unit) km" where
  "bzero dev bno =
     kbind (bread dev bno) (\<lambda>bp.
     kseq (kmod (\<lambda>s. s\<lparr>ram := memset (ram s) (bdata s bp) 0 1024\<rparr>))
    (kseq (log_write bp)
          (brelse bp)))"

text \<open>The inner loop of \<^verbatim>\<open>balloc\<close>, for bit \<open>bi\<close> of the bitmap block that starts at block \<open>b\<close>.\<close>

definition balloc_bit :: "uint32 \<Rightarrow> nat \<Rightarrow> nat \<Rightarrow> nat \<Rightarrow> ('a fstab_scheme, uint32 option) km" where
  "balloc_bit dev b bp bi =
     kbind (kgets (\<lambda>s. ram s (bdata s bp + of_nat (bi div 8)))) (\<lambda>x.
     let m = push_bit (bi mod 8) 1 in
     if x AND m = 0
     then kseq (kmod (\<lambda>s. let a = bdata s bp + of_nat (bi div 8) in s\<lparr>ram := (ram s)(a := ram s a OR m)\<rparr>))
         (kseq (log_write bp)
         (kseq (brelse bp)
         (kseq (bzero dev (of_nat (b + bi)))
               (kret (Some (of_nat (b + bi)))))))
     else kret None)"

definition balloc_block :: "uint32 \<Rightarrow> nat \<Rightarrow> ('a fstab_scheme, uint32 option) km" where
  "balloc_block dev b =
     kbind (kgets fs_sb) (\<lambda>sb.
     kbind (bread dev (BBLOCK (of_nat b) sb)) (\<lambda>bp.
     kbind (kscan [0..<min BPB (unat (sb_size sb) - b)] (balloc_bit dev b bp)) (\<lambda>r.
     case r of
       Some x \<Rightarrow> kret (Some x)
     | None \<Rightarrow> kseq (brelse bp) (kret None))))"

definition balloc :: "uint32 \<Rightarrow> ('a fstab_scheme, uint32) km" where
  "balloc dev =
     kbind (kgets fs_sb) (\<lambda>sb.
     kbind (kscan (map (\<lambda>k. BPB * k) [0..<(unat (sb_size sb) + BPB - 1) div BPB]) (balloc_block dev)) (\<lambda>r.
     case r of
       Some x \<Rightarrow> kret x
     | None \<Rightarrow> kpanic ''balloc: out of blocks''))"

definition bfree :: "uint32 \<Rightarrow> uint32 \<Rightarrow> ('a fstab_scheme, unit) km" where
  "bfree dev b =
     kbind (kgets fs_sb) (\<lambda>sb.
     kbind (bread dev (BBLOCK b sb)) (\<lambda>bp.
     let bi = unat (b mod 8192); m = push_bit (bi mod 8) 1 in
     kbind (kgets (\<lambda>s. ram s (bdata s bp + of_nat (bi div 8)))) (\<lambda>x.
     if x AND m = 0 then kpanic ''freeing free block''
     else kseq (kmod (\<lambda>s. let a = bdata s bp + of_nat (bi div 8) in s\<lparr>ram := (ram s)(a := ram s a AND NOT m)\<rparr>))
         (kseq (log_write bp)
               (brelse bp)))))"

section \<open>Inodes\<close>

definition iinit :: "('a fstab_scheme, unit) km" where
  "iinit =
     kseq (on_mach (initlock Itable_lock ''itable''))
          (kfor [0..<NINODE] (\<lambda>i. initsleeplock (Inode_sl i) ''inode''))"

text \<open>The search of \<^verbatim>\<open>iget\<close>; \<open>Inl\<close> is the entry found, \<open>Inr\<close> the first empty one.\<close>

primrec iget_scan :: "uint32 \<Rightarrow> uint32 \<Rightarrow> nat list \<Rightarrow> nat option \<Rightarrow> ('a fstab_scheme, nat + nat option) km" where
  "iget_scan dev inum [] e = kret (Inr e)"
| "iget_scan dev inum (ip # ips) e =
     kbind (kgets (\<lambda>s. inodes s ip)) (\<lambda>x.
     if i_ref x > 0 \<and> i_dev x = dev \<and> i_inum x = inum
     then kseq (updi ip (\<lambda>x. x\<lparr>i_ref := i_ref x + 1\<rparr>))
         (kseq (unlock_k Itable_lock)
               (kret (Inl ip)))
     else iget_scan dev inum ips (if e = None \<and> i_ref x = 0 then Some ip else e))"

definition iget :: "uint32 \<Rightarrow> uint32 \<Rightarrow> ('a fstab_scheme, nat) km" where
  "iget dev inum =
     kseq (lock_k Itable_lock)
    (kbind (iget_scan dev inum [0..<NINODE] None) (\<lambda>r.
     case r of
       Inl ip \<Rightarrow> kret ip
     | Inr None \<Rightarrow> kpanic ''iget: no inodes''
     | Inr (Some ip) \<Rightarrow>
         kseq (updi ip (\<lambda>x. x\<lparr>i_dev := dev, i_inum := inum, i_ref := 1, i_valid := False\<rparr>))
        (kseq (unlock_k Itable_lock)
              (kret ip))))"

text \<open>The address of inode \<open>inum\<close> in the data of its block: \<^verbatim>\<open>(struct dinode*)bp->data + inum%IPB\<close>.\<close>

definition dip_at :: "'a bcache_scheme \<Rightarrow> nat \<Rightarrow> uint32 \<Rightarrow> addr" where
  "dip_at s bp inum = bdata s bp + 64 * of_nat (unat inum mod IPB)"

definition ialloc_try :: "uint32 \<Rightarrow> uint16 \<Rightarrow> nat \<Rightarrow> ('a fstab_scheme, nat option) km" where
  "ialloc_try dev type n =
     kbind (kgets fs_sb) (\<lambda>sb.
     kbind (bread dev (IBLOCK (of_nat n) sb)) (\<lambda>bp.
     kbind (kgets (\<lambda>s. dip_at s bp (of_nat n))) (\<lambda>dip.
     kbind (kgets (\<lambda>s. ld16 (ram s) dip)) (\<lambda>t.
     if t = 0
     then kseq (upd_ram (\<lambda>m. memset m dip 0 64))
         (kseq (upd_ram (\<lambda>m. st16 m dip type))
         (kseq (log_write bp)
         (kseq (brelse bp)
         (kbind (iget dev (of_nat n)) (\<lambda>ip. kret (Some ip))))))
     else kseq (brelse bp) (kret None)))))"

definition ialloc :: "uint32 \<Rightarrow> uint16 \<Rightarrow> ('a fstab_scheme, nat) km" where
  "ialloc dev type =
     kbind (kgets fs_sb) (\<lambda>sb.
     kbind (kscan [1..<unat (sb_ninodes sb)] (ialloc_try dev type)) (\<lambda>r.
     case r of
       Some ip \<Rightarrow> kret ip
     | None \<Rightarrow> kpanic ''ialloc: no inodes''))"

definition iupdate :: "nat \<Rightarrow> ('a fstab_scheme, unit) km" where
  "iupdate ip =
     kbind (kgets (\<lambda>s. inodes s ip)) (\<lambda>x.
     kbind (kgets fs_sb) (\<lambda>sb.
     kbind (bread (i_dev x) (IBLOCK (i_inum x) sb)) (\<lambda>bp.
     kbind (kgets (\<lambda>s. dip_at s bp (i_inum x))) (\<lambda>dip.
     kseq (upd_ram (\<lambda>m. st16 m dip (i_type x)))
    (kseq (upd_ram (\<lambda>m. st16 m (dip + 2) (i_major x)))
    (kseq (upd_ram (\<lambda>m. st16 m (dip + 4) (i_minor x)))
    (kseq (upd_ram (\<lambda>m. st16 m (dip + 6) (i_nlink x)))
    (kseq (upd_ram (\<lambda>m. st32 m (dip + 8) (i_size x)))
    (kseq (kfor [0..<NDIRECT + 1] (\<lambda>i. upd_ram (\<lambda>m. st32 m (dip + of_nat (12 + 4 * i)) (i_addrs x i))))
    (kseq (log_write bp)
          (brelse bp)))))))))))"

definition idup :: "nat \<Rightarrow> ('a fstab_scheme, nat) km" where
  "idup ip =
     kseq (lock_k Itable_lock)
    (kseq (updi ip (\<lambda>x. x\<lparr>i_ref := i_ref x + 1\<rparr>))
    (kseq (unlock_k Itable_lock)
          (kret ip)))"

definition ilock_read :: "nat \<Rightarrow> ('a fstab_scheme, unit) km" where
  "ilock_read ip =
     kbind (kgets (\<lambda>s. inodes s ip)) (\<lambda>x.
     kbind (kgets fs_sb) (\<lambda>sb.
     kbind (bread (i_dev x) (IBLOCK (i_inum x) sb)) (\<lambda>bp.
     kbind (kgets (\<lambda>s. dip_at s bp (i_inum x))) (\<lambda>dip.
     kseq (kmod (\<lambda>s. let m = ram s in s\<lparr>inodes := (inodes s)(ip := (inodes s ip)
             \<lparr>i_type := ld16 m dip, i_major := ld16 m (dip + 2), i_minor := ld16 m (dip + 4), i_nlink := ld16 m (dip + 6),
              i_size := ld32 m (dip + 8), i_addrs := (\<lambda>i. if i < NDIRECT + 1 then ld32 m (dip + of_nat (12 + 4 * i)) else i_addrs (inodes s ip) i)\<rparr>)\<rparr>))
    (kseq (brelse bp)
    (kseq (updi ip (\<lambda>x. x\<lparr>i_valid := True\<rparr>))
    (kbind (geti i_type ip) (\<lambda>t.
     if t = 0 then kpanic ''ilock: no type'' else kret ()))))))))"

definition ilock :: "nat option \<Rightarrow> ('a fstab_scheme, unit) km" where
  "ilock ip0 =
     (case ip0 of
        None \<Rightarrow> kpanic ''ilock''
      | Some ip \<Rightarrow>
          kbind (geti i_ref ip) (\<lambda>r.
          if r < 1 then kpanic ''ilock''
          else kseq (acquiresleep (Inode_sl ip))
              (kbind (geti i_valid ip) (\<lambda>v.
               kwhen (\<not> v) (ilock_read ip)))))"

definition iunlock :: "nat option \<Rightarrow> ('a fstab_scheme, unit) km" where
  "iunlock ip0 =
     (case ip0 of
        None \<Rightarrow> kpanic ''iunlock''
      | Some ip \<Rightarrow>
          kbind (holdingsleep (Inode_sl ip)) (\<lambda>h.
          if \<not> h then kpanic ''iunlock''
          else kbind (geti i_ref ip) (\<lambda>r.
          if r < 1 then kpanic ''iunlock''
          else releasesleep (Inode_sl ip))))"

section \<open>Contents\<close>

definition bmap :: "nat \<Rightarrow> nat \<Rightarrow> ('a fstab_scheme, uint32) km" where
  "bmap ip bn =
     kbind (kgets (\<lambda>s. inodes s ip)) (\<lambda>x.
     if bn < NDIRECT then
       if i_addrs x bn = 0
       then kbind (balloc (i_dev x)) (\<lambda>addr.
            kseq (updi ip (\<lambda>x. x\<lparr>i_addrs := (i_addrs x)(bn := addr)\<rparr>))
                 (kret addr))
       else kret (i_addrs x bn)
     else if bn - NDIRECT < NINDIRECT then
       kbind (if i_addrs x NDIRECT = 0
              then kbind (balloc (i_dev x)) (\<lambda>addr.
                   kseq (updi ip (\<lambda>x. x\<lparr>i_addrs := (i_addrs x)(NDIRECT := addr)\<rparr>))
                        (kret addr))
              else kret (i_addrs x NDIRECT)) (\<lambda>addr.
       kbind (bread (i_dev x) addr) (\<lambda>bp.
       kbind (kgets (\<lambda>s. bdata s bp + of_nat (4 * (bn - NDIRECT)))) (\<lambda>a.
       kbind (kgets (\<lambda>s. ld32 (ram s) a)) (\<lambda>addr.
       kbind (if addr = 0
              then kbind (balloc (i_dev x)) (\<lambda>addr.
                   kseq (upd_ram (\<lambda>m. st32 m a addr))
                  (kseq (log_write bp)
                        (kret addr)))
              else kret addr) (\<lambda>addr.
       kseq (brelse bp)
            (kret addr))))))
     else kpanic ''bmap: out of range'')"

definition itrunc_direct :: "nat \<Rightarrow> nat \<Rightarrow> ('a fstab_scheme, unit) km" where
  "itrunc_direct ip i =
     kbind (kgets (\<lambda>s. inodes s ip)) (\<lambda>x.
     kwhen (i_addrs x i \<noteq> 0)
       (kseq (bfree (i_dev x) (i_addrs x i))
             (updi ip (\<lambda>x. x\<lparr>i_addrs := (i_addrs x)(i := 0)\<rparr>))))"

definition itrunc :: "nat \<Rightarrow> ('a fstab_scheme, unit) km" where
  "itrunc ip =
     kseq (kfor [0..<NDIRECT] (itrunc_direct ip))
    (kbind (kgets (\<lambda>s. inodes s ip)) (\<lambda>x.
     kseq (kwhen (i_addrs x NDIRECT \<noteq> 0)
             (kbind (bread (i_dev x) (i_addrs x NDIRECT)) (\<lambda>bp.
              kseq (kfor [0..<NINDIRECT] (\<lambda>j.
                      kbind (kgets (\<lambda>s. ld32 (ram s) (bdata s bp + of_nat (4 * j)))) (\<lambda>a.
                      kwhen (a \<noteq> 0) (bfree (i_dev x) a))))
             (kseq (brelse bp)
             (kseq (bfree (i_dev x) (i_addrs x NDIRECT))
                   (updi ip (\<lambda>x. x\<lparr>i_addrs := (i_addrs x)(NDIRECT := 0)\<rparr>)))))))
    (kseq (updi ip (\<lambda>x. x\<lparr>i_size := 0\<rparr>))
          (iupdate ip))))"

definition iput :: "nat \<Rightarrow> ('a fstab_scheme, unit) km" where
  "iput ip =
     kseq (lock_k Itable_lock)
    (kbind (kgets (\<lambda>s. inodes s ip)) (\<lambda>x.
     kseq (kwhen (i_ref x = 1 \<and> i_valid x \<and> i_nlink x = 0)
             (kseq (acquiresleep (Inode_sl ip))
             (kseq (unlock_k Itable_lock)
             (kseq (itrunc ip)
             (kseq (updi ip (\<lambda>x. x\<lparr>i_type := 0\<rparr>))
             (kseq (iupdate ip)
             (kseq (updi ip (\<lambda>x. x\<lparr>i_valid := False\<rparr>))
             (kseq (releasesleep (Inode_sl ip))
                   (lock_k Itable_lock)))))))))
    (kseq (updi ip (\<lambda>x. x\<lparr>i_ref := i_ref x - 1\<rparr>))
          (unlock_k Itable_lock))))"

definition iunlockput :: "nat \<Rightarrow> ('a fstab_scheme, unit) km" where
  "iunlockput ip = kseq (iunlock (Some ip)) (iput ip)"

record kstat =
  st_dev :: uint32
  st_ino :: uint32
  st_type :: uint16
  st_nlink :: uint16
  st_size :: uint64

definition stati :: "nat \<Rightarrow> ('a fstab_scheme, kstat) km" where
  "stati ip = kgets (\<lambda>s. let x = inodes s ip in
     \<lparr>st_dev = i_dev x, st_ino = i_inum x, st_type = i_type x, st_nlink = i_nlink x, st_size = ucast (i_size x)\<rparr>)"

text \<open>The loops of \<^verbatim>\<open>readi\<close> and \<^verbatim>\<open>writei\<close> move at least one byte in each turn: \<open>n + 1\<close> turns are enough.\<close>

primrec readi_loop :: "nat \<Rightarrow> nat \<Rightarrow> bool \<Rightarrow> uint64 \<Rightarrow> uint32 \<Rightarrow> uint32 \<Rightarrow> uint32 \<Rightarrow> ('a fstab_scheme, uint32) km" where
  "readi_loop 0 ip user_dst dst off n tot = kfail Out_of_fuel"
| "readi_loop (Suc k) ip user_dst dst off n tot =
     (if tot < n then
        kbind (bmap ip (unat off div BSIZE)) (\<lambda>bn.
        kbind (geti i_dev ip) (\<lambda>dev.
        kbind (bread dev bn) (\<lambda>bp.
        let m = min (n - tot) (1024 - off mod 1024) in
        kbind (kgets (\<lambda>s. bdata s bp + of_nat (unat off mod BSIZE))) (\<lambda>a.
        kbind (either_copyout user_dst dst a (ucast m)) (\<lambda>r.
        kseq (brelse bp)
             (if r = - 1 then kret (- 1)
              else readi_loop k ip user_dst (dst + ucast m) (off + m) n (tot + m)))))))
      else kret tot)"

definition readi :: "nat \<Rightarrow> bool \<Rightarrow> uint64 \<Rightarrow> uint32 \<Rightarrow> uint32 \<Rightarrow> ('a fstab_scheme, uint32) km" where
  "readi ip user_dst dst off n =
     kbind (geti i_size ip) (\<lambda>size.
     if off > size \<or> off + n < off then kret 0
     else let n = (if off + n > size then size - off else n) in
          readi_loop (Suc (unat n)) ip user_dst dst off n 0)"

primrec writei_loop :: "nat \<Rightarrow> nat \<Rightarrow> bool \<Rightarrow> uint64 \<Rightarrow> uint32 \<Rightarrow> uint32 \<Rightarrow> uint32 \<Rightarrow> ('a fstab_scheme, uint32 \<times> uint32) km" where
  "writei_loop 0 ip user_src src off n tot = kfail Out_of_fuel"
| "writei_loop (Suc k) ip user_src src off n tot =
     (if tot < n then
        kbind (bmap ip (unat off div BSIZE)) (\<lambda>bn.
        kbind (geti i_dev ip) (\<lambda>dev.
        kbind (bread dev bn) (\<lambda>bp.
        let m = min (n - tot) (1024 - off mod 1024) in
        kbind (kgets (\<lambda>s. bdata s bp + of_nat (unat off mod BSIZE))) (\<lambda>a.
        kbind (either_copyin a user_src src (ucast m)) (\<lambda>r.
        if r = - 1 then kseq (brelse bp) (kret (tot, off))
        else kseq (log_write bp)
            (kseq (brelse bp)
                  (writei_loop k ip user_src (src + ucast m) (off + m) n (tot + m))))))))
      else kret (tot, off))"

definition writei :: "nat \<Rightarrow> bool \<Rightarrow> uint64 \<Rightarrow> uint32 \<Rightarrow> uint32 \<Rightarrow> ('a fstab_scheme, uint32) km" where
  "writei ip user_src src off n =
     kbind (geti i_size ip) (\<lambda>size.
     if off > size \<or> off + n < off then kret (- 1)
     else if unat (off + n) > MAXFILE * BSIZE then kret (- 1)
     else kbind (writei_loop (Suc (unat n)) ip user_src src off n 0) (\<lambda>(tot, off).
          kbind (geti i_size ip) (\<lambda>size.
          kseq (kwhen (off > size) (updi ip (\<lambda>x. x\<lparr>i_size := off\<rparr>)))
         (kseq (iupdate ip)
               (kret tot)))))"

section \<open>Directories\<close>

definition namecmp :: "ram \<Rightarrow> addr \<Rightarrow> addr \<Rightarrow> int" where
  "namecmp m s t = strncmp m s t 14"

text \<open>One turn of the search of \<^verbatim>\<open>dirlookup\<close>, at offset \<open>off\<close>; a found entry and its offset.\<close>

definition dirlookup_at :: "nat \<Rightarrow> addr \<Rightarrow> nat \<Rightarrow> ('a fstab_scheme, (nat \<times> uint32) option) km" where
  "dirlookup_at dp name off =
     kbind (kgets (\<lambda>s. lvar_at s Lv_de)) (\<lambda>de.
     kbind (readi dp False de (of_nat off) 16) (\<lambda>r.
     if r \<noteq> 16 then kpanic ''dirlookup read''
     else kbind (kgets (\<lambda>s. ld16 (ram s) de)) (\<lambda>inum.
     if inum = 0 then kret None
     else kbind (kgets (\<lambda>s. namecmp (ram s) name (de + 2))) (\<lambda>c.
     if c = 0
     then kbind (geti i_dev dp) (\<lambda>dev. kbind (iget dev (ucast inum)) (\<lambda>ip. kret (Some (ip, of_nat off))))
     else kret None))))"

text \<open>The result is the inode and what \<^verbatim>\<open>*poff\<close> receives.\<close>

definition dirlookup :: "nat \<Rightarrow> addr \<Rightarrow> ('a fstab_scheme, (nat \<times> uint32) option) km" where
  "dirlookup dp name =
     kbind (geti i_type dp) (\<lambda>t.
     if t \<noteq> T_DIR then kpanic ''dirlookup not DIR''
     else kbind (geti i_size dp) (\<lambda>size.
     kscan (map (\<lambda>k. 16 * k) [0..<(unat size + 15) div 16]) (dirlookup_at dp name)))"

definition dirlink_at :: "nat \<Rightarrow> nat \<Rightarrow> ('a fstab_scheme, nat option) km" where
  "dirlink_at dp off =
     kbind (kgets (\<lambda>s. lvar_at s Lv_de)) (\<lambda>de.
     kbind (readi dp False de (of_nat off) 16) (\<lambda>r.
     if r \<noteq> 16 then kpanic ''dirlink read''
     else kbind (kgets (\<lambda>s. ld16 (ram s) de)) (\<lambda>inum.
     kret (if inum = 0 then Some off else None))))"

definition dirlink :: "nat \<Rightarrow> addr \<Rightarrow> uint32 \<Rightarrow> ('a fstab_scheme, int) km" where
  "dirlink dp name inum =
     kbind (dirlookup dp name) (\<lambda>r.
     case r of
       Some (ip, _) \<Rightarrow> kseq (iput ip) (kret (- 1))
     | None \<Rightarrow>
         kbind (geti i_size dp) (\<lambda>size.
         kbind (kscan (map (\<lambda>k. 16 * k) [0..<(unat size + 15) div 16]) (dirlink_at dp)) (\<lambda>r.
         let off = (case r of Some off \<Rightarrow> off | None \<Rightarrow> 16 * ((unat size + 15) div 16)) in
         kbind (kgets (\<lambda>s. lvar_at s Lv_de)) (\<lambda>de.
         kseq (upd_ram (\<lambda>m. strncpy m (de + 2) name 14))
        (kseq (upd_ram (\<lambda>m. st16 m de (ucast inum)))
        (kbind (writei dp False de (of_nat off) 16) (\<lambda>w.
         if w \<noteq> 16 then kpanic ''dirlink'' else kret 0)))))))"

section \<open>Paths\<close>

text \<open>A path is a C string in an array of \<^verbatim>\<open>MAXPATH\<close> bytes: no scan of it is longer.\<close>

primrec skip_while :: "(uint8 \<Rightarrow> bool) \<Rightarrow> ram \<Rightarrow> nat \<Rightarrow> addr \<Rightarrow> addr" where
  "skip_while c m 0 p = p"
| "skip_while c m (Suc k) p = (if c (m p) then skip_while c m k (p + 1) else p)"

abbreviation (input) slash :: uint8 where "slash \<equiv> 47"

definition skipelem :: "addr \<Rightarrow> addr \<Rightarrow> ram \<Rightarrow> addr option \<times> ram" where
  "skipelem pth name m =
     (let pth = skip_while (\<lambda>c. c = slash) m MAXPATH pth in
      if m pth = 0 then (None, m)
      else let s = pth;
               pth = skip_while (\<lambda>c. c \<noteq> slash \<and> c \<noteq> 0) m MAXPATH pth;
               len = pth - s;
               m' = (if len \<ge> 14 then memmove m name s 14
                     else (memmove m name s (ucast len))(name + len := 0));
               pth = skip_while (\<lambda>c. c = slash) m' MAXPATH pth
           in (Some pth, m'))"

primrec namex_loop :: "nat \<Rightarrow> bool \<Rightarrow> addr \<Rightarrow> addr \<Rightarrow> nat \<Rightarrow> ('a fstab_scheme, nat option) km" where
  "namex_loop 0 npar name pth ip = kfail Out_of_fuel"
| "namex_loop (Suc k) npar name pth ip =
     kbind (kgets (\<lambda>s. skipelem pth name (ram s))) (\<lambda>(nx, m).
     kseq (upd_ram (\<lambda>_. m))
    (case nx of
       None \<Rightarrow> if npar then kseq (iput ip) (kret None) else kret (Some ip)
     | Some pth \<Rightarrow>
         kseq (ilock (Some ip))
        (kbind (geti i_type ip) (\<lambda>t.
         if t \<noteq> T_DIR then kseq (iunlockput ip) (kret None)
         else kbind (kgets (\<lambda>s. ram s pth)) (\<lambda>c.
         if npar \<and> c = 0 then kseq (iunlock (Some ip)) (kret (Some ip))
         else kbind (dirlookup ip name) (\<lambda>r.
         case r of
           None \<Rightarrow> kseq (iunlockput ip) (kret None)
         | Some (ip', _) \<Rightarrow> kseq (iunlockput ip) (namex_loop k npar name pth ip')))))))"

definition namex :: "addr \<Rightarrow> bool \<Rightarrow> addr \<Rightarrow> ('a fstab_scheme, nat option) km" where
  "namex pth npar name =
     kbind (kgets (\<lambda>s. ram s pth)) (\<lambda>c.
     kbind (if c = slash then iget ROOTDEV ROOTINO
            else kbind curproc (\<lambda>p. kbind (getp cwd p) (\<lambda>d. kbind (deref d) idup))) (\<lambda>ip.
     namex_loop (Suc MAXPATH) npar name pth ip))"

definition namei :: "addr \<Rightarrow> ('a fstab_scheme, nat option) km" where
  "namei pth = kbind (kgets (\<lambda>s. lvar_at s Lv_name)) (namex pth False)"

definition nameiparent :: "addr \<Rightarrow> addr \<Rightarrow> ('a fstab_scheme, nat option) km" where
  "nameiparent pth name = namex pth True name"

end
