(* ===== verification/Uart.thy ===== *)
theory Uart
  imports Fs
begin

text \<open>
  \<^verbatim>\<open>kernel/uart.c\<close> and \<^verbatim>\<open>kernel/printf.c\<close>.  The device is seen through its registers: \<open>u_idle\<close> are the
  next answers of \<^verbatim>\<open>LSR_TX_IDLE\<close> (idle from the end of the list on), \<open>u_rx\<close> the bytes that wait in \<^verbatim>\<open>RHR\<close>,
  and \<open>u_regs\<close> the writes to registers so far.  \<open>sent\<close> are the bytes that \<^verbatim>\<open>THR\<close> received.
\<close>

section \<open>State\<close>

record contab = fstab +
  cons_buf :: "nat \<Rightarrow> uint8"
  cons_r :: uint32
  cons_w :: uint32
  cons_e :: uint32
  uart_tx_buf :: "nat \<Rightarrow> uint8"
  uart_tx_w :: uint64
  uart_tx_r :: uint64
  panicked :: bool
  pr_locking :: bool
  u_idle :: "bool list"
  u_rx :: "uint8 list"
  u_regs :: "(nat \<times> uint8) list"

abbreviation (input) THR :: nat where "THR \<equiv> 0"
abbreviation (input) IER :: nat where "IER \<equiv> 1"
abbreviation (input) FCR :: nat where "FCR \<equiv> 2"
abbreviation (input) LCR :: nat where "LCR \<equiv> 3"
abbreviation (input) UART_TX_BUF_SIZE :: uint64 where "UART_TX_BUF_SIZE \<equiv> 32"

definition WriteReg :: "nat \<Rightarrow> uint8 \<Rightarrow> ('a contab_scheme, unit) km" where
  "WriteReg reg v = kmod (\<lambda>s. s\<lparr>u_regs := u_regs s @ [(reg, v)]\<rparr>)"

text \<open>\<^verbatim>\<open>ReadReg(LSR) & LSR_TX_IDLE\<close> and \<^verbatim>\<open>ReadReg(RHR)\<close> after \<^verbatim>\<open>LSR_RX_READY\<close>.\<close>

definition tx_idle :: "('a contab_scheme, bool) km" where
  "tx_idle = kbind (kgets u_idle) (\<lambda>l. kseq (kmod (\<lambda>s. s\<lparr>u_idle := tl l\<rparr>)) (kret (l = [] \<or> hd l)))"

definition sent :: "'a contab_scheme \<Rightarrow> uint8 list" where
  "sent s = map snd (filter (\<lambda>(r, _). r = THR) (u_regs s))"

section \<open>kernel/uart.c\<close>

definition uartinit :: "('a contab_scheme, unit) km" where
  "uartinit =
     kseq (WriteReg IER 0)
    (kseq (WriteReg LCR 0x80)
    (kseq (WriteReg 0 3)
    (kseq (WriteReg 1 0)
    (kseq (WriteReg LCR 3)
    (kseq (WriteReg FCR 7)
    (kseq (WriteReg IER 3)
          (on_mach (initlock Uart_tx_lock ''uart''))))))))"

text \<open>The loop of \<^verbatim>\<open>uartstart\<close> ends when the buffer is empty, at the latest after \<open>w - r\<close> turns.\<close>

primrec uartstart_loop :: "nat \<Rightarrow> ('a contab_scheme, unit) km" where
  "uartstart_loop 0 = kfail Out_of_fuel"
| "uartstart_loop (Suc k) =
     kbind (kgets (\<lambda>s. uart_tx_w s = uart_tx_r s)) (\<lambda>e.
     if e then kret ()
     else kbind tx_idle (\<lambda>idle.
     if \<not> idle then kret ()
     else kbind (kgets (\<lambda>s. uart_tx_buf s (unat (uart_tx_r s mod UART_TX_BUF_SIZE)))) (\<lambda>c.
     kseq (kmod (\<lambda>s. s\<lparr>uart_tx_r := uart_tx_r s + 1\<rparr>))
    (kseq (wakeup Chan_uart_tx_r)
    (kseq (WriteReg THR c)
          (uartstart_loop k))))))"

definition uartstart :: "('a contab_scheme, unit) km" where
  "uartstart = kbind (kgets (\<lambda>s. unat (uart_tx_w s - uart_tx_r s))) (\<lambda>n. uartstart_loop (Suc n))"

text \<open>A hart that finds \<^verbatim>\<open>panicked\<close> set never returns.\<close>

definition uartputc :: "uint8 \<Rightarrow> ('a contab_scheme, unit) km" where
  "uartputc c =
     kseq (lock_k Uart_tx_lock)
    (kbind (kgets panicked) (\<lambda>p.
     if p then kfail Out_of_fuel
     else kbind (kgets (\<lambda>s. uart_tx_w s = uart_tx_r s + UART_TX_BUF_SIZE)) (\<lambda>full.
     if full then sleep Chan_uart_tx_r Uart_tx_lock
     else kseq (kmod (\<lambda>s. s\<lparr>uart_tx_buf := (uart_tx_buf s)(unat (uart_tx_w s mod UART_TX_BUF_SIZE) := c)\<rparr>))
         (kseq (kmod (\<lambda>s. s\<lparr>uart_tx_w := uart_tx_w s + 1\<rparr>))
         (kseq uartstart
               (unlock_k Uart_tx_lock))))))"

definition uartputc_sync :: "uint8 \<Rightarrow> ('a contab_scheme, unit) km" where
  "uartputc_sync c =
     kseq (on_mach push_off)
    (kbind (kgets panicked) (\<lambda>p.
     if p then kfail Out_of_fuel
     else kseq (kmod (\<lambda>s. s\<lparr>u_idle := tl (dropWhile Not (u_idle s))\<rparr>))
         (kseq (WriteReg THR c)
               (on_mach pop_off))))"

definition uartgetc :: "('a contab_scheme, int) km" where
  "uartgetc =
     kbind (kgets u_rx) (\<lambda>l.
     case l of
       c # cs \<Rightarrow> kseq (kmod (\<lambda>s. s\<lparr>u_rx := cs\<rparr>)) (kret (uint c))
     | [] \<Rightarrow> kret (- 1))"

section \<open>kernel/printf.c\<close>

abbreviation (input) BACKSPACE :: int where "BACKSPACE \<equiv> 0x100"

definition consputc :: "int \<Rightarrow> ('a contab_scheme, unit) km" where
  "consputc c =
     (if c = BACKSPACE
      then kseq (uartputc_sync 8) (kseq (uartputc_sync 32) (uartputc_sync 8))
      else uartputc_sync (of_int c))"

abbreviation cputs :: "string \<Rightarrow> ('a contab_scheme, unit) km" where
  "cputs s \<equiv> kfor s (\<lambda>c. consputc (of_char c))"

text \<open>The \<^verbatim>\<open>do\<close> loop of \<^verbatim>\<open>printint\<close>: the digits, the lowest first.\<close>

definition kdigits :: string where
  "kdigits = ''0123456789abcdef''"

function kint_digits :: "nat \<Rightarrow> nat \<Rightarrow> string" where
  "kint_digits base x = kdigits ! (x mod base) # (if x div base = 0 \<or> base \<le> 1 then [] else kint_digits base (x div base))"
  by pat_completeness auto

termination by (relation "measure snd") (auto intro!: div_less_dividend gr0I)

definition kprintint :: "uint32 \<Rightarrow> nat \<Rightarrow> bool \<Rightarrow> ('a contab_scheme, unit) km" where
  "kprintint xx base sgned =
     (let neg = (sgned \<and> xx <s 0);
          x = (if neg then - xx else xx);
          buf = kint_digits base (unat x) @ (if neg then ''-'' else [])
      in cputs (rev buf))"

definition kprintptr :: "uint64 \<Rightarrow> ('a contab_scheme, unit) km" where
  "kprintptr x =
     kseq (cputs ''0x'')
          (kfor [0..<16] (\<lambda>i. consputc (of_char (kdigits ! unat (drop_bit 60 (push_bit (4 * i) x))))))"

datatype kvarg = Kint uint32 | Kptr uint64 | Kstr "string option"

text \<open>A missing argument, or one of the wrong type, is undefined; the model stops there.\<close>

fun kprintf_loop :: "string \<Rightarrow> kvarg list \<Rightarrow> ('a contab_scheme, unit) km" where
  "kprintf_loop [] ap = kret ()"
| "kprintf_loop [c] ap = (if c \<noteq> CHR ''%'' then consputc (of_char c) else kret ())"
| "kprintf_loop (c # d # fmt) ap =
     (if c \<noteq> CHR ''%'' then kseq (consputc (of_char c)) (kprintf_loop (d # fmt) ap)
      else if d = CHR ''d'' then
        (case ap of Kint v # ap' \<Rightarrow> kseq (kprintint v 10 True) (kprintf_loop fmt ap') | _ \<Rightarrow> kfail Out_of_fuel)
      else if d = CHR ''x'' then
        (case ap of Kint v # ap' \<Rightarrow> kseq (kprintint v 16 True) (kprintf_loop fmt ap') | _ \<Rightarrow> kfail Out_of_fuel)
      else if d = CHR ''p'' then
        (case ap of Kptr v # ap' \<Rightarrow> kseq (kprintptr v) (kprintf_loop fmt ap') | _ \<Rightarrow> kfail Out_of_fuel)
      else if d = CHR ''s'' then
        (case ap of Kstr v # ap' \<Rightarrow>
           kseq (cputs (case v of None \<Rightarrow> ''(null)'' | Some t \<Rightarrow> t)) (kprintf_loop fmt ap') | _ \<Rightarrow> kfail Out_of_fuel)
      else if d = CHR ''%'' then kseq (consputc (of_char d)) (kprintf_loop fmt ap)
      else kseq (consputc (of_char CHR ''%'')) (kseq (consputc (of_char d)) (kprintf_loop fmt ap)))"

definition kprintf :: "string \<Rightarrow> kvarg list \<Rightarrow> ('a contab_scheme, unit) km" where
  "kprintf fmt ap =
     kbind (kgets pr_locking) (\<lambda>locking.
     kseq (kwhen locking (lock_k Pr_lock))
    (kseq (kprintf_loop fmt ap)
          (kwhen locking (unlock_k Pr_lock))))"

text \<open>What \<^verbatim>\<open>panic\<close> does before it stops the hart; it does not return.\<close>

definition panic_msg :: "string \<Rightarrow> ('a contab_scheme, unit) km" where
  "panic_msg m =
     kseq (kmod (\<lambda>s. s\<lparr>pr_locking := False\<rparr>))
    (kseq (kprintf ''panic: '' [])
    (kseq (kprintf m [])
    (kseq (kprintf [CHR 0x0A] [])
          (kmod (\<lambda>s. s\<lparr>panicked := True\<rparr>)))))"

definition printfinit :: "('a contab_scheme, unit) km" where
  "printfinit =
     kseq (on_mach (initlock Pr_lock ''pr''))
          (kmod (\<lambda>s. s\<lparr>pr_locking := True\<rparr>))"

primrec state_name :: "procstate \<Rightarrow> string" where
  "state_name UNUSED = ''unused''"
| "state_name USED = ''???''"
| "state_name SLEEPING = ''sleep ''"
| "state_name RUNNABLE = ''runble''"
| "state_name RUNNING = ''run   ''"
| "state_name ZOMBIE = ''zombie''"

definition procdump :: "('a contab_scheme, unit) km" where
  "procdump =
     kseq (kprintf [CHR 0x0A] [])
          (kfor [0..<NPROC] (\<lambda>p.
             kbind (kgets (\<lambda>s. procs s p)) (\<lambda>x.
             kwhen (pstate x \<noteq> UNUSED)
               (kseq (kprintf ''%d %s %s'' [Kint (word_of_int (pid x)), Kstr (Some (state_name (pstate x))), Kstr (Some (pname x))])
                     (kprintf [CHR 0x0A] [])))))"

section \<open>kernel/console.c\<close>

abbreviation (input) INPUT_BUF :: uint32 where "INPUT_BUF \<equiv> 128"

definition consolewrite :: "bool \<Rightarrow> uint64 \<Rightarrow> uint32 \<Rightarrow> ('a contab_scheme, uint32) km" where
  "consolewrite user_src src n =
     kbind (kscan [0..<nat (sint n)] (\<lambda>i.
              kbind (kgets (\<lambda>s. lvar_at s Lv_char)) (\<lambda>a.
              kbind (either_copyin a user_src (src + of_nat i) 1) (\<lambda>r.
              if r = - 1 then kret (Some i)
              else kbind (kgets (\<lambda>s. ram s a)) (\<lambda>c.
                   kseq (uartputc c) (kret None)))))) (\<lambda>r.
     kret (of_nat (case r of Some i \<Rightarrow> i | None \<Rightarrow> nat (sint n))))"

text \<open>The loop of \<^verbatim>\<open>consoleread\<close>; \<open>k\<close> is the count \<^verbatim>\<open>n\<close> that is left.\<close>

primrec consoleread_loop :: "nat \<Rightarrow> bool \<Rightarrow> uint64 \<Rightarrow> nat \<Rightarrow> ('a contab_scheme, int) km" where
  "consoleread_loop 0 user_dst dst target = kseq (unlock_k Cons_lock) (kret (int target))"
| "consoleread_loop (Suc k) user_dst dst target =
     kbind (kgets (\<lambda>s. cons_r s = cons_w s)) (\<lambda>e.
     if e then
       kbind curproc (\<lambda>p.
       kbind (getp killed p) (\<lambda>kl.
       if kl then kseq (unlock_k Cons_lock) (kret (- 1))
       else sleep Chan_cons_r Cons_lock))
     else kbind (kgets (\<lambda>s. cons_buf s (unat (cons_r s mod INPUT_BUF)))) (\<lambda>c.
     kseq (kmod (\<lambda>s. s\<lparr>cons_r := cons_r s + 1\<rparr>))
    (if c = 4 then
       kseq (kwhen (Suc k < target) (kmod (\<lambda>s. s\<lparr>cons_r := cons_r s - 1\<rparr>)))
      (kseq (unlock_k Cons_lock)
            (kret (int (target - Suc k))))
     else kbind (kgets (\<lambda>s. lvar_at s Lv_char)) (\<lambda>a.
     kseq (upd_ram (\<lambda>m. m(a := c)))
    (kbind (either_copyout user_dst dst a 1) (\<lambda>r.
     if r = - 1 then kseq (unlock_k Cons_lock) (kret (int (target - Suc k)))
     else if c = 10 then kseq (unlock_k Cons_lock) (kret (int (target - k)))
     else consoleread_loop k user_dst (dst + 1) target))))))"

definition consoleread :: "bool \<Rightarrow> uint64 \<Rightarrow> uint32 \<Rightarrow> ('a contab_scheme, int) km" where
  "consoleread user_dst dst n =
     kseq (lock_k Cons_lock)
    (if 0 <s n then consoleread_loop (unat n) user_dst dst (unat n)
     else kseq (unlock_k Cons_lock) (kret 0))"

text \<open>Control-U: at most the \<open>e - w\<close> characters of the line are erased.\<close>

primrec kill_line :: "nat \<Rightarrow> ('a contab_scheme, unit) km" where
  "kill_line 0 = kret ()"
| "kill_line (Suc k) =
     kbind (kgets (\<lambda>s. cons_e s \<noteq> cons_w s \<and> cons_buf s (unat ((cons_e s - 1) mod INPUT_BUF)) \<noteq> 10)) (\<lambda>go.
     kwhen go
       (kseq (kmod (\<lambda>s. s\<lparr>cons_e := cons_e s - 1\<rparr>))
       (kseq (consputc BACKSPACE)
             (kill_line k))))"

definition consoleintr :: "int \<Rightarrow> ('a contab_scheme, unit) km" where
  "consoleintr c =
     kseq (lock_k Cons_lock)
    (kseq
      (if c = 16 then procdump
       else if c = 21 then kbind (kgets (\<lambda>s. unat (cons_e s - cons_w s))) kill_line
       else if c = 8 \<or> c = 127 then
         kbind (kgets (\<lambda>s. cons_e s \<noteq> cons_w s)) (\<lambda>go.
         kwhen go
           (kseq (kmod (\<lambda>s. s\<lparr>cons_e := cons_e s - 1\<rparr>))
                 (consputc BACKSPACE)))
       else
         kbind (kgets (\<lambda>s. cons_e s - cons_r s < INPUT_BUF)) (\<lambda>room.
         kwhen (c \<noteq> 0 \<and> room)
           (let c = (if c = 13 then 10 else c) in
            kseq (consputc c)
           (kseq (kmod (\<lambda>s. s\<lparr>cons_buf := (cons_buf s)(unat (cons_e s mod INPUT_BUF) := of_int c)\<rparr>))
           (kseq (kmod (\<lambda>s. s\<lparr>cons_e := cons_e s + 1\<rparr>))
           (kbind (kgets (\<lambda>s. cons_e s = cons_r s + INPUT_BUF)) (\<lambda>full.
            kwhen (c = 10 \<or> c = 4 \<or> full)
              (kseq (kmod (\<lambda>s. s\<lparr>cons_w := cons_e s\<rparr>))
                    (wakeup Chan_cons_r)))))))))
      (unlock_k Cons_lock))"

text \<open>\<^verbatim>\<open>uartintr\<close> takes every byte that waits.\<close>

primrec uartintr_loop :: "nat \<Rightarrow> ('a contab_scheme, unit) km" where
  "uartintr_loop 0 = kfail Out_of_fuel"
| "uartintr_loop (Suc k) =
     kbind uartgetc (\<lambda>c.
     if c = - 1 then kret ()
     else kseq (consoleintr c) (uartintr_loop k))"

definition uartintr :: "('a contab_scheme, unit) km" where
  "uartintr =
     kseq (kbind (kgets (\<lambda>s. length (u_rx s))) (\<lambda>n. uartintr_loop (Suc n)))
    (kseq (lock_k Uart_tx_lock)
    (kseq uartstart
          (unlock_k Uart_tx_lock)))"

end
