(* ===== verification/File.thy ===== *)
theory File
  imports Uart
begin

text \<open>
  \<^verbatim>\<open>kernel/pipe.c\<close> and \<^verbatim>\<open>kernel/file.c\<close>.  A pipe is a page of memory, with its fields at the offsets of
  \<^verbatim>\<open>struct pipe\<close>; an open file is an entry of the file table.  The only device the sources register in
  \<^verbatim>\<open>devsw\<close> is the console.
\<close>

section \<open>State\<close>

datatype filetype = FD_NONE | FD_PIPE | FD_INODE | FD_DEVICE

datatype devfns = Console_fns

record struct_file =
  f_type :: filetype
  f_ref :: int
  f_readable :: bool
  f_writable :: bool
  f_pipe :: addr
  f_ip :: "nat option"
  f_off :: uint32
  f_major :: uint16

record filetab = contab +
  files :: "nat \<Rightarrow> struct_file"
  devsw :: "nat \<Rightarrow> devfns option"

abbreviation getf :: "(struct_file \<Rightarrow> 'x) \<Rightarrow> nat \<Rightarrow> ('a filetab_scheme, 'x) km" where
  "getf g f \<equiv> kgets (\<lambda>s. g (files s f))"

abbreviation updf :: "nat \<Rightarrow> (struct_file \<Rightarrow> struct_file) \<Rightarrow> ('a filetab_scheme, unit) km" where
  "updf f g \<equiv> kmod (\<lambda>s. s\<lparr>files := (files s)(f := g (files s f))\<rparr>)"

definition consoleinit :: "('a filetab_scheme, unit) km" where
  "consoleinit =
     kseq (on_mach (initlock Cons_lock ''cons''))
    (kseq uartinit
          (kmod (\<lambda>s. s\<lparr>devsw := (devsw s)(1 := Some Console_fns)\<rparr>)))"

section \<open>kernel/pipe.c\<close>

abbreviation (input) PIPESIZE :: uint32 where "PIPESIZE \<equiv> 512"

definition pipe_data :: "addr \<Rightarrow> uint32 \<Rightarrow> addr" where
  "pipe_data pi i = pi + 24 + ucast (i mod PIPESIZE)"

definition nread :: "ram \<Rightarrow> addr \<Rightarrow> uint32" where "nread m pi = ld32 m (pi + 536)"
definition nwrite :: "ram \<Rightarrow> addr \<Rightarrow> uint32" where "nwrite m pi = ld32 m (pi + 540)"
definition readopen :: "ram \<Rightarrow> addr \<Rightarrow> uint32" where "readopen m pi = ld32 m (pi + 544)"
definition writeopen :: "ram \<Rightarrow> addr \<Rightarrow> uint32" where "writeopen m pi = ld32 m (pi + 548)"
definition set_nread :: "addr \<Rightarrow> uint32 \<Rightarrow> ram \<Rightarrow> ram" where "set_nread pi v m = st32 m (pi + 536) v"
definition set_nwrite :: "addr \<Rightarrow> uint32 \<Rightarrow> ram \<Rightarrow> ram" where "set_nwrite pi v m = st32 m (pi + 540) v"
definition set_readopen :: "addr \<Rightarrow> uint32 \<Rightarrow> ram \<Rightarrow> ram" where "set_readopen pi v m = st32 m (pi + 544) v"
definition set_writeopen :: "addr \<Rightarrow> uint32 \<Rightarrow> ram \<Rightarrow> ram" where "set_writeopen pi v m = st32 m (pi + 548) v"

definition pipeclose :: "addr \<Rightarrow> bool \<Rightarrow> ('a ptable_scheme, unit) km" where
  "pipeclose pi writable =
     kseq (lock_k (Pipe_lock pi))
    (kseq (if writable
           then kseq (upd_ram (set_writeopen pi 0)) (wakeup (Chan_pipe_nread pi))
           else kseq (upd_ram (set_readopen pi 0)) (wakeup (Chan_pipe_nwrite pi)))
    (kbind (kgets (\<lambda>s. readopen (ram s) pi = 0 \<and> writeopen (ram s) pi = 0)) (\<lambda>done.
     if done then kseq (unlock_k (Pipe_lock pi)) (kfree pi)
     else unlock_k (Pipe_lock pi))))"

text \<open>The loop of \<^verbatim>\<open>pipewrite\<close>, with \<open>k\<close> bytes left to write from \<^verbatim>\<open>addr + i\<close>; \<open>ch\<close> is the address of the
  local variable.  \<open>Inl\<close> is an early return.\<close>

primrec pipewrite_loop :: "nat \<Rightarrow> addr \<Rightarrow> nat \<Rightarrow> addr \<Rightarrow> uint64 \<Rightarrow> nat \<Rightarrow> ('a ptable_scheme, int + nat) km" where
  "pipewrite_loop 0 pi pr ch addr i = kret (Inr i)"
| "pipewrite_loop (Suc k) pi pr ch addr i =
     kbind (kgets (\<lambda>s. readopen (ram s) pi = 0 \<or> killed (procs s pr))) (\<lambda>stop.
     if stop then kseq (unlock_k (Pipe_lock pi)) (kret (Inl (- 1)))
     else kbind (kgets (\<lambda>s. nwrite (ram s) pi = nread (ram s) pi + PIPESIZE)) (\<lambda>full.
     if full then kseq (wakeup (Chan_pipe_nread pi)) (sleep (Chan_pipe_nwrite pi) (Pipe_lock pi))
     else kbind (getp pagetable pr) (\<lambda>pt.
     kbind (copyin pt ch (addr + of_nat i) 1) (\<lambda>r.
     if r = - 1 then kret (Inr i)
     else kseq (kmod (\<lambda>s. let w = nwrite (ram s) pi in
                   s\<lparr>ram := (set_nwrite pi (w + 1) (ram s))(pipe_data pi w := ram s ch)\<rparr>))
               (pipewrite_loop k pi pr ch addr (Suc i))))))"

definition pipewrite :: "addr \<Rightarrow> addr \<Rightarrow> uint64 \<Rightarrow> uint32 \<Rightarrow> ('a ptable_scheme, int) km" where
  "pipewrite ch pi addr n =
     kbind curproc (\<lambda>pr.
     kseq (lock_k (Pipe_lock pi))
    (kbind (pipewrite_loop (nat (sint n)) pi pr ch addr 0) (\<lambda>r.
     case r of
       Inl e \<Rightarrow> kret e
     | Inr i \<Rightarrow>
         kseq (wakeup (Chan_pipe_nread pi))
        (kseq (unlock_k (Pipe_lock pi))
              (kret (int i))))))"

definition piperead_byte :: "addr \<Rightarrow> nat \<Rightarrow> addr \<Rightarrow> uint64 \<Rightarrow> nat \<Rightarrow> ('a ptable_scheme, nat option) km" where
  "piperead_byte pi pr ch addr i =
     kbind (kgets (\<lambda>s. nread (ram s) pi = nwrite (ram s) pi)) (\<lambda>e.
     if e then kret (Some i)
     else kseq (kmod (\<lambda>s. let r = nread (ram s) pi in
                   s\<lparr>ram := (set_nread pi (r + 1) (ram s))(ch := ram s (pipe_data pi r))\<rparr>))
         (kbind (getp pagetable pr) (\<lambda>pt.
          kbind (copyout pt (addr + of_nat i) ch 1) (\<lambda>r.
          kret (if r = - 1 then Some i else None)))))"

definition piperead :: "addr \<Rightarrow> addr \<Rightarrow> uint64 \<Rightarrow> uint32 \<Rightarrow> ('a ptable_scheme, int) km" where
  "piperead ch pi addr n =
     kbind curproc (\<lambda>pr.
     kseq (lock_k (Pipe_lock pi))
    (kbind (kgets (\<lambda>s. nread (ram s) pi = nwrite (ram s) pi \<and> writeopen (ram s) pi \<noteq> 0)) (\<lambda>wait.
     if wait then
       kbind (getp killed pr) (\<lambda>kl.
       if kl then kseq (unlock_k (Pipe_lock pi)) (kret (- 1))
       else sleep (Chan_pipe_nread pi) (Pipe_lock pi))
     else
       kbind (kscan [0..<nat (sint n)] (piperead_byte pi pr ch addr)) (\<lambda>r.
       kseq (wakeup (Chan_pipe_nwrite pi))
      (kseq (unlock_k (Pipe_lock pi))
            (kret (int (case r of Some i \<Rightarrow> i | None \<Rightarrow> nat (sint n)))))))))"

section \<open>kernel/file.c\<close>

definition fileinit :: "('a filetab_scheme, unit) km" where
  "fileinit = on_mach (initlock Ftable_lock ''ftable'')"

definition filealloc :: "('a filetab_scheme, nat option) km" where
  "filealloc =
     kseq (lock_k Ftable_lock)
    (kbind (kscan [0..<NFILE] (\<lambda>f.
              kbind (getf f_ref f) (\<lambda>r.
              if r = 0
              then kseq (updf f (\<lambda>x. x\<lparr>f_ref := 1\<rparr>))
                  (kseq (unlock_k Ftable_lock)
                        (kret (Some f)))
              else kret None))) (\<lambda>r.
     case r of
       Some f \<Rightarrow> kret (Some f)
     | None \<Rightarrow> kseq (unlock_k Ftable_lock) (kret None)))"

definition filedup :: "nat \<Rightarrow> ('a filetab_scheme, nat) km" where
  "filedup f =
     kseq (lock_k Ftable_lock)
    (kbind (getf f_ref f) (\<lambda>r.
     if r < 1 then kpanic ''filedup''
     else kseq (updf f (\<lambda>x. x\<lparr>f_ref := f_ref x + 1\<rparr>))
         (kseq (unlock_k Ftable_lock)
               (kret f))))"

definition fileclose :: "nat \<Rightarrow> ('a filetab_scheme, unit) km" where
  "fileclose f =
     kseq (lock_k Ftable_lock)
    (kbind (getf f_ref f) (\<lambda>r.
     if r < 1 then kpanic ''fileclose''
     else kseq (updf f (\<lambda>x. x\<lparr>f_ref := f_ref x - 1\<rparr>))
    (if r - 1 > 0 then unlock_k Ftable_lock
     else kbind (kgets (\<lambda>s. files s f)) (\<lambda>ff.
     kseq (updf f (\<lambda>x. x\<lparr>f_ref := 0\<rparr>))
    (kseq (updf f (\<lambda>x. x\<lparr>f_type := FD_NONE\<rparr>))
    (kseq (unlock_k Ftable_lock)
    (if f_type ff = FD_PIPE then pipeclose (f_pipe ff) (f_writable ff)
     else if f_type ff = FD_INODE \<or> f_type ff = FD_DEVICE then
       kseq begin_op
      (kseq (kbind (deref (f_ip ff)) iput)
            end_op)
     else kret ())))))))"

text \<open>\<^verbatim>\<open>pipealloc\<close>: the two ends, or nothing with every step undone.\<close>

definition pipealloc_fill :: "addr \<Rightarrow> nat \<Rightarrow> nat \<Rightarrow> ('a filetab_scheme, unit) km" where
  "pipealloc_fill pi f0 f1 =
     kseq (upd_ram (set_readopen pi 1))
    (kseq (upd_ram (set_writeopen pi 1))
    (kseq (upd_ram (set_nwrite pi 0))
    (kseq (upd_ram (set_nread pi 0))
    (kseq (on_mach (initlock (Pipe_lock pi) ''pipe''))
    (kseq (updf f0 (\<lambda>x. x\<lparr>f_type := FD_PIPE, f_readable := True, f_writable := False, f_pipe := pi\<rparr>))
          (updf f1 (\<lambda>x. x\<lparr>f_type := FD_PIPE, f_readable := False, f_writable := True, f_pipe := pi\<rparr>)))))))"

definition pipealloc :: "('a filetab_scheme, (nat \<times> nat) option) km" where
  "pipealloc =
     kbind filealloc (\<lambda>r0.
     case r0 of
       None \<Rightarrow> kret None
     | Some f0 \<Rightarrow>
         kbind filealloc (\<lambda>r1.
         case r1 of
           None \<Rightarrow> kseq (fileclose f0) (kret None)
         | Some f1 \<Rightarrow>
             kbind kalloc (\<lambda>pi.
             if pi = 0 then kseq (fileclose f0) (kseq (fileclose f1) (kret None))
             else kseq (pipealloc_fill pi f0 f1) (kret (Some (f0, f1))))))"

definition filestat :: "nat \<Rightarrow> uint64 \<Rightarrow> ('a filetab_scheme, int) km" where
  "filestat f addr =
     kbind curproc (\<lambda>p.
     kbind (kgets (\<lambda>s. files s f)) (\<lambda>x.
     if f_type x = FD_INODE \<or> f_type x = FD_DEVICE then
       kseq (ilock (f_ip x))
      (kbind (kbind (deref (f_ip x)) stati) (\<lambda>st.
       kbind (kgets (\<lambda>s. lvar_at s Lv_stat)) (\<lambda>a.
       kseq (upd_ram (\<lambda>m. st64 (st16 (st16 (st32 (st32 m a (st_dev st)) (a + 4) (st_ino st)) (a + 8) (st_type st)) (a + 10) (st_nlink st)) (a + 16) (st_size st)))
      (kseq (iunlock (f_ip x))
      (kbind (getp pagetable p) (\<lambda>pt.
       kbind (copyout pt addr a 24) (\<lambda>r.
       kret (if r < 0 then - 1 else 0))))))))
     else kret (- 1)))"

text \<open>\<^verbatim>\<open>f->major\<close> is a signed \<^verbatim>\<open>short\<close>.\<close>

definition dev_of :: "struct_file \<Rightarrow> 'a filetab_scheme \<Rightarrow> devfns option" where
  "dev_of x s = (if sint (f_major x) < 0 \<or> sint (f_major x) \<ge> int NDEV then None else devsw s (nat (sint (f_major x))))"

definition fileread :: "nat \<Rightarrow> uint64 \<Rightarrow> uint32 \<Rightarrow> ('a filetab_scheme, int) km" where
  "fileread f addr n =
     kbind (kgets (\<lambda>s. files s f)) (\<lambda>x.
     if \<not> f_readable x then kret (- 1)
     else case f_type x of
       FD_PIPE \<Rightarrow> kbind (kgets (\<lambda>s. lvar_at s Lv_char)) (\<lambda>ch. piperead ch (f_pipe x) addr n)
     | FD_DEVICE \<Rightarrow>
         kbind (kgets (dev_of x)) (\<lambda>d.
         case d of
           None \<Rightarrow> kret (- 1)
         | Some Console_fns \<Rightarrow> consoleread True addr n)
     | FD_INODE \<Rightarrow>
         kseq (ilock (f_ip x))
        (kbind (kbind (deref (f_ip x)) (\<lambda>ip. readi ip True addr (f_off x) n)) (\<lambda>r.
         kseq (kwhen (0 <s r) (updf f (\<lambda>x. x\<lparr>f_off := f_off x + r\<rparr>)))
        (kseq (iunlock (f_ip x))
              (kret (sint r)))))
     | FD_NONE \<Rightarrow> kpanic ''fileread'')"

text \<open>The loop of \<^verbatim>\<open>filewrite\<close> writes at most \<open>3072\<close> bytes in one transaction; a turn that does not end
  the loop writes at least one byte.\<close>

primrec filewrite_loop :: "nat \<Rightarrow> nat \<Rightarrow> uint64 \<Rightarrow> uint32 \<Rightarrow> uint32 \<Rightarrow> ('a filetab_scheme, uint32) km" where
  "filewrite_loop 0 f addr n i = kfail Out_of_fuel"
| "filewrite_loop (Suc k) f addr n i =
     (if i <s n then
        let n1 = (if 3072 <s n - i then 3072 else n - i) in
        kseq begin_op
       (kbind (getf f_ip f) (\<lambda>ip0.
        kseq (ilock ip0)
       (kbind (kbind (getf f_off f) (\<lambda>off. kbind (deref ip0) (\<lambda>ip. writei ip True (addr + scast i) off n1))) (\<lambda>r.
        kseq (kwhen (0 <s r) (updf f (\<lambda>x. x\<lparr>f_off := f_off x + r\<rparr>)))
       (kseq (iunlock ip0)
       (kseq end_op
       (if r \<noteq> n1 then kret i
        else filewrite_loop k f addr n (i + r))))))))
      else kret i)"

definition filewrite :: "nat \<Rightarrow> uint64 \<Rightarrow> uint32 \<Rightarrow> ('a filetab_scheme, int) km" where
  "filewrite f addr n =
     kbind (kgets (\<lambda>s. files s f)) (\<lambda>x.
     if \<not> f_writable x then kret (- 1)
     else case f_type x of
       FD_PIPE \<Rightarrow> kbind (kgets (\<lambda>s. lvar_at s Lv_char)) (\<lambda>ch. pipewrite ch (f_pipe x) addr n)
     | FD_DEVICE \<Rightarrow>
         kbind (kgets (dev_of x)) (\<lambda>d.
         case d of
           None \<Rightarrow> kret (- 1)
         | Some Console_fns \<Rightarrow> kbind (consolewrite True addr n) (\<lambda>r. kret (sint r)))
     | FD_INODE \<Rightarrow>
         kbind (filewrite_loop (Suc (unat n)) f addr n 0) (\<lambda>i.
         kret (if i = n then sint n else - 1))
     | FD_NONE \<Rightarrow> kpanic ''filewrite'')"

end
