(* ===== verification/Procs.thy ===== *)
theory Procs
  imports File
begin

text \<open>
  The life of a process: the rest of \<^verbatim>\<open>kernel/proc.c\<close>, and the kernel page table of \<^verbatim>\<open>kernel/vm.c\<close>.
  Addresses that the linker chooses are fields of the state, as are the control registers that the
  trap code uses.
\<close>

section \<open>State\<close>

record ktab = filetab +
  trampoline_at :: addr
  etext_at :: addr
  forkret_at :: addr
  initcode_at :: addr
  root_str_at :: addr
  uservec_at :: addr
  userret_at :: addr
  kernelvec_at :: addr
  usertrap_at :: addr
  kernel_pagetable :: addr
  first :: bool
  ticks :: uint32
  satp :: uint64
  stvec :: uint64
  sepc :: uint64
  scause :: uint64
  stval :: uint64
  sip :: uint64
  spp :: bool
  spie :: bool
  plic_irq :: "nat \<Rightarrow> uint32"
  plic_wr :: "(addr \<times> uint32) list"
  started :: bool

text \<open>Offsets in \<^verbatim>\<open>struct trapframe\<close>.\<close>

abbreviation (input) tf_kernel_satp :: uint64 where "tf_kernel_satp \<equiv> 0"
abbreviation (input) tf_kernel_sp :: uint64 where "tf_kernel_sp \<equiv> 8"
abbreviation (input) tf_kernel_trap :: uint64 where "tf_kernel_trap \<equiv> 16"
abbreviation (input) tf_epc :: uint64 where "tf_epc \<equiv> 24"
abbreviation (input) tf_kernel_hartid :: uint64 where "tf_kernel_hartid \<equiv> 32"
abbreviation (input) tf_sp :: uint64 where "tf_sp \<equiv> 48"
abbreviation (input) tf_a0 :: uint64 where "tf_a0 \<equiv> 112"
abbreviation (input) tf_a1 :: uint64 where "tf_a1 \<equiv> 120"
abbreviation (input) tf_a7 :: uint64 where "tf_a7 \<equiv> 168"

definition set_tf :: "nat \<Rightarrow> uint64 \<Rightarrow> uint64 \<Rightarrow> ('a ptable_scheme, unit) km" where
  "set_tf p off v = kmod (\<lambda>s. s\<lparr>ram := st64 (ram s) (trapframe (procs s p) + off) v\<rparr>)"

definition get_tf :: "nat \<Rightarrow> uint64 \<Rightarrow> ('a ptable_scheme, uint64) km" where
  "get_tf p off = kgets (\<lambda>s. ld64 (ram s) (trapframe (procs s p) + off))"

section \<open>The kernel page table\<close>

definition kvmmap :: "addr \<Rightarrow> uint64 \<Rightarrow> uint64 \<Rightarrow> uint64 \<Rightarrow> uint64 \<Rightarrow> ('a pmem_scheme, unit) km" where
  "kvmmap kpgtbl va pa sz perm =
     kbind (mappages kpgtbl va sz pa perm) (\<lambda>r.
     if r \<noteq> 0 then kpanic ''kvmmap'' else kret ())"

definition proc_mapstacks :: "addr \<Rightarrow> ('a pmem_scheme, unit) km" where
  "proc_mapstacks kpgtbl =
     kfor [0..<NPROC] (\<lambda>p.
       kbind kalloc (\<lambda>pa.
       if pa = 0 then kpanic ''kalloc''
       else kvmmap kpgtbl (KSTACK p) pa PGSIZE (PTE_R OR PTE_W)))"

definition kvmmake :: "('a ktab_scheme, addr) km" where
  "kvmmake =
     kbind kalloc (\<lambda>kpgtbl.
     kbind (kgets etext_at) (\<lambda>etext.
     kbind (kgets trampoline_at) (\<lambda>tramp.
     kseq (upd_ram (\<lambda>m. memset m kpgtbl 0 4096))
    (kseq (kvmmap kpgtbl UART0 UART0 PGSIZE (PTE_R OR PTE_W))
    (kseq (kvmmap kpgtbl VIRTIO0 VIRTIO0 PGSIZE (PTE_R OR PTE_W))
    (kseq (kvmmap kpgtbl PLIC PLIC 0x400000 (PTE_R OR PTE_W))
    (kseq (kvmmap kpgtbl KERNBASE KERNBASE (etext - KERNBASE) (PTE_R OR PTE_X))
    (kseq (kvmmap kpgtbl etext etext (PHYSTOP - etext) (PTE_R OR PTE_W))
    (kseq (kvmmap kpgtbl TRAMPOLINE tramp PGSIZE (PTE_R OR PTE_X))
    (kseq (proc_mapstacks kpgtbl)
          (kret kpgtbl)))))))))))"

definition kvminit :: "('a ktab_scheme, unit) km" where
  "kvminit = kbind kvmmake (\<lambda>pt. kmod (\<lambda>s. s\<lparr>kernel_pagetable := pt\<rparr>))"

definition MAKE_SATP :: "addr \<Rightarrow> uint64" where
  "MAKE_SATP pt = push_bit 60 8 OR drop_bit 12 pt"

definition kvminithart :: "('a ktab_scheme, unit) km" where
  "kvminithart = kmod (\<lambda>s. s\<lparr>satp := MAKE_SATP (kernel_pagetable s)\<rparr>)"

section \<open>Creation and destruction\<close>

definition proc_pagetable :: "nat \<Rightarrow> ('a ktab_scheme, addr) km" where
  "proc_pagetable p =
     kbind uvmcreate (\<lambda>pt.
     if pt = 0 then kret 0
     else kbind (kgets trampoline_at) (\<lambda>tramp.
     kbind (mappages pt TRAMPOLINE PGSIZE tramp (PTE_R OR PTE_X)) (\<lambda>r.
     if r < 0 then kseq (uvmfree pt 0) (kret 0)
     else kbind (getp trapframe p) (\<lambda>tf.
     kbind (mappages pt TRAPFRAME PGSIZE tf (PTE_R OR PTE_W)) (\<lambda>r.
     if r < 0
     then kseq (uvmunmap pt TRAMPOLINE 1 False)
         (kseq (uvmfree pt 0)
               (kret 0))
     else kret pt)))))"

definition proc_freepagetable :: "addr \<Rightarrow> uint64 \<Rightarrow> ('a pmem_scheme, unit) km" where
  "proc_freepagetable pt sz =
     kseq (uvmunmap pt TRAMPOLINE 1 False)
    (kseq (uvmunmap pt TRAPFRAME 1 False)
          (uvmfree pt sz))"

definition freeproc :: "nat \<Rightarrow> ('a ptable_scheme, unit) km" where
  "freeproc p =
     kbind (kgets (\<lambda>s. procs s p)) (\<lambda>x.
     kseq (kwhen (trapframe x \<noteq> 0) (kfree (trapframe x)))
    (kseq (updp p (\<lambda>x. x\<lparr>trapframe := 0\<rparr>))
    (kseq (kwhen (pagetable x \<noteq> 0) (proc_freepagetable (pagetable x) (psz x)))
          (updp p (\<lambda>x. x\<lparr>pagetable := 0, psz := 0, pid := 0, parent := None, pname := [], pchan := None,
                           killed := False, xstate := 0, pstate := UNUSED\<rparr>)))))"

text \<open>The search of \<^verbatim>\<open>allocproc\<close> leaves with the lock of the process it finds.\<close>

definition allocproc_find :: "nat \<Rightarrow> ('a ptable_scheme, nat option) km" where
  "allocproc_find p =
     kseq (lock_k (Proc_lock p))
    (kbind (getp pstate p) (\<lambda>st.
     if st = UNUSED then kret (Some p)
     else kseq (unlock_k (Proc_lock p)) (kret None)))"

definition allocproc_fail :: "nat \<Rightarrow> ('a ptable_scheme, nat option) km" where
  "allocproc_fail p = kseq (freeproc p) (kseq (unlock_k (Proc_lock p)) (kret None))"

definition allocproc :: "('a ktab_scheme, nat option) km" where
  "allocproc =
     kbind (kscan [0..<NPROC] allocproc_find) (\<lambda>r.
     case r of
       None \<Rightarrow> kret None
     | Some p \<Rightarrow>
         kbind allocpid (\<lambda>id.
         kseq (updp p (\<lambda>x. x\<lparr>pid := id\<rparr>))
        (kseq (updp p (\<lambda>x. x\<lparr>pstate := USED\<rparr>))
        (kbind kalloc (\<lambda>tf.
         kseq (updp p (\<lambda>x. x\<lparr>trapframe := tf\<rparr>))
        (if tf = 0 then allocproc_fail p
         else kbind (proc_pagetable p) (\<lambda>pt.
         kseq (updp p (\<lambda>x. x\<lparr>pagetable := pt\<rparr>))
        (if pt = 0 then allocproc_fail p
         else kbind (kgets forkret_at) (\<lambda>fr.
         kseq (updp p (\<lambda>x. x\<lparr>pcontext := \<lparr>ctx_ra = fr, ctx_sp = kstack x + PGSIZE, ctx_s = (\<lambda>_. 0)\<rparr>\<rparr>))
              (kret (Some p)))))))))))"

definition userinit :: "('a ktab_scheme, unit) km" where
  "userinit =
     kbind allocproc (\<lambda>r.
     kseq (kmod (\<lambda>s. s\<lparr>initproc := r\<rparr>))
    (kbind (deref r) (\<lambda>p.
     kbind (getp pagetable p) (\<lambda>pt.
     kbind (kgets initcode_at) (\<lambda>code.
     kseq (uvminit pt code 52)
    (kseq (updp p (\<lambda>x. x\<lparr>psz := PGSIZE\<rparr>))
    (kseq (set_tf p tf_epc 0)
    (kseq (set_tf p tf_sp PGSIZE)
    (kseq (updp p (\<lambda>x. x\<lparr>pname := ''initcode''\<rparr>))
    (kbind (kgets root_str_at) (\<lambda>root.
     kbind (namei root) (\<lambda>ip.
     kseq (updp p (\<lambda>x. x\<lparr>cwd := ip\<rparr>))
    (kseq (updp p (\<lambda>x. x\<lparr>pstate := RUNNABLE\<rparr>))
          (unlock_k (Proc_lock p)))))))))))))))"

section \<open>fork\<close>

definition fork_file :: "nat \<Rightarrow> nat \<Rightarrow> nat \<Rightarrow> ('a filetab_scheme, unit) km" where
  "fork_file p np i =
     kbind (getp (\<lambda>x. ofile x i) p) (\<lambda>o'.
     case o' of
       None \<Rightarrow> kret ()
     | Some f \<Rightarrow> kbind (filedup f) (\<lambda>f. updp np (\<lambda>x. x\<lparr>ofile := (ofile x)(i := Some f)\<rparr>)))"

definition fork :: "('a ktab_scheme, int) km" where
  "fork =
     kbind curproc (\<lambda>p.
     kbind allocproc (\<lambda>r.
     case r of
       None \<Rightarrow> kret (- 1)
     | Some np \<Rightarrow>
         kbind (kgets (\<lambda>s. procs s p)) (\<lambda>x.
         kbind (getp pagetable np) (\<lambda>npt.
         kbind (uvmcopy (pagetable x) npt (psz x)) (\<lambda>r.
         if r < 0
         then kseq (freeproc np)
             (kseq (unlock_k (Proc_lock np))
                   (kret (- 1)))
         else
         kseq (updp np (\<lambda>y. y\<lparr>psz := psz x\<rparr>))
        (kseq (kmod (\<lambda>s. s\<lparr>ram := memmove (ram s) (trapframe (procs s np)) (trapframe (procs s p)) 288\<rparr>))
        (kseq (set_tf np tf_a0 0)
        (kseq (kfor [0..<NOFILE] (fork_file p np))
        (kbind (kbind (getp cwd p) (\<lambda>d. kbind (deref d) idup)) (\<lambda>ip.
         kseq (updp np (\<lambda>y. y\<lparr>cwd := Some ip\<rparr>))
        (kseq (updp np (\<lambda>y. y\<lparr>pname := take 15 (pname x)\<rparr>))
        (kbind (getp pid np) (\<lambda>id.
         kseq (unlock_k (Proc_lock np))
        (kseq (lock_k Wait_lock)
        (kseq (updp np (\<lambda>y. y\<lparr>parent := Some p\<rparr>))
        (kseq (unlock_k Wait_lock)
        (kseq (lock_k (Proc_lock np))
        (kseq (updp np (\<lambda>y. y\<lparr>pstate := RUNNABLE\<rparr>))
        (kseq (unlock_k (Proc_lock np))
              (kret id))))))))))))))))))))"

section \<open>exit and wait\<close>

text \<open>A process without a parent is woken up by nobody: \<^verbatim>\<open>wakeup(0)\<close> finds no sleeper.\<close>

definition wakeup_proc :: "nat option \<Rightarrow> ('a ptable_scheme, unit) km" where
  "wakeup_proc q = (case q of None \<Rightarrow> kret () | Some p \<Rightarrow> wakeup (Chan_proc p))"

definition reparent_body :: "nat \<Rightarrow> nat \<Rightarrow> ('a ptable_scheme, unit) km" where
  "reparent_body p pp =
     kbind (getp parent pp) (\<lambda>q.
     kwhen (q = Some p)
       (kbind (kgets initproc) (\<lambda>i.
        kseq (updp pp (\<lambda>x. x\<lparr>parent := i\<rparr>))
             (wakeup_proc i))))"

definition reparent :: "nat \<Rightarrow> ('a ptable_scheme, unit) km" where
  "reparent p = kfor [0..<NPROC] (reparent_body p)"

definition exit_file :: "nat \<Rightarrow> nat \<Rightarrow> ('a filetab_scheme, unit) km" where
  "exit_file p fd =
     kbind (getp (\<lambda>x. ofile x fd) p) (\<lambda>o'.
     case o' of
       None \<Rightarrow> kret ()
     | Some f \<Rightarrow> kseq (fileclose f) (updp p (\<lambda>x. x\<lparr>ofile := (ofile x)(fd := None)\<rparr>)))"

text \<open>\<^verbatim>\<open>exit\<close> up to the switch to the scheduler, from which it never comes back.\<close>

definition exit_out :: "uint32 \<Rightarrow> ('a filetab_scheme, bool) km" where
  "exit_out status =
     kbind curproc (\<lambda>p.
     kbind (kgets initproc) (\<lambda>ini.
     if ini = Some p then kpanic ''init exiting''
     else
     kseq (kfor [0..<NOFILE] (exit_file p))
    (kseq begin_op
    (kseq (kbind (getp cwd p) (\<lambda>d. kbind (deref d) iput))
    (kseq end_op
    (kseq (updp p (\<lambda>x. x\<lparr>cwd := None\<rparr>))
    (kseq (lock_k Wait_lock)
    (kseq (reparent p)
    (kseq (kbind (getp parent p) wakeup_proc)
    (kseq (lock_k (Proc_lock p))
    (kseq (updp p (\<lambda>x. x\<lparr>xstate := status\<rparr>))
    (kseq (updp p (\<lambda>x. x\<lparr>pstate := ZOMBIE\<rparr>))
    (kseq (unlock_k Wait_lock)
          sched_out)))))))))))))"

text \<open>One turn of the search of \<^verbatim>\<open>wait\<close>: \<open>Some\<close> is a result, \<open>None\<close> goes on; the flag is \<^verbatim>\<open>havekids\<close>.
  The exit status is copied from its place in the process table.\<close>

definition wait_reap :: "nat \<Rightarrow> uint64 \<Rightarrow> nat \<Rightarrow> ('a fstab_scheme, int) km" where
  "wait_reap p addr np =
     kbind (getp pid np) (\<lambda>id.
     kbind (kgets (\<lambda>s. lvar_at s Lv_xstate)) (\<lambda>a.
     kseq (kmod (\<lambda>s. s\<lparr>ram := st32 (ram s) a (xstate (procs s np))\<rparr>))
    (kbind (if addr = 0 then kret 0 else kbind (getp pagetable p) (\<lambda>pt. copyout pt addr a 4)) (\<lambda>r.
     if r < 0
     then kseq (unlock_k (Proc_lock np))
         (kseq (unlock_k Wait_lock)
               (kret (- 1)))
     else kseq (freeproc np)
         (kseq (unlock_k (Proc_lock np))
         (kseq (unlock_k Wait_lock)
               (kret id)))))))"

primrec wait_scan :: "nat \<Rightarrow> uint64 \<Rightarrow> nat list \<Rightarrow> bool \<Rightarrow> ('a fstab_scheme, int + bool) km" where
  "wait_scan p addr [] havekids = kret (Inr havekids)"
| "wait_scan p addr (np # nps) havekids =
     kbind (getp parent np) (\<lambda>q.
     if q = Some p then
       kseq (lock_k (Proc_lock np))
      (kbind (getp pstate np) (\<lambda>st.
       if st = ZOMBIE then kbind (wait_reap p addr np) (\<lambda>r. kret (Inl r))
       else kseq (unlock_k (Proc_lock np)) (wait_scan p addr nps True)))
     else wait_scan p addr nps havekids)"

definition wait :: "uint64 \<Rightarrow> ('a fstab_scheme, int) km" where
  "wait addr =
     kbind curproc (\<lambda>p.
     kseq (lock_k Wait_lock)
    (kbind (wait_scan p addr [0..<NPROC] False) (\<lambda>r.
     case r of
       Inl r \<Rightarrow> kret r
     | Inr havekids \<Rightarrow>
         kbind (getp killed p) (\<lambda>kl.
         if \<not> havekids \<or> kl then kseq (unlock_k Wait_lock) (kret (- 1))
         else sleep (Chan_proc p) Wait_lock))))"

end
