(* ===== verification/Syscall.thy ===== *)
theory Syscall
  imports Procs
begin

text \<open>
  \<^verbatim>\<open>kernel/syscall.c\<close>, \<^verbatim>\<open>kernel/sysproc.c\<close> and \<^verbatim>\<open>kernel/exec.c\<close>.  A system call returns \<open>Some\<close> value, or \<open>None\<close>
  when the process has left for good (\<^verbatim>\<open>exit\<close>).
\<close>

section \<open>Arguments\<close>

definition fetchaddr :: "uint64 \<Rightarrow> addr \<Rightarrow> ('a ptable_scheme, int) km" where
  "fetchaddr addr ip =
     kbind curproc (\<lambda>p.
     kbind (kgets (\<lambda>s. procs s p)) (\<lambda>x.
     if addr \<ge> psz x \<or> addr + 8 > psz x then kret (- 1)
     else kbind (copyin (pagetable x) ip addr 8) (\<lambda>r.
     kret (if r \<noteq> 0 then - 1 else 0))))"

text \<open>\<^verbatim>\<open>strlen\<close> of a buffer with no NUL does not return.\<close>

definition kstrlen :: "addr \<Rightarrow> ('a pmem_scheme, nat) km" where
  "kstrlen a = kbind (kgets (\<lambda>s. strlen (ram s) a)) (\<lambda>r. case r of None \<Rightarrow> kfail Out_of_fuel | Some n \<Rightarrow> kret n)"

definition fetchstr :: "uint64 \<Rightarrow> addr \<Rightarrow> uint64 \<Rightarrow> ('a ptable_scheme, int) km" where
  "fetchstr addr buf max' =
     kbind curproc (\<lambda>p.
     kbind (getp pagetable p) (\<lambda>pt.
     kbind (copyinstr pt buf addr max') (\<lambda>err.
     if err < 0 then kret err
     else kbind (kstrlen buf) (\<lambda>n. kret (int n)))))"

definition argraw :: "nat \<Rightarrow> ('a ptable_scheme, uint64) km" where
  "argraw n =
     kbind curproc (\<lambda>p.
     if n < 6 then get_tf p (112 + 8 * of_nat n) else kpanic ''argraw'')"

definition argint :: "nat \<Rightarrow> ('a ptable_scheme, uint32) km" where
  "argint n = kbind (argraw n) (\<lambda>x. kret (ucast x))"

definition argaddr :: "nat \<Rightarrow> ('a ptable_scheme, uint64) km" where
  "argaddr n = argraw n"

definition argstr :: "nat \<Rightarrow> addr \<Rightarrow> uint64 \<Rightarrow> ('a ptable_scheme, int) km" where
  "argstr n buf max' = kbind (argaddr n) (\<lambda>addr. fetchstr addr buf max')"

section \<open>kernel/exec.c\<close>

definition loadseg_page :: "addr \<Rightarrow> uint64 \<Rightarrow> nat \<Rightarrow> uint32 \<Rightarrow> uint32 \<Rightarrow> nat \<Rightarrow> ('a fstab_scheme, int option) km" where
  "loadseg_page pt va ip offset sz i =
     kbind (walkaddr pt (va + of_nat i)) (\<lambda>pa.
     if pa = 0 then kpanic ''loadseg: address should exist''
     else let n = (if sz - of_nat i < 4096 then sz - of_nat i else 4096) in
     kbind (readi ip False pa (offset + of_nat i) n) (\<lambda>r.
     kret (if r \<noteq> n then Some (- 1) else None)))"

definition loadseg :: "addr \<Rightarrow> uint64 \<Rightarrow> nat \<Rightarrow> uint32 \<Rightarrow> uint32 \<Rightarrow> ('a fstab_scheme, int) km" where
  "loadseg pt va ip offset sz =
     kbind (kscan (map (\<lambda>k. 4096 * k) [0..<(unat sz + 4095) div 4096]) (loadseg_page pt va ip offset sz)) (\<lambda>r.
     kret (case r of Some e \<Rightarrow> e | None \<Rightarrow> 0))"

text \<open>The loop over the program headers: the flag is \<open>False\<close> for \<^verbatim>\<open>goto bad\<close>; the number is \<^verbatim>\<open>sz\<close>.\<close>

primrec exec_load :: "nat \<Rightarrow> nat \<Rightarrow> addr \<Rightarrow> uint32 \<Rightarrow> uint64 \<Rightarrow> ('a fstab_scheme, bool \<times> uint64) km" where
  "exec_load 0 ip pt off sz = kret (True, sz)"
| "exec_load (Suc k) ip pt off sz =
     kbind (kgets (\<lambda>s. lvar_at s Lv_ph)) (\<lambda>ph.
     kbind (readi ip False ph off 56) (\<lambda>r.
     if r \<noteq> 56 then kret (False, sz)
     else kbind (kgets ram) (\<lambda>m.
     let type = ld32 m ph; foff = ld64 m (ph + 8); vaddr = ld64 m (ph + 16); filesz = ld64 m (ph + 32); memsz = ld64 m (ph + 40) in
     if type \<noteq> 1 then exec_load k ip pt (off + 56) sz
     else if memsz < filesz then kret (False, sz)
     else if vaddr + memsz < vaddr then kret (False, sz)
     else kbind (uvmalloc pt sz (vaddr + memsz)) (\<lambda>sz1.
     if sz1 = 0 then kret (False, sz)
     else if vaddr mod PGSIZE \<noteq> 0 then kret (False, sz1)
     else kbind (loadseg pt vaddr ip (ucast foff) (ucast filesz)) (\<lambda>r.
     if r < 0 then kret (False, sz1)
     else exec_load k ip pt (off + 56) sz1)))))"

text \<open>The argument strings: \<^verbatim>\<open>argc\<close> and \<^verbatim>\<open>sp\<close>, or nothing for \<^verbatim>\<open>goto bad\<close>.\<close>

primrec exec_args :: "addr list \<Rightarrow> addr \<Rightarrow> uint64 \<Rightarrow> nat \<Rightarrow> uint64 \<Rightarrow> ('a fstab_scheme, (nat \<times> uint64) option) km" where
  "exec_args [] pt stackbase argc sp = kret (Some (argc, sp))"
| "exec_args (a # as) pt stackbase argc sp =
     (if argc \<ge> MAXARG then kret None
      else kbind (kstrlen a) (\<lambda>n.
      let sp = sp - of_nat (n + 1); sp = sp - sp mod 16 in
      if sp < stackbase then kret None
      else kbind (copyout pt sp a (of_nat (n + 1))) (\<lambda>r.
      if r < 0 then kret None
      else kseq (kmod (\<lambda>s. s\<lparr>ram := st64 (ram s) (lvar_at s Lv_ustack + of_nat (8 * argc)) sp\<rparr>))
                (exec_args as pt stackbase (Suc argc) sp))))"

definition exec_bad :: "addr \<Rightarrow> uint64 \<Rightarrow> nat option \<Rightarrow> ('a filetab_scheme, int) km" where
  "exec_bad pt sz ip =
     kseq (kwhen (pt \<noteq> 0) (proc_freepagetable pt sz))
    (kseq (case ip of None \<Rightarrow> kret () | Some i \<Rightarrow> kseq (iunlockput i) end_op)
          (kret (- 1)))"

text \<open>The last element of the path, for \<^verbatim>\<open>p->name\<close>.\<close>

primrec last_elem :: "nat \<Rightarrow> ram \<Rightarrow> addr \<Rightarrow> addr \<Rightarrow> addr" where
  "last_elem 0 m s l = l"
| "last_elem (Suc k) m s l = (if m s = 0 then l else last_elem k m (s + 1) (if m s = slash then s + 1 else l))"

definition exec_commit :: "nat \<Rightarrow> addr \<Rightarrow> addr \<Rightarrow> uint64 \<Rightarrow> uint64 \<Rightarrow> uint64 \<Rightarrow> ('a fstab_scheme, unit) km" where
  "exec_commit p pth pt sz sp oldsz =
     kseq (set_tf p tf_a1 sp)
    (kseq (kmod (\<lambda>s. s\<lparr>procs := (procs s)(p := (procs s p)\<lparr>pname :=
             map (\<lambda>c. char_of (unat c)) (cstrn (ram s) (last_elem MAXPATH (ram s) pth pth) 15)\<rparr>)\<rparr>))
    (kbind (getp pagetable p) (\<lambda>oldpt.
     kseq (updp p (\<lambda>x. x\<lparr>pagetable := pt\<rparr>))
    (kseq (updp p (\<lambda>x. x\<lparr>psz := sz\<rparr>))
    (kbind (kgets (\<lambda>s. ld64 (ram s) (lvar_at s Lv_elf + 24))) (\<lambda>entry.
     kseq (set_tf p tf_epc entry)
    (kseq (set_tf p tf_sp sp)
          (proc_freepagetable oldpt oldsz))))))))"

text \<open>The second half of \<^verbatim>\<open>exec\<close>, after the image is loaded: the stack, the arguments, and the switch.\<close>

definition exec_stack :: "nat \<Rightarrow> addr \<Rightarrow> addr list \<Rightarrow> addr \<Rightarrow> uint64 \<Rightarrow> ('a ktab_scheme, int) km" where
  "exec_stack p pth argv pt sz0 =
     kbind (getp psz p) (\<lambda>oldsz.
     let sz = PGROUNDUP sz0 in
     kbind (uvmalloc pt sz (sz + 2 * PGSIZE)) (\<lambda>sz1.
     if sz1 = 0 then exec_bad pt sz None
     else kseq (uvmclear pt (sz1 - 2 * PGSIZE))
    (kbind (exec_args argv pt (sz1 - PGSIZE) 0 sz1) (\<lambda>r.
     case r of
       None \<Rightarrow> exec_bad pt sz1 None
     | Some (argc, sp) \<Rightarrow>
         kbind (kgets (\<lambda>s. lvar_at s Lv_ustack)) (\<lambda>ustack.
         kseq (upd_ram (\<lambda>m. st64 m (ustack + of_nat (8 * argc)) 0))
        (let sp = sp - of_nat ((argc + 1) * 8); sp = sp - sp mod 16 in
         if sp < sz1 - PGSIZE then exec_bad pt sz1 None
         else kbind (copyout pt sp ustack (of_nat ((argc + 1) * 8))) (\<lambda>r.
         if r < 0 then exec_bad pt sz1 None
         else kseq (exec_commit p pth pt sz1 sp oldsz)
                   (kret (int argc))))))))) "

definition exec :: "addr \<Rightarrow> addr list \<Rightarrow> ('a ktab_scheme, int) km" where
  "exec pth argv =
     kbind curproc (\<lambda>p.
     kseq begin_op
    (kbind (namei pth) (\<lambda>r.
     case r of
       None \<Rightarrow> kseq end_op (kret (- 1))
     | Some ip \<Rightarrow>
         kseq (ilock (Some ip))
        (kbind (kgets (\<lambda>s. lvar_at s Lv_elf)) (\<lambda>elf.
         kbind (readi ip False elf 0 64) (\<lambda>r.
         if r \<noteq> 64 then exec_bad 0 0 (Some ip)
         else kbind (kgets (\<lambda>s. ld32 (ram s) elf)) (\<lambda>magic.
         if magic \<noteq> 0x464C457F then exec_bad 0 0 (Some ip)
         else kbind (proc_pagetable p) (\<lambda>pt.
         if pt = 0 then exec_bad 0 0 (Some ip)
         else kbind (kgets (\<lambda>s. (ld64 (ram s) (elf + 32), ld16 (ram s) (elf + 56)))) (\<lambda>(phoff, phnum).
         kbind (exec_load (unat phnum) ip pt (ucast phoff) 0) (\<lambda>(ok, sz).
         if \<not> ok then exec_bad pt sz (Some ip)
         else kseq (iunlockput ip)
             (kseq end_op
                   (exec_stack p pth argv pt sz))))))))))))"

section \<open>kernel/sysproc.c\<close>

definition sys_exit :: "('a ktab_scheme, uint64 option) km" where
  "sys_exit = kbind (argint 0) (\<lambda>n. kseq (exit_out n) (kret None))"

definition sys_getpid :: "('a ktab_scheme, uint64 option) km" where
  "sys_getpid = kbind curproc (\<lambda>p. kbind (getp pid p) (\<lambda>i. kret (Some (word_of_int i))))"

definition sys_fork :: "('a ktab_scheme, uint64 option) km" where
  "sys_fork = kbind fork (\<lambda>r. kret (Some (word_of_int r)))"

definition sys_wait :: "('a ktab_scheme, uint64 option) km" where
  "sys_wait = kbind (argaddr 0) (\<lambda>p. kbind (wait p) (\<lambda>r. kret (Some (word_of_int r))))"

definition sys_sbrk :: "('a ktab_scheme, uint64 option) km" where
  "sys_sbrk =
     kbind (argint 0) (\<lambda>n.
     kbind curproc (\<lambda>p.
     kbind (getp psz p) (\<lambda>sz.
     kbind (growproc n) (\<lambda>r.
     kret (Some (if r < 0 then - 1 else scast (ucast sz :: 32 word)))))))"

text \<open>The comparison with the \<^verbatim>\<open>int\<close> argument of \<^verbatim>\<open>sleep\<close> is unsigned.\<close>

definition sys_sleep :: "('a ktab_scheme, uint64 option) km" where
  "sys_sleep =
     kbind (argint 0) (\<lambda>n.
     kseq (lock_k Tickslock)
    (if 0 < n then
       kbind curproc (\<lambda>p.
       kbind (getp killed p) (\<lambda>kl.
       if kl then kseq (unlock_k Tickslock) (kret (Some (- 1)))
       else sleep Chan_ticks Tickslock))
     else kseq (unlock_k Tickslock) (kret (Some 0))))"

definition sys_kill :: "('a ktab_scheme, uint64 option) km" where
  "sys_kill = kbind (argint 0) (\<lambda>i. kbind (kill (sint i)) (\<lambda>r. kret (Some (word_of_int r))))"

definition sys_uptime :: "('a ktab_scheme, uint64 option) km" where
  "sys_uptime =
     kseq (lock_k Tickslock)
    (kbind (kgets ticks) (\<lambda>t.
     kseq (unlock_k Tickslock)
          (kret (Some (ucast t)))))"

end
