(* ===== verification/Sysfile.thy ===== *)
theory Sysfile
  imports Syscall
begin

text \<open>
  \<^verbatim>\<open>kernel/sysfile.c\<close>, and the table of system calls of \<^verbatim>\<open>kernel/syscall.c\<close>.  The path
  arguments are copied into the arrays on the kernel stack that \<open>lvar_at\<close> names.
\<close>

abbreviation (input) kfails :: "('a ktab_scheme, uint64 option) km" where
  "kfails \<equiv> kret (Some (- 1))"

section \<open>Descriptors\<close>

definition argfd :: "nat \<Rightarrow> ('a ktab_scheme, (nat \<times> nat) option) km" where
  "argfd n =
     kbind (argint n) (\<lambda>fd.
     if fd <s 0 \<or> sint fd \<ge> int NOFILE then kret None
     else kbind curproc (\<lambda>p.
     kbind (getp (\<lambda>x. ofile x (unat fd)) p) (\<lambda>f.
     kret (case f of None \<Rightarrow> None | Some f \<Rightarrow> Some (unat fd, f)))))"

definition fdalloc :: "nat \<Rightarrow> ('a ptable_scheme, int) km" where
  "fdalloc f =
     kbind curproc (\<lambda>p.
     kbind (kscan [0..<NOFILE] (\<lambda>fd.
              kbind (getp (\<lambda>x. ofile x fd) p) (\<lambda>o'.
              if o' = None
              then kseq (updp p (\<lambda>x. x\<lparr>ofile := (ofile x)(fd := Some f)\<rparr>))
                        (kret (Some fd))
              else kret None))) (\<lambda>r.
     kret (case r of Some fd \<Rightarrow> int fd | None \<Rightarrow> - 1)))"

definition sys_dup :: "('a ktab_scheme, uint64 option) km" where
  "sys_dup =
     kbind (argfd 0) (\<lambda>r.
     case r of
       None \<Rightarrow> kfails
     | Some (_, f) \<Rightarrow>
         kbind (fdalloc f) (\<lambda>fd.
         if fd < 0 then kfails
         else kseq (filedup f) (kret (Some (word_of_int fd)))))"

definition sys_read :: "('a ktab_scheme, uint64 option) km" where
  "sys_read =
     kbind (argfd 0) (\<lambda>r.
     case r of
       None \<Rightarrow> kfails
     | Some (_, f) \<Rightarrow>
         kbind (argint 2) (\<lambda>n.
         kbind (argaddr 1) (\<lambda>p.
         kbind (fileread f p n) (\<lambda>r. kret (Some (word_of_int r))))))"

definition sys_write :: "('a ktab_scheme, uint64 option) km" where
  "sys_write =
     kbind (argfd 0) (\<lambda>r.
     case r of
       None \<Rightarrow> kfails
     | Some (_, f) \<Rightarrow>
         kbind (argint 2) (\<lambda>n.
         kbind (argaddr 1) (\<lambda>p.
         kbind (filewrite f p n) (\<lambda>r. kret (Some (word_of_int r))))))"

definition sys_close :: "('a ktab_scheme, uint64 option) km" where
  "sys_close =
     kbind (argfd 0) (\<lambda>r.
     case r of
       None \<Rightarrow> kfails
     | Some (fd, f) \<Rightarrow>
         kbind curproc (\<lambda>p.
         kseq (updp p (\<lambda>x. x\<lparr>ofile := (ofile x)(fd := None)\<rparr>))
        (kseq (fileclose f)
              (kret (Some 0)))))"

definition sys_fstat :: "('a ktab_scheme, uint64 option) km" where
  "sys_fstat =
     kbind (argfd 0) (\<lambda>r.
     case r of
       None \<Rightarrow> kfails
     | Some (_, f) \<Rightarrow>
         kbind (argaddr 1) (\<lambda>st.
         kbind (filestat f st) (\<lambda>r. kret (Some (word_of_int r)))))"

section \<open>Paths\<close>

definition sys_link_bad :: "nat \<Rightarrow> ('a ktab_scheme, uint64 option) km" where
  "sys_link_bad ip =
     kseq (ilock (Some ip))
    (kseq (updi ip (\<lambda>x. x\<lparr>i_nlink := i_nlink x - 1\<rparr>))
    (kseq (iupdate ip)
    (kseq (iunlockput ip)
    (kseq end_op
          kfails))))"

definition sys_link :: "('a ktab_scheme, uint64 option) km" where
  "sys_link =
     kbind (kgets (\<lambda>s. lvar_at s Lv_old)) (\<lambda>old.
     kbind (kgets (\<lambda>s. lvar_at s Lv_new)) (\<lambda>nw.
     kbind (argstr 0 old 128) (\<lambda>r.
     if r < 0 then kfails
     else kbind (argstr 1 nw 128) (\<lambda>r.
     if r < 0 then kfails
     else kseq begin_op
    (kbind (namei old) (\<lambda>r.
     case r of
       None \<Rightarrow> kseq end_op kfails
     | Some ip \<Rightarrow>
         kseq (ilock (Some ip))
        (kbind (geti i_type ip) (\<lambda>t.
         if t = T_DIR then kseq (iunlockput ip) (kseq end_op kfails)
         else
         kseq (updi ip (\<lambda>x. x\<lparr>i_nlink := i_nlink x + 1\<rparr>))
        (kseq (iupdate ip)
        (kseq (iunlock (Some ip))
        (kbind (kgets (\<lambda>s. lvar_at s Lv_name)) (\<lambda>name.
         kbind (nameiparent nw name) (\<lambda>r.
         case r of
           None \<Rightarrow> sys_link_bad ip
         | Some dp \<Rightarrow>
             kseq (ilock (Some dp))
            (kbind (kgets (\<lambda>s. (i_dev (inodes s dp) \<noteq> i_dev (inodes s ip), i_inum (inodes s ip)))) (\<lambda>(other, inum).
             kbind (if other then kret (- 1) else dirlink dp name inum) (\<lambda>r.
             if r < 0 then kseq (iunlockput dp) (sys_link_bad ip)
             else kseq (iunlockput dp)
                 (kseq (iput ip)
                 (kseq end_op
                       (kret (Some 0)))))))))))))))))) ))"

definition isdirempty :: "nat \<Rightarrow> ('a fstab_scheme, bool) km" where
  "isdirempty dp =
     kbind (geti i_size dp) (\<lambda>size.
     kbind (kscan (map (\<lambda>k. 16 * k) [2..<(unat size + 15) div 16]) (\<lambda>off.
              kbind (kgets (\<lambda>s. lvar_at s Lv_de)) (\<lambda>de.
              kbind (readi dp False de (of_nat off) 16) (\<lambda>r.
              if r \<noteq> 16 then kpanic ''isdirempty: readi''
              else kbind (kgets (\<lambda>s. ld16 (ram s) de)) (\<lambda>inum.
              kret (if inum \<noteq> 0 then Some () else None)))))) (\<lambda>r.
     kret (r = None)))"

text \<open>\<^verbatim>\<open>namecmp(name, ".") == 0\<close> and \<^verbatim>\<open>namecmp(name, "..") == 0\<close>, the literal being compared up to its NUL.\<close>

definition is_dot :: "ram \<Rightarrow> addr \<Rightarrow> bool" where
  "is_dot m name \<longleftrightarrow> cstrn m name 14 = [46]"

definition is_dotdot :: "ram \<Rightarrow> addr \<Rightarrow> bool" where
  "is_dotdot m name \<longleftrightarrow> cstrn m name 14 = [46, 46]"

definition sys_unlink_bad :: "nat \<Rightarrow> ('a ktab_scheme, uint64 option) km" where
  "sys_unlink_bad dp = kseq (iunlockput dp) (kseq end_op kfails)"

definition sys_unlink :: "('a ktab_scheme, uint64 option) km" where
  "sys_unlink =
     kbind (kgets (\<lambda>s. (lvar_at s Lv_path, lvar_at s Lv_name, lvar_at s Lv_de))) (\<lambda>(pth, name, de).
     kbind (argstr 0 pth 128) (\<lambda>r.
     if r < 0 then kfails
     else kseq begin_op
    (kbind (nameiparent pth name) (\<lambda>r.
     case r of
       None \<Rightarrow> kseq end_op kfails
     | Some dp \<Rightarrow>
         kseq (ilock (Some dp))
        (kbind (kgets (\<lambda>s. is_dot (ram s) name \<or> is_dotdot (ram s) name)) (\<lambda>dots.
         if dots then sys_unlink_bad dp
         else kbind (dirlookup dp name) (\<lambda>r.
         case r of
           None \<Rightarrow> sys_unlink_bad dp
         | Some (ip, off) \<Rightarrow>
             kseq (ilock (Some ip))
            (kbind (kgets (\<lambda>s. inodes s ip)) (\<lambda>x.
             if i_nlink x <s 1 then kpanic ''unlink: nlink < 1''
             else kbind (if i_type x = T_DIR then isdirempty ip else kret True) (\<lambda>ok.
             if \<not> ok then kseq (iunlockput ip) (sys_unlink_bad dp)
             else
             kseq (upd_ram (\<lambda>m. memset m de 0 16))
            (kbind (writei dp False de off 16) (\<lambda>w.
             if w \<noteq> 16 then kpanic ''unlink: writei''
             else
             kseq (kwhen (i_type x = T_DIR)
                     (kseq (updi dp (\<lambda>x. x\<lparr>i_nlink := i_nlink x - 1\<rparr>)) (iupdate dp)))
            (kseq (iunlockput dp)
            (kseq (updi ip (\<lambda>x. x\<lparr>i_nlink := i_nlink x - 1\<rparr>))
            (kseq (iupdate ip)
            (kseq (iunlockput ip)
            (kseq end_op
                  (kret (Some 0)))))))))))))))))))"

text \<open>The literals \<^verbatim>\<open>"."\<close> and \<^verbatim>\<open>".."\<close> that \<^verbatim>\<open>create\<close> links are put at \<open>Lv_char\<close>.\<close>

definition dirlink_lit :: "nat \<Rightarrow> uint8 list \<Rightarrow> uint32 \<Rightarrow> ('a fstab_scheme, int) km" where
  "dirlink_lit dp lit inum =
     kbind (kgets (\<lambda>s. lvar_at s Lv_char)) (\<lambda>a.
     kseq (upd_ram (\<lambda>m x. if unat (x - a) < length lit then lit ! unat (x - a) else m x))
          (dirlink dp a inum))"

definition create_new :: "nat \<Rightarrow> addr \<Rightarrow> uint16 \<Rightarrow> uint16 \<Rightarrow> uint16 \<Rightarrow> ('a fstab_scheme, nat) km" where
  "create_new dp name type major minor =
     kbind (geti i_dev dp) (\<lambda>dev.
     kbind (ialloc dev type) (\<lambda>ip.
     kseq (ilock (Some ip))
    (kseq (updi ip (\<lambda>x. x\<lparr>i_major := major, i_minor := minor, i_nlink := 1\<rparr>))
    (kseq (iupdate ip)
    (kbind (kgets (\<lambda>s. (i_inum (inodes s ip), i_inum (inodes s dp)))) (\<lambda>(inum, dinum).
     kseq (kwhen (type = T_DIR)
             (kseq (updi dp (\<lambda>x. x\<lparr>i_nlink := i_nlink x + 1\<rparr>))
             (kseq (iupdate dp)
             (kbind (dirlink_lit ip [46, 0] inum) (\<lambda>r.
              if r < 0 then kpanic ''create dots''
              else kbind (dirlink_lit ip [46, 46, 0] dinum) (\<lambda>r.
              if r < 0 then kpanic ''create dots'' else kret ()))))))
    (kbind (dirlink dp name inum) (\<lambda>r.
     if r < 0 then kpanic ''create: dirlink''
     else kseq (iunlockput dp) (kret ip)))))))))"

definition create :: "addr \<Rightarrow> uint16 \<Rightarrow> uint16 \<Rightarrow> uint16 \<Rightarrow> ('a fstab_scheme, nat option) km" where
  "create pth type major minor =
     kbind (kgets (\<lambda>s. lvar_at s Lv_name)) (\<lambda>name.
     kbind (nameiparent pth name) (\<lambda>r.
     case r of
       None \<Rightarrow> kret None
     | Some dp \<Rightarrow>
         kseq (ilock (Some dp))
        (kbind (dirlookup dp name) (\<lambda>r.
         case r of
           Some (ip, _) \<Rightarrow>
             kseq (iunlockput dp)
            (kseq (ilock (Some ip))
            (kbind (geti i_type ip) (\<lambda>t.
             if type = T_FILE \<and> (t = T_FILE \<or> t = T_DEVICE) then kret (Some ip)
             else kseq (iunlockput ip) (kret None))))
         | None \<Rightarrow> kbind (create_new dp name type major minor) (\<lambda>ip. kret (Some ip))))))"

abbreviation (input) O_WRONLY :: uint32 where "O_WRONLY \<equiv> 1"
abbreviation (input) O_RDWR :: uint32 where "O_RDWR \<equiv> 2"
abbreviation (input) O_CREATE :: uint32 where "O_CREATE \<equiv> 0x200"
abbreviation (input) O_TRUNC :: uint32 where "O_TRUNC \<equiv> 0x400"

text \<open>The first part of \<^verbatim>\<open>sys_open\<close> finds or creates the inode and returns it locked.\<close>

definition open_inode :: "addr \<Rightarrow> uint32 \<Rightarrow> ('a fstab_scheme, nat option) km" where
  "open_inode pth omode =
     (if omode AND O_CREATE \<noteq> 0 then create pth T_FILE 0 0
      else kbind (namei pth) (\<lambda>r.
      case r of
        None \<Rightarrow> kret None
      | Some ip \<Rightarrow>
          kseq (ilock (Some ip))
         (kbind (geti i_type ip) (\<lambda>t.
          if t = T_DIR \<and> omode \<noteq> 0 then kseq (iunlockput ip) (kret None)
          else kret (Some ip)))))"

definition open_file :: "nat \<Rightarrow> nat \<Rightarrow> uint32 \<Rightarrow> ('a filetab_scheme, unit) km" where
  "open_file f ip omode =
     kbind (kgets (\<lambda>s. inodes s ip)) (\<lambda>x.
     kseq (if i_type x = T_DEVICE
           then updf f (\<lambda>y. y\<lparr>f_type := FD_DEVICE, f_major := i_major x\<rparr>)
           else updf f (\<lambda>y. y\<lparr>f_type := FD_INODE, f_off := 0\<rparr>))
    (kseq (updf f (\<lambda>y. y\<lparr>f_ip := Some ip, f_readable := (omode AND O_WRONLY = 0),
                          f_writable := (omode AND O_WRONLY \<noteq> 0 \<or> omode AND O_RDWR \<noteq> 0)\<rparr>))
          (kwhen (omode AND O_TRUNC \<noteq> 0 \<and> i_type x = T_FILE) (itrunc ip))))"

definition sys_open :: "('a ktab_scheme, uint64 option) km" where
  "sys_open =
     kbind (kgets (\<lambda>s. lvar_at s Lv_path)) (\<lambda>pth.
     kbind (argstr 0 pth 128) (\<lambda>n.
     if n < 0 then kfails
     else kbind (argint 1) (\<lambda>omode.
     kseq begin_op
    (kbind (open_inode pth omode) (\<lambda>r.
     case r of
       None \<Rightarrow> kseq end_op kfails
     | Some ip \<Rightarrow>
         kbind (kgets (\<lambda>s. inodes s ip)) (\<lambda>x.
         if i_type x = T_DEVICE \<and> (sint (i_major x) < 0 \<or> sint (i_major x) \<ge> int NDEV)
         then kseq (iunlockput ip) (kseq end_op kfails)
         else kbind filealloc (\<lambda>f0.
         kbind (case f0 of None \<Rightarrow> kret (- 1) | Some f \<Rightarrow> fdalloc f) (\<lambda>fd.
         case f0 of
           None \<Rightarrow> kseq (iunlockput ip) (kseq end_op kfails)
         | Some f \<Rightarrow>
             if fd < 0
             then kseq (fileclose f) (kseq (iunlockput ip) (kseq end_op kfails))
             else kseq (open_file f ip omode)
                 (kseq (iunlock (Some ip))
                 (kseq end_op
                       (kret (Some (word_of_int fd)))))))))))))"

definition sys_mkdir :: "('a ktab_scheme, uint64 option) km" where
  "sys_mkdir =
     kseq begin_op
    (kbind (kgets (\<lambda>s. lvar_at s Lv_path)) (\<lambda>pth.
     kbind (argstr 0 pth 128) (\<lambda>r.
     kbind (if r < 0 then kret None else create pth T_DIR 0 0) (\<lambda>r.
     case r of
       None \<Rightarrow> kseq end_op kfails
     | Some ip \<Rightarrow> kseq (iunlockput ip) (kseq end_op (kret (Some 0)))))))"

definition sys_mknod :: "('a ktab_scheme, uint64 option) km" where
  "sys_mknod =
     kseq begin_op
    (kbind (kgets (\<lambda>s. lvar_at s Lv_path)) (\<lambda>pth.
     kbind (argstr 0 pth 128) (\<lambda>r.
     kbind (if r < 0 then kret None
            else kbind (argint 1) (\<lambda>major. kbind (argint 2) (\<lambda>minor. create pth T_DEVICE (ucast major) (ucast minor)))) (\<lambda>r.
     case r of
       None \<Rightarrow> kseq end_op kfails
     | Some ip \<Rightarrow> kseq (iunlockput ip) (kseq end_op (kret (Some 0)))))))"

definition sys_chdir :: "('a ktab_scheme, uint64 option) km" where
  "sys_chdir =
     kbind curproc (\<lambda>p.
     kseq begin_op
    (kbind (kgets (\<lambda>s. lvar_at s Lv_path)) (\<lambda>pth.
     kbind (argstr 0 pth 128) (\<lambda>r.
     kbind (if r < 0 then kret None else namei pth) (\<lambda>r.
     case r of
       None \<Rightarrow> kseq end_op kfails
     | Some ip \<Rightarrow>
         kseq (ilock (Some ip))
        (kbind (geti i_type ip) (\<lambda>t.
         if t \<noteq> T_DIR then kseq (iunlockput ip) (kseq end_op kfails)
         else
         kseq (iunlock (Some ip))
        (kseq (kbind (getp cwd p) (\<lambda>d. kbind (deref d) iput))
        (kseq end_op
        (kseq (updp p (\<lambda>x. x\<lparr>cwd := Some ip\<rparr>))
              (kret (Some 0))))))))))))"

section \<open>exec and pipe\<close>

text \<open>The loop of \<^verbatim>\<open>sys_exec\<close> that fetches the arguments; the pages allocated so far are returned even
  when it fails.\<close>

primrec exec_fetch :: "nat \<Rightarrow> nat \<Rightarrow> uint64 \<Rightarrow> addr list \<Rightarrow> ('a ktab_scheme, bool \<times> addr list) km" where
  "exec_fetch 0 i uargv argv = kret (False, argv)"
| "exec_fetch (Suc k) i uargv argv =
     kbind (kgets (\<lambda>s. lvar_at s Lv_uarg)) (\<lambda>uarg_at.
     kbind (fetchaddr (uargv + of_nat (8 * i)) uarg_at) (\<lambda>r.
     if r < 0 then kret (False, argv)
     else kbind (kgets (\<lambda>s. ld64 (ram s) uarg_at)) (\<lambda>uarg.
     if uarg = 0 then kret (True, argv)
     else kbind kalloc (\<lambda>pg.
     if pg = 0 then kret (False, argv)
     else kbind (fetchstr uarg pg PGSIZE) (\<lambda>r.
     if r < 0 then kret (False, argv @ [pg])
     else exec_fetch k (Suc i) uargv (argv @ [pg]))))))"

definition sys_exec :: "('a ktab_scheme, uint64 option) km" where
  "sys_exec =
     kbind (kgets (\<lambda>s. lvar_at s Lv_path)) (\<lambda>pth.
     kbind (argstr 0 pth 128) (\<lambda>r.
     if r < 0 then kfails
     else kbind (argaddr 1) (\<lambda>uargv.
     kbind (exec_fetch MAXARG 0 uargv []) (\<lambda>(ok, argv).
     kbind (if ok then exec pth argv else kret (- 1)) (\<lambda>ret.
     kseq (kfor argv kfree)
          (kret (Some (word_of_int ret))))))))"

definition sys_pipe :: "('a ktab_scheme, uint64 option) km" where
  "sys_pipe =
     kbind curproc (\<lambda>p.
     kbind (argaddr 0) (\<lambda>fdarray.
     kbind pipealloc (\<lambda>r.
     case r of
       None \<Rightarrow> kfails
     | Some (rf, wrf) \<Rightarrow>
         kbind (fdalloc rf) (\<lambda>fd0.
         kbind (if fd0 < 0 then kret (- 1) else fdalloc wrf) (\<lambda>fd1.
         if fd0 < 0 \<or> fd1 < 0
         then kseq (kwhen (fd0 \<ge> 0) (updp p (\<lambda>x. x\<lparr>ofile := (ofile x)(nat fd0 := None)\<rparr>)))
             (kseq (fileclose rf)
             (kseq (fileclose wrf)
                   kfails))
         else kbind (kgets (\<lambda>s. lvar_at s Lv_fd)) (\<lambda>a.
         kseq (upd_ram (\<lambda>m. st32 (st32 m a (word_of_int fd0)) (a + 4) (word_of_int fd1)))
        (kbind (getp pagetable p) (\<lambda>pt.
         kbind (copyout pt fdarray a 4) (\<lambda>r0.
         kbind (if r0 < 0 then kret (- 1) else copyout pt (fdarray + 4) (a + 4) 4) (\<lambda>r1.
         if r1 < 0
         then kseq (updp p (\<lambda>x. x\<lparr>ofile := (ofile x)(nat fd0 := None)\<rparr>))
             (kseq (updp p (\<lambda>x. x\<lparr>ofile := (ofile x)(nat fd1 := None)\<rparr>))
             (kseq (fileclose rf)
             (kseq (fileclose wrf)
                   kfails)))
         else kret (Some 0)))))))))))"

section \<open>The system call table\<close>

definition syscalls :: "nat \<Rightarrow> ('a ktab_scheme, uint64 option) km option" where
  "syscalls num =
     (if num = 1 then Some sys_fork else if num = 2 then Some sys_exit else if num = 3 then Some sys_wait
      else if num = 4 then Some sys_pipe else if num = 5 then Some sys_read else if num = 6 then Some sys_kill
      else if num = 7 then Some sys_exec else if num = 8 then Some sys_fstat else if num = 9 then Some sys_chdir
      else if num = 10 then Some sys_dup else if num = 11 then Some sys_getpid else if num = 12 then Some sys_sbrk
      else if num = 13 then Some sys_sleep else if num = 14 then Some sys_uptime else if num = 15 then Some sys_open
      else if num = 16 then Some sys_write else if num = 17 then Some sys_mknod else if num = 18 then Some sys_unlink
      else if num = 19 then Some sys_link else if num = 20 then Some sys_mkdir else if num = 21 then Some sys_close
      else None)"

text \<open>\<open>True\<close> when the process has exited and nothing follows.\<close>

definition syscall :: "('a ktab_scheme, bool) km" where
  "syscall =
     kbind curproc (\<lambda>p.
     kbind (get_tf p tf_a7) (\<lambda>a7.
     let num = ucast a7 :: uint32 in
     case (if 0 <s num then syscalls (unat num) else None) of
       Some f \<Rightarrow>
         kbind f (\<lambda>r.
         case r of
           None \<Rightarrow> kret True
         | Some v \<Rightarrow> kseq (set_tf p tf_a0 v) (kret False))
     | None \<Rightarrow>
         kbind (kgets (\<lambda>s. procs s p)) (\<lambda>x.
         kseq (kprintf (''%d %s: unknown sys call %d'' @ [CHR 0x0A]) [Kint (word_of_int (pid x)), Kstr (Some (pname x)), Kint num])
        (kseq (set_tf p tf_a0 (- 1))
              (kret False)))))"

end
