(* ===== verification/Trap.thy ===== *)
theory Trap
  imports Sysfile
begin

text \<open>
  \<^verbatim>\<open>kernel/plic.c\<close>, \<^verbatim>\<open>kernel/trap.c\<close> and \<^verbatim>\<open>kernel/main.c\<close>: interrupts and traps, and the start of a hart.
\<close>

section \<open>kernel/plic.c\<close>

text \<open>\<open>plic_irq\<close> holds what the claim register of a hart reads; what is written to the controller is appended to
  \<open>plic_wr\<close>.\<close>

abbreviation (input) PLIC :: addr where "PLIC \<equiv> 0x0c000000"

definition PLIC_SENABLE :: "nat \<Rightarrow> addr" where "PLIC_SENABLE hart = PLIC + 0x2080 + of_nat hart * 0x100"
definition PLIC_SPRIORITY :: "nat \<Rightarrow> addr" where "PLIC_SPRIORITY hart = PLIC + 0x201000 + of_nat hart * 0x2000"
definition PLIC_SCLAIM :: "nat \<Rightarrow> addr" where "PLIC_SCLAIM hart = PLIC + 0x201004 + of_nat hart * 0x2000"

definition wr_plic :: "addr \<Rightarrow> uint32 \<Rightarrow> ('a ktab_scheme, unit) km" where
  "wr_plic a v = kmod (\<lambda>s. s\<lparr>plic_wr := plic_wr s @ [(a, v)]\<rparr>)"

definition plicinit :: "('a ktab_scheme, unit) km" where
  "plicinit = kseq (wr_plic (PLIC + 10 * 4) 1) (wr_plic (PLIC + 1 * 4) 1)"

definition plicinithart :: "('a ktab_scheme, unit) km" where
  "plicinithart =
     kbind (kgets (\<lambda>s. cpuid (mach s))) (\<lambda>hart.
     kseq (wr_plic (PLIC_SENABLE hart) (push_bit 10 1 OR push_bit 1 1))
          (wr_plic (PLIC_SPRIORITY hart) 0))"

definition plic_claim :: "('a ktab_scheme, uint32) km" where
  "plic_claim = kbind (kgets (\<lambda>s. cpuid (mach s))) (\<lambda>hart. kgets (\<lambda>s. plic_irq s hart))"

definition plic_complete :: "uint32 \<Rightarrow> ('a ktab_scheme, unit) km" where
  "plic_complete irq = kbind (kgets (\<lambda>s. cpuid (mach s))) (\<lambda>hart. wr_plic (PLIC_SCLAIM hart) irq)"

section \<open>kernel/trap.c\<close>

definition trapinit :: "('a ktab_scheme, unit) km" where
  "trapinit = on_mach (initlock Tickslock ''time'')"

definition trapinithart :: "('a ktab_scheme, unit) km" where
  "trapinithart = kmod (\<lambda>s. s\<lparr>stvec := kernelvec_at s\<rparr>)"

definition clockintr :: "('a ktab_scheme, unit) km" where
  "clockintr =
     kseq (lock_k Tickslock)
    (kseq (kmod (\<lambda>s. s\<lparr>ticks := ticks s + 1\<rparr>))
    (kseq (wakeup Chan_ticks)
          (unlock_k Tickslock)))"

definition devintr :: "('a ktab_scheme, nat) km" where
  "devintr =
     kbind (kgets scause) (\<lambda>sc.
     if bit sc 63 \<and> sc AND 0xff = 9 then
       kbind plic_claim (\<lambda>irq.
       kseq (if irq = 10 then uartintr
             else if irq = 1 then virtio_disk_intr
             else kwhen (irq \<noteq> 0) (kprintf (''unexpected interrupt irq=%d'' @ [CHR 0x0A]) [Kint irq]))
      (kseq (kwhen (irq \<noteq> 0) (plic_complete irq))
            (kret 1)))
     else if sc = 0x8000000000000001 then
       kbind (kgets (\<lambda>s. cpuid (mach s))) (\<lambda>h.
       kseq (kwhen (h = 0) clockintr)
      (kseq (kmod (\<lambda>s. s\<lparr>sip := sip s AND NOT 2\<rparr>))
            (kret 2)))
     else kret 0)"

text \<open>The jump to \<^verbatim>\<open>userret\<close>: the address and its two arguments.\<close>

definition usertrapret :: "('a ktab_scheme, uint64 \<times> uint64 \<times> uint64) km" where
  "usertrapret =
     kbind curproc (\<lambda>p.
     kseq (on_mach intr_off)
    (kseq (kmod (\<lambda>s. s\<lparr>stvec := TRAMPOLINE + (uservec_at s - trampoline_at s)\<rparr>))
    (kbind (kgets satp) (\<lambda>sa.
     kseq (set_tf p tf_kernel_satp sa)
    (kbind (getp kstack p) (\<lambda>ks.
     kseq (set_tf p tf_kernel_sp (ks + PGSIZE))
    (kbind (kgets usertrap_at) (\<lambda>ut.
     kseq (set_tf p tf_kernel_trap ut)
    (kbind (kgets (\<lambda>s. tp (mach s))) (\<lambda>h.
     kseq (set_tf p tf_kernel_hartid (of_nat h))
    (kseq (kmod (\<lambda>s. s\<lparr>spp := False, spie := True\<rparr>))
    (kbind (get_tf p tf_epc) (\<lambda>epc.
     kseq (kmod (\<lambda>s. s\<lparr>sepc := epc\<rparr>))
    (kgets (\<lambda>s. (TRAMPOLINE + (userret_at s - trampoline_at s), TRAPFRAME, MAKE_SATP (pagetable (procs s p))))))))))))))))))"

text \<open>How \<^verbatim>\<open>usertrap\<close> ends: back to user space, gone after \<^verbatim>\<open>exit\<close>, or switched away by \<^verbatim>\<open>yield\<close>, which
  \<^verbatim>\<open>usertrapret\<close> follows when it comes back.\<close>

datatype trapend = To_user "uint64 \<times> uint64 \<times> uint64" | Gone | Yielded bool

definition usertrap_cause :: "nat \<Rightarrow> ('a ktab_scheme, bool \<times> nat) km" where
  "usertrap_cause p =
     kbind (kgets scause) (\<lambda>sc.
     if sc = 8 then
       kbind (getp killed p) (\<lambda>kl.
       if kl then kseq (exit_out (- 1)) (kret (True, 0))
       else kbind (get_tf p tf_epc) (\<lambda>epc.
       kseq (set_tf p tf_epc (epc + 4))
      (kseq (on_mach intr_on)
      (kbind syscall (\<lambda>gone. kret (gone, 0))))))
     else if sc = 15 then
       kbind (kgets (\<lambda>s. (pagetable (procs s p), stval s))) (\<lambda>(pt, va).
       kbind (cowalloc pt va) (\<lambda>r.
       kseq (kwhen (r < 0) (updp p (\<lambda>x. x\<lparr>killed := True\<rparr>)))
            (kret (False, 0))))
     else
       kbind devintr (\<lambda>d.
       if d \<noteq> 0 then kret (False, d)
       else kbind (kgets (\<lambda>s. (sepc s, stval s, pid (procs s p)))) (\<lambda>(pc, sv, i).
       kseq (kprintf (''usertrap(): unexpected scause %p pid=%d'' @ [CHR 0x0A]) [Kptr sc, Kint (word_of_int i)])
      (kseq (kprintf (''            sepc=%p stval=%p'' @ [CHR 0x0A]) [Kptr pc, Kptr sv])
      (kseq (updp p (\<lambda>x. x\<lparr>killed := True\<rparr>))
            (kret (False, 0)))))))"

definition usertrap :: "('a ktab_scheme, trapend) km" where
  "usertrap =
     kbind (kgets spp) (\<lambda>s.
     if s then kpanic ''usertrap: not from user mode''
     else kseq (kmod (\<lambda>s. s\<lparr>stvec := kernelvec_at s\<rparr>))
    (kbind curproc (\<lambda>p.
     kbind (kgets sepc) (\<lambda>pc.
     kseq (set_tf p tf_epc pc)
    (kbind (usertrap_cause p) (\<lambda>(gone, d).
     if gone then kret Gone
     else kbind (getp killed p) (\<lambda>kl.
     if kl then kseq (exit_out (- 1)) (kret Gone)
     else if d = 2 then kbind yield_out (\<lambda>ie. kret (Yielded ie))
     else kbind usertrapret (\<lambda>r. kret (To_user r)))))))))"

definition forkret :: "('a ktab_scheme, uint64 \<times> uint64 \<times> uint64) km" where
  "forkret =
     kbind curproc (\<lambda>p.
     kseq (unlock_k (Proc_lock p))
    (kbind (kgets first) (\<lambda>f.
     kseq (kwhen f (kseq (kmod (\<lambda>s. s\<lparr>first := False\<rparr>)) (fsinit ROOTDEV)))
          usertrapret)))"

text \<open>The rest of \<^verbatim>\<open>usertrap\<close> after \<^verbatim>\<open>yield\<close> comes back.\<close>

definition usertrap_in :: "nat \<Rightarrow> bool \<Rightarrow> ('a ktab_scheme, trapend) km" where
  "usertrap_in p ie = kseq (yield_in p ie) (kbind usertrapret (\<lambda>r. kret (To_user r)))"

text \<open>\<^verbatim>\<open>kerneltrap\<close>: \<open>Some\<close> when it yields; \<open>kerneltrap_in\<close> follows when it comes back.\<close>

definition kerneltrap_in :: "nat \<Rightarrow> bool \<Rightarrow> uint64 \<Rightarrow> bool \<Rightarrow> bool \<Rightarrow> ('a ktab_scheme, unit) km" where
  "kerneltrap_in p ie pc sp si = kseq (yield_in p ie) (kmod (\<lambda>s. s\<lparr>sepc := pc, spp := sp, spie := si\<rparr>))"

definition kerneltrap :: "('a ktab_scheme, bool option) km" where
  "kerneltrap =
     kbind (kgets (\<lambda>s. (sepc s, spp s, spie s, scause s))) (\<lambda>(pc, sp, si, sc).
     if \<not> sp then kpanic ''kerneltrap: not from supervisor mode''
     else kbind (kgets (\<lambda>s. intr_get (mach s))) (\<lambda>on.
     if on then kpanic ''kerneltrap: interrupts enabled''
     else kbind devintr (\<lambda>d.
     if d = 0
     then kbind (kgets (\<lambda>s. (sepc s, stval s))) (\<lambda>(pc, sv).
          kseq (kprintf (''scause %p'' @ [CHR 0x0A]) [Kptr sc])
         (kseq (kprintf (''sepc=%p stval=%p'' @ [CHR 0x0A]) [Kptr pc, Kptr sv])
               (kpanic ''kerneltrap'')))
     else kbind (if d = 2 then kbind myproc (\<lambda>me.
                   case me of None \<Rightarrow> kret False
                   | Some _ \<Rightarrow> kbind curproc (\<lambda>p. kbind (getp pstate p) (\<lambda>st. kret (st = RUNNING))))
                 else kret False) (\<lambda>running.
     if running then kbind yield_out (\<lambda>ie. kret (Some ie))
     else kseq (kmod (\<lambda>s. s\<lparr>sepc := pc, spp := sp, spie := si\<rparr>)) (kret None)))))"

section \<open>kernel/main.c\<close>

text \<open>\<^verbatim>\<open>main\<close> up to the call of \<^verbatim>\<open>scheduler\<close>, which does not return.  A hart that spins on \<^verbatim>\<open>started\<close> has the outcome
  \<open>Out_of_fuel\<close>.\<close>

definition main_first :: "('a ktab_scheme, unit) km" where
  "main_first =
     kseq consoleinit
    (kseq printfinit
    (kseq (kprintf [CHR 0x0A] [])
    (kseq (kprintf (''xv6 kernel is booting'' @ [CHR 0x0A]) [])
    (kseq (kprintf [CHR 0x0A] [])
    (kseq kinit
    (kseq kvminit
    (kseq kvminithart
    (kseq procinit
    (kseq trapinit
    (kseq trapinithart
    (kseq plicinit
    (kseq plicinithart
    (kseq binit
    (kseq iinit
    (kseq fileinit
    (kseq virtio_disk_init
    (kseq userinit
          (kmod (\<lambda>s. s\<lparr>started := True\<rparr>)))))))))))))))))))"

definition main_other :: "('a ktab_scheme, unit) km" where
  "main_other =
     kbind (kgets started) (\<lambda>go.
     if \<not> go then kfail Out_of_fuel
     else kbind (kgets (\<lambda>s. cpuid (mach s))) (\<lambda>h.
     kseq (kprintf (''hart %d starting'' @ [CHR 0x0A]) [Kint (of_nat h)])
    (kseq kvminithart
    (kseq trapinithart
          plicinithart))))"

definition main :: "('a ktab_scheme, unit) km" where
  "main = kbind (kgets (\<lambda>s. cpuid (mach s))) (\<lambda>h. if h = 0 then main_first else main_other)"

end
