(* ===== verification/Bytering.thy ===== *)
theory Bytering
  imports Ram
begin

text \<open>
  Circular byte buffers.  A pipe, the console input and the UART output keep bytes in an array of \<open>N\<close>
  cells with two counters that only ever grow, modulo the size of the machine word: \<open>r\<close> bytes have been
  taken out, \<open>w\<close> put in, and byte number \<open>i\<close> is in cell \<open>i mod N\<close>.  \<open>ring_list\<close> is what is inside.  The
  laws hold across the wrap-around of the counters because \<open>N\<close> divides the number of words.
\<close>

definition ring_list :: "'w::len word \<Rightarrow> (nat \<Rightarrow> uint8) \<Rightarrow> 'w word \<Rightarrow> 'w word \<Rightarrow> uint8 list" where
  "ring_list N buf r w = map (\<lambda>i. buf (unat ((r + of_nat i) mod N))) [0..<unat (w - r)]"

lemma length_ring_list [simp]: "length (ring_list N buf r w) = unat (w - r)"
  by (simp add: ring_list_def)

locale byte_ring =
  fixes N :: "'w::len word"
  assumes pos: "0 < unat N" and divides: "unat N dvd 2 ^ LENGTH('w)"
begin

lemma cell: "unat ((r + of_nat i) mod N) = (unat r + i) mod unat N"
proof -
  have "unat (r + of_nat i) mod unat N = (unat r + i) mod 2 ^ LENGTH('w) mod unat N"
    by (simp add: unat_word_ariths unat_of_nat mod_simps)
  then show ?thesis using divides by (simp add: unat_mod mod_mod_cancel)
qed

lemma cell0: "unat (r mod N) = unat r mod unat N"
  by (simp add: unat_mod)

lemma count: "unat (x :: 'w word) = n \<Longrightarrow> x = of_nat n"
  by auto

lemma empty_iff: "ring_list N buf r w = [] \<longleftrightarrow> r = w"
proof -
  have "ring_list N buf r w = [] \<longleftrightarrow> unat (w - r) = 0" by (metis length_0_conv length_ring_list)
  then show ?thesis by (auto simp: unat_eq_0)
qed

lemma put:
  assumes room: "length (ring_list N buf r w) < unat N"
  shows "ring_list N (buf(unat (w mod N) := c)) r (w + 1) = ring_list N buf r w @ [c]"
proof -
  define k where "k = unat (w - r)"
  have k: "k < unat N" using room by (simp add: k_def)
  have N: "unat N < 2 ^ LENGTH('w)" by (rule unsigned_less)
  have w: "w = r + of_nat k" by (simp add: k_def)
  have "w + 1 - r = of_nat (Suc k)" by (simp add: w)
  moreover have "Suc k < 2 ^ LENGTH('w)" using k N by linarith
  ultimately have sz: "unat (w + 1 - r) = Suc k" by (simp only: unat_of_nat mod_less)
  have hit: "unat (w mod N) = (unat r + k) mod unat N" using cell [of r k] w by simp
  have "(buf(unat (w mod N) := c)) (unat ((r + of_nat i) mod N)) = buf (unat ((r + of_nat i) mod N))" if "i < k" for i
  proof -
    have "(unat r + i) mod unat N \<noteq> (unat r + k) mod unat N"
    proof
      assume "(unat r + i) mod unat N = (unat r + k) mod unat N"
      then have "unat N dvd (unat r + k) - (unat r + i)" using that by (intro mod_eq_dvd_iff_nat [THEN iffD1]) auto
      then have "unat N dvd k - i" by simp
      then show False using that k by (auto dest: dvd_imp_le)
    qed
    then show ?thesis by (simp add: cell hit)
  qed
  then show ?thesis unfolding ring_list_def sz k_def [symmetric] using cell [of r k] w by simp
qed

lemma get:
  assumes "r \<noteq> w"
  shows "ring_list N buf r w = buf (unat (r mod N)) # ring_list N buf (r + 1) w"
proof -
  have "unat (w - r) \<noteq> 0" using assms by (auto simp: unat_eq_0)
  then obtain k where k: "unat (w - r) = Suc k" by (cases "unat (w - r)") auto
  have "w - (r + 1) = w - r - 1" by simp
  moreover have wr: "w - r = of_nat (Suc k)" by (rule count [OF k])
  ultimately have "w - (r + 1) = of_nat k" by simp
  moreover have "unat (w - r) < 2 ^ LENGTH('w)" by (rule unsigned_less)
  then have "k < 2 ^ LENGTH('w)" using k by simp
  ultimately have sz: "unat (w - (r + 1)) = k" by (simp only: unat_of_nat mod_less)
  show ?thesis unfolding ring_list_def k sz by (simp add: upt_conv_Cons map_Suc_upt [symmetric] add.assoc del: upt_Suc)
qed

lemma unput:
  assumes "r \<noteq> w"
  shows "ring_list N buf r (w - 1) = butlast (ring_list N buf r w)"
proof -
  have "unat (w - r) \<noteq> 0" using assms by (auto simp: unat_eq_0)
  then have "unat (w - 1 - r) = unat (w - r) - 1"
    using unat_minus_one [of "w - r"] by (simp add: algebra_simps unat_eq_0)
  then show ?thesis by (simp add: ring_list_def butlast_conv_take take_map take_upt)
qed

lemma last_cell:
  assumes "r \<noteq> w"
  shows "buf (unat ((w - 1) mod N)) = last (ring_list N buf r w)"
proof -
  have "unat (w - r) \<noteq> 0" using assms by (auto simp: unat_eq_0)
  then obtain k where k: "unat (w - r) = Suc k" by (cases "unat (w - r)") auto
  have "w - r = of_nat (Suc k)" by (rule count [OF k])
  then have "w - 1 = r + of_nat k" by (simp add: algebra_simps)
  then show ?thesis unfolding ring_list_def k by (simp add: last_map)
qed

lemma between:
  assumes "unat (w - r) + unat (e - w) \<le> unat N"
  shows "unat (e - r) = unat (w - r) + unat (e - w)" "ring_list N buf r e = ring_list N buf r w @ ring_list N buf w e"
proof -
  have "unat N < 2 ^ LENGTH('w)" by (rule unsigned_less)
  with assms have lt: "unat (w - r) + unat (e - w) < 2 ^ LENGTH('w)" by (rule le_less_trans)
  have "e - r = (w - r) + (e - w)" by simp
  then show sum: "unat (e - r) = unat (w - r) + unat (e - w)"
    using lt by (metis unat_word_ariths(1) mod_less)
  have "[0..<unat (e - r)] = [0..<unat (w - r)] @ map (\<lambda>i. unat (w - r) + i) [0..<unat (e - w)]"
    unfolding sum by (rule nth_equalityI) (auto simp: nth_append)
  then show "ring_list N buf r e = ring_list N buf r w @ ring_list N buf w e"
    by (simp add: ring_list_def comp_def)
qed

lemma put_beyond:
  assumes "unat (w - r) + unat (e - w) < unat N"
  shows "ring_list N (buf(unat (e mod N) := c)) r w = ring_list N buf r w"
    "ring_list N (buf(unat (e mod N) := c)) w (e + 1) = ring_list N buf w e @ [c]"
proof -
  have *: "length (ring_list N buf w e) < unat N" "unat (e - r) < unat N" using assms between(1) [of w r e] by auto
  show b: "ring_list N (buf(unat (e mod N) := c)) w (e + 1) = ring_list N buf w e @ [c]" by (rule put [OF *(1)])
  have "length (ring_list N (buf(unat (e mod N) := c)) w (e + 1)) = Suc (unat (e - w))" unfolding b by simp
  then have "unat (e + 1 - w) = Suc (unat (e - w))" by (simp only: length_ring_list)
  then have "ring_list N (buf(unat (e mod N) := c)) r (e + 1) =
      ring_list N (buf(unat (e mod N) := c)) r w @ ring_list N (buf(unat (e mod N) := c)) w (e + 1)"
    using assms by (intro between(2)) simp
  moreover have "ring_list N (buf(unat (e mod N) := c)) r (e + 1) = ring_list N buf r e @ [c]" using *(2) by (intro put) simp
  moreover have "ring_list N buf r e = ring_list N buf r w @ ring_list N buf w e" using assms by (intro between(2)) simp
  ultimately show "ring_list N (buf(unat (e mod N) := c)) r w = ring_list N buf r w" unfolding b by simp
qed

lemma full_iff:
  assumes "length (ring_list N buf r w) \<le> unat N"
  shows "w = r + N \<longleftrightarrow> length (ring_list N buf r w) = unat N"
proof
  assume "length (ring_list N buf r w) = unat N"
  then have "w - r = N" by (simp add: word_unat_eq_iff)
  then show "w = r + N" by (simp add: algebra_simps)
qed simp

end

interpretation ring128: byte_ring "128 :: uint32"
  by unfold_locales simp_all

interpretation ring512: byte_ring "512 :: uint32"
  by unfold_locales simp_all

interpretation ring32: byte_ring "32 :: uint64"
  by unfold_locales simp_all

end
