(* ===== verification/Pipeops.thy ===== *)
theory Pipeops
  imports File Bytering Aspace Txn
begin

text \<open>
  What a pipe promises: \<^verbatim>\<open>pipewrite\<close> puts the bytes of the caller's address space at the end of the queue that
  the pipe's page holds, and \<^verbatim>\<open>piperead\<close> takes them from its front into the reader's address space.
\<close>

section \<open>The queue in the page\<close>

definition piped :: "ram \<Rightarrow> addr \<Rightarrow> uint8 list" where
  "piped m pi = ring_list 512 (\<lambda>i. m (pi + 24 + of_nat i)) (nread m pi) (nwrite m pi)"

text \<open>Two places of a page.\<close>

lemma page_diff:
  assumes "p < 4096" "q < 4096"
  shows "unat (of_nat p - of_nat q :: addr) = (if q \<le> p then p - q else p + 2 ^ 64 - q)"
  using assms by (simp add: unat_sub_if' word_le_nat_alt unat_of_nat)

lemma page_eq: "p < 4096 \<Longrightarrow> q < 4096 \<Longrightarrow> (pi + of_nat p = (pi + of_nat q :: addr)) = (p = q)"
  by (auto simp: unat_of_nat dest!: arg_cong [where f = unat])

lemma st32_at:
  assumes "p < 4096" "q < 4096" "p < q \<or> q + 4 \<le> p"
  shows "st32 m (pi + of_nat q) v (pi + of_nat p) = m (pi + of_nat p)"
  using assms by (intro stw_other) (auto simp: page_diff)

lemma ld32_st32_at:
  assumes "p + 4 \<le> 4096" "q < 4096" "p + 4 \<le> q \<or> q + 4 \<le> p"
  shows "ld32 (st32 m (pi + of_nat q) v) (pi + of_nat p) = ld32 m (pi + of_nat p)"
proof (rule ldw_cong)
  fix i :: nat assume "i < 4"
  then have "st32 m (pi + of_nat q) v (pi + of_nat (p + i)) = m (pi + of_nat (p + i))" using assms by (intro st32_at) auto
  then show "st32 m (pi + of_nat q) v (pi + of_nat p + of_nat i) = m (pi + of_nat p + of_nat i)" by (simp add: add.assoc)
qed

lemma ld32_byte_at:
  assumes "p + 4 \<le> 4096" "q < 4096" "q < p \<or> p + 4 \<le> q"
  shows "ld32 (m(pi + of_nat q := c)) (pi + of_nat p) = ld32 m (pi + of_nat p)"
proof (rule ldw_cong)
  fix i :: nat assume "i < 4"
  then have "pi + of_nat (p + i) \<noteq> pi + of_nat q" using assms by (subst page_eq) auto
  then show "(m(pi + of_nat q := c)) (pi + of_nat p + of_nat i) = m (pi + of_nat p + of_nat i)" by (simp add: add.assoc)
qed

lemma ring_list_cong:
  assumes "\<And>i. i < unat N \<Longrightarrow> f i = g i" "N \<noteq> 0"
  shows "ring_list N f r w = ring_list N g r w"
  using assms by (simp add: ring_list_def unat_mod unat_gt_0)

lemma pipe_cell: "pipe_data pi i = pi + of_nat (24 + unat (i mod 512))" "unat (i mod 512) < 512"
proof -
  show "unat (i mod 512) < 512" by (simp add: unat_mod)
  show "pipe_data pi i = pi + of_nat (24 + unat (i mod 512))" by (simp add: pipe_data_def add.assoc)
qed

definition pipe_fields :: "ram \<Rightarrow> addr \<Rightarrow> uint32 \<times> uint32 \<times> uint32 \<times> uint32" where
  "pipe_fields m pi = (nread m pi, nwrite m pi, readopen m pi, writeopen m pi)"

lemma pipe_put:
  assumes "w = nwrite m pi" and m': "m' = (set_nwrite pi (w + 1) m)(pipe_data pi w := c)"
  shows "pipe_fields m' pi = (nread m pi, w + 1, readopen m pi, writeopen m pi)"
    and "length (piped m pi) < 512 \<Longrightarrow> piped m' pi = piped m pi @ [c]"
proof -
  let ?j = "unat (w mod 512)"
  note st = ld32_st32_at [of _ 540 m pi "w + 1", simplified]
  note byte = ld32_byte_at [of _ "24 + ?j" "set_nwrite pi (w + 1) m" pi c, unfolded pipe_cell(1) [symmetric]]
  have j: "?j < 512" by (rule pipe_cell(2))
  show f: "pipe_fields m' pi = (nread m pi, w + 1, readopen m pi, writeopen m pi)"
    using byte [of 536] byte [of 540] byte [of 544] byte [of 548] st [of 536] st [of 544] st [of 548] j
    by (simp add: pipe_fields_def m' nread_def nwrite_def readopen_def writeopen_def set_nwrite_def)
  have e: "(pi + of_nat (24 + i) = pi + of_nat (24 + ?j)) = (i = ?j)" if "i < 512" for i
    using page_eq [of "24 + i" "24 + ?j" pi] that j by linarith
  have "m' (pi + 24 + of_nat i) = ((\<lambda>i. m (pi + 24 + of_nat i))(?j := c)) i" if i: "i < 512" for i
    using i st32_at [of "24 + i" 540 m pi "w + 1"] e [OF i]
    by (auto simp: m' pipe_cell set_nwrite_def add.assoc)
  then have "piped m' pi = ring_list 512 ((\<lambda>i. m (pi + 24 + of_nat i))(?j := c)) (nread m pi) (w + 1)"
    using f unfolding piped_def pipe_fields_def by (auto intro!: ring_list_cong)
  then show "length (piped m pi) < 512 \<Longrightarrow> piped m' pi = piped m pi @ [c]"
    using ring512.put [of "\<lambda>i. m (pi + 24 + of_nat i)" "nread m pi" "nwrite m pi" c] assms(1) by (simp add: piped_def)
qed

lemma pipe_same:
  assumes "same_page m m' pi" "aligned pi"
  shows "pipe_fields m' pi = pipe_fields m pi" "piped m' pi = piped m pi"
proof -
  have at: "m' (pi + of_nat q) = m (pi + of_nat q)" if "q < 4096" for q
    using same_page_at [OF assms, of "of_nat q"] that by (simp add: word_less_nat_alt unat_of_nat)
  have "ld32 m' (pi + of_nat q) = ld32 m (pi + of_nat q)" if "q + 4 \<le> 4096" for q
    using at [of "q + _"] that by (intro ldw_cong) (simp add: add.assoc)
  from this [of 536] this [of 540] this [of 544] this [of 548] show f: "pipe_fields m' pi = pipe_fields m pi"
    by (simp add: pipe_fields_def nread_def nwrite_def readopen_def writeopen_def)
  have "m' (pi + 24 + of_nat i) = m (pi + 24 + of_nat i)" if "i < 512" for i
    using at [of "24 + i"] that by (simp add: add.assoc)
  then show "piped m' pi = piped m pi"
    using f unfolding piped_def pipe_fields_def by (auto intro!: ring_list_cong)
qed

lemma pipe_take:
  assumes "r = nread m pi" "r \<noteq> nwrite m pi"
  shows "pipe_fields (set_nread pi (r + 1) m) pi = (r + 1, nwrite m pi, readopen m pi, writeopen m pi)"
    and "piped m pi = m (pipe_data pi r) # piped (set_nread pi (r + 1) m) pi"
proof -
  let ?m = "set_nread pi (r + 1) m"
  note st = ld32_st32_at [of _ 536 m pi "r + 1", simplified]
  show f: "pipe_fields ?m pi = (r + 1, nwrite m pi, readopen m pi, writeopen m pi)"
    using st [of 540] st [of 544] st [of 548]
    by (simp add: pipe_fields_def nread_def nwrite_def readopen_def writeopen_def set_nread_def)
  have "?m (pi + 24 + of_nat i) = m (pi + 24 + of_nat i)" if i: "i < 512" for i
    using i st32_at [of "24 + i" 536 m pi "r + 1"] by (simp add: set_nread_def add.assoc)
  then have "piped ?m pi = ring_list 512 (\<lambda>i. m (pi + 24 + of_nat i)) (r + 1) (nwrite m pi)"
    using f unfolding piped_def pipe_fields_def by (auto intro!: ring_list_cong)
  then show "piped m pi = m (pipe_data pi r) # piped ?m pi"
    using ring512.get [OF assms(2), of "\<lambda>i. m (pi + 24 + of_nat i)"] assms(1) by (simp add: piped_def pipe_cell add.assoc)
qed

lemma pipe_pages:
  assumes "aligned pi" "q < 4096"
  shows "PGROUNDDOWN (pi + of_nat q) = pi"
  using assms by (intro PGROUNDDOWN_add) (simp_all add: word_less_nat_alt unat_of_nat)

lemma st32_outside:
  assumes "aligned pi" "q + 4 \<le> 4096" "PGROUNDDOWN x \<noteq> pi"
  shows "st32 m (pi + of_nat q) v x = m x"
proof (cases "unat (x - (pi + of_nat q)) < 4")
  case True
  have "x = pi + of_nat (q + unat (x - (pi + of_nat q)))" by (simp add: algebra_simps)
  moreover have "PGROUNDDOWN (pi + of_nat (q + unat (x - (pi + of_nat q)))) = pi" by (rule pipe_pages) (use True assms in auto)
  ultimately show ?thesis using assms(3) by metis
qed (simp add: stw_def)

section \<open>Writing\<close>

text \<open>The bytes of a view from \<open>a\<close> on, at most \<open>k\<close>, up to the first that is missing.\<close>

primrec in_view :: "(uint64 \<Rightarrow> uint8 option) \<Rightarrow> uint64 \<Rightarrow> nat \<Rightarrow> uint8 list" where
  "in_view V a 0 = []"
| "in_view V a (Suc k) = (case V a of None \<Rightarrow> [] | Some c \<Rightarrow> c # in_view V (a + 1) k)"

lemma length_in_view: "length (in_view V a k) \<le> k"
  by (induction k arbitrary: a) (auto split: option.splits)

definition kernel_pages :: "addr set \<Rightarrow> (addr \<Rightarrow> int) \<Rightarrow> 'a pmem_scheme \<Rightarrow> addr \<Rightarrow> addr \<Rightarrow> bool" where
  "kernel_pages R ext s pi ch \<longleftrightarrow> aligned pi \<and> kown R ext s pi \<and> kown R ext s (PGROUNDDOWN ch) \<and> PGROUNDDOWN ch \<noteq> pi \<and> unat ch + 1 < 2 ^ 64"

text \<open>A change of the two pages of the kernel alone.\<close>

lemma kernel_write:
  assumes "vinv R ext fl s" "\<forall>p. 0 \<le> ext p" "kernel_pages R ext s pi ch"
    and m: "\<And>x. PGROUNDDOWN x \<notin> {pi, PGROUNDDOWN ch} \<Longrightarrow> m x = ram s x"
  shows "vinv R ext fl (s\<lparr>ram := m\<rparr>)" "r \<in> R \<Longrightarrow> uview (s\<lparr>ram := m\<rparr>) r = uview s r" "kernel_pages R ext (s\<lparr>ram := m\<rparr>) pi ch"
proof -
  have p: "same_page (ram s) m x" if "\<not> kown R ext s x" for x
    unfolding same_page_def using that m assms(3) by (metis empty_iff insert_iff kernel_pages_def)
  note w = vm_write_kernel [OF assms(1,2) p]
  show "vinv R ext fl (s\<lparr>ram := m\<rparr>)" "r \<in> R \<Longrightarrow> uview (s\<lparr>ram := m\<rparr>) r = uview s r"
    using w by auto
  show "kernel_pages R ext (s\<lparr>ram := m\<rparr>) pi ch" using w(4) assms(3) by (simp add: kernel_pages_def)
qed

lemma copyin_byte:
  assumes "vinv R ext fl s" "\<forall>p. 0 \<le> ext p" "r \<in> R" "kernel_pages R ext s pi ch"
  shows "copyin r ch a 1 s = (case uview s r a of None \<Rightarrow> Inr (- 1, s) | Some c \<Rightarrow> Inr (0, s\<lparr>ram := (ram s)(ch := c)\<rparr>))"
proof -
  have d: "kdest R ext s ch (unat (1 :: uint64))" using assms(4) by (auto simp: kdest_def kernel_pages_def unat_eq_0)
  have f0: "fetched s r a ch 0 = ram s" by (simp add: fetched_def)
  have f1: "fetched s r a ch (unat (1 :: uint64)) = (ram s)(ch := the (uview s r a))"
    by (auto simp: fetched_def fun_eq_iff unat_eq_0)
  have z: "unat (va - a) < unat (1 :: uint64) \<longleftrightarrow> va = a" for va by (auto simp: unat_eq_0)
  show ?thesis using copyin_post [OF assms(1-3) d, of a] unfolding z f1
    by (auto simp: f0 split: option.splits)
qed

text \<open>One byte that goes in.\<close>

lemma pipewrite_byte:
  assumes v: "vinv R ext fl s" "\<forall>p. 0 \<le> ext p" "r \<in> R" "kernel_pages R ext s pi ch"
    and room: "length (piped (ram s) pi) < 512" and c: "m = (ram s)(ch := c)" "w = nwrite m pi"
  defines "t \<equiv> s\<lparr>ram := (set_nwrite pi (w + 1) m)(pipe_data pi w := m ch)\<rparr>"
  shows "vinv R ext fl t" "kernel_pages R ext t pi ch" "uview t r = uview s r"
    "piped (ram t) pi = piped (ram s) pi @ [c]" "readopen (ram t) pi = readopen (ram s) pi"
    "\<And>x. PGROUNDDOWN x \<notin> {pi, PGROUNDDOWN ch} \<Longrightarrow> ram t x = ram s x"
proof -
  have al: "aligned pi" "PGROUNDDOWN ch \<noteq> pi" using v(4) by (auto simp: kernel_pages_def)
  have same: "same_page (ram s) m pi" using al by (auto simp: same_page_def c)
  note s = pipe_same [OF same al(1)]
  note p = pipe_put [OF c(2) refl, of "m ch"]
  show "piped (ram t) pi = piped (ram s) pi @ [c]" using p(2) room s by (simp add: t_def c(1))
  show "readopen (ram t) pi = readopen (ram s) pi" using p(1) s by (simp add: t_def pipe_fields_def)
  have far: "PGROUNDDOWN x \<noteq> pi \<Longrightarrow> x \<noteq> pi + of_nat q" if "q < 4096" for x q using pipe_pages [OF al(1) that] by auto
  have i: "(set_nwrite pi (w + 1) m) x = m x" if "PGROUNDDOWN x \<noteq> pi" for x
    using st32_outside [OF al(1) _ that, of 540] by (simp add: set_nwrite_def)
  show o: "\<And>x. PGROUNDDOWN x \<notin> {pi, PGROUNDDOWN ch} \<Longrightarrow> ram t x = ram s x"
    using i far [of "24 + unat (w mod 512)"] pipe_cell [where i = w] by (auto simp: t_def c(1))
  show "vinv R ext fl t" "kernel_pages R ext t pi ch" "uview t r = uview s r"
    using kernel_write [OF v(1,2,4), of "ram t"] o v(3) by (auto simp: t_def)
qed

lemma pipewrite_loop_ok:
  fixes s :: "'a ptable_scheme"
  assumes "vinv R ext fl s" "\<forall>p. 0 \<le> ext p" "r \<in> R" "kernel_pages R ext s pi ch"
    and "length (piped (ram s) pi) + k \<le> 512" "readopen (ram s) pi \<noteq> 0" "\<not> killed (procs s pr)" "pagetable (procs s pr) = r"
  shows "\<exists>m. pipewrite_loop k pi pr ch a i s = Inr (Inr (i + length (in_view (uview s r) (a + of_nat i) k)), s\<lparr>ram := m\<rparr>) \<and>
     piped m pi = piped (ram s) pi @ in_view (uview s r) (a + of_nat i) k \<and>
     (\<forall>x. PGROUNDDOWN x \<notin> {pi, PGROUNDDOWN ch} \<longrightarrow> m x = ram s x)"
  using assms(1,4-)
proof (induction k arbitrary: i s)
  case 0
  then show ?case by (intro exI [of _ "ram s"]) (simp add: kret_def)
next
  case (Suc k)
  note v = Suc.prems(1) assms(2,3) Suc.prems(2)
  have nf: "nwrite (ram s) pi \<noteq> nread (ram s) pi + 512"
    using ring512.full_iff [of "\<lambda>i. ram s (pi + 24 + of_nat i)" "nread (ram s) pi" "nwrite (ram s) pi"] Suc.prems(3)
    by (simp add: piped_def)
  note ci = copyin_byte [OF v, of "a + of_nat i"]
  show ?case
  proof (cases "uview s r (a + of_nat i)")
    case None
    then show ?thesis using Suc.prems nf ci
      by (intro exI [of _ "ram s"]) (simp add: kbind_def kgets_def kret_def)
  next
    case (Some c)
    let ?m = "(ram s)(ch := c)" let ?w = "nwrite ?m pi"
    define t where "t = s\<lparr>ram := (set_nwrite pi (?w + 1) ?m)(pipe_data pi ?w := ?m ch)\<rparr>"
    have room: "length (piped (ram s) pi) < 512" using Suc.prems(3) by simp
    note b = pipewrite_byte [OF v room, of ?m c ?w, OF refl refl, folded t_def]
    have step: "pipewrite_loop (Suc k) pi pr ch a i s = pipewrite_loop k pi pr ch a (Suc i) t"
      using Suc.prems nf ci Some by (simp add: kseq_def kbind_def kgets_def kmod_def t_def Let_def)
    have pt: "procs t = procs s" by (simp add: t_def)
    have eq: "in_view (uview s r) (a + of_nat i) (Suc k) = c # in_view (uview s r) (a + of_nat (Suc i)) k"
      using Some by (simp add: add_ac)
    have "\<exists>m. pipewrite_loop k pi pr ch a (Suc i) t = Inr (Inr (Suc i + length (in_view (uview t r) (a + of_nat (Suc i)) k)), t\<lparr>ram := m\<rparr>) \<and>
       piped m pi = piped (ram t) pi @ in_view (uview t r) (a + of_nat (Suc i)) k \<and>
       (\<forall>x. PGROUNDDOWN x \<notin> {pi, PGROUNDDOWN ch} \<longrightarrow> m x = ram t x)"
      by (rule Suc.IH [OF b(1,2)]) (use Suc.prems b(4,5) in \<open>simp_all add: pt\<close>)
    then obtain m where m: "pipewrite_loop k pi pr ch a (Suc i) t = Inr (Inr (Suc i + length (in_view (uview s r) (a + of_nat (Suc i)) k)), t\<lparr>ram := m\<rparr>)"
      "piped m pi = piped (ram t) pi @ in_view (uview s r) (a + of_nat (Suc i)) k"
      "\<forall>x. PGROUNDDOWN x \<notin> {pi, PGROUNDDOWN ch} \<longrightarrow> m x = ram t x" unfolding b(3) by blast
    have st: "t\<lparr>ram := m\<rparr> = s\<lparr>ram := m\<rparr>" by (simp add: t_def)
    have "piped m pi = piped (ram s) pi @ c # in_view (uview s r) (a + of_nat (Suc i)) k" using m(2) b(4) by simp
    moreover have "\<forall>x. PGROUNDDOWN x \<notin> {pi, PGROUNDDOWN ch} \<longrightarrow> m x = ram s x"
      by (intro allI impI trans [OF m(3) [rule_format] b(6)])
    ultimately show ?thesis unfolding step eq m(1) st by (intro exI [of _ m]) simp
  qed
qed

lemma vinv_same:
  assumes "vinv R ext fl s" "ram t = ram s" "freelist t = freelist s" "refcnt t = refcnt s" "kend t = kend s" "quiet alloc_locks t"
  shows "vinv R ext fl t"
proof -
  have "leaf_ok t = leaf_ok s" "owned t = owned s" "kinv fl t = kinv fl s"
    by (intro ext, simp only: leaf_ok_def assms(2-5)) (intro ext, simp only: owned_def assms(2-5), simp only: kinv_def assms(2-5))
  then show ?thesis using assms(1,6) unfolding vinv_def assms(2-5) by simp
qed

lemma uview_same: "ram t = ram s \<Longrightarrow> uview t = uview s"
  by (intro ext) (simp add: uview_def Let_def)

lemma kernel_pages_same: "ram t = ram s \<Longrightarrow> kend t = kend s \<Longrightarrow> kernel_pages R ext t pi ch = kernel_pages R ext s pi ch"
  by (simp add: kernel_pages_def kown_def)

text \<open>C16: \<^verbatim>\<open>pipewrite\<close> on a pipe with room for the request returns the number of bytes it took, which are those
  of the caller's address space up to the first that is not mapped; they are put at the end of the pipe's
  queue in their order, no address space changes, and every reader is woken.
\<close>

theorem pipewrite_appends:
  fixes s :: "'a ptable_scheme"
  assumes "vinv R ext fl s" "\<forall>p. 0 \<le> ext p" "pagetable (procs s pr) \<in> R" "kernel_pages R ext s pi ch" "runs pr s"
    and "length (piped (ram s) pi) + nat (sint n) \<le> 512" "readopen (ram s) pi \<noteq> 0" "\<not> killed (procs s pr)"
    and bs: "bs = in_view (uview s (pagetable (procs s pr))) a (nat (sint n))"
  shows "\<exists>s'. pipewrite ch pi a n s = Inr (int (length bs), s') \<and> piped (ram s') pi = piped (ram s) pi @ bs \<and>
     vinv R ext fl s' \<and> (\<forall>r\<in>R. uview s' r = uview s r) \<and>
     (\<forall>q<64. Some q \<noteq> cur s \<longrightarrow> \<not> (pstate (procs s' q) = SLEEPING \<and> pchan (procs s' q) = Some (Chan_pipe_nread pi)))"
proof -
  let ?r = "pagetable (procs s pr)" let ?t = "s\<lparr>mach := taken (Pipe_lock pi) (settle (mach s))\<rparr>"
  have a: "irq_ok (mach s)" "lk_free (mach s) l" "cur s = Some pr" for l using assms(5) by (auto simp: runs_def)
  have v: "vinv R ext fl ?t" by (rule vinv_same [OF assms(1)]) (use a in \<open>auto simp: quiet_def\<close>)
  have u: "uview ?t = uview s" by (rule uview_same) simp
  have k: "kernel_pages R ext ?t pi ch" using assms(4) by (simp add: kernel_pages_same [of ?t s])
  obtain m where m: "pipewrite_loop (nat (sint n)) pi pr ch a 0 ?t = Inr (Inr (length bs), ?t\<lparr>ram := m\<rparr>)"
      "piped m pi = piped (ram s) pi @ bs" "\<forall>x. PGROUNDDOWN x \<notin> {pi, PGROUNDDOWN ch} \<longrightarrow> m x = ram s x"
    using pipewrite_loop_ok [OF v assms(2,3) k, of "nat (sint n)" pr a 0] assms(6-8) unfolding u bs by auto
  note w = kernel_write [OF assms(1,2,4), of m]
  let ?u = "?t\<lparr>ram := m\<rparr>"
  have "quiet proc_locks ?u" using a by (auto simp: quiet_def)
  from wakeup_eq [OF this, of "Chan_pipe_nread pi"] have
    "wakeup (Chan_pipe_nread pi) ?u = Inr ((), ?u\<lparr>procs := woken (Chan_pipe_nread pi) (cur s) 64 (procs s)\<rparr>)" using a by simp
  then have run: "pipewrite ch pi a n s =
      Inr (int (length bs), s\<lparr>mach := settle (mach s), ram := m, procs := woken (Chan_pipe_nread pi) (cur s) 64 (procs s)\<rparr>)"
    using m(1) a by (simp add: pipewrite_def kseq_def kbind_def kret_def locking curproc_eq)
  let ?e = "s\<lparr>mach := settle (mach s), ram := m, procs := woken (Chan_pipe_nread pi) (cur s) 64 (procs s)\<rparr>"
  have "vinv R ext fl ?e" by (rule vinv_same [OF w(1)]) (use m(3) a in \<open>auto simp: quiet_def\<close>)
  moreover have "uview ?e = uview (s\<lparr>ram := m\<rparr>)" by (rule uview_same) simp
  then have "\<forall>r\<in>R. uview ?e r = uview s r" using w(2) m(3) by metis
  ultimately show ?thesis using m(2) woken_awake [of _ 64 "cur s" "Chan_pipe_nread pi" "procs s"]
    by (intro exI [of _ ?e] conjI run) simp_all
qed

section \<open>Reading\<close>

definition put_view :: "(uint64 \<Rightarrow> uint8 option) \<Rightarrow> uint64 \<Rightarrow> uint8 list \<Rightarrow> uint64 \<Rightarrow> uint8 option" where
  "put_view V a bs va = (if unat (va - a) < length bs then Some (bs ! unat (va - a)) else V va)"

lemma put_view_Nil [simp]: "put_view V a [] = V"
  by (simp add: put_view_def fun_eq_iff)

lemma put_view_Cons:
  assumes "length bs + 1 < 2 ^ 64"
  shows "put_view (put_view V a [c]) (a + 1) bs = put_view V a (c # bs)"
proof
  fix va
  have d: "va - (a + 1) = (va - a) - 1" by simp
  show "put_view (put_view V a [c]) (a + 1) bs va = put_view V a (c # bs) va"
  proof (cases "va = a")
    case True
    have "unat (- 1 :: uint64) = 2 ^ 64 - 1" by (simp add: unat_sub_if' [of 0 1, simplified])
    then show ?thesis using True assms by (simp add: put_view_def)
  next
    case False
    then have "unat (va - a) \<noteq> 0" by (simp add: unat_eq_0)
    moreover have "unat ((va - a) - 1) = unat (va - a) - 1" using False by (intro unat_minus_one) simp
    ultimately show ?thesis by (auto simp: put_view_def d nth_Cons')
  qed
qed

lemma copyout_byte:
  assumes v: "vinv R ext fl s" "\<forall>p. 0 \<le> ext p" "r \<in> R" "kernel_pages R ext s pi ch"
  shows "(\<exists>fl' s'. copyout r d ch 1 s = Inr (0, s') \<and> vinv R ext fl' s' \<and> kframe ext s s' \<and> kernel_pages R ext s' pi ch \<and> uview s r d \<noteq> None \<and>
       (\<forall>r'\<in>R. uview s' r' = (if r' = r then put_view (uview s r) d [ram s ch] else uview s r')))
    \<or> (\<exists>s'. copyout r d ch 1 s = Inr (- 1, s') \<and> vinv R ext fl s' \<and> kframe ext s s' \<and> (\<forall>r'\<in>R. uview s' r' = uview s r') \<and>
       (fl \<noteq> [] \<longrightarrow> uview s r d = None))"
proof -
  have one: "chunk d 1 = 1"
  proof -
    have "0 < unat (chunk d 1)" "unat (chunk d 1) \<le> 1" using chunk_props [of 1 d] by (auto simp: unat_gt_0)
    then show ?thesis by (simp add: word_unat_eq_iff)
  qed
  have buf: "kbuf ext s ch (unat (1 :: uint64))"
    using v(4) by (auto simp: kbuf_def kernel_pages_def kown_def kpage_def unat_eq_0)
  have w: "written s r d ch 1 r' = (if r' = r then put_view (uview s r) d [ram s ch] else uview s r')" for r'
    by (auto simp: written_def put_view_def fun_eq_iff unat_eq_0)
  from copyout_body_post [OF v(1-3) one_neq_zero buf, of d] show ?thesis
  proof (elim disjE exE conjE)
    fix fl' s' assume b: "copyout_body r d ch 1 s = Inr (True, s')" "vupd R ext s (valid s) (written s r d ch (unat (chunk d 1))) fl' s'"
      "\<forall>va. PGROUNDDOWN va = PGROUNDDOWN d \<longrightarrow> uview s r va \<noteq> None" "\<forall>p. kown R ext s p \<longrightarrow> kown R ext s' p"
    have "copyout r d ch 1 s = Inr (0, s')" using b(1) one by (simp add: copyout.simps)
    moreover have "kernel_pages R ext s' pi ch" using b(4) v(4) by (simp add: kernel_pages_def)
    ultimately show ?thesis using b(3) vupdD(1,2,5) [OF b(2)] w by (intro disjI1) (auto simp: one fun_eq_iff)
  next
    fix s' assume b: "copyout_body r d ch 1 s = Inr (False, s')" "vupd R ext s (valid s) (uview s) fl s'" "fl \<noteq> [] \<longrightarrow> uview s r d = None"
    have "copyout r d ch 1 s = Inr (- 1, s')" using b(1) by (simp add: copyout.simps)
    then show ?thesis using b(3) vupdD(1,2,5) [OF b(2)] by (intro disjI2) (auto simp: fun_eq_iff)
  qed
qed

text \<open>One byte that comes out, up to the copy into the reader's memory.\<close>

lemma piperead_front:
  assumes v: "vinv R ext fl s" "\<forall>p. 0 \<le> ext p" "kernel_pages R ext s pi ch"
    and q: "piped (ram s) pi = c # q" and n: "n = nread (ram s) pi"
  defines "t \<equiv> s\<lparr>ram := (set_nread pi (n + 1) (ram s))(ch := ram s (pipe_data pi n))\<rparr>"
  shows "vinv R ext fl t" "kernel_pages R ext t pi ch" "r \<in> R \<Longrightarrow> uview t r = uview s r" "piped (ram t) pi = q" "ram t ch = c"
proof -
  have al: "aligned pi" "PGROUNDDOWN ch \<noteq> pi" using v(3) by (auto simp: kernel_pages_def)
  have ne: "n \<noteq> nwrite (ram s) pi"
    using q ring512.empty_iff [of "\<lambda>i. ram s (pi + 24 + of_nat i)" n "nwrite (ram s) pi"] by (auto simp: piped_def n)
  note tk = pipe_take [OF n ne]
  have "same_page (set_nread pi (n + 1) (ram s)) (ram t) pi" using al by (auto simp: same_page_def t_def)
  from pipe_same [OF this al(1)] show "piped (ram t) pi = q" using tk(2) q by simp
  show "ram t ch = c" using tk(2) q by (simp add: t_def)
  have i: "(set_nread pi (n + 1) (ram s)) x = ram s x" if "PGROUNDDOWN x \<noteq> pi" for x
    using st32_outside [OF al(1) _ that, of 536] by (simp add: set_nread_def)
  have o: "\<And>x. PGROUNDDOWN x \<notin> {pi, PGROUNDDOWN ch} \<Longrightarrow> ram t x = ram s x" using i by (auto simp: t_def)
  show "vinv R ext fl t" "kernel_pages R ext t pi ch" "r \<in> R \<Longrightarrow> uview t r = uview s r"
    using kernel_write [OF v, of "ram t"] o by (auto simp: t_def)
qed

text \<open>The state after \<open>j\<close> bytes: what the reader sees, what is left, and that nothing else has changed.\<close>

definition after_read :: "addr set \<Rightarrow> (addr \<Rightarrow> int) \<Rightarrow> addr \<Rightarrow> uint64 \<Rightarrow> uint8 list \<Rightarrow> 'a ptable_scheme \<Rightarrow> addr list \<Rightarrow> 'a ptable_scheme \<Rightarrow> bool" where
  "after_read R ext r a bs s fl s' \<longleftrightarrow> vinv R ext fl s' \<and> mach s' = mach s \<and> procs s' = procs s \<and>
     (\<forall>r'\<in>R. uview s' r' = (if r' = r then put_view (uview s r) a bs else uview s r'))"

lemma kframe_ptable:
  fixes s :: "'a ptable_scheme"
  assumes "kframe ext s s'" "settle (mach s) = mach s"
  shows "mach s' = mach s" "procs s' = procs s"
  using assms by (cases s; cases s'; auto simp: kframe_def mem_only_def)+

lemma piped_frame:
  assumes "kframe ext s s'" "kernel_pages R ext s pi ch"
  shows "piped (ram s') pi = piped (ram s) pi"
  using assms by (intro pipe_same(2)) (auto simp: kframe_def kernel_pages_def kown_def kpage_def)

lemma piperead_byte_ok:
  fixes s :: "'a ptable_scheme"
  assumes v: "vinv R ext fl s" "\<forall>p. 0 \<le> ext p" "r \<in> R" "kernel_pages R ext s pi ch" "settle (mach s) = mach s"
    and p: "pagetable (procs s pr) = r" and q: "piped (ram s) pi = c # q"
  shows "(\<exists>fl' s'. piperead_byte pi pr ch a i s = Inr (None, s') \<and> after_read R ext r (a + of_nat i) [c] s fl' s' \<and>
       kernel_pages R ext s' pi ch \<and> piped (ram s') pi = q)
    \<or> (\<exists>s'. piperead_byte pi pr ch a i s = Inr (Some i, s') \<and> after_read R ext r (a + of_nat i) [] s fl s' \<and> piped (ram s') pi = q \<and>
       (fl \<noteq> [] \<longrightarrow> uview s r (a + of_nat i) = None))"
proof -
  let ?n = "nread (ram s) pi"
  define t where "t = s\<lparr>ram := (set_nread pi (?n + 1) (ram s))(ch := ram s (pipe_data pi ?n))\<rparr>"
  note f = piperead_front [OF v(1,2,4) q refl, folded t_def]
  have ne: "nread (ram s) pi \<noteq> nwrite (ram s) pi"
    using q ring512.empty_iff [of "\<lambda>i. ram s (pi + 24 + of_nat i)" ?n "nwrite (ram s) pi"] by (auto simp: piped_def)
  have step: "piperead_byte pi pr ch a i s = kbind (copyout r (a + of_nat i) ch 1) (\<lambda>rc. kret (if rc = - 1 then Some i else None)) t"
    using ne p by (simp add: piperead_byte_def kseq_def kbind_def kgets_def kmod_def t_def Let_def)
  have mt: "mach t = mach s" "procs t = procs s" "settle (mach t) = mach t" using v(5) by (simp_all add: t_def)
  from copyout_byte [OF f(1) v(2,3) f(2), of "a + of_nat i"] show ?thesis
  proof (elim disjE exE conjE)
    fix fl' s' assume b: "copyout r (a + of_nat i) ch 1 t = Inr (0, s')" "vinv R ext fl' s'" "kframe ext t s'" "kernel_pages R ext s' pi ch"
      "\<forall>r'\<in>R. uview s' r' = (if r' = r then put_view (uview t r) (a + of_nat i) [ram t ch] else uview t r')"
    have "after_read R ext r (a + of_nat i) [c] s fl' s'"
      using b(2,5) f(3,5) mt kframe_ptable [OF b(3) mt(3)] v(3) by (simp add: after_read_def)
    then show ?thesis using b(1,4) piped_frame [OF b(3) f(2)] f(4) unfolding step by (intro disjI1) (auto simp: kbind_def kret_def)
  next
    fix s' assume b: "copyout r (a + of_nat i) ch 1 t = Inr (- 1, s')" "vinv R ext fl s'" "kframe ext t s'" "\<forall>r'\<in>R. uview s' r' = uview t r'"
      "fl \<noteq> [] \<longrightarrow> uview t r (a + of_nat i) = None"
    have "after_read R ext r (a + of_nat i) [] s fl s'"
      using b(2,4) f(3) mt kframe_ptable [OF b(3) mt(3)] v(3) by (simp add: after_read_def)
    then show ?thesis using b(1,5) piped_frame [OF b(3) f(2)] f(3,4) v(3) unfolding step by (intro disjI2) (auto simp: kbind_def kret_def)
  qed
qed

lemma after_read_cons:
  assumes "after_read R ext r x [c] s fl1 s1" "after_read R ext r (x + 1) bs s1 fl2 s2" "r \<in> R" "length bs + 1 < 2 ^ 64"
  shows "after_read R ext r x (c # bs) s fl2 s2"
  using assms(1-3) put_view_Cons [OF assms(4), of "uview s r" x c] by (simp add: after_read_def)

lemma after_read_none:
  assumes "after_read R ext r x bs s fl s'" "r \<in> R" "uview s' r y = None"
  shows "uview s r y = None"
  using assms by (simp add: after_read_def put_view_def split: if_splits)

definition read_out :: "nat \<Rightarrow> uint8 list \<Rightarrow> uint8 list \<Rightarrow> uint8 list \<Rightarrow> bool \<Rightarrow> bool" where
  "read_out k q bs q' fault \<longleftrightarrow> bs = take k q \<and> q' = drop k q
     \<or> length bs < min k (length q) \<and> bs = take (length bs) q \<and> q' = drop (Suc (length bs)) q \<and> fault"

lemma read_out_Cons: "read_out k q bs q' fault \<Longrightarrow> read_out (Suc k) (c # q) (c # bs) q' fault"
  by (auto simp: read_out_def)

lemma piperead_loop_ok:
  fixes s :: "'a ptable_scheme"
  assumes "vinv R ext fl s" "\<forall>p. 0 \<le> ext p" "r \<in> R" "kernel_pages R ext s pi ch" "settle (mach s) = mach s"
    and "pagetable (procs s pr) = r" "k + 1 < 2 ^ 64"
  shows "\<exists>bs fl' s'. kscan [i..<i + k] (piperead_byte pi pr ch a) s = Inr (if length bs = k then None else Some (i + length bs), s') \<and>
     after_read R ext r (a + of_nat i) bs s fl' s' \<and> length bs \<le> k \<and>
     read_out k (piped (ram s) pi) bs (piped (ram s') pi) (fl' = [] \<or> uview s r (a + of_nat (i + length bs)) = None)"
  using assms(1,4-)
proof (induction k arbitrary: i s fl)
  case 0
  then show ?case
    by (intro exI [of _ "[]"] exI [of _ fl] exI [of _ s]) (simp add: kret_def after_read_def read_out_def)
next
  case (Suc k)
  note v = Suc.prems(1) assms(2,3) Suc.prems(2,3)
  have up: "[i..<i + Suc k] = i # [Suc i..<Suc i + k]" by (simp add: upt_rec)
  show ?case
  proof (cases "piped (ram s) pi")
    case Nil
    then have "nread (ram s) pi = nwrite (ram s) pi" using ring512.empty_iff by (simp add: piped_def)
    then have "piperead_byte pi pr ch a i s = Inr (Some i, s)" by (simp add: piperead_byte_def kbind_def kgets_def kret_def)
    then show ?thesis unfolding up using Nil v
      by (intro exI [of _ "[]"] exI [of _ fl] exI [of _ s]) (simp add: kbind_def kret_def after_read_def read_out_def)
  next
    case (Cons c q)
    from piperead_byte_ok [OF v Suc.prems(4) Cons, of a i] show ?thesis
    proof (elim disjE exE conjE)
      fix fl1 s1 assume b: "piperead_byte pi pr ch a i s = Inr (None, s1)" "after_read R ext r (a + of_nat i) [c] s fl1 s1"
        "kernel_pages R ext s1 pi ch" "piped (ram s1) pi = q"
      have s1: "vinv R ext fl1 s1" "settle (mach s1) = mach s1" "procs s1 = procs s"
        using b(2) Suc.prems(3) by (auto simp: after_read_def)
      have k: "k + 1 < 2 ^ 64" using Suc.prems(5) by simp
      obtain bs fl' s' where i: "kscan [Suc i..<Suc i + k] (piperead_byte pi pr ch a) s1 = Inr (if length bs = k then None else Some (Suc i + length bs), s')"
        "after_read R ext r (a + of_nat (Suc i)) bs s1 fl' s'" "length bs \<le> k"
        "read_out k q bs (piped (ram s') pi) (fl' = [] \<or> uview s1 r (a + of_nat (Suc i + length bs)) = None)"
        using Suc.IH [OF s1(1) b(3) s1(2) _ k, of "Suc i"] Suc.prems(4) s1(3) b(4) by auto
      have "after_read R ext r (a + of_nat i) (c # bs) s fl' s'"
        using i(2,3) k by (intro after_read_cons [OF b(2) _ assms(3)]) (simp_all add: add_ac)
      moreover have "read_out (Suc k) (c # q) (c # bs) (piped (ram s') pi) (fl' = [] \<or> uview s r (a + of_nat (i + length (c # bs))) = None)"
        using read_out_Cons [OF i(4), of c] after_read_none [OF b(2) assms(3)] by (auto simp: read_out_def)
      ultimately show ?thesis unfolding up Cons using b(1) i(1,3)
        by (intro exI [of _ "c # bs"] exI [of _ fl'] exI [of _ s']) (simp add: kbind_def)
    next
      fix s1 assume b: "piperead_byte pi pr ch a i s = Inr (Some i, s1)" "after_read R ext r (a + of_nat i) [] s fl s1" "piped (ram s1) pi = q"
        "fl \<noteq> [] \<longrightarrow> uview s r (a + of_nat i) = None"
      then show ?thesis unfolding up Cons
        by (intro exI [of _ "[]"] exI [of _ fl] exI [of _ s1]) (auto simp: kbind_def kret_def read_out_def)
    qed
  qed
qed

text \<open>C17: \<^verbatim>\<open>piperead\<close> on a pipe that is not empty, or whose writers are gone, returns the number of bytes it
  delivered.  They are the first of the queue, at most \<^verbatim>\<open>n\<close>, and they are what the reader sees at \<^verbatim>\<open>addr\<close>;
  every other byte of every address space is unchanged, copy-on-write pages included.  Fewer bytes than
  asked for and present are delivered only if the next address is not mapped or memory has run out, and then
  one byte is taken from the pipe that is not delivered.  Every writer is woken.
\<close>

theorem piperead_takes:
  fixes s :: "'a ptable_scheme"
  assumes "vinv R ext fl s" "\<forall>p. 0 \<le> ext p" "pagetable (procs s pr) \<in> R" "kernel_pages R ext s pi ch" "runs pr s"
    and "piped (ram s) pi \<noteq> [] \<or> writeopen (ram s) pi = 0" and r: "r = pagetable (procs s pr)"
  shows "\<exists>bs fl' s'. piperead ch pi a n s = Inr (int (length bs), s') \<and> vinv R ext fl' s' \<and>
     (\<forall>r'\<in>R. uview s' r' = (if r' = r then put_view (uview s r) a bs else uview s r')) \<and>
     read_out (nat (sint n)) (piped (ram s) pi) bs (piped (ram s') pi) (fl' = [] \<or> uview s r (a + of_nat (length bs)) = None) \<and>
     (\<forall>q<64. Some q \<noteq> cur s \<longrightarrow> \<not> (pstate (procs s' q) = SLEEPING \<and> pchan (procs s' q) = Some (Chan_pipe_nwrite pi)))"
proof -
  let ?t = "s\<lparr>mach := taken (Pipe_lock pi) (settle (mach s))\<rparr>" and ?k = "nat (sint n)" and ?c = "Chan_pipe_nwrite pi"
  have a: "irq_ok (mach s)" "lk_free (mach s) l" "cur s = Some pr" for l using assms(5) by (auto simp: runs_def)
  have v: "vinv R ext fl ?t" by (rule vinv_same [OF assms(1)]) (use a in \<open>auto simp: quiet_def\<close>)
  have u: "uview ?t = uview s" by (rule uview_same) simp
  have k: "kernel_pages R ext ?t pi ch" using assms(4) by (simp add: kernel_pages_same [of ?t s])
  have n: "?k + 1 < 2 ^ 64" using sint_less [of n] by simp
  have go: "\<not> (nread (ram s) pi = nwrite (ram s) pi \<and> writeopen (ram s) pi \<noteq> 0)"
    using assms(6) by (auto simp: piped_def ring_list_def)
  obtain bs fl' t where t: "kscan [0..<?k] (piperead_byte pi pr ch a) ?t = Inr (if length bs = ?k then None else Some (length bs), t)"
      "after_read R ext r a bs ?t fl' t"
      "read_out ?k (piped (ram s) pi) bs (piped (ram t) pi) (fl' = [] \<or> uview s r (a + of_nat (length bs)) = None)"
    using piperead_loop_ok [OF v assms(2,3) k _ _ n, of pr 0 a] a(1) unfolding u r by (simp cong: if_cong) blast
  have m: "mach t = mach ?t" "procs t = procs s" "vinv R ext fl' t" using t(2) by (auto simp: after_read_def)
  have "quiet proc_locks t" using a by (auto simp: quiet_def m)
  moreover have "cur t = cur s" by (simp add: m)
  ultimately have w: "wakeup ?c t = Inr ((), t\<lparr>procs := woken ?c (cur s) 64 (procs s)\<rparr>)" using wakeup_eq [of t ?c] m a by simp
  let ?e = "t\<lparr>procs := woken ?c (cur s) 64 (procs s), mach := settle (mach s)\<rparr>"
  have run: "piperead ch pi a n s = Inr (int (length bs), ?e)"
    using t(1) w a go m(1) by (auto simp: piperead_def kseq_def kbind_def kret_def locking curproc_eq)
  have "vinv R ext fl' ?e" by (rule vinv_same [OF m(3)]) (use a in \<open>auto simp: quiet_def\<close>)
  moreover have "uview ?e = uview t" by (rule uview_same) simp
  then have "\<forall>r'\<in>R. uview ?e r' = (if r' = r then put_view (uview s r) a bs else uview s r')"
    using t(2) u by (simp add: after_read_def)
  moreover have "ram ?e = ram t" "procs ?e = woken ?c (cur s) 64 (procs s)" by simp_all
  moreover have "\<forall>q<64. Some q \<noteq> cur s \<longrightarrow> \<not> (pstate (procs ?e q) = SLEEPING \<and> pchan (procs ?e q) = Some ?c)"
    using woken_awake [of _ 64 "cur s" ?c "procs s"] by simp
  ultimately show ?thesis using t(3) by (intro exI [of _ bs] exI [of _ fl'] exI [of _ ?e] conjI run) (assumption | simp only:)+
qed

section \<open>A pipe with one byte\<close>

definition pipe_ram :: ram where
  "pipe_ram = (\<lambda>_. 0)(0x8000121C := 1, 0x80001220 := 1, 0x80001224 := 1)"

definition pipe_world :: ptable where
  "pipe_world = \<lparr>mach = machine0\<lparr>cpus := (\<lambda>_. \<lparr>noff = 0, intena = False, cpu_proc = Some 0\<rparr>)\<rparr>, ram = pipe_ram,
     freelist = freelist two_tables, refcnt = refcnt two_tables, kend = kend two_tables,
     procs = (\<lambda>_. proc0\<lparr>pagetable := parent_pt\<rparr>), nextpid = 2, initproc = Some 0\<rparr>"

lemma ld32_bytes:
  "ld32 m a = ucast (m a) OR push_bit 8 (ucast (m (a + 1)) OR push_bit 8 (ucast (m (a + 1 + 1)) OR push_bit 8 (ucast (m (a + 1 + 1 + 1)))))"
proof -
  have "(4 :: nat) = Suc (Suc (Suc (Suc 0)))" by simp
  then show ?thesis by (simp only: ldw.simps) simp
qed

lemma pipe_world_ok:
  "vinv {parent_pt, child_pt} (\<lambda>_. 0) [0x87FFD000] pipe_world" "kernel_pages {parent_pt, child_pt} (\<lambda>_. 0) pipe_world 0x80001000 0x80002000"
  "runs 0 pipe_world" "piped (ram pipe_world) 0x80001000 = [0]" "readopen (ram pipe_world) 0x80001000 = 1" "uview pipe_world parent_pt a = None"
proof -
  let ?R = "{parent_pt, child_pt}" and ?e = "\<lambda>_ :: addr. 0 :: int"
  have no: "\<not> usable (kend two_tables) 0x80001000" "\<not> usable (kend two_tables) 0x80002000"
    by (simp_all add: two_tables_def usable_two_tables)
  have k: "kernel_pages ?R ?e two_tables 0x80001000 0x80002000"
    using no by (simp add: kernel_pages_def kown_def aligned_def PGROUNDDOWN_def)
  have m: "pipe_ram x = ram two_tables x" if "PGROUNDDOWN x \<notin> {0x80001000, PGROUNDDOWN 0x80002000}" for x
    using that by (auto simp: pipe_ram_def two_tables_def PGROUNDDOWN_def)
  note w = kernel_write [OF two_tables_vinv _ k m]
  show "vinv ?R ?e [0x87FFD000] pipe_world"
    by (rule vinv_same [OF w(1)]) (auto simp: pipe_world_def quiet_def irq_ok_def lk_free_def machine0_def machine_defs)
  show "kernel_pages ?R ?e pipe_world 0x80001000 0x80002000"
    using no by (simp add: kernel_pages_def kown_def aligned_def PGROUNDDOWN_def pipe_world_def)
  have "uview pipe_world = uview (two_tables\<lparr>ram := pipe_ram\<rparr>)" by (rule uview_same) (simp add: pipe_world_def)
  then show "uview pipe_world parent_pt a = None" using w(2) [of parent_pt] by (simp add: two_tables_empty)
  show "runs 0 pipe_world"
    by (simp add: pipe_world_def runs_def mcur_def irq_ok_def lk_free_def machine0_def machine_defs)
  have f: "nread pipe_ram 0x80001000 = 0" "nwrite pipe_ram 0x80001000 = 1" "readopen pipe_ram 0x80001000 = 1"
    unfolding nread_def nwrite_def readopen_def ld32_bytes by (simp_all add: pipe_ram_def)
  then show "piped (ram pipe_world) 0x80001000 = [0]" "readopen (ram pipe_world) 0x80001000 = 1"
    by (simp_all add: pipe_world_def piped_def ring_list_def) (simp add: pipe_ram_def)
qed

lemma pipe_world_proc: "pagetable (procs pipe_world 0) = parent_pt" "\<not> killed (procs pipe_world 0)"
  by (simp_all add: pipe_world_def proc0_def)

theorem pipewrite_appends_witness:
  "\<exists>s'. pipewrite 0x80002000 0x80001000 0 1 pipe_world = Inr (0, s') \<and> piped (ram s') 0x80001000 = [0]"
  using pipewrite_appends [OF pipe_world_ok(1) _ _ pipe_world_ok(2,3), of 1 "[]" 0]
  by (auto simp: pipe_world_ok(4-6) pipe_world_proc)

theorem piperead_takes_witness:
  "\<exists>r s'. piperead 0x80002000 0x80001000 0 1 pipe_world = Inr (r, s') \<and> piped (ram s') 0x80001000 = []"
  using piperead_takes [OF pipe_world_ok(1) _ _ pipe_world_ok(2,3) _ refl, of 0 1] pipe_world_ok(4)
  by (auto simp: read_out_def pipe_world_proc)

end
