(* ===== verification/Consops.thy ===== *)
theory Consops
  imports Uart Txn Bytering
begin

text \<open>
  What the console and the UART driver promise: the bytes handed to the driver leave in their order, and
  the interrupt handler edits lines as the abstract editor does.
\<close>

section \<open>States in which the drivers run\<close>

definition calm :: "'a contab_scheme \<Rightarrow> bool" where
  "calm s \<longleftrightarrow> irq_ok (mach s) \<and> (\<forall>l. lk_free (mach s) l) \<and> \<not> panicked s"

text \<open>The effect of an echo: output to the device, nothing else.\<close>

definition echoed :: "'a contab_scheme \<Rightarrow> 'a contab_scheme \<Rightarrow> bool" where
  "echoed s s' \<longleftrightarrow> (\<exists>i g. s' = s\<lparr>mach := settle (mach s), u_idle := i, u_regs := g\<rparr>)"

lemma echoed_trans: "echoed s t \<Longrightarrow> echoed t u \<Longrightarrow> echoed s u"
  unfolding echoed_def by (elim exE) (simp, blast)

lemma echoed_refl: "settle (mach s) = mach s \<Longrightarrow> echoed s s"
  unfolding echoed_def by (intro exI [of _ "u_idle s"] exI [of _ "u_regs s"]) simp

lemma echoedD:
  assumes "echoed s s'"
  shows "mach s' = settle (mach s)" "panicked s' = panicked s" "pr_locking s' = pr_locking s" "procs s' = procs s"
    "cons_buf s' = cons_buf s" "cons_r s' = cons_r s" "cons_w s' = cons_w s" "cons_e s' = cons_e s"
    "uart_tx_buf s' = uart_tx_buf s" "uart_tx_r s' = uart_tx_r s" "uart_tx_w s' = uart_tx_w s"
    "u_rx s' = u_rx s"
  using assms by (auto simp: echoed_def)

lemma uartputc_sync_eq:
  assumes "irq_ok (mach s)" "\<not> panicked s"
  shows "uartputc_sync c s =
    Inr ((), s\<lparr>mach := settle (mach s), u_idle := tl (dropWhile Not (u_idle s)), u_regs := u_regs s @ [(THR, c)]\<rparr>)"
  using assms by (simp add: uartputc_sync_def kmonad on_mach_def push_off_eq pop_off_pushed WriteReg_def)

lemma consputc_echoes:
  assumes "irq_ok (mach s)" "\<not> panicked s"
  shows "\<exists>s'. consputc c s = Inr ((), s') \<and> echoed s s'"
  using assms by (auto simp: consputc_def kmonad uartputc_sync_eq echoed_def)

text \<open>Output while a lock is held, so that the interrupt state is settled already; the locks \<open>L\<close> are free.\<close>

definition printing :: "lockid set \<Rightarrow> 'a contab_scheme \<Rightarrow> bool" where
  "printing L s \<longleftrightarrow> irq_ok (mach s) \<and> settle (mach s) = mach s \<and> \<not> panicked s \<and> (\<forall>l\<in>L. lk_free (mach s) l)"

definition prints :: "lockid set \<Rightarrow> ('a contab_scheme, unit) km \<Rightarrow> bool" where
  "prints L m \<longleftrightarrow> (\<forall>s. printing L s \<longrightarrow> (\<exists>s'. m s = Inr ((), s') \<and> echoed s s'))"

lemma echoed_printing: "echoed s s' \<Longrightarrow> printing L s \<Longrightarrow> printing L s'"
  by (auto simp: printing_def echoedD(1,2))

lemma prints_ret: "prints L (kret ())"
  by (auto simp: prints_def printing_def intro: echoed_refl)

lemma prints_putc: "prints L (consputc c)"
  using consputc_echoes by (auto simp: prints_def printing_def)

lemma prints_seq:
  assumes "prints L m" "prints L n"
  shows "prints L (kseq m n)"
  unfolding prints_def
proof (intro allI impI)
  fix s :: "'a contab_scheme" assume s: "printing L s"
  then obtain s1 where 1: "m s = Inr ((), s1)" "echoed s s1" using assms(1) by (auto simp: prints_def)
  then obtain s2 where "n s1 = Inr ((), s2)" "echoed s1 s2" using assms(2) echoed_printing [OF 1(2) s] by (auto simp: prints_def)
  then show "\<exists>s'. kseq m n s = Inr ((), s') \<and> echoed s s'" using 1 echoed_trans by (auto simp: kmonad)
qed

lemma prints_for: "(\<And>i. prints L (f i)) \<Longrightarrow> prints L (kfor xs f)"
  by (induction xs) (simp_all add: prints_ret prints_seq)

lemma prints_gets: "(\<And>x. prints L (f x)) \<Longrightarrow> prints L (kbind (kgets g) f)"
  by (auto simp: prints_def)

lemma prints_when: "prints L m \<Longrightarrow> prints L (kwhen b m)"
  by (simp add: kwhen_def prints_ret)

lemma prints_int: "prints L (kprintint x base sgned)"
  unfolding kprintint_def Let_def by (intro prints_for prints_putc)

lemma kprintf_prints:
  assumes "prints {} (kprintf_loop fmt ap :: ('a contab_scheme, unit) km)"
  shows "prints {Pr_lock} (kprintf fmt ap :: ('a contab_scheme, unit) km)"
  unfolding prints_def
proof (intro allI impI)
  fix s :: "'a contab_scheme" assume s: "printing {Pr_lock} s"
  define t where "t = (if pr_locking s then s\<lparr>mach := taken Pr_lock (mach s)\<rparr> else s)"
  have l: "kwhen (pr_locking s) (lock_k Pr_lock) s = Inr ((), t)" using s by (simp add: t_def printing_def locking)
  have "printing {} t" using s by (auto simp: printing_def t_def)
  then obtain i g where p: "kprintf_loop fmt ap t = Inr ((), t\<lparr>mach := settle (mach t), u_idle := i, u_regs := g\<rparr>)"
    using assms by (auto simp: prints_def echoed_def)
  have "kwhen (pr_locking s) (unlock_k Pr_lock) (t\<lparr>mach := settle (mach t), u_idle := i, u_regs := g\<rparr>) =
      Inr ((), s\<lparr>mach := settle (mach s), u_idle := i, u_regs := g\<rparr>)"
    using s by (simp add: t_def printing_def locking)
  then show "\<exists>s'. kprintf fmt ap s = Inr ((), s') \<and> echoed s s'"
    using l p by (auto simp: kprintf_def kbind_def kseq_def kgets_def echoed_def)
qed

lemma procdump_prints: "prints {Pr_lock} procdump"
proof -
  have nl: "prints {Pr_lock} (kprintf [CHR 0x0A] [])" by (rule kprintf_prints) (simp add: prints_putc)
  have "prints {} (kprintf_loop ''%d %s %s'' [Kint a, Kstr (Some b), Kstr (Some c)])" for a b c
    by (simp del: kfor.simps) (intro prints_seq prints_int prints_putc prints_for prints_ret)
  then have "prints {Pr_lock} (kprintf ''%d %s %s'' [Kint a, Kstr (Some b), Kstr (Some c)])" for a b c by (rule kprintf_prints)
  then show ?thesis unfolding procdump_def
    by (intro prints_seq prints_for prints_gets prints_when nl)
qed

section \<open>The transmit buffer\<close>

definition pending :: "'a contab_scheme \<Rightarrow> uint8 list" where
  "pending s = ring_list 32 (uart_tx_buf s) (uart_tx_r s) (uart_tx_w s)"

lemma uartstart_loop_ok:
  assumes "printing {} s" "quiet proc_locks s" "n = length (pending s)"
  shows "\<exists>s'. uartstart_loop (Suc n) s = Inr ((), s') \<and> mach s' = mach s \<and> panicked s' = panicked s \<and>
     cons_buf s' = cons_buf s \<and> cons_r s' = cons_r s \<and> cons_w s' = cons_w s \<and> cons_e s' = cons_e s \<and> u_rx s' = u_rx s \<and>
     sent s' @ pending s' = sent s @ pending s \<and> length (pending s') \<le> n"
  using assms
proof (induction n arbitrary: s)
  case 0
  then have "uart_tx_w s = uart_tx_r s" using ring32.empty_iff [of "uart_tx_buf s" "uart_tx_r s" "uart_tx_w s"]
    by (simp add: pending_def unat_eq_0)
  then show ?case using 0 by (auto simp: kmonad)
next
  case (Suc n)
  have ne: "uart_tx_r s \<noteq> uart_tx_w s" using Suc.prems(3) by (auto simp: pending_def)
  note get = ring32.get [OF ne, of "uart_tx_buf s"]
  show ?case
  proof (cases "u_idle s = [] \<or> hd (u_idle s)")
    case True
    let ?c = "uart_tx_buf s (unat (uart_tx_r s mod 32))"
    let ?t = "s\<lparr>u_idle := tl (u_idle s), uart_tx_r := uart_tx_r s + 1\<rparr>"
    define u where "u = ?t\<lparr>procs := woken Chan_uart_tx_r (cur s) 64 (procs s), u_regs := u_regs s @ [(THR, ?c)]\<rparr>"
    have q: "quiet proc_locks ?t" using Suc.prems(2) by (simp add: quiet_def)
    have w: "wakeup Chan_uart_tx_r ?t = Inr ((), ?t\<lparr>procs := woken Chan_uart_tx_r (cur s) 64 (procs s)\<rparr>)"
      using wakeup_eq [OF q, of Chan_uart_tx_r] Suc.prems(1) by (simp add: printing_def)
    have step: "uartstart_loop (Suc (Suc n)) s = uartstart_loop (Suc n) u"
      using ne w True unfolding uartstart_loop.simps(2) [of "Suc n"]
      by (auto simp: tx_idle_def kseq_def kbind_def kgets_def kmod_def kret_def WriteReg_def u_def simp del: uartstart_loop.simps)
    have u: "printing {} u" "quiet proc_locks u" "n = length (pending u)" "sent u @ pending u = sent s @ pending s"
      using Suc.prems get by (auto simp: printing_def quiet_def u_def pending_def sent_def)
    obtain s' where "uartstart_loop (Suc n) u = Inr ((), s')" "mach s' = mach u" "panicked s' = panicked u"
      "cons_buf s' = cons_buf u" "cons_r s' = cons_r u" "cons_w s' = cons_w u" "cons_e s' = cons_e u" "u_rx s' = u_rx u"
      "sent s' @ pending s' = sent u @ pending u" "length (pending s') \<le> n"
      using Suc.IH [OF u(1-3)] by blast
    then show ?thesis unfolding step using u(4) by (intro exI [of _ s']) (simp add: u_def)
  next
    case False
    then have "uartstart_loop (Suc (Suc n)) s = Inr ((), s\<lparr>u_idle := tl (u_idle s)\<rparr>)"
      using ne by (auto simp: tx_idle_def kseq_def kbind_def kgets_def kmod_def kret_def)
    then show ?thesis using Suc.prems(3) by (simp add: sent_def pending_def)
  qed
qed

section \<open>Line editing\<close>

definition cooked :: "'a contab_scheme \<Rightarrow> uint8 list" where
  "cooked s = ring_list 128 (cons_buf s) (cons_r s) (cons_w s)"

definition typed_line :: "'a contab_scheme \<Rightarrow> uint8 list" where
  "typed_line s = ring_list 128 (cons_buf s) (cons_w s) (cons_e s)"

definition cons_ok :: "'a contab_scheme \<Rightarrow> bool" where
  "cons_ok s \<longleftrightarrow> length (pending s) \<le> 32 \<and> length (cooked s) + length (typed_line s) \<le> 128 \<and> 10 \<notin> set (typed_line s)"

text \<open>The editor: the input that readers can have, and the line being typed.\<close>

definition editor :: "int \<Rightarrow> uint8 list \<times> uint8 list \<Rightarrow> uint8 list \<times> uint8 list" where
  "editor c = (\<lambda>(ready, line).
     if c = 16 then (ready, line)
     else if c = 21 then (ready, [])
     else if c = 8 \<or> c = 127 then (ready, butlast line)
     else if c = 0 \<or> length ready + length line \<ge> 128 then (ready, line)
     else let c = (if c = 13 then 10 else c); line = line @ [of_int c] in
          if c = 10 \<or> c = 4 \<or> length ready + length line = 128 then (ready @ line, []) else (ready, line))"

lemma kill_line_eq:
  assumes "printing L s" "10 \<notin> set (typed_line s)" "k = unat (cons_e s - cons_w s)"
  shows "\<exists>i g. kill_line k s = Inr ((), s\<lparr>mach := settle (mach s), cons_e := cons_w s, u_idle := i, u_regs := g\<rparr>)"
  using assms
proof (induction k arbitrary: s)
  case 0
  then have "cons_e s = cons_w s" by (simp add: unat_eq_0)
  then show ?case using 0 by (intro exI [of _ "u_idle s"] exI [of _ "u_regs s"]) (simp add: printing_def)
next
  case (Suc k)
  have ne: "cons_w s \<noteq> cons_e s" using Suc.prems(3) by auto
  have lst: "cons_buf s (unat ((cons_e s - 1) mod 128)) = last (typed_line s)"
    unfolding typed_line_def by (rule ring128.last_cell [OF ne])
  have "typed_line s \<noteq> []" using ring128.empty_iff ne by (simp add: typed_line_def)
  then have "last (typed_line s) \<noteq> 10" using Suc.prems(2) last_in_set by metis
  then have go: "cons_e s \<noteq> cons_w s \<and> cons_buf s (unat ((cons_e s - 1) mod 128)) \<noteq> 10" using ne lst by auto
  let ?t = "s\<lparr>cons_e := cons_e s - 1\<rparr>"
  have "printing L ?t" using Suc.prems(1) by (simp add: printing_def)
  then obtain t' i g where t': "consputc BACKSPACE ?t = Inr ((), t')" "t' = ?t\<lparr>mach := settle (mach ?t), u_idle := i, u_regs := g\<rparr>"
    using prints_putc [of L BACKSPACE] by (auto simp: prints_def echoed_def)
  have "printing L t'" using Suc.prems(1) by (simp add: printing_def t'(2))
  moreover have "typed_line t' = butlast (typed_line s)" using ring128.unput [OF ne] by (simp add: typed_line_def t'(2))
  then have "10 \<notin> set (typed_line t')" using Suc.prems(2) by (auto dest: in_set_butlastD)
  moreover have "length (typed_line t') = k"
    using Suc.prems(3) \<open>typed_line t' = butlast (typed_line s)\<close> by (simp add: typed_line_def)
  then have "k = unat (cons_e t' - cons_w t')" by (simp add: typed_line_def)
  ultimately obtain i' g' where "kill_line k t' = Inr ((), t'\<lparr>mach := settle (mach t'), cons_e := cons_w t', u_idle := i', u_regs := g'\<rparr>)"
    using Suc.IH by blast
  then show ?case using go t' by (auto simp: kseq_def kbind_def)
qed

definition keeps_editing :: "int \<Rightarrow> 'a contab_scheme \<Rightarrow> 'a contab_scheme \<Rightarrow> bool" where
  "keeps_editing c s s' \<longleftrightarrow> panicked s' = panicked s \<and> u_rx s' = u_rx s \<and> pending s' = pending s \<and> cons_ok s' \<and> (cooked s', typed_line s') = editor c (cooked s, typed_line s) \<and>
     (cooked s' \<noteq> cooked s \<longrightarrow> (\<forall>q<64. Some q \<noteq> cur s \<longrightarrow> \<not> (pstate (procs s' q) = SLEEPING \<and> pchan (procs s' q) = Some Chan_cons_r)))"

text \<open>An ordinary character.\<close>

definition store_char :: "int \<Rightarrow> ('a contab_scheme, unit) km" where
  "store_char c =
     kseq (consputc c)
    (kseq (kmod (\<lambda>s. s\<lparr>cons_buf := (cons_buf s)(unat (cons_e s mod INPUT_BUF) := of_int c)\<rparr>))
    (kseq (kmod (\<lambda>s. s\<lparr>cons_e := cons_e s + 1\<rparr>))
    (kbind (kgets (\<lambda>s. cons_e s = cons_r s + INPUT_BUF)) (\<lambda>full.
     kwhen (c = 10 \<or> c = 4 \<or> full)
       (kseq (kmod (\<lambda>s. s\<lparr>cons_w := cons_e s\<rparr>))
             (wakeup Chan_cons_r))))))"

lemma store_char_ok:
  assumes s: "printing L s" "quiet proc_locks s" "cons_ok s" and room: "length (cooked s) + length (typed_line s) < 128"
    and c: "0 \<le> c" "c < 256" "c \<noteq> 13" "c \<noteq> 16" "c \<noteq> 21" "c \<noteq> 8" "c \<noteq> 127" "c \<noteq> 0"
  shows "\<exists>s'. store_char c s = Inr ((), s') \<and> mach s' = mach s \<and> keeps_editing c s s'"
proof -
  obtain i g where 1: "consputc c s = Inr ((), s\<lparr>mach := settle (mach s), u_idle := i, u_regs := g\<rparr>)"
    using prints_putc [of L c] s(1) by (auto simp: prints_def echoed_def)
  let ?b = "(cons_buf s)(unat (cons_e s mod 128) := of_int c)"
  define t where "t = s\<lparr>u_idle := i, u_regs := g, cons_buf := ?b, cons_e := cons_e s + 1\<rparr>"
  have pend: "pending t = pending s" by (simp add: t_def pending_def)
  have m: "settle (mach s) = mach s" using s(1) by (simp add: printing_def)
  have r: "unat (cons_w s - cons_r s) + unat (cons_e s - cons_w s) < unat (128 :: uint32)"
    using room by (simp add: cooked_def typed_line_def)
  note p = ring128.put_beyond [OF r, of "cons_buf s" "of_int c"]
  have tl: "cooked t = cooked s" "typed_line t = typed_line s @ [of_int c]"
    using p by (simp_all add: cooked_def typed_line_def t_def)
  have len: "unat (cons_e t - cons_w t) = Suc (unat (cons_e s - cons_w s))"
    using arg_cong [OF tl(2), of length] by (simp add: typed_line_def)
  have b: "unat (cons_e t - cons_r t) = length (cooked t) + length (typed_line t)"
      "ring_list 128 (cons_buf t) (cons_r t) (cons_e t) = cooked t @ typed_line t"
    using ring128.between [of "cons_w t" "cons_r t" "cons_e t"] r len by (simp_all add: cooked_def typed_line_def t_def)
  have full: "cons_e t = cons_r t + 128 \<longleftrightarrow> length (cooked t) + length (typed_line t) = 128"
    using ring128.full_iff [of "cons_buf t" "cons_r t" "cons_e t"] room tl by (simp add: b)
  have "uint (of_int c :: uint8) = c" using c(1,2) by (simp add: uint_word_of_int)
  then have c10: "(of_int c :: uint8) = 10 \<longleftrightarrow> c = 10" by auto
  show ?thesis
  proof (cases "c = 10 \<or> c = 4 \<or> cons_e t = cons_r t + 128")
    case True
    define u where "u = t\<lparr>cons_w := cons_e t, procs := woken Chan_cons_r (cur s) 64 (procs s)\<rparr>"
    have q: "quiet proc_locks (t\<lparr>cons_w := cons_e t\<rparr>)" using s(2) by (simp add: quiet_def t_def)
    have "store_char c s = Inr ((), u)"
      using True 1 m wakeup_eq [OF q, of Chan_cons_r] by (simp add: store_char_def kseq_def kbind_def t_def u_def)
    moreover have cu: "cooked u = cooked s @ typed_line s @ [of_int c]" "typed_line u = []"
      using b(2) tl by (simp_all add: u_def cooked_def typed_line_def ring_list_def [of _ _ "cons_e t" "cons_e t"])
    moreover have "editor c (cooked s, typed_line s) = (cooked s @ typed_line s @ [of_int c], [])"
      using True c room full tl by (auto simp: editor_def)
    moreover have "pending u = pending s" "panicked u = panicked s" "u_rx u = u_rx s" "mach u = mach s"
        "procs u = woken Chan_cons_r (cur s) 64 (procs s)" using pend by (simp_all add: u_def t_def pending_def)
    ultimately show ?thesis using room s(3) woken_awake [of _ 64 "cur s" Chan_cons_r "procs s"]
      by (auto simp: keeps_editing_def cons_ok_def)
  next
    case False
    have "store_char c s = Inr ((), t)" using False 1 m by (simp add: store_char_def kseq_def kbind_def t_def)
    moreover have "editor c (cooked s, typed_line s) = (cooked s, typed_line s @ [of_int c])"
      using False c room full tl by (auto simp: editor_def)
    moreover have "panicked t = panicked s" "u_rx t = u_rx s" "mach t = mach s" by (simp_all add: t_def)
    ultimately show ?thesis using tl pend room s(3) False c10 by (auto simp: keeps_editing_def cons_ok_def)
  qed
qed

definition edit_step :: "int \<Rightarrow> ('a contab_scheme, unit) km" where
  "edit_step c =
     (if c = 16 then procdump
      else if c = 21 then kbind (kgets (\<lambda>s. unat (cons_e s - cons_w s))) kill_line
      else if c = 8 \<or> c = 127 then
        kbind (kgets (\<lambda>s. cons_e s \<noteq> cons_w s)) (\<lambda>go.
        kwhen go (kseq (kmod (\<lambda>s. s\<lparr>cons_e := cons_e s - 1\<rparr>)) (consputc BACKSPACE)))
      else
        kbind (kgets (\<lambda>s. cons_e s - cons_r s < INPUT_BUF)) (\<lambda>room.
        kwhen (c \<noteq> 0 \<and> room) (store_char (if c = 13 then 10 else c))))"

lemma consoleintr_step: "consoleintr c = kseq (lock_k Cons_lock) (kseq (edit_step c) (unlock_k Cons_lock))"
  by (simp add: consoleintr_def edit_step_def store_char_def Let_def)

lemma keeps_editing_echo: "echoed s s' \<Longrightarrow> cons_ok s \<Longrightarrow> editor c (cooked s, typed_line s) = (cooked s, typed_line s) \<Longrightarrow> keeps_editing c s s'"
  by (auto simp: keeps_editing_def cons_ok_def cooked_def typed_line_def pending_def echoedD)

lemma kill_step:
  assumes s: "printing L s" "cons_ok s"
  shows "\<exists>s'. edit_step 21 s = Inr ((), s') \<and> mach s' = mach s \<and> keeps_editing 21 s s'"
proof -
  obtain i g where "kill_line (unat (cons_e s - cons_w s)) s = Inr ((), s\<lparr>mach := settle (mach s), cons_e := cons_w s, u_idle := i, u_regs := g\<rparr>)"
    using kill_line_eq [OF s(1) _ refl] s(2) by (auto simp: cons_ok_def)
  then show ?thesis using s
    by (auto simp: edit_step_def kbind_def kgets_def printing_def keeps_editing_def editor_def cons_ok_def cooked_def typed_line_def pending_def ring_list_def)
qed

lemma erase_step:
  assumes s: "printing L s" "cons_ok s" and c: "c = 8 \<or> c = 127"
  shows "\<exists>s'. edit_step c s = Inr ((), s') \<and> mach s' = mach s \<and> keeps_editing c s s'"
proof (cases "cons_e s = cons_w s")
  case True
  then have "typed_line s = []" by (simp add: typed_line_def ring_list_def)
  then show ?thesis using True c s
    by (auto simp: edit_step_def keeps_editing_def editor_def)
next
  case False
  let ?t = "s\<lparr>cons_e := cons_e s - 1\<rparr>"
  have "printing L ?t" using s(1) by (simp add: printing_def)
  then obtain t' where t': "consputc BACKSPACE ?t = Inr ((), t')" "echoed ?t t'"
    using prints_putc [of L BACKSPACE] by (auto simp: prints_def)
  have b: "typed_line t' = butlast (typed_line s)" "cooked t' = cooked s" "pending t' = pending s"
    using ring128.unput [of "cons_w s" "cons_e s"] False by (auto simp: typed_line_def cooked_def pending_def echoedD [OF t'(2)])
  have "length (butlast (typed_line s)) \<le> length (typed_line s)" by simp
  then have "cons_ok t'" using s(2) unfolding cons_ok_def b by (auto dest: in_set_butlastD simp del: length_butlast)
  moreover have "edit_step c s = Inr ((), t')" using c False t'(1) by (auto simp: edit_step_def kseq_def kbind_def)
  ultimately show ?thesis using c s(1) b echoedD(1) [OF t'(2)]
    by (intro exI [of _ t']) (auto simp: keeps_editing_def editor_def printing_def echoedD(2,12) [OF t'(2)])
qed

lemma edit_step_ok:
  assumes s: "printing {Pr_lock} s" "quiet proc_locks s" "cons_ok s" and c: "0 \<le> c" "c < 256"
  shows "\<exists>s'. edit_step c s = Inr ((), s') \<and> mach s' = mach s \<and> keeps_editing c s s'"
proof -
  have room: "cons_e s - cons_r s < 128 \<longleftrightarrow> length (cooked s) + length (typed_line s) < 128"
    using ring128.between(1) [of "cons_w s" "cons_r s" "cons_e s"] s(3)
    by (simp add: cons_ok_def cooked_def typed_line_def word_less_nat_alt)
  consider "c = 16" | "c = 21" | "c = 8 \<or> c = 127" | "c \<notin> {16, 21, 8, 127}" "c = 0 \<or> \<not> cons_e s - cons_r s < 128"
    | "c \<notin> {16, 21, 8, 127}" "c \<noteq> 0" "cons_e s - cons_r s < 128" by auto
  then show ?thesis
  proof cases
    case 1
    obtain s' where p: "procdump s = Inr ((), s')" "echoed s s'" using procdump_prints s(1) by (auto simp: prints_def)
    have "mach s' = mach s" using s(1) by (simp add: printing_def echoedD(1) [OF p(2)])
    then show ?thesis using 1 s p
      by (intro exI [of _ s']) (auto simp: edit_step_def editor_def printing_def intro: keeps_editing_echo)
  next
    case 2 then show ?thesis using kill_step [OF s(1,3)] by simp
  next
    case 3 then show ?thesis using erase_step [OF s(1,3)] by simp
  next
    case 4
    then have "edit_step c s = Inr ((), s)" "editor c (cooked s, typed_line s) = (cooked s, typed_line s)"
      using room by (auto simp: edit_step_def editor_def)
    then show ?thesis using s(3) by (simp add: keeps_editing_def)
  next
    case 5
    let ?c = "if c = 13 then 10 else c"
    have "edit_step c s = store_char ?c s" using 5 by (auto simp: edit_step_def kbind_def)
    moreover have "keeps_editing ?c s s' \<Longrightarrow> keeps_editing c s s'" for s' using 5 by (auto simp: keeps_editing_def editor_def)
    moreover have "\<exists>s'. store_char ?c s = Inr ((), s') \<and> mach s' = mach s \<and> keeps_editing ?c s s'"
      using 5 room c by (intro store_char_ok [OF s]) auto
    ultimately show ?thesis by metis
  qed
qed

text \<open>C15: \<^verbatim>\<open>consoleintr\<close> edits the line as the editor does.  Whatever byte the UART delivers, in a
  state in which the locks are free the handler returns with every lock free again; the bytes that readers
  may take (\<^verbatim>\<open>r..w\<close>) and the line that is still typed (\<^verbatim>\<open>w..e\<close>) are those of the abstract editor, also where the
  unsigned indexes wrap; the two still fit the buffer; and when bytes became readable no process is left
  asleep in \<^verbatim>\<open>consoleread\<close>.
\<close>

theorem consoleintr_edits_lines:
  assumes "calm s" "cons_ok s" "0 \<le> c" "c < 256"
  shows "\<exists>s'. consoleintr c s = Inr ((), s') \<and> calm s' \<and> cons_ok s' \<and>
     (cooked s', typed_line s') = editor c (cooked s, typed_line s) \<and>
     (cooked s' \<noteq> cooked s \<longrightarrow>
        (\<forall>q<64. Some q \<noteq> cur s \<longrightarrow> \<not> (pstate (procs s' q) = SLEEPING \<and> pchan (procs s' q) = Some Chan_cons_r)))"
proof -
  let ?t = "s\<lparr>mach := taken Cons_lock (mach s)\<rparr>"
  have a: "irq_ok (mach s)" "lk_free (mach s) l" "\<not> panicked s" for l using assms(1) by (auto simp: calm_def)
  have t: "printing {Pr_lock} ?t" "quiet proc_locks ?t" using a by (auto simp: printing_def quiet_def)
  have k: "cooked ?t = cooked s" "typed_line ?t = typed_line s" "pending ?t = pending s" "cur ?t = cur s"
    by (simp_all add: cooked_def typed_line_def pending_def)
  then have "cons_ok ?t" using assms(2) by (simp add: cons_ok_def)
  then obtain u where u: "edit_step c ?t = Inr ((), u)" "mach u = taken Cons_lock (mach s)" "keeps_editing c ?t u"
    using edit_step_ok [OF t _ assms(3,4)] by auto
  have "consoleintr c s = Inr ((), u\<lparr>mach := settle (mach s)\<rparr>)"
    using u(1,2) a by (simp add: consoleintr_step locking kseq_def kbind_def)
  then show ?thesis using u(3) a unfolding keeps_editing_def k
    by (auto simp: calm_def cons_ok_def cooked_def typed_line_def pending_def)
qed

definition inode0 :: inode where
  "inode0 = \<lparr>i_dev = 0, i_inum = 0, i_ref = 0, i_valid = False, i_type = 0, i_major = 0, i_minor = 0, i_nlink = 0, i_size = 0,
     i_addrs = (\<lambda>_. 0)\<rparr>"

text \<open>A console in which \<^verbatim>\<open>hi\<close> has been typed, whose indexes are about to wrap.\<close>

definition contab0 :: "'a \<Rightarrow> 'a contab_scheme" where
  "contab0 x = xlog0 {} blank_disk 0
     \<lparr>fs_sb = super0, inodes = (\<lambda>_. inode0), lvar_at = (\<lambda>_. 0),
      cons_buf = (\<lambda>i. if i = 127 then 105 else 104), cons_r = - 2, cons_w = - 2, cons_e = 0,
      uart_tx_buf = (\<lambda>_. 0), uart_tx_w = 0, uart_tx_r = 0, panicked = False, pr_locking = True,
      u_idle = [], u_rx = [], u_regs = [], \<dots> = x\<rparr>"

lemma contab0_calm: "calm (contab0 x)"
  by (simp add: calm_def contab0_def xlog0_def irq_ok_def lk_free_def machine0_def machine_defs)

theorem consoleintr_edits_lines_witness:
  "\<exists>s'. consoleintr 13 (contab0 ()) = Inr ((), s') \<and> cooked s' = [104, 105, 10] \<and> typed_line s' = []"
proof -
  have "cooked (contab0 ()) = []" "typed_line (contab0 ()) = [104, 105]" "pending (contab0 ()) = []"
    by (simp_all add: contab0_def xlog0_def cooked_def typed_line_def pending_def ring_list_def upt_rec)
  then show ?thesis using consoleintr_edits_lines [OF contab0_calm [of "()"], of 13]
    by (auto simp: editor_def cons_ok_def)
qed

text \<open>C24: the UART driver keeps the order of the output.  When the transmit buffer has room \<^verbatim>\<open>uartputc\<close> returns,
  whatever the device says of its being idle, and the bytes given to the device followed by those
  that still wait are what they were, with the new byte at the end; the buffer is not overrun, and the
  console's input is left alone.
\<close>

theorem uartputc_keeps_order:
  assumes "calm s" "length (pending s) < 32"
  shows "\<exists>s'. uartputc c s = Inr ((), s') \<and> calm s' \<and> sent s' @ pending s' = sent s @ pending s @ [c] \<and>
     length (pending s') \<le> 32 \<and> cooked s' = cooked s \<and> typed_line s' = typed_line s"
proof -
  let ?t = "s\<lparr>mach := taken Uart_tx_lock (mach s)\<rparr>"
  let ?b = "(uart_tx_buf s)(unat (uart_tx_w s mod 32) := c)"
  let ?u = "?t\<lparr>uart_tx_buf := ?b, uart_tx_w := uart_tx_w s + 1\<rparr>"
  have a: "irq_ok (mach s)" "lk_free (mach s) l" "\<not> panicked s" for l using assms(1) by (auto simp: calm_def)
  have put: "ring_list 32 ?b (uart_tx_r s) (uart_tx_w s + 1) = pending s @ [c]"
    using ring32.put assms(2) by (simp add: pending_def)
  then have pu: "pending ?u = pending s @ [c]" by (simp add: pending_def)
  have room: "uart_tx_w s \<noteq> uart_tx_r s + 32"
    using ring32.full_iff [of "uart_tx_buf s" "uart_tx_r s" "uart_tx_w s"] assms(2) by (simp add: pending_def)
  have u: "printing {} ?u" "quiet proc_locks ?u" using a by (auto simp: printing_def quiet_def)
  obtain v where v: "uartstart_loop (Suc (length (pending ?u))) ?u = Inr ((), v)" "mach v = mach ?u" "panicked v = panicked ?u"
      "cons_buf v = cons_buf ?u" "cons_r v = cons_r ?u" "cons_w v = cons_w ?u" "cons_e v = cons_e ?u"
      "sent v @ pending v = sent ?u @ pending ?u" "length (pending v) \<le> length (pending ?u)"
    using uartstart_loop_ok [OF u refl] by blast
  have "uartstart ?u = Inr ((), v)" using v(1) by (simp add: uartstart_def kbind_def pending_def del: uartstart_loop.simps)
  then have "uartputc c s = Inr ((), v\<lparr>mach := settle (mach s)\<rparr>)"
    using a room v(2) by (simp add: uartputc_def kseq_def kbind_def locking)
  moreover have "sent ?u = sent s" by (simp add: sent_def)
  ultimately show ?thesis using a v(3-9) assms(2) unfolding pu
    by (intro exI [of _ "v\<lparr>mach := settle (mach s)\<rparr>"]) (auto simp: calm_def cooked_def typed_line_def pending_def sent_def)
qed

theorem uartputc_keeps_order_witness:
  "\<exists>s'. uartputc 97 (contab0 ()) = Inr ((), s') \<and> sent s' @ pending s' = [97]"
proof -
  have "pending (contab0 ()) = []" "sent (contab0 ()) = []"
    by (simp_all add: contab0_def xlog0_def pending_def ring_list_def sent_def)
  then show ?thesis using uartputc_keeps_order [OF contab0_calm [of "()"], of 97] by auto
qed

end
