(* ===== verification/Trapops.thy ===== *)
theory Trapops
  imports Trap Pipeops Consops
begin

text \<open>
  A store fault of a user process, from \<^verbatim>\<open>usertrap\<close> through \<^verbatim>\<open>cowalloc\<close> (theory \<open>Cow\<close>) to \<^verbatim>\<open>usertrapret\<close>.
\<close>

section \<open>The trap frame\<close>

text \<open>The trap frame of the process is a page of the kernel.\<close>

definition trap_ready :: "addr set \<Rightarrow> (addr \<Rightarrow> int) \<Rightarrow> addr list \<Rightarrow> nat \<Rightarrow> 'a ptable_scheme \<Rightarrow> bool" where
  "trap_ready R ext fl p s \<longleftrightarrow> vinv R ext fl s \<and> pagetable (procs s p) \<in> R \<and> aligned (trapframe (procs s p)) \<and>
     kown R ext s (trapframe (procs s p))"

text \<open>Several stores into the frame, at the offsets of its fields.\<close>

definition stores :: "addr \<Rightarrow> (nat \<times> uint64) list \<Rightarrow> ram \<Rightarrow> ram" where
  "stores tf = fold (\<lambda>(i, v) m. st64 m (tf + of_nat (8 * i)) v)"

lemma stores_page:
  assumes "aligned tf" "x \<noteq> tf" "\<forall>(i, v) \<in> set xs. i < 512"
  shows "same_page m (stores tf xs m) x"
  using assms(3)
proof (induction xs arbitrary: m)
  case (Cons y ys)
  obtain i v where y: "y = (i, v)" by force
  have "same_page m (st64 m (tf + of_nat (8 * i)) v) x" by (rule stw_same_page) (use assms Cons.prems y in auto)
  moreover have "same_page (st64 m (tf + of_nat (8 * i)) v) (stores tf ys (st64 m (tf + of_nat (8 * i)) v)) x"
    using Cons by simp
  ultimately show ?case by (simp add: y stores_def same_page_def)
qed (simp add: stores_def same_page_def)

lemma stores_keep:
  assumes "vinv R ext fl s" "\<forall>p. 0 \<le> ext p" "aligned tf" "kown R ext s tf" "\<forall>(i, v) \<in> set xs. i < 512"
  shows "vinv R ext fl (s\<lparr>ram := stores tf xs (ram s)\<rparr>)" "r \<in> R \<Longrightarrow> entry (stores tf xs (ram s)) r w = entry (ram s) r w"
    "r \<in> R \<Longrightarrow> uview (s\<lparr>ram := stores tf xs (ram s)\<rparr>) r = uview s r" "kown R ext (s\<lparr>ram := stores tf xs (ram s)\<rparr>) tf"
proof -
  have "same_page (ram s) (stores tf xs (ram s)) x" if "\<not> kown R ext s x" for x
    by (rule stores_page) (use assms that in auto)
  note w = vm_write_kernel [OF assms(1,2) this]
  show "vinv R ext fl (s\<lparr>ram := stores tf xs (ram s)\<rparr>)" "r \<in> R \<Longrightarrow> entry (stores tf xs (ram s)) r w = entry (ram s) r w"
    "r \<in> R \<Longrightarrow> uview (s\<lparr>ram := stores tf xs (ram s)\<rparr>) r = uview s r" "kown R ext (s\<lparr>ram := stores tf xs (ram s)\<rparr>) tf"
    using w(1) w(2) [of r w] w(3) [of r] w(4) assms(4) by simp_all
qed

lemma ld64_stores:
  "\<forall>(i, v) \<in> set xs. i < 512 \<and> i \<noteq> j \<Longrightarrow> j < 512 \<Longrightarrow>
   ld64 (stores tf xs m) (tf + of_nat (8 * j)) = ld64 m (tf + of_nat (8 * j))"
proof (induction xs arbitrary: m)
  case (Cons x xs)
  obtain i v where x: "x = (i, v)" by force
  show ?case using Cons ld64_st64_index [of i j m tf v] by (simp add: x stores_def)
qed (simp add: stores_def)


text \<open>The stores of \<^verbatim>\<open>usertrapret\<close>.\<close>

definition ret_frame :: "nat \<Rightarrow> 'a ktab_scheme \<Rightarrow> (nat \<times> uint64) list" where
  "ret_frame p s = [(0, satp s), (1, kstack (procs s p) + PGSIZE), (2, usertrap_at s), (4, of_nat (tp (mach s)))]"

lemma usertrapret_eq:
  assumes "irq_ok (mach s)" "cur s = Some p"
  shows "usertrapret s = Inr ((TRAMPOLINE + (userret_at s - trampoline_at s), TRAPFRAME, MAKE_SATP (pagetable (procs s p))),
    s\<lparr>mach := (settle (mach s))\<lparr>sie := False\<rparr>, stvec := TRAMPOLINE + (uservec_at s - trampoline_at s),
      ram := stores (trapframe (procs s p)) (ret_frame p s) (ram s), spp := False, spie := True,
      sepc := ld64 (ram s) (trapframe (procs s p) + 24)\<rparr>)"
proof -
  let ?tf = "trapframe (procs s p)"
  have "ld64 (stores ?tf (ret_frame p s) (ram s)) (?tf + 24) = ld64 (ram s) (?tf + 24)"
    using ld64_stores [of "ret_frame p s" 3 ?tf "ram s"] by (simp add: ret_frame_def)
  then show ?thesis
    using assms by (simp add: usertrapret_def kmonad curproc_eq intr_off_def on_mach_def set_tf_def get_tf_def stores_def ret_frame_def)
qed

lemma kframe_ktab:
  fixes s :: "'a ktab_scheme"
  assumes "kframe ext s s'"
  shows "mach s' \<in> {mach s, settle (mach s)}" "procs s' = procs s" "satp s' = satp s" "spp s' = spp s" "scause s' = scause s"
    "sepc s' = sepc s" "stval s' = stval s" "userret_at s' = userret_at s" "trampoline_at s' = trampoline_at s"
  using assms by (cases s; cases s'; auto simp: kframe_def mem_only_def)+


section \<open>Property\<close>

text \<open>The state in which \<^verbatim>\<open>usertrap\<close> looks at the cause.\<close>

definition trap_entry :: "nat \<Rightarrow> 'a ktab_scheme \<Rightarrow> 'a ktab_scheme" where
  "trap_entry p s = s\<lparr>stvec := kernelvec_at s, mach := settle (mach s), ram := stores (trapframe (procs s p)) [(3, sepc s)] (ram s)\<rparr>"

lemma trap_entry_ok:
  fixes s :: "'a ktab_scheme"
  assumes "trap_ready R ext fl p s" "\<forall>p. 0 \<le> ext p" "runs p s"
  defines "a \<equiv> trap_entry p s"
  shows "trap_ready R ext fl p a" "runs p a" "r \<in> R \<Longrightarrow> uview a r = uview s r" "r \<in> R \<Longrightarrow> entry (ram a) r v = entry (ram s) r v"
    "ld64 (ram a) (trapframe (procs s p) + 24) = sepc s"
proof -
  let ?tf = "trapframe (procs s p)" and ?m = "s\<lparr>ram := stores (trapframe (procs s p)) [(3, sepc s)] (ram s)\<rparr>"
  have t: "vinv R ext fl s" "aligned ?tf" "kown R ext s ?tf" "pagetable (procs s p) \<in> R" using assms(1) by (auto simp: trap_ready_def)
  note k = stores_keep [OF t(1) assms(2) t(2,3), of "[(3, sepc s)]"]
  have q: "quiet alloc_locks a" using assms(3) by (simp add: a_def trap_entry_def quiet_def runs_def)
  have "vinv R ext fl a" by (rule vinv_same [OF k(1)]) (use q in \<open>simp_all add: a_def trap_entry_def\<close>)
  then show "trap_ready R ext fl p a" using k(4) t by (simp add: trap_ready_def a_def trap_entry_def kown_def)
  show "runs p a" using assms(3) by (simp add: a_def trap_entry_def runs_def)
  have "uview a = uview ?m" by (rule uview_same) (simp add: a_def trap_entry_def)
  then show "r \<in> R \<Longrightarrow> uview a r = uview s r" using k(3) [of r] by simp
  show "r \<in> R \<Longrightarrow> entry (ram a) r v = entry (ram s) r v" using k(2) [of r v] by (simp add: a_def trap_entry_def)
  show "ld64 (ram a) (?tf + 24) = sepc s" by (simp add: a_def trap_entry_def stores_def)
qed

lemma usertrap_store_fault:
  fixes s :: "'a ktab_scheme"
  assumes "runs p s" "\<not> spp s" "scause s = 15" "\<not> killed (procs s p)"
    "cowalloc (pagetable (procs s p)) (stval s) (trap_entry p s) = Inr (rc, b)" "procs b = procs s"
  shows "usertrap s = (if rc < 0 then kseq (exit_out (- 1)) (kret Gone) (b\<lparr>procs := (procs s)(p := (procs s p)\<lparr>killed := True\<rparr>)\<rparr>)
    else kbind usertrapret (\<lambda>r. kret (To_user r)) b)"
proof -
  have "set_tf p 24 (sepc s) (s\<lparr>stvec := kernelvec_at s, mach := settle (mach s)\<rparr>) = Inr ((), trap_entry p s)"
    by (simp add: set_tf_def kmod_def trap_entry_def stores_def)
  moreover have "scause (trap_entry p s) = 15" "procs (trap_entry p s) = procs s" "stval (trap_entry p s) = stval s"
    using assms(3) by (simp_all add: trap_entry_def)
  ultimately show ?thesis
    using assms by (simp add: usertrap_def usertrap_cause_def kmonad curproc_eq runs_def)
qed


lemma runs_sie_off [simp]: "irq_ok m \<Longrightarrow> irq_ok (m\<lparr>sie := False\<rparr>)" "lk_free (m\<lparr>sie := False\<rparr>) l = lk_free m l"
  by (simp_all add: irq_ok_def lk_free_def machine_defs)

lemma usertrapret_keeps:
  fixes s :: "'a ktab_scheme"
  assumes "trap_ready R ext fl p s" "\<forall>p. 0 \<le> ext p" "runs p s"
  shows "\<exists>t. usertrapret s = Inr ((TRAMPOLINE + (userret_at s - trampoline_at s), TRAPFRAME, MAKE_SATP (pagetable (procs s p))), t) \<and>
    vinv R ext fl t \<and> (\<forall>r\<in>R. uview t r = uview s r \<and> (\<forall>v. entry (ram t) r v = entry (ram s) r v)) \<and>
    sepc t = ld64 (ram s) (trapframe (procs s p) + 24) \<and> \<not> spp t \<and> spie t"
proof -
  let ?tf = "trapframe (procs s p)" and ?xs = "ret_frame p s"
  have t: "vinv R ext fl s" "aligned ?tf" "kown R ext s ?tf" using assms(1) by (auto simp: trap_ready_def)
  have xs: "\<forall>(i, v) \<in> set ?xs. i < 512" by (simp add: ret_frame_def)
  note k = stores_keep [OF t(1) assms(2) t(2,3) xs]
  let ?t = "s\<lparr>mach := (settle (mach s))\<lparr>sie := False\<rparr>, stvec := TRAMPOLINE + (uservec_at s - trampoline_at s),
      ram := stores ?tf ?xs (ram s), spp := False, spie := True, sepc := ld64 (ram s) (?tf + 24)\<rparr>"
  have "quiet alloc_locks ?t" using assms(3) by (simp add: quiet_def runs_def)
  then have "vinv R ext fl ?t" by (intro vinv_same [OF k(1)]) simp_all
  moreover have "uview ?t = uview (s\<lparr>ram := stores ?tf ?xs (ram s)\<rparr>)" by (rule uview_same) simp
  ultimately show ?thesis
    using usertrapret_eq [of s p] assms(3) k(2,3) by (intro exI [of _ ?t]) (simp add: runs_def)
qed

text \<open>C5: a store into a copy-on-write page is invisible to the processes.  When a process stores to a page that it cannot write,
  \<^verbatim>\<open>usertrap\<close> gives it a writable page of its own and returns to user space, at the instruction that faulted and with
  the process's own page table; a store elsewhere, or one for which no page is left, kills the process.  In
  either case every address space reads as before.\<close>

theorem store_fault_resumes_or_kills:
  fixes s :: "'a ktab_scheme"
  assumes "trap_ready R ext fl p s" "\<forall>p. 0 \<le> ext p" "runs p s" "\<not> spp s" "scause s = 15" "\<not> killed (procs s p)"
  defines "pt \<equiv> pagetable (procs s p)" and "v \<equiv> PGROUNDDOWN (stval s)"
  shows "\<exists>fl' t. vinv R ext fl' t \<and> (\<forall>r\<in>R. uview t r = uview s r) \<and>
    (usertrap s = Inr (To_user (TRAMPOLINE + (userret_at s - trampoline_at s), TRAPFRAME, MAKE_SATP pt), t) \<and>
       sepc t = sepc s \<and> \<not> spp t \<and> spie t \<and> cow_leaf (entry (ram s) pt v) \<and>
       user_leaf (entry (ram t) pt v) \<and> entry (ram t) pt v AND PTE_W \<noteq> 0 \<and> entry (ram t) pt v AND PTE_COW = 0
     \<or> usertrap s = kseq (exit_out (- 1)) (kret Gone) t \<and> killed (procs t p) \<and>
       (\<not> stval s < MAXVA \<or> \<not> cow_leaf (entry (ram s) pt v) \<or> fl = []))"
proof -
  let ?a = "trap_entry p s" and ?tf = "trapframe (procs s p)"
  note a = trap_entry_ok [OF assms(1-3)]
  have pt: "pt \<in> R" using assms(1) by (simp add: trap_ready_def pt_def)
  have inv: "vinv R ext fl ?a" and tf: "aligned ?tf" "kown R ext ?a ?tf"
    using a(1) by (auto simp: trap_ready_def trap_entry_def)
  obtain rc fl' b where b: "cowalloc pt (stval s) ?a = Inr (rc, b)" "cowed R ext ?a pt v fl' b"
    and c: "rc = 0 \<and> stval s < MAXVA \<and> cow_leaf (entry (ram s) pt v) \<and> user_leaf (entry (ram b) pt v)
          \<and> entry (ram b) pt v AND PTE_W \<noteq> 0 \<and> entry (ram b) pt v AND PTE_COW = 0
      \<or> rc = - 1 \<and> fl' = fl \<and> (\<not> stval s < MAXVA \<or> \<not> cow_leaf (entry (ram s) pt v) \<or> fl = [])"
    using cowalloc_post [OF inv assms(2) pt, of "stval s"] a(4) [OF pt, of v] unfolding v_def by auto
  have w: "vinv R ext fl' b" "kframe ext ?a b" "\<And>r. r \<in> R \<Longrightarrow> uview b r = uview s r"
    using b(2) a(3) by (auto simp: cowed_def vupd_def fun_eq_iff)
  note f = kframe_ktab [OF w(2)]
  have g: "procs b = procs s" "runs p b" using f a(2) by (auto simp: trap_entry_def runs_def)
  note u = usertrap_store_fault [OF assms(3-6), of rc b, folded pt_def, OF b(1) g(1)]
  show ?thesis
  proof (cases "rc = 0")
    case False
    let ?t = "b\<lparr>procs := (procs s)(p := (procs s p)\<lparr>killed := True\<rparr>)\<rparr>"
    have "vinv R ext fl' ?t" by (rule vinv_same [OF w(1)]) (use g in \<open>auto simp: quiet_def runs_def\<close>)
    moreover have "uview ?t = uview b" by (rule uview_same) simp
    ultimately show ?thesis using u c w(3) False by (intro exI [of _ fl'] exI [of _ ?t]) auto
  next
    case True
    have "stval s < MAXVA" using c True by simp
    then have vp: "v \<in> vpages" unfolding v_def by (rule PGROUNDDOWN_vpages)
    have "kown R ext b ?tf"
    proof (rule kown_kept [OF w(1) assms(2) pt vp _ _ _ _ tf(2)])
      show "kend b = kend ?a" using w(2) by (simp add: kframe_def mem_only_def)
    qed (use b(2) c True in \<open>auto simp: cowed_def\<close>)
    then have "trap_ready R ext fl' p b" using w(1) tf(1) pt g(1) by (simp add: trap_ready_def pt_def)
    from usertrapret_keeps [OF this assms(2) g(2)] obtain t where t: "usertrapret b =
        Inr ((TRAMPOLINE + (userret_at s - trampoline_at s), TRAPFRAME, MAKE_SATP pt), t)" "vinv R ext fl' t"
      "\<forall>r\<in>R. uview t r = uview b r \<and> (\<forall>v. entry (ram t) r v = entry (ram b) r v)" "sepc t = ld64 (ram b) (?tf + 24)" "\<not> spp t" "spie t"
      using f g by (auto simp: pt_def trap_entry_def)
    have "same_page (ram ?a) (ram b) ?tf" using w(2) tf(2) by (auto simp: kframe_def kown_def kpage_def)
    then have "ld64 (ram ?a) (?tf + of_nat 24) = ld64 (ram b) (?tf + of_nat 24)" by (rule ldw_same_page [OF _ tf(1)]) simp_all
    then have "sepc t = sepc s" using t(4) a(5) by simp
    then show ?thesis using u t c w(3) pt True by (intro exI [of _ fl'] exI [of _ t]) (auto simp: kmonad)
  qed
qed


definition trap_world :: ktab where
  "trap_world = (contab0 \<lparr>files = (\<lambda>_. \<lparr>f_type = FD_NONE, f_ref = 0, f_readable = False, f_writable = False, f_pipe = 0, f_ip = None, f_off = 0, f_major = 0\<rparr>),
     devsw = Map.empty, trampoline_at = 0x80007000, etext_at = 0x80008000, forkret_at = 0x80000100, initcode_at = 0x80000200,
     root_str_at = 0x80000300, uservec_at = 0x80007000, userret_at = 0x80007090, kernelvec_at = 0x80000400, usertrap_at = 0x80000500,
     kernel_pagetable = 0, first = False, ticks = 0, satp = 0, stvec = 0, sepc = 0x40, scause = 15, stval = 0x1000, sip = 0,
     spp = False, spie = False, plic_irq = (\<lambda>_. 0), plic_wr = [], started = True\<rparr>)
   \<lparr>mach := mach pipe_world, ram := ram pipe_world, freelist := freelist pipe_world, refcnt := refcnt pipe_world, kend := kend pipe_world,
     procs := (\<lambda>_. proc0\<lparr>pagetable := parent_pt, trapframe := 0x80001000\<rparr>)\<rparr>"

lemma trap_world_ready: "trap_ready {parent_pt, child_pt} (\<lambda>_. 0) [0x87FFD000] 0 trap_world" "runs 0 trap_world"
proof -
  have w: "ram trap_world = ram pipe_world" "freelist trap_world = freelist pipe_world" "refcnt trap_world = refcnt pipe_world"
    "kend trap_world = kend pipe_world" "mach trap_world = mach pipe_world" by (simp_all add: trap_world_def)
  show r: "runs 0 trap_world" using pipe_world_ok(3) w by (simp add: runs_def)
  have v: "vinv {parent_pt, child_pt} (\<lambda>_. 0) [0x87FFD000] pipe_world" by (rule pipe_world_ok(1))
  have "leaf_ok trap_world = leaf_ok pipe_world" "owned trap_world = owned pipe_world" "kinv fl trap_world = kinv fl pipe_world" for fl
    by (intro HOL.ext, simp only: leaf_ok_def w) (intro HOL.ext, simp only: owned_def w, simp only: kinv_def w)
  moreover have "quiet alloc_locks trap_world" using r by (simp add: runs_def quiet_def)
  ultimately have "vinv {parent_pt, child_pt} (\<lambda>_. 0) [0x87FFD000] trap_world" using v unfolding vinv_def w by simp
  moreover have "kown {parent_pt, child_pt} (\<lambda>_. 0) trap_world 0x80001000" "aligned 0x80001000"
    using pipe_world_ok(2) by (simp_all add: kernel_pages_def kown_def w)
  ultimately show "trap_ready {parent_pt, child_pt} (\<lambda>_. 0) [0x87FFD000] 0 trap_world"
    by (simp add: trap_ready_def) (simp add: trap_world_def)
qed

lemma trap_world_fields: "\<not> spp trap_world" "scause trap_world = 15" "\<not> killed (procs trap_world 0)" "pagetable (procs trap_world 0) = parent_pt"
  by (simp_all add: trap_world_def proc0_def contab0_def xlog0_def)

theorem store_fault_resumes_or_kills_witness:
  "\<exists>t. uview t child_pt = uview trap_world child_pt \<and>
     (usertrap trap_world = Inr (To_user (TRAMPOLINE + (userret_at trap_world - trampoline_at trap_world), TRAPFRAME, MAKE_SATP parent_pt), t)
      \<or> usertrap trap_world = kseq (exit_out (- 1)) (kret Gone) t \<and> killed (procs t 0))"
  using store_fault_resumes_or_kills [OF trap_world_ready(1) _ trap_world_ready(2) trap_world_fields(1-3)] trap_world_fields(4) by fastforce

end
