(* ===== verification/Fsops.thy ===== *)
theory Fsops
  imports Fs Txn
begin

text \<open>
  What the file system's operations on blocks and inodes do, inside a transaction: the block that is
  changed is recorded in the log and the kernel's view of the disk changes by that block alone.
\<close>

section \<open>What a transaction leaves alone\<close>

definition lframe :: "'a xlog_scheme \<Rightarrow> 'a xlog_scheme \<Rightarrow> bool" where
  "lframe s s' \<longleftrightarrow>
     settle (mach s') = settle (mach s) \<and> freelist s' = freelist s \<and> refcnt s' = refcnt s \<and> kend s' = kend s \<and>
     nextpid s' = nextpid s \<and> initproc s' = initproc s \<and> bcache_at s' = bcache_at s \<and>
     (\<forall>q. (procs s' q)\<lparr>pstate := UNUSED\<rparr> = (procs s q)\<lparr>pstate := UNUSED\<rparr>) \<and>
     (\<forall>i. sls s' (Inode_sl i) = sls s (Inode_sl i)) \<and>
     (\<forall>x. (\<forall>b<30. \<not> unat (x - bdata s b) < BSIZE) \<longrightarrow> ram s' x = ram s x) \<and>
     l_start s' = l_start s \<and> l_size s' = l_size s \<and> l_outstanding s' = l_outstanding s \<and> l_committing s' = l_committing s \<and>
     l_dev s' = l_dev s \<and> xlog.more s' = xlog.more s"

lemma lframe_refl [simp]: "lframe s s"
  by (simp add: lframe_def)

lemma lframe_trans: "lframe s t \<Longrightarrow> lframe t u \<Longrightarrow> lframe s u"
  by (simp add: lframe_def)

lemma bframe_lframe: "bframe s s' \<Longrightarrow> lframe s s'"
  using bframe_log [of s s'] by (simp add: bframe_def lframe_def)

lemma lframe_runs: "lframe s s' \<Longrightarrow> runs p s' = runs p s"
  using settle_same [of "mach s'" "mach s"] by (simp add: lframe_def runs_def)

lemma lframe_log [simp]: "lframe s (t\<lparr>lh_n := n, lh_block := f\<rparr>) = lframe s t"
  by (simp add: lframe_def)

lemma lframe_fs: "lframe s (s' :: 'a fstab_scheme) \<Longrightarrow> fs_sb s' = fs_sb s \<and> inodes s' = inodes s"
  by (cases s; cases s') (simp add: lframe_def)

section \<open>log_write\<close>

lemma log_slot_facts:
  "log_slot bs n bn \<le> n" "log_slot bs n bn < n \<Longrightarrow> bs (log_slot bs n bn) = bn" "log_slot bs n bn = n \<longleftrightarrow> (\<forall>i<n. bs i \<noteq> bn)"
proof -
  let ?t = "takeWhile (\<lambda>i. bs i \<noteq> bn) [0..<n]"
  show "log_slot bs n bn \<le> n" using length_takeWhile_le [of _ "[0..<n]"] by (simp add: log_slot_def)
  show "log_slot bs n bn < n \<Longrightarrow> bs (log_slot bs n bn) = bn" using nth_length_takeWhile [of "\<lambda>i. bs i \<noteq> bn" "[0..<n]"] by (simp add: log_slot_def)
  have "length ?t = n \<longleftrightarrow> ?t = [0..<n]" by (metis length_upt diff_zero takeWhile_eq_take take_all order_refl)
  then show "log_slot bs n bn = n \<longleftrightarrow> (\<forall>i<n. bs i \<noteq> bn)" by (auto simp: log_slot_def takeWhile_eq_all_conv)
qed

definition logged :: "nat \<Rightarrow> 'a xlog_scheme \<Rightarrow> 'a xlog_scheme" where
  "logged b s = (let n = nat (lh_n s); bn = b_blockno (bufs s b) in
     if \<exists>i<n. lh_block s i = bn then settled s
     else (settled s)\<lparr>bufs := (bufs s)(b := (bufs s b)\<lparr>b_refcnt := b_refcnt (bufs s b) + 1\<rparr>), lh_block := (lh_block s)(n := bn), lh_n := lh_n s + 1\<rparr>)"

lemma log_write_eq:
  assumes "runs p s" "0 \<le> lh_n s" "lh_n s < 30" "lh_n s < l_size s - 1" "1 \<le> l_outstanding s"
  shows "log_write b s = Inr ((), logged b s)"
proof -
  let ?i = "log_slot (lh_block s) (nat (lh_n s)) (b_blockno (bufs s b))"
  have a: "irq_ok (mach s)" "lk_free (mach s) l" for l using assms(1) by (auto simp: runs_def)
  show ?thesis
  proof (cases "?i = nat (lh_n s)")
    case True
    then have "\<not> (\<exists>i<nat (lh_n s). lh_block s i = b_blockno (bufs s b))" using log_slot_facts(3) by blast
    then show ?thesis using True assms a by (auto simp: log_write_def logged_def Let_def kmonad locking bpin_def)
  next
    case False
    then have lt: "?i < nat (lh_n s)" using log_slot_facts(1) le_neq_implies_less by blast
    then have e: "lh_block s ?i = b_blockno (bufs s b)" by (rule log_slot_facts(2))
    then have u: "(lh_block s)(?i := b_blockno (bufs s b)) = lh_block s" by (rule fun_upd_idem)
    have "\<exists>i<nat (lh_n s). lh_block s i = b_blockno (bufs s b)" using e lt by blast
    moreover have "int ?i \<noteq> lh_n s" using lt by linarith
    ultimately show ?thesis using assms a by (simp add: log_write_def logged_def kmonad locking u)
  qed
qed

lemma logged_fields [simp]:
  "ram (logged b s) = ram s" "disk (logged b s) = disk s" "dtrace (logged b s) = dtrace s" "bcache_at (logged b s) = bcache_at s"
  "b_dev (bufs (logged b s) c) = b_dev (bufs s c)" "b_blockno (bufs (logged b s) c) = b_blockno (bufs s c)"
  "l_start (logged b s) = l_start s" "l_size (logged b s) = l_size s" "l_dev (logged b s) = l_dev s" "l_outstanding (logged b s) = l_outstanding s"
  by (simp_all add: logged_def Let_def)

lemma logged_frame: "lframe s (logged b s)"
  by (simp add: logged_def Let_def lframe_def)

text \<open>The buffer that is recorded stays pinned.\<close>

lemma logged_binv:
  assumes i: "binv {b} P s" and bs: "\<forall>i<nat (lh_n s). pinned P s (lh_block s i)" "\<forall>c\<in>P. \<exists>i<nat (lh_n s). caches (bufs s) c (lh_block s i)"
  shows "binv {b} (insert b P) (logged b s)" "blk (logged b s) = blk s"
proof -
  let ?bn = "b_blockno (bufs s b)"
  have b: "b < 30" "caches (bufs s) b ?bn" using binvD(2,7) [OF i] by (auto simp: caches_def)
  have "binv {b} (insert b P) (logged b s) \<and> blk (logged b s) = blk s"
  proof (cases "\<exists>i<nat (lh_n s). lh_block s i = ?bn")
    case True
    then have "pinned P s ?bn" using bs(1) by auto
    then have "b \<in> P" using pinned_buf [OF i _ b(2,1)] by blast
    moreover have "binv {b} P (settled s)" "blk (settled s) = blk s" using i by (simp_all add: binv_def blk_def fun_eq_iff split: option.split)
    ultimately show ?thesis using True by (simp add: logged_def insert_absorb)
  next
    case False
    then have np: "b \<notin> P" using bs(2) unfolding caches_def by metis
    then have rc: "b_refcnt (bufs s b) + 1 = 1 + of_bool (b \<in> insert b P)" using binvD(4) [OF i b(1)] by simp
    let ?t = "(settled s)\<lparr>bufs := (bufs s)(b := (bufs s b)\<lparr>b_refcnt := 1 + of_bool (b \<in> insert b P)\<rparr>)\<rparr>"
    have "logged b s = ?t\<lparr>lh_block := (lh_block s)(nat (lh_n s) := ?bn), lh_n := lh_n s + 1\<rparr>"
      using False rc by (auto simp: logged_def Let_def)
    then show ?thesis using brefcnt_ok [OF i _ _ refl, of b "insert b P"] by simp
  qed
  then show "binv {b} (insert b P) (logged b s)" "blk (logged b s) = blk s" by auto
qed

lemma log_layout_more:
  assumes "log_layout st sz bs n" "Suc n < sz" "\<not> in_log st sz bn" "\<forall>i<n. bs i \<noteq> bn"
  shows "log_layout st sz (bs(n := bn)) (Suc n)"
  using assms by (auto simp: log_layout_def inj_on_def less_Suc_eq)

lemma logged_loginv:
  assumes L: "loginv {b} P s" and sz: "lh_n s < l_size s - 1" and out: "outside_log s (b_blockno (bufs s b))"
  shows "loginv {b} (insert b P) (logged b s)"
proof -
  note D = loginvD [OF L]
  note B = logged_binv [OF D(1,7,8)]
  have b: "caches (bufs s) b (b_blockno (bufs s b))" using binvD(7) [OF D(1)] by (simp add: caches_def)
  have ca: "caches (bufs (logged b s)) c n = caches (bufs s) c n" for c n by (simp add: caches_def)
  show ?thesis
  proof (cases "\<exists>i<nat (lh_n s). lh_block s i = b_blockno (bufs s b)")
    case True
    then have l: "lh_n (logged b s) = lh_n s" "lh_block (logged b s) = lh_block s" by (simp_all add: logged_def)
    show ?thesis unfolding loginv_def l using B(1) D True b by (auto simp: ca pinned_def)
  next
    case False
    then have l: "lh_n (logged b s) = lh_n s + 1" "lh_block (logged b s) = (lh_block s)(nat (lh_n s) := b_blockno (bufs s b))"
      by (auto simp: logged_def Let_def)
    have n: "nat (lh_n s + 1) = Suc (nat (lh_n s))" using D(4) by simp
    have "log_layout (l_start s) (nat (l_size s)) (lh_block (logged b s)) (Suc (nat (lh_n s)))"
      unfolding l using log_layout_more [OF D(5) _ out] sz False D(4) by auto
    moreover have "\<forall>i<Suc (nat (lh_n s)). pinned (insert b P) (logged b s) (lh_block (logged b s) i)"
      using D(7) b by (auto simp: l pinned_def ca less_Suc_eq)
    moreover have "\<forall>c\<in>insert b P. \<exists>i<Suc (nat (lh_n s)). caches (bufs s) c (lh_block (logged b s) i)"
      using D(8) b unfolding l by (metis fun_upd_apply insert_iff less_SucI less_irrefl lessI)
    ultimately show ?thesis unfolding loginv_def using B(1) D(2-4,6) by (simp add: l(1) n ca)
  qed
qed

section \<open>A block in a transaction\<close>

text \<open>A block that is read, perhaps changed in memory and recorded, and released.\<close>

lemma loginv_mono:
  assumes "loginv {} P s" "binv H P s'" "lframe s s'" "disk s' = disk s" "lh_n s' = lh_n s" "lh_block s' = lh_block s" "same_pins P s s'"
  shows "loginv H P s'"
proof -
  note D = loginvD [OF assms(1)]
  have "pinned P s' n = pinned P s n" for n by (rule same_pins_pinned [OF assms(7) D(1) assms(2)])
  moreover have "b \<in> P \<Longrightarrow> caches (bufs s') b n = caches (bufs s) b n" for b n by (rule same_pins_caches [OF assms(7) D(1) assms(2)])
  ultimately show ?thesis using D assms by (simp add: loginv_def lframe_def)
qed

definition open_tx :: "nat \<Rightarrow> nat set \<Rightarrow> nat \<Rightarrow> 'a xlog_scheme \<Rightarrow> bool" where
  "open_tx k P p s \<longleftrightarrow> loginv {} P s \<and> runs p s \<and> 1 \<le> l_outstanding s \<and> lh_n s + int k \<le> l_size s - 1"

text \<open>A buffer that is locked and nothing else: it holds the block \<open>n\<close> as the kernel sees it.\<close>

definition held :: "nat set \<Rightarrow> uint32 \<Rightarrow> nat \<Rightarrow> 'a xlog_scheme \<Rightarrow> 'a xlog_scheme \<Rightarrow> bool" where
  "held P n b s s1 \<longleftrightarrow> loginv {b} P s1 \<and> caches (bufs s1) b n \<and> bd s1 b = blk s n \<and> blk s1 = blk s \<and> bframe s s1 \<and> disk s1 = disk s \<and>
     (b \<in> P \<or> bd s1 b = disk s1 (b_blockno (bufs s1 b)))"

lemma hold_block:
  assumes L: "loginv {} P s" and r: "runs p s"
  obtains b s1 where "bread 1 n s = Inr (b, s1)" "held P n b s s1"
proof -
  note D = loginvD [OF L]
  have card: "card P < 30" using loginv_card [OF L] D(9) by simp
  obtain b s1 where 1: "bread 1 n s = Inr (b, s1)" "b < 30" "b \<notin> {}" "binv (insert b {}) P s1" "caches (bufs s1) b n"
    "bd s1 b = blk s n" "blk s1 = blk s" "bkeep ({} \<union> P) s s1" "bframe s s1" "disk s1 = disk s" "dtrace s1 = dtrace s"
    using bread_ok [OF D(1) r, of n] card by auto
  have pins: "same_pins P s s1" using 1(8) by (simp add: same_pins_def bkeep_def)
  have L1: "loginv {b} P s1"
    by (rule loginv_mono [OF L 1(4) bframe_lframe [OF 1(9)] 1(10) _ _ pins]) (use bframe_log [OF 1(9)] in auto)
  have "bd s1 b = disk s1 n" if "b \<notin> P"
  proof -
    have "\<not> pinned P s n" using that pinned_buf [OF 1(4) _ 1(5,2)] same_pins_pinned [OF pins D(1) 1(4)] by blast
    then have "blk s n = disk s n" by (intro blk_clean [OF D(1)]) (auto simp: pinned_def)
    then show ?thesis by (simp add: 1(6,10))
  qed
  then have "held P n b s s1" using L1 1 by (auto simp: held_def caches_def)
  then show thesis using that 1(1) by blast
qed

lemma release_block:
  assumes h: "held P n b s s1" and r: "runs p s"
  obtains s' where "brelse b s1 = Inr ((), s')" "loginv {} P s'" "blk s' = blk s" "disk s' = disk s" "bframe s s'"
    "lh_n s' = lh_n s" "lh_block s' = lh_block s"
proof -
  have H: "loginv {b} P s1" "blk s1 = blk s" "bframe s s1" "disk s1 = disk s" "b \<in> P \<or> bd s1 b = disk s1 (b_blockno (bufs s1 b))"
    using h by (auto simp: held_def)
  have r1: "runs p s1" using bframe_runs [OF H(3)] r by simp
  note D = loginvD [OF H(1)]
  obtain s' where 2: "brelse b s1 = Inr ((), s')" "binv ({b} - {b}) P s'" "blk s' = blk s1" "ram s' = ram s1"
    "\<And>c. b_dev (bufs s' c) = b_dev (bufs s1 c) \<and> b_blockno (bufs s' c) = b_blockno (bufs s1 c)"
    "bframe s1 s'" "disk s' = disk s1" "dtrace s' = dtrace s1"
    using brelse_ok [OF D(1) r1 _ H(5)] by blast
  have ca: "caches (bufs s') c n = caches (bufs s1) c n" for c n using 2(5) by (simp add: caches_def)
  note l = bframe_log [OF 2(6)]
  have "loginv {} P s'" using D 2(2,7) l by (simp add: loginv_def pinned_def ca)
  then show thesis using that [of s'] 2(1,3,7) H bframe_trans [OF H(3) 2(6)] l bframe_log [OF H(3)] by simp
qed

lemma change_logged:
  assumes h: "held P n b s s1" and tx: "open_tx (Suc k) P p s" and out: "outside_log s n"
    and m: "\<forall>x. \<not> unat (x - bdata s1 b) < BSIZE \<longrightarrow> m x = ram s1 x"
  obtains s2 s' P' where "log_write b (s1\<lparr>ram := m\<rparr>) = Inr ((), s2)" "brelse b s2 = Inr ((), s')" "open_tx k P' p s'"
    "blk s' = (blk s)(n := rd_block m (bdata s1 b))" "disk s' = disk s" "lframe s s'"
proof -
  have H: "loginv {b} P s1" "blk s1 = blk s" "bframe s s1" "disk s1 = disk s" "b_blockno (bufs s1 b) = n"
    using h by (auto simp: held_def caches_def)
  have T: "runs p s" "1 \<le> l_outstanding s" "lh_n s + int (Suc k) \<le> l_size s - 1" using tx by (auto simp: open_tx_def)
  note D = loginvD [OF H(1)] and l = bframe_log [OF H(3)]
  let ?t = "s1\<lparr>ram := m\<rparr>"
  note md = bmodify_ok [where m = m and b = b, OF D(1) insertI1 m [rule_format]]
  have Lt: "loginv {b} P ?t" using D md(1) by (simp add: loginv_def pinned_def)
  have r1: "runs p ?t" using bframe_runs [OF H(3)] bframe_runs [OF md(4)] T(1) by simp
  have lw: "log_write b ?t = Inr ((), logged b ?t)"
    using D(3,4,9) T l by (intro log_write_eq [OF r1]) simp_all
  have L2: "loginv {b} (insert b P) (logged b ?t)"
    by (rule logged_loginv [OF Lt]) (use T(3) l out H(5) in simp_all)
  note D2 = loginvD [OF L2] and f2 = logged_frame [of ?t b]
  have r2: "runs p (logged b ?t)" using lframe_runs [OF f2] r1 by simp
  obtain s' where 3: "brelse b (logged b ?t) = Inr ((), s')" "binv ({b} - {b}) (insert b P) s'" "blk s' = blk (logged b ?t)"
    "ram s' = ram (logged b ?t)" "\<And>c. b_dev (bufs s' c) = b_dev (bufs (logged b ?t) c) \<and> b_blockno (bufs s' c) = b_blockno (bufs (logged b ?t) c)"
    "bframe (logged b ?t) s'" "disk s' = disk (logged b ?t)" "dtrace s' = dtrace (logged b ?t)"
    using brelse_ok [OF D2(1) r2 _ disjI1 [OF insertI1]] by blast
  note l3 = bframe_log [OF 3(6)]
  have ca: "caches (bufs s') c n = caches (bufs (logged b ?t)) c n" for c n using 3(5) by (simp add: caches_def)
  have "loginv {} (insert b P) s'" using D2 3(2,7) l3 by (simp add: loginv_def pinned_def ca)
  moreover have fr: "lframe s s'"
    using bframe_lframe [OF H(3)] bframe_lframe [OF md(4)] f2 bframe_lframe [OF 3(6)] lframe_trans by blast
  moreover have "lh_n s' \<le> lh_n s + 1" using l3 l by (simp add: logged_def Let_def)
  ultimately have "open_tx k (insert b P) p s'"
    using T lframe_runs [OF fr] by (simp add: open_tx_def) (simp add: lframe_def)
  moreover have "blk s' = (blk s)(n := rd_block m (bdata s1 b))"
    using logged_binv(2) [OF loginvD(1,7,8) [OF Lt]] md(2) by (simp add: 3(3) H(2,5))
  moreover have "disk s' = disk s" by (simp add: 3(7) H(4))
  ultimately show thesis using that lw 3(1) fr by blast
qed

section \<open>The bitmap\<close>

text \<open>Block \<open>b\<close> is marked as used.\<close>

definition bmap_block :: "'a fstab_scheme \<Rightarrow> nat \<Rightarrow> uint32" where
  "bmap_block s b = BBLOCK (of_nat b) (fs_sb s)"

definition used :: "'a fstab_scheme \<Rightarrow> nat \<Rightarrow> bool" where
  "used s b \<longleftrightarrow> bit (blk s (bmap_block s b) ! (b mod 8192 div 8)) (b mod 8)"

lemma bmap_block_eq:
  assumes "b < 2 ^ 32" "c < 2 ^ 32"
  shows "bmap_block s b = bmap_block s c \<longleftrightarrow> b div 8192 = c div 8192"
proof -
  have d: "(of_nat b :: uint32) div 8192 = of_nat (b div 8192)" if "b < 2 ^ 32" for b
    using that by (intro word_unat_eq_iff [THEN iffD2]) (simp add: unat_div unat_of_nat)
  have "(of_nat (b div 8192) :: uint32) = of_nat (c div 8192) \<longleftrightarrow> b div 8192 = c div 8192"
    using assms by (auto simp: word_unat_eq_iff unat_of_nat)
  then show ?thesis using assms by (simp add: bmap_block_def BBLOCK_def d)
qed

lemma same_bit: "b div 8192 = c div 8192 \<Longrightarrow> b mod 8192 div 8 = c mod 8192 div 8 \<Longrightarrow> b mod 8 = c mod 8 \<Longrightarrow> b = (c :: nat)"
proof -
  assume h: "b div 8192 = c div 8192" "b mod 8192 div 8 = c mod 8192 div 8" "b mod 8 = c mod 8"
  have m: "x = 8192 * (x div 8192) + (8 * (x mod 8192 div 8) + x mod 8)" for x :: nat
  proof -
    have "x mod 8192 = 8 * (x mod 8192 div 8) + x mod 8192 mod 8" by simp
    then show ?thesis using mod_mod_cancel [of 8 8192 x] mult_div_mod_eq [of 8192 x] by simp
  qed
  have "b = 8192 * (c div 8192) + (8 * (c mod 8192 div 8) + c mod 8)" using m [of b] unfolding h .
  then show ?thesis using m [of c] by (rule trans [OF _ sym])
qed

lemma mask_bit:
  fixes x :: uint8
  assumes "n < 8"
  shows "x AND 2 ^ n = 0 \<longleftrightarrow> \<not> bit x n" "bit (x OR 2 ^ n) j \<longleftrightarrow> bit x j \<or> j = n" "bit (x AND NOT (2 ^ n)) j \<longleftrightarrow> bit x j \<and> j \<noteq> n"
proof -
  have b: "bit (2 ^ n :: uint8) j \<longleftrightarrow> j = n" for j using assms by (auto simp: bit_exp_iff)
  have c: "bit (x AND 2 ^ n) j \<longleftrightarrow> bit x j \<and> j = n" for j unfolding bit_and_iff b ..
  show "x AND 2 ^ n = 0 \<longleftrightarrow> \<not> bit x n"
  proof
    assume z: "x AND 2 ^ n = 0"
    show "\<not> bit x n" using c [of n] unfolding z by simp
  next
    assume "\<not> bit x n"
    then have "\<not> bit (x AND 2 ^ n) j" for j unfolding c by auto
    then show "x AND 2 ^ n = 0" by (intro bit_word_eqI) simp
  qed
  show "bit (x OR 2 ^ n) j \<longleftrightarrow> bit x j \<or> j = n" unfolding bit_or_iff b ..
  have l: "bit x j \<Longrightarrow> j < 8" using bit_imp_le_length [of x j] by simp
  have "bit (NOT (2 ^ n :: uint8)) j \<longleftrightarrow> j < 8 \<and> j \<noteq> n" unfolding bit_not_iff b by simp
  then show "bit (x AND NOT (2 ^ n)) j \<longleftrightarrow> bit x j \<and> j \<noteq> n" unfolding bit_and_iff using l by blast
qed

lemma rd_block_upd: "j < BSIZE \<Longrightarrow> rd_block (m(a + of_nat j := v)) a = (rd_block m a)[j := v]"
  by (rule nth_equalityI) (auto simp: nth_list_update unat_of_nat dest!: arg_cong [where f = unat])

lemma upd_outside: "j < BSIZE \<Longrightarrow> \<forall>x. \<not> unat (x - a :: addr) < BSIZE \<longrightarrow> (m(a + of_nat j := v)) x = m x"
  by (auto simp: unat_of_nat)

text \<open>One bit of the bitmap is changed.\<close>

lemma used_upd:
  assumes "blk s' = (blk s)(bmap_block s b := (blk s (bmap_block s b))[b mod 8192 div 8 := v])" "fs_sb s' = fs_sb s"
    and "length (blk s (bmap_block s b)) = 1024" "\<And>j. bit v j \<longleftrightarrow> (if j = b mod 8 then u else bit (blk s (bmap_block s b) ! (b mod 8192 div 8)) j)"
    and "b < 2 ^ 32" "c < 2 ^ 32"
  shows "used s' c \<longleftrightarrow> (if c = b then u else used s c)"
proof -
  have bb: "bmap_block s' = bmap_block s" using assms(2) by (simp add: bmap_block_def fun_eq_iff)
  show ?thesis
  proof (cases "c div 8192 = b div 8192")
    case True
    then have eq: "bmap_block s c = bmap_block s b" using bmap_block_eq assms(5,6) by blast
    have u: "used s' c \<longleftrightarrow> bit ((blk s (bmap_block s b))[b mod 8192 div 8 := v] ! (c mod 8192 div 8)) (c mod 8)"
      by (simp add: used_def bb eq assms(1))
    show ?thesis
    proof (cases "c mod 8192 div 8 = b mod 8192 div 8")
      case same: True
      have "b mod 8192 div 8 < 1024" by (simp add: less_mult_imp_div_less)
      then have "used s' c \<longleftrightarrow> bit v (c mod 8)" using u same assms(3) by simp
      moreover have "c mod 8 = b mod 8 \<longleftrightarrow> c = b" using same_bit [OF True same] by blast
      ultimately show ?thesis using assms(4) same by (simp add: used_def eq)
    next
      case False
      then show ?thesis using u by (auto simp: used_def eq)
    qed
  next
    case False
    then have "bmap_block s c \<noteq> bmap_block s b" using bmap_block_eq [of c b s] assms(5,6) by blast
    then show ?thesis using False by (auto simp: used_def bb assms(1))
  qed
qed

lemma length_blk: "binv H P s \<Longrightarrow> length (blk s n) = 1024"
  using binvD(12) by (auto simp: blk_def split: option.split)

lemma bzero_ok:
  assumes tx: "open_tx (Suc k) P p s" and out: "outside_log s n"
  obtains s' P' where "bzero 1 n s = Inr ((), s')" "open_tx k P' p s'" "blk s' = (blk s)(n := replicate 1024 0)" "disk s' = disk s" "lframe s s'"
proof -
  have L: "loginv {} P s" "runs p s" using tx by (auto simp: open_tx_def)
  obtain b s1 where 1: "bread 1 n s = Inr (b, s1)" "held P n b s s1" by (rule hold_block [OF L])
  let ?m = "memset (ram s1) (bdata s1 b) 0 1024"
  have m: "\<forall>x. \<not> unat (x - bdata s1 b) < BSIZE \<longrightarrow> ?m x = ram s1 x" by (simp add: memset_eq)
  have z: "rd_block ?m (bdata s1 b) = replicate 1024 0" by (rule nth_equalityI) (simp_all add: memset_eq unat_of_nat)
  obtain s2 s' P' where 2: "log_write b (s1\<lparr>ram := ?m\<rparr>) = Inr ((), s2)" "brelse b s2 = Inr ((), s')" "open_tx k P' p s'"
    "blk s' = (blk s)(n := rd_block ?m (bdata s1 b))" "disk s' = disk s" "lframe s s'"
    by (rule change_logged [OF 1(2) tx out m])
  have "bzero 1 n s = Inr ((), s')" using 1(1) 2(1,2) by (simp add: bzero_def kbind_def kseq_def kmod_def)
  then show thesis using that 2(3-6) unfolding z by blast
qed

text \<open>The bit of block \<open>b\<close> is changed, recorded and the bitmap block released.\<close>

lemma change_bit:
  fixes s :: "'a fstab_scheme"
  assumes h: "held P (bmap_block s b) bp s s1" and tx: "open_tx (Suc k) P p s" and out: "outside_log s (bmap_block s b)" and b: "b < 2 ^ 32"
    and x: "x = ram s1 (bdata s1 bp + of_nat (b mod 8192 div 8))" and v: "\<And>j. bit v j \<longleftrightarrow> (if j = b mod 8 then u else bit x j)"
  obtains s2 s' P' where "log_write bp (s1\<lparr>ram := (ram s1)(bdata s1 bp + of_nat (b mod 8192 div 8) := v)\<rparr>) = Inr ((), s2)" "brelse bp s2 = Inr ((), s')"
    "open_tx k P' p s'" "\<And>c. c < 2 ^ 32 \<Longrightarrow> used s' c \<longleftrightarrow> (if c = b then u else used s c)"
    "\<And>n. n \<noteq> bmap_block s b \<Longrightarrow> blk s' n = blk s n" "disk s' = disk s" "lframe s s'"
proof -
  let ?j = "b mod 8192 div 8" and ?n = "bmap_block s b"
  have j: "?j < 1024" by (simp add: less_mult_imp_div_less)
  have bd: "bd s1 bp = blk s ?n" using h by (simp add: held_def)
  have L: "length (blk s ?n) = 1024" using length_blk [OF loginvD(1)] tx unfolding open_tx_def by blast
  have x': "x = blk s ?n ! ?j" using j by (simp add: x bd [symmetric])
  obtain s2 s' P' where 2: "log_write bp (s1\<lparr>ram := (ram s1)(bdata s1 bp + of_nat ?j := v)\<rparr>) = Inr ((), s2)" "brelse bp s2 = Inr ((), s')" "open_tx k P' p s'"
    "blk s' = (blk s)(?n := rd_block ((ram s1)(bdata s1 bp + of_nat ?j := v)) (bdata s1 bp))" "disk s' = disk s" "lframe s s'"
    by (rule change_logged [OF h tx out upd_outside [OF j]])
  have bl: "blk s' = (blk s)(?n := (blk s ?n)[?j := v])" using 2(4) by (simp only: rd_block_upd [OF j] bd)
  have "used s' c \<longleftrightarrow> (if c = b then u else used s c)" if "c < 2 ^ 32" for c
    using lframe_fs [OF 2(6)] by (intro used_upd [OF bl _ L _ b that]) (simp_all add: v x')
  then show thesis using that [of s2 s' P'] 2 bl by simp
qed

lemma bit_at:
  assumes "held P (bmap_block s b) bp s s1"
  shows "used s b \<longleftrightarrow> bit (ram s1 (bdata s1 bp + of_nat (b mod 8192 div 8))) (b mod 8)"
proof -
  have "blk s (bmap_block s b) = bd s1 bp" using assms by (simp add: held_def)
  moreover have "b mod 8192 div 8 < 1024" by (simp add: less_mult_imp_div_less)
  ultimately show ?thesis by (simp add: used_def)
qed

lemma bfree_ok:
  fixes s :: "'a fstab_scheme"
  assumes tx: "open_tx (Suc k) P p s" and out: "outside_log s (bmap_block s (unat b))"
  shows "used s (unat b) \<Longrightarrow> \<exists>s' P'. bfree 1 b s = Inr ((), s') \<and> open_tx k P' p s' \<and>
      (\<forall>c<2 ^ 32. used s' c \<longleftrightarrow> used s c \<and> c \<noteq> unat b) \<and> (\<forall>n. n \<noteq> bmap_block s (unat b) \<longrightarrow> blk s' n = blk s n) \<and> lframe s s'"
    "\<not> used s (unat b) \<Longrightarrow> bfree 1 b s = Inl (Panic ''freeing free block'')"
proof -
  have L: "loginv {} P s" "runs p s" using tx by (auto simp: open_tx_def)
  have b: "unat b < 2 ^ 32" using unat_lt32 [of b] by simp
  obtain bp s1 where 1: "bread 1 (bmap_block s (unat b)) s = Inr (bp, s1)" "held P (bmap_block s (unat b)) bp s s1"
    by (rule hold_block [OF L])
  note u = bit_at [OF 1(2)]
  have bi: "unat (b mod 8192) = unat b mod 8192" "unat b mod 8192 mod 8 = unat b mod 8" by (simp_all add: unat_mod mod_mod_cancel)
  have r: "bread 1 (BBLOCK b (fs_sb s)) s = Inr (bp, s1)" using 1(1) by (simp add: bmap_block_def)
  have m8: "unat b mod 8 < 8" by simp
  show "bfree 1 b s = Inl (Panic ''freeing free block'')" if "\<not> used s (unat b)"
    using that r mask_bit(1) [OF m8] u by (simp add: bfree_def kbind_def kgets_def bi Let_def kfail_def)
  assume us: "used s (unat b)"
  let ?a = "bdata s1 bp + of_nat (unat b mod 8192 div 8)"
  obtain s2 s' P' where 2: "log_write bp (s1\<lparr>ram := (ram s1)(?a := ram s1 ?a AND NOT (2 ^ (unat b mod 8)))\<rparr>) = Inr ((), s2)" "brelse bp s2 = Inr ((), s')"
    "open_tx k P' p s'" "\<And>c. c < 2 ^ 32 \<Longrightarrow> used s' c \<longleftrightarrow> (if c = unat b then False else used s c)"
    "\<And>n. n \<noteq> bmap_block s (unat b) \<Longrightarrow> blk s' n = blk s n" "disk s' = disk s" "lframe s s'"
    by (rule change_bit [OF 1(2) tx out b refl, of "ram s1 ?a AND NOT (2 ^ (unat b mod 8))" False]) (auto simp: mask_bit(3) [OF m8])
  have "bfree 1 b s = Inr ((), s')"
    using us r mask_bit(1) [OF m8] u 2(1,2) by (simp add: bfree_def kbind_def kseq_def kgets_def kmod_def bi Let_def)
  then show "\<exists>s' P'. bfree 1 b s = Inr ((), s') \<and> open_tx k P' p s' \<and>
      (\<forall>c<2 ^ 32. used s' c \<longleftrightarrow> used s c \<and> c \<noteq> unat b) \<and> (\<forall>n. n \<noteq> bmap_block s (unat b) \<longrightarrow> blk s' n = blk s n) \<and> lframe s s'"
    using 2(3-5,7) by (intro exI [of _ s'] exI [of _ P']) auto
qed

text \<open>A scan that leaves the state alone up to the first hit.\<close>

lemma kscan_pass: "(\<And>i. i \<in> set xs \<Longrightarrow> f i s = Inr (None, s)) \<Longrightarrow> kscan xs f s = Inr (None, s)"
  by (induction xs) (simp_all add: kbind_def kret_def)

lemma kscan_hit:
  assumes "\<And>j. j < i \<Longrightarrow> f j s = Inr (None, s)" "i < n" "f i s = Inr (Some x, s')"
  shows "kscan [0..<n] f s = Inr (Some x, s')"
proof -
  have "[0..<n] = [0..<i] @ i # [Suc i..<n]" using assms(2) upt_add_eq_append [of 0 i "n - i"] by (simp add: upt_rec [of i])
  then show ?thesis using kscan_pass [of "[0..<i]" f s] assms by (simp add: kscan_append kbind_def kret_def)
qed

definition block_size :: "'a fstab_scheme \<Rightarrow> nat" where
  "block_size s = unat (sb_size (fs_sb s))"

text \<open>The bitmap lies outside the log, and the blocks that are free are neither blocks of the log nor of the bitmap.\<close>

definition fs_layout :: "'a fstab_scheme \<Rightarrow> bool" where
  "fs_layout s \<longleftrightarrow> (\<forall>b<block_size s. outside_log s (bmap_block s b)) \<and>
     (\<forall>b<block_size s. \<not> used s b \<longrightarrow> outside_log s (of_nat b) \<and> (\<forall>c<block_size s. bmap_block s c \<noteq> of_nat b))"

lemma in_chunk:
  assumes "i < min BPB (n - BPB * k)" "n < 2 ^ 32"
  shows "BPB * k + i < n" "(BPB * k + i) div 8192 = k" "(BPB * k + i) mod 8192 = i" "BPB * k < n"
  using assms by auto

lemma bmap_chunk:
  assumes "i < min BPB (n - BPB * k)" "n < 2 ^ 32"
  shows "bmap_block s (BPB * k + i) = bmap_block s (BPB * k)"
proof -
  note c = in_chunk [OF assms]
  have "bmap_block s (BPB * k + i) = bmap_block s (BPB * k) \<longleftrightarrow> (BPB * k + i) div 8192 = (BPB * k) div 8192"
    by (rule bmap_block_eq) (use c assms(2) in auto)
  then show ?thesis using c(2) by simp
qed

text \<open>What \<^verbatim>\<open>balloc\<close> has done when it took block \<open>b\<close>.\<close>

definition allocated :: "nat \<Rightarrow> nat \<Rightarrow> 'a fstab_scheme \<Rightarrow> nat \<Rightarrow> 'a fstab_scheme \<Rightarrow> bool" where
  "allocated k p s b s' \<longleftrightarrow> (\<exists>P'. open_tx k P' p s') \<and> (\<forall>c<block_size s. used s' c = (used s c \<or> c = b)) \<and>
     blk s' (of_nat b) = replicate 1024 0 \<and> (\<forall>n. n \<noteq> of_nat b \<longrightarrow> n \<noteq> bmap_block s b \<longrightarrow> blk s' n = blk s n) \<and> lframe s s'"

lemma balloc_bit_ok:
  fixes s :: "'a fstab_scheme"
  assumes tx: "open_tx (Suc (Suc k)) P p s" and h: "held P (bmap_block s (BPB * q)) bp s s1" and i: "i < min BPB (block_size s - BPB * q)"
    and lay: "fs_layout s"
  shows "used s (BPB * q + i) \<Longrightarrow> balloc_bit 1 (BPB * q) bp i s1 = Inr (None, s1)"
    "\<not> used s (BPB * q + i) \<Longrightarrow> \<exists>s'. balloc_bit 1 (BPB * q) bp i s1 = Inr (Some (of_nat (BPB * q + i)), s') \<and> allocated k p s (BPB * q + i) s'"
proof -
  let ?b = "BPB * q + i"
  have sz: "block_size s < 2 ^ 32" using unat_lt32 [of "sb_size (fs_sb s)"] by (simp add: block_size_def)
  note c = in_chunk [OF i sz]
  have b: "?b < 2 ^ 32" using c(1) sz by simp
  have h': "held P (bmap_block s ?b) bp s s1" using h by (simp only: bmap_chunk [OF i sz])
  have m8: "i mod 8 < 8" by simp
  have e8: "?b mod 8 = i mod 8" using mod_mod_cancel [of 8 8192 ?b] c(3) by simp
  note u = bit_at [OF h', unfolded c(3) e8]
  show "balloc_bit 1 (BPB * q) bp i s1 = Inr (None, s1)" if "used s ?b"
    using that u mask_bit(1) [OF m8] by (simp add: balloc_bit_def kbind_def kgets_def kret_def Let_def)
  assume f: "\<not> used s ?b"
  have out: "outside_log s (bmap_block s ?b)" "outside_log s (of_nat ?b)" "\<forall>c<block_size s. bmap_block s c \<noteq> of_nat ?b"
    using lay c(1) f unfolding fs_layout_def by blast+
  let ?a = "bdata s1 bp + of_nat (i div 8)"
  obtain s2 s3 P3 where 2: "log_write bp (s1\<lparr>ram := (ram s1)(?a := ram s1 ?a OR 2 ^ (i mod 8))\<rparr>) = Inr ((), s2)" "brelse bp s2 = Inr ((), s3)"
    "open_tx (Suc k) P3 p s3" "\<And>c. c < 2 ^ 32 \<Longrightarrow> used s3 c \<longleftrightarrow> (if c = ?b then True else used s c)"
    "\<And>n. n \<noteq> bmap_block s ?b \<Longrightarrow> blk s3 n = blk s n" "disk s3 = disk s" "lframe s s3"
    by (rule change_bit [OF h' tx out(1) b refl, of "ram s1 ?a OR 2 ^ (i mod 8)" True, unfolded c(3) e8]) (auto simp: mask_bit(2) [OF m8])
  have "outside_log s3 (of_nat ?b)" using out(2) 2(7) by (simp add: lframe_def)
  then obtain s4 P4 where 4: "bzero 1 (of_nat ?b) s3 = Inr ((), s4)" "open_tx k P4 p s4" "blk s4 = (blk s3)(of_nat ?b := replicate 1024 0)"
    "disk s4 = disk s3" "lframe s3 s4" by (rule bzero_ok [OF 2(3)])
  have run: "balloc_bit 1 (BPB * q) bp i s1 = Inr (Some (of_nat ?b), s4)"
    using f u mask_bit(1) [OF m8] 2(1,2) 4(1) by (simp add: balloc_bit_def kbind_def kseq_def kgets_def kmod_def kret_def Let_def)
  have bb: "bmap_block s4 = bmap_block s" "bmap_block s3 = bmap_block s" using lframe_fs [OF 4(5)] lframe_fs [OF 2(7)] by (simp_all add: bmap_block_def fun_eq_iff)
  have "used s4 c = used s3 c" if "bmap_block s c \<noteq> of_nat ?b" for c using that by (simp add: used_def bb 4(3))
  moreover have "bmap_block s ?b \<noteq> of_nat ?b" using out(3) c(1) by blast
  ultimately have "allocated k p s ?b s4"
    unfolding allocated_def using 4(2,3) 2(4,5) lframe_trans [OF 2(7) 4(5)] out(3) sz by auto
  then show "\<exists>s'. balloc_bit 1 (BPB * q) bp i s1 = Inr (Some (of_nat ?b), s') \<and> allocated k p s ?b s'" using run by blast
qed

lemma balloc_block_ok:
  fixes s :: "'a fstab_scheme"
  assumes tx: "open_tx (Suc (Suc k)) P p s" and lay: "fs_layout s"
  shows "\<forall>i<min BPB (block_size s - BPB * q). used s (BPB * q + i) \<Longrightarrow>
      \<exists>s'. balloc_block 1 (BPB * q) s = Inr (None, s') \<and> open_tx (Suc (Suc k)) P p s' \<and> blk s' = blk s \<and> lframe s s'"
    "i < min BPB (block_size s - BPB * q) \<Longrightarrow> \<not> used s (BPB * q + i) \<Longrightarrow> \<forall>j<i. used s (BPB * q + j) \<Longrightarrow>
      \<exists>s'. balloc_block 1 (BPB * q) s = Inr (Some (of_nat (BPB * q + i)), s') \<and> allocated k p s (BPB * q + i) s'"
proof -
  have L: "loginv {} P s" "runs p s" using tx by (auto simp: open_tx_def)
  obtain bp s1 where 1: "bread 1 (bmap_block s (BPB * q)) s = Inr (bp, s1)" "held P (bmap_block s (BPB * q)) bp s s1" by (rule hold_block [OF L])
  have r: "bread 1 (BBLOCK (of_nat (BPB * q)) (fs_sb s)) s = Inr (bp, s1)" using 1(1) by (simp only: bmap_block_def)
  note bt = balloc_bit_ok [OF tx 1(2) _ lay]
  let ?n = "min BPB (block_size s - BPB * q)"
  {
    assume a: "\<forall>i<?n. used s (BPB * q + i)"
    have "kscan [0..<?n] (balloc_bit 1 (BPB * q) bp) s1 = Inr (None, s1)" by (rule kscan_pass) (use a bt(1) in auto)
    moreover obtain s' where 2: "brelse bp s1 = Inr ((), s')" "loginv {} P s'" "blk s' = blk s" "disk s' = disk s" "bframe s s'"
      "lh_n s' = lh_n s" "lh_block s' = lh_block s" by (rule release_block [OF 1(2) L(2)])
    moreover have "open_tx (Suc (Suc k)) P p s'" using tx 2(2,5,6) bframe_runs [OF 2(5)] bframe_log [OF 2(5)] by (simp add: open_tx_def)
    ultimately show "\<exists>s'. balloc_block 1 (BPB * q) s = Inr (None, s') \<and> open_tx (Suc (Suc k)) P p s' \<and> blk s' = blk s \<and> lframe s s'"
      using r bframe_lframe [OF 2(5)] by (simp add: balloc_block_def kbind_def kseq_def kgets_def kret_def block_size_def)
  }
  assume i: "i < ?n" "\<not> used s (BPB * q + i)" "\<forall>j<i. used s (BPB * q + j)"
  obtain s' where 2: "balloc_bit 1 (BPB * q) bp i s1 = Inr (Some (of_nat (BPB * q + i)), s')" "allocated k p s (BPB * q + i) s'"
    using bt(2) [OF i(1,2)] by blast
  have "kscan [0..<?n] (balloc_bit 1 (BPB * q) bp) s1 = Inr (Some (of_nat (BPB * q + i)), s')"
    by (rule kscan_hit [where i = i and f = "balloc_bit 1 (BPB * q) bp"]) (use i bt(1) 2(1) in auto)
  then show "\<exists>s'. balloc_block 1 (BPB * q) s = Inr (Some (of_nat (BPB * q + i)), s') \<and> allocated k p s (BPB * q + i) s'"
    using r 2(2) by (simp add: balloc_block_def kbind_def kgets_def kret_def block_size_def)
qed

lemma fs_view:
  fixes s :: "'a fstab_scheme"
  assumes "blk s' = blk s" "lframe s s'"
  shows "used s' = used s" "block_size s' = block_size s" "fs_layout s' = fs_layout s" "allocated k p s' b t \<Longrightarrow> allocated k p s b t"
proof -
  have l: "fs_sb s' = fs_sb s" "l_start s' = l_start s" "l_size s' = l_size s" using lframe_fs [OF assms(2)] assms(2) by (auto simp: lframe_def)
  have b: "bmap_block s' = bmap_block s" by (simp add: bmap_block_def fun_eq_iff l)
  show u: "used s' = used s" and z: "block_size s' = block_size s" by (simp_all add: used_def fun_eq_iff block_size_def l b assms(1))
  show "fs_layout s' = fs_layout s" by (simp add: fs_layout_def u z b l)
  show "allocated k p s' b t \<Longrightarrow> allocated k p s b t" using lframe_trans [OF assms(2)] by (auto simp: allocated_def u z b assms(1))
qed

lemma balloc_scan_ok:
  fixes s :: "'a fstab_scheme"
  assumes "open_tx (Suc (Suc k)) P p s" "fs_layout s" "b < block_size s" "\<not> used s b" "\<forall>c<b. used s c" "q + d = b div BPB" "b div BPB < K"
  shows "\<exists>s'. kscan (map (\<lambda>k. BPB * k) [q..<K]) (balloc_block 1) s = Inr (Some (of_nat b), s') \<and> allocated k p s b s'"
  using assms
proof (induction d arbitrary: q s)
  case 0
  have up: "[q..<K] = q # [Suc q..<K]" using 0 by (simp add: upt_rec)
  have q: "b = BPB * q + b mod BPB" using 0(6) by simp
  have i: "b mod BPB < min BPB (block_size s - BPB * q)" using 0(3) q by (metis add_less_imp_less_left less_diff_conv add.commute min_less_iff_conj mod_less_divisor zero_less_numeral)
  have "\<forall>j<b mod BPB. used s (BPB * q + j)" using 0(5) q by (metis nat_add_left_cancel_less)
  then obtain s' where "balloc_block 1 (BPB * q) s = Inr (Some (of_nat b), s')" "allocated k p s b s'"
    using balloc_block_ok(2) [OF 0(1,2) i] 0(4) q by metis
  then show ?case unfolding up by (auto simp: kbind_def kret_def)
next
  case (Suc d)
  have up: "[q..<K] = q # [Suc q..<K]" using Suc.prems(6,7) by (simp add: upt_rec)
  have lt: "q < b div BPB" using Suc.prems(6) by simp
  then have "BPB * q + BPB \<le> b" by (metis Suc_leI div_mult_self_is_m less_eq_div_iff_mult_less_eq mult.commute mult_Suc_right zero_less_numeral add.commute)
  then have "\<forall>i<min BPB (block_size s - BPB * q). used s (BPB * q + i)" using Suc.prems(5) by simp
  then obtain s1 where 1: "balloc_block 1 (BPB * q) s = Inr (None, s1)" "open_tx (Suc (Suc k)) P p s1" "blk s1 = blk s" "lframe s s1"
    using balloc_block_ok(1) [OF Suc.prems(1,2)] by blast
  note v = fs_view [OF 1(3,4)]
  have qd: "Suc q + d = b div BPB" using Suc.prems(6) by simp
  obtain s' where "kscan (map (\<lambda>k. BPB * k) [Suc q..<K]) (balloc_block 1) s1 = Inr (Some (of_nat b), s')" "allocated k p s1 b s'"
    using Suc.IH [OF 1(2) _ _ _ _ qd Suc.prems(7)] Suc.prems(2-5) v(1-3) by auto
  then show ?case unfolding up using 1(1) v(4) by (auto simp: kbind_def)
qed

lemma balloc_ok:
  fixes s :: "'a fstab_scheme"
  assumes "open_tx (Suc (Suc k)) P p s" "fs_layout s" "b < block_size s" "\<not> used s b" "\<forall>c<b. used s c"
  shows "\<exists>s'. balloc 1 s = Inr (of_nat b, s') \<and> allocated k p s b s'"
proof -
  have "b div BPB < (block_size s + BPB - 1) div BPB" using assms(3) by (auto simp: div_less_iff_less_mult)
  then obtain s' where "kscan (map (\<lambda>k. BPB * k) [0..<(block_size s + BPB - 1) div BPB]) (balloc_block 1) s = Inr (Some (of_nat b), s')" "allocated k p s b s'"
    using balloc_scan_ok [OF assms, of 0 "b div BPB"] by auto
  then show ?thesis by (auto simp: balloc_def kbind_def kgets_def kret_def block_size_def)
qed

section \<open>Inodes on disk\<close>

type_synonym idata = "uint16 \<times> uint16 \<times> uint16 \<times> uint16 \<times> uint32 \<times> uint32 list"

text \<open>Slot \<open>k\<close> of a block of inodes, what an inode in memory holds of it, and the block after \<^verbatim>\<open>iupdate\<close>.\<close>

definition dinode :: "block \<Rightarrow> nat \<Rightarrow> idata" where
  "dinode v k = (ldb 2 v (64 * k), ldb 2 v (64 * k + 2), ldb 2 v (64 * k + 4), ldb 2 v (64 * k + 6), ldb 4 v (64 * k + 8),
     map (\<lambda>i. ldb 4 v (64 * k + 12 + 4 * i)) [0..<13])"

definition idata_of :: "inode \<Rightarrow> idata" where
  "idata_of x = (i_type x, i_major x, i_minor x, i_nlink x, i_size x, map (i_addrs x) [0..<13])"

definition put_addrs :: "nat \<Rightarrow> nat \<Rightarrow> (nat \<Rightarrow> uint32) \<Rightarrow> block \<Rightarrow> block" where
  "put_addrs o' n f v = fold (\<lambda>i v. stb 4 v (o' + 4 * i) (f i)) [0..<n] v"

definition put_dinode :: "block \<Rightarrow> nat \<Rightarrow> inode \<Rightarrow> block" where
  "put_dinode v k x = put_addrs (64 * k + 12) 13 (i_addrs x)
     (stb 4 (stb 2 (stb 2 (stb 2 (stb 2 v (64 * k) (i_type x)) (64 * k + 2) (i_major x)) (64 * k + 4) (i_minor x)) (64 * k + 6) (i_nlink x)) (64 * k + 8) (i_size x))"

lemma put_addrs_other:
  assumes "o' + 4 * n \<le> BSIZE" "j + l \<le> BSIZE" "j + l \<le> o' \<or> o' + 4 * n \<le> j"
  shows "ldb l (put_addrs o' n f v) j = (ldb l v j :: 'w::len word)"
  using assms
proof (induction n)
  case (Suc n)
  have "ldb l (stb 4 (put_addrs o' n f v) (o' + 4 * n) (f n)) j = (ldb l (put_addrs o' n f v) j :: 'w word)"
    using Suc.prems by (intro ldb_stb_other) auto
  moreover have "ldb l (put_addrs o' n f v) j = (ldb l v j :: 'w word)" using Suc.prems by (intro Suc.IH) auto
  ultimately show ?case by (simp add: put_addrs_def)
qed (simp add: put_addrs_def)

lemma put_addrs_same: "o' + 4 * n \<le> BSIZE \<Longrightarrow> i < n \<Longrightarrow> ldb 4 (put_addrs o' n f v) (o' + 4 * i) = f i"
proof (induction n)
  case (Suc n)
  have e: "put_addrs o' (Suc n) f v = stb 4 (put_addrs o' n f v) (o' + 4 * n) (f n)" by (simp add: put_addrs_def)
  show ?case
  proof (cases "i = n")
    case True
    then show ?thesis unfolding e using Suc.prems by (simp add: ldb_stb)
  next
    case False
    then have "ldb 4 (put_addrs o' (Suc n) f v) (o' + 4 * i) = (ldb 4 (put_addrs o' n f v) (o' + 4 * i) :: uint32)"
      unfolding e using Suc.prems by (intro ldb_stb_other) auto
    then show ?thesis using Suc False by simp
  qed
qed simp

lemma put_dinode_other:
  assumes "k < 16" "k' < 16" "k' \<noteq> k" "j + l \<le> 64"
  shows "ldb l (put_dinode v k x) (64 * k' + j) = (ldb l v (64 * k' + j) :: 'w::len word)"
proof -
  have "64 * k' + 64 \<le> 64 * k \<or> 64 * k + 64 \<le> 64 * k'" using assms(3) by linarith
  then show ?thesis by (rule disjE) (use assms(1,2,4) in \<open>simp_all add: put_dinode_def put_addrs_other ldb_stb_other\<close>)
qed

lemma dinode_put:
  assumes "k < 16" "k' < 16"
  shows "dinode (put_dinode v k x) k' = (if k' = k then idata_of x else dinode v k')"
proof (cases "k' = k")
  case True
  have "map (\<lambda>i. ldb 4 (put_dinode v k x) (64 * k + 12 + 4 * i)) [0..<13] = map (i_addrs x) [0..<13]"
    unfolding put_dinode_def using assms by (intro map_cong put_addrs_same) auto
  moreover have "ldb 2 (put_dinode v k x) (64 * k) = i_type x" "ldb 2 (put_dinode v k x) (64 * k + 2) = i_major x"
    "ldb 2 (put_dinode v k x) (64 * k + 4) = i_minor x" "ldb 2 (put_dinode v k x) (64 * k + 6) = i_nlink x"
    "ldb 4 (put_dinode v k x) (64 * k + 8) = i_size x"
    using assms by (simp_all add: put_dinode_def put_addrs_other ldb_stb_other ldb_stb)
  ultimately show ?thesis using True by (simp add: dinode_def idata_of_def)
next
  case False
  note o = put_dinode_other [OF assms False, of _ _ v x]
  have "ldb 4 (put_dinode v k x) (64 * k' + 12 + 4 * i) = (ldb 4 v (64 * k' + 12 + 4 * i) :: uint32)" if "i < 13" for i
    using put_dinode_other [OF assms False, of "12 + 4 * i" 4 v x] that by (simp add: add.assoc)
  then show ?thesis using False o [of 0 2] o [of 2 2] o [of 4 2] o [of 6 2] o [of 8 4] by (simp add: dinode_def)
qed

definition ino_block :: "'a fstab_scheme \<Rightarrow> nat \<Rightarrow> uint32" where
  "ino_block s ip = IBLOCK (i_inum (inodes s ip)) (fs_sb s)"

definition ino_slot :: "'a fstab_scheme \<Rightarrow> nat \<Rightarrow> nat" where
  "ino_slot s ip = unat (i_inum (inodes s ip)) mod 16"

definition addrs_ram :: "addr \<Rightarrow> (nat \<Rightarrow> uint32) \<Rightarrow> nat \<Rightarrow> ram \<Rightarrow> ram" where
  "addrs_ram d f n m = fold (\<lambda>i m. st32 m (d + of_nat (12 + 4 * i)) (f i)) [0..<n] m"

lemma store_addrs:
  "kfor [0..<n] (\<lambda>i. upd_ram (\<lambda>m. st32 m (d + of_nat (12 + 4 * i)) (f i))) s = Inr ((), s\<lparr>ram := addrs_ram d f n (ram s)\<rparr>)"
proof (induction n)
  case 0
  then show ?case by (simp add: kret_def addrs_ram_def)
next
  case (Suc n)
  show ?case unfolding kfor_Suc [OF Suc] by (simp add: kmod_def addrs_ram_def)
qed

lemmas store_addrs_fun = ext [OF store_addrs]

lemma store_addrs_block:
  assumes "n \<le> 13" "k < 16"
  shows "rd_block (addrs_ram (a + of_nat (64 * k)) f n m) a = put_addrs (64 * k + 12) n f (rd_block m a)" "\<not> unat (x - a) < BSIZE \<Longrightarrow> addrs_ram (a + of_nat (64 * k)) f n m x = m x"
proof -
  let ?m = "\<lambda>n. addrs_ram (a + of_nat (64 * k)) f n m"
  have s: "?m (Suc n) = st32 (?m n) (a + of_nat (64 * k + 12 + 4 * n)) (f n)" for n by (simp add: addrs_ram_def algebra_simps)
  show "rd_block (?m n) a = put_addrs (64 * k + 12) n f (rd_block m a)" using assms(1)
  proof (induction n)
    case (Suc n)
    then show ?case unfolding s using assms(2) stw_block [of "64 * k + 12 + 4 * n" 4 "?m n" a "f n"] by (simp add: put_addrs_def del: of_nat_add of_nat_mult)
  qed (simp add: addrs_ram_def put_addrs_def)
  show "\<not> unat (x - a) < BSIZE \<Longrightarrow> ?m n x = m x" using assms(1)
  proof (induction n)
    case (Suc n)
    then show ?case unfolding s using assms(2) stw_outside [of "64 * k + 12 + 4 * n" 4 x a "?m n" "f n"] by (simp del: of_nat_add of_nat_mult)
  qed (simp add: addrs_ram_def)
qed

definition dinode_ram :: "ram \<Rightarrow> addr \<Rightarrow> inode \<Rightarrow> ram" where
  "dinode_ram m d x = addrs_ram d (i_addrs x) 13
     (st32 (st16 (st16 (st16 (st16 m d (i_type x)) (d + 2) (i_major x)) (d + 4) (i_minor x)) (d + 6) (i_nlink x)) (d + 8) (i_size x))"

lemma dinode_ram_ok:
  assumes "k < 16"
  shows "rd_block (dinode_ram m (a + of_nat (64 * k)) x) a = put_dinode (rd_block m a) k x"
    "\<not> unat (y - a) < BSIZE \<Longrightarrow> dinode_ram m (a + of_nat (64 * k)) x y = m y"
proof -
  have st: "rd_block (st16 m (a + of_nat (64 * k) + of_nat j) w) a = stb 2 (rd_block m a) (64 * k + j) w"
      "\<not> unat (y - a) < BSIZE \<Longrightarrow> st16 m (a + of_nat (64 * k) + of_nat j) w y = m y" if "j \<le> 6" for m j and w :: uint16
    using stw_block [of "64 * k + j" 2 m a w] stw_outside [of "64 * k + j" 2 y a m w] assms that by (simp_all add: add.assoc)
  have st8: "rd_block (st32 m (a + of_nat (64 * k) + of_nat 8) w) a = stb 4 (rd_block m a) (64 * k + 8) w"
      "\<not> unat (y - a) < BSIZE \<Longrightarrow> st32 m (a + of_nat (64 * k) + of_nat 8) w y = m y" for m and w :: uint32
    using stw_block [of "64 * k + 8" 4 m a w] stw_outside [of "64 * k + 8" 4 y a m w] assms by (simp_all add: add.assoc)
  note s0 = st [of 0, simplified] and s2 = st [of 2, simplified] and s4 = st [of 4, simplified] and s6 = st [of 6, simplified] and s8 = st8 [simplified]
  note ad = store_addrs_block [OF order_refl assms, where a = a and f = "i_addrs x"]
  show "rd_block (dinode_ram m (a + of_nat (64 * k)) x) a = put_dinode (rd_block m a) k x"
    unfolding dinode_ram_def ad(1) put_dinode_def by (simp add: s0 s2 s4 s6 s8)
  assume o: "\<not> unat (y - a) < BSIZE"
  show "dinode_ram m (a + of_nat (64 * k)) x y = m y" unfolding dinode_ram_def ad(2) [OF o] using o by (simp add: s0 s2 s4 s6 s8)
qed

lemma iupdate_ok:
  fixes s :: "'a fstab_scheme"
  assumes tx: "open_tx (Suc k) P p s" and out: "outside_log s (ino_block s ip)" and dev: "i_dev (inodes s ip) = 1"
  obtains s' P' where "iupdate ip s = Inr ((), s')" "open_tx k P' p s'" "lframe s s'"
    "blk s' = (blk s)(ino_block s ip := put_dinode (blk s (ino_block s ip)) (ino_slot s ip) (inodes s ip))"
proof -
  have L: "loginv {} P s" "runs p s" using tx by (auto simp: open_tx_def)
  let ?n = "ino_block s ip" and ?x = "inodes s ip" and ?k = "ino_slot s ip"
  have k: "?k < 16" by (simp add: ino_slot_def)
  obtain b s1 where 1: "bread 1 ?n s = Inr (b, s1)" "held P ?n b s s1" by (rule hold_block [OF L])
  have d: "dip_at s1 b (i_inum ?x) = bdata s1 b + of_nat (64 * ?k)" by (simp add: dip_at_def ino_slot_def)
  let ?m = "dinode_ram (ram s1) (bdata s1 b + of_nat (64 * ?k)) ?x"
  have o: "\<forall>x. \<not> unat (x - bdata s1 b) < BSIZE \<longrightarrow> ?m x = ram s1 x" using dinode_ram_ok(2) [OF k] by blast
  obtain s2 s' P' where 2: "log_write b (s1\<lparr>ram := ?m\<rparr>) = Inr ((), s2)" "brelse b s2 = Inr ((), s')" "open_tx k P' p s'"
    "blk s' = (blk s)(?n := rd_block ?m (bdata s1 b))" "disk s' = disk s" "lframe s s'"
    by (rule change_logged [OF 1(2) tx out o])
  have sb: "fs_sb s1 = fs_sb s" using lframe_fs [OF bframe_lframe] 1(2) by (auto simp: held_def)
  have r: "bread (i_dev ?x) (IBLOCK (i_inum ?x) (fs_sb s)) s = Inr (b, s1)" using 1(1) dev by (simp add: ino_block_def)
  have "iupdate ip s = Inr ((), s')"
    unfolding iupdate_def store_addrs_fun
    using r 2(1,2) by (simp add: kbind_def kseq_def kgets_def kmod_def d dinode_ram_def del: of_nat_mult)
  moreover have "rd_block ?m (bdata s1 b) = put_dinode (blk s ?n) ?k ?x" using dinode_ram_ok(1) [OF k] 1(2) by (simp add: held_def)
  ultimately show thesis using that 2(3,4,6) by simp
qed

lemma fs_more: "xlog.more s' = xlog.more (s :: 'a fstab_scheme) \<Longrightarrow> fs_sb s' = fs_sb s \<and> inodes s' = inodes s \<and> fstab.more s' = fstab.more s"
  by (cases s; cases s') simp

lemma loginv_inodes [simp]: "loginv H P (s\<lparr>inodes := f\<rparr>) = loginv H P s" "blk (s\<lparr>inodes := f\<rparr>) = blk s" "runs p (s\<lparr>inodes := f\<rparr>) = runs p s"
  by (simp_all add: loginv_def binv_def runs_def blk_def pinned_def fun_eq_iff split: option.split)

lemma held_inodes:
  fixes s :: "'a fstab_scheme"
  assumes "held P n b s s1"
  shows "held P n b (s\<lparr>inodes := f\<rparr>) (s1\<lparr>inodes := f\<rparr>)"
proof -
  have "bcache.more (s1\<lparr>inodes := f\<rparr>) = bcache.more (s\<lparr>inodes := f\<rparr>)"
    using assms by (cases s; cases s1) (simp add: held_def bframe_def)
  moreover have "bframe s s1" using assms by (simp add: held_def)
  ultimately have "bframe (s\<lparr>inodes := f\<rparr>) (s1\<lparr>inodes := f\<rparr>)" by (simp add: bframe_def)
  then show ?thesis using assms by (auto simp: held_def)
qed

text \<open>The inode that is read.\<close>

definition loaded :: "ram \<Rightarrow> addr \<Rightarrow> inode \<Rightarrow> inode" where
  "loaded m d y = y\<lparr>i_type := ld16 m d, i_major := ld16 m (d + 2), i_minor := ld16 m (d + 4), i_nlink := ld16 m (d + 6),
     i_size := ld32 m (d + 8), i_addrs := (\<lambda>i. if i < 13 then ld32 m (d + of_nat (12 + 4 * i)) else i_addrs y i)\<rparr>"

lemma loaded_data:
  assumes "k < 16"
  shows "idata_of ((loaded m (a + of_nat (64 * k)) y)\<lparr>i_valid := v\<rparr>) = dinode (rd_block m a) k"
proof -
  have l2: "(ld16 m (a + of_nat (64 * k) + of_nat j) :: uint16) = ldb 2 (rd_block m a) (64 * k + j)" if "j \<le> 6" for j
    using ldw_block [of "64 * k + j" 2 m a] assms that by (simp add: add.assoc)
  have l4: "(ld32 m (a + of_nat (64 * k) + of_nat j) :: uint32) = ldb 4 (rd_block m a) (64 * k + j)" if "j \<le> 60" for j
    using ldw_block [of "64 * k + j" 4 m a] assms that by (simp add: add.assoc)
  have "ld32 m (a + of_nat (64 * k) + of_nat (12 + 4 * i)) = (ldb 4 (rd_block m a) (64 * k + 12 + 4 * i) :: uint32)" if "i < 13" for i
    using l4 [of "12 + 4 * i"] that by (simp add: add.assoc del: of_nat_add of_nat_mult)
  then show ?thesis using l2 [of 0] l2 [of 2] l2 [of 4] l2 [of 6] l4 [of 8]
    by (simp add: idata_of_def loaded_def dinode_def del: of_nat_add of_nat_mult)
qed

lemma ilock_read_loaded:
  "ilock_read ip =
     kbind (kgets (\<lambda>s. inodes s ip)) (\<lambda>x.
     kbind (kgets fs_sb) (\<lambda>sb.
     kbind (bread (i_dev x) (IBLOCK (i_inum x) sb)) (\<lambda>bp.
     kbind (kgets (\<lambda>s. dip_at s bp (i_inum x))) (\<lambda>dip.
     kseq (kmod (\<lambda>s. s\<lparr>inodes := (inodes s)(ip := loaded (ram s) dip (inodes s ip))\<rparr>))
    (kseq (brelse bp)
    (kseq (updi ip (\<lambda>x. x\<lparr>i_valid := True\<rparr>))
    (kbind (geti i_type ip) (\<lambda>t.
     if t = 0 then kpanic ''ilock: no type'' else kret ()))))))))"
  by (simp add: ilock_read_def loaded_def Let_def)

lemma ilock_read_ok:
  fixes s :: "'a fstab_scheme"
  assumes L: "loginv {} P s" and r: "runs p s" and dev: "i_dev (inodes s ip) = 1"
  obtains s' x where "loginv {} P s'" "blk s' = blk s" "runs p s'" "inodes s' = (inodes s)(ip := x)"
    "idata_of x = dinode (blk s (ino_block s ip)) (ino_slot s ip)" "i_valid x" "i_dev x = 1" "i_inum x = i_inum (inodes s ip)" "i_ref x = i_ref (inodes s ip)"
    "ilock_read ip s = (if i_type x = 0 then Inl (Panic ''ilock: no type'') else Inr ((), s'))"
proof -
  let ?n = "ino_block s ip" and ?y = "inodes s ip" and ?k = "ino_slot s ip"
  have k: "?k < 16" by (simp add: ino_slot_def)
  obtain b s1 where 1: "bread 1 ?n s = Inr (b, s1)" "held P ?n b s s1" by (rule hold_block [OF L r])
  have bd: "bd s1 b = blk s ?n" using 1(2) by (simp add: held_def)
  let ?d = "bdata s1 b + of_nat (64 * ?k)"
  define x0 where "x0 = loaded (ram s1) ?d ?y"
  let ?f = "(inodes s)(ip := x0)"
  have sb: "inodes s1 = inodes s" using lframe_fs [OF bframe_lframe] 1(2) by (auto simp: held_def)
  obtain s2 where 2: "brelse b (s1\<lparr>inodes := ?f\<rparr>) = Inr ((), s2)" "loginv {} P s2" "blk s2 = blk (s\<lparr>inodes := ?f\<rparr>)"
    "disk s2 = disk (s\<lparr>inodes := ?f\<rparr>)" "bframe (s\<lparr>inodes := ?f\<rparr>) s2"
    by (rule release_block [OF held_inodes [OF 1(2), of ?f]]) (use r in simp)
  have i2: "inodes s2 = ?f" using lframe_fs [OF bframe_lframe [OF 2(5)]] by simp
  have r1: "bread (i_dev ?y) (IBLOCK (i_inum ?y) (fs_sb s)) s = Inr (b, s1)" using 1(1) dev by (simp add: ino_block_def)
  have d: "dip_at s1 b (i_inum ?y) = ?d" by (simp add: dip_at_def ino_slot_def)
  let ?x = "x0\<lparr>i_valid := True\<rparr>" and ?s = "s2\<lparr>inodes := (inodes s)(ip := x0\<lparr>i_valid := True\<rparr>)\<rparr>"
  have run: "ilock_read ip s = (if i_type ?x = 0 then Inl (Panic ''ilock: no type'') else Inr ((), ?s))"
    using r1 2(1) by (simp add: ilock_read_loaded kbind_def kseq_def kgets_def kmod_def kret_def kfail_def d sb i2 x0_def [symmetric] del: of_nat_mult)
  show thesis
  proof (rule that [of ?s ?x])
    show "idata_of ?x = dinode (blk s ?n) ?k" unfolding x0_def loaded_data [OF k] bd ..
    show "runs p ?s" using bframe_runs [OF 2(5)] r by simp
  qed (use run 2(2,3) dev in \<open>simp_all add: x0_def loaded_def\<close>)
qed

lemma ilock_ok:
  fixes t :: "'a fstab_scheme"
  assumes L: "loginv {} P t" and r: "runs p t" and x: "i_dev (inodes t ip) = 1" "1 \<le> i_ref (inodes t ip)" "\<not> i_valid (inodes t ip)"
    and free: "\<not> sl_locked (sls t (Inode_sl ip))" and d: "dinode (blk t (ino_block t ip)) (ino_slot t ip) = idata_of y" "i_type y \<noteq> 0"
  shows "\<exists>t'. ilock (Some ip) t = Inr ((), t') \<and> loginv {} P t' \<and> blk t' = blk t \<and> idata_of (inodes t' ip) = idata_of y \<and> i_valid (inodes t' ip)"
proof -
  let ?u = "(settled t)\<lparr>sls := (sls t)(Inode_sl ip := (sls t (Inode_sl ip))\<lparr>sl_locked := True, sl_pid := pid (procs t p)\<rparr>)\<rparr>"
  have u: "loginv {} P ?u" "blk ?u = blk t" "runs p ?u"
    using L r by (simp_all add: loginv_def binv_def runs_def blk_def pinned_def fun_eq_iff split: option.split)
  obtain t' z where 1: "loginv {} P t'" "blk t' = blk ?u" "runs p t'" "inodes t' = (inodes ?u)(ip := z)"
    "idata_of z = dinode (blk ?u (ino_block ?u ip)) (ino_slot ?u ip)" "i_valid z" "i_dev z = 1" "i_inum z = i_inum (inodes ?u ip)" "i_ref z = i_ref (inodes ?u ip)"
    "ilock_read ip ?u = (if i_type z = 0 then Inl (Panic ''ilock: no type'') else Inr ((), t'))"
    by (rule ilock_read_ok [OF u(1,3), of ip]) (use x(1) in simp_all)
  have z: "idata_of z = idata_of y" using 1(5) d(1) by (simp add: u(2) ino_block_def ino_slot_def)
  then have "i_type z \<noteq> 0" using d(2) by (simp add: idata_of_def)
  then have "ilock (Some ip) t = Inr ((), t')"
    using x 1(10) acquiresleep_eq [OF r free] by (simp add: ilock_def kbind_def kseq_def kgets_def)
  then show ?thesis using 1(1,2,4,6) z u(2) by auto
qed

section \<open>The table of inodes in memory\<close>








section \<open>Properties\<close>

text \<open>C18: \<^verbatim>\<open>balloc\<close> inside a transaction with room for two more blocks takes the first block that the bitmap
  shows as free, over all blocks of the bitmap: it returns its number, marks it and no other as used, and the
  block reads as zeros; no other block changes and the transaction stays well-formed.\<close>

theorem balloc_takes_first_free:
  fixes s :: "'a fstab_scheme"
  assumes "open_tx (Suc (Suc k)) P p s" "fs_layout s" "b < block_size s" "\<not> used s b" "\<forall>c<b. used s c"
  shows "\<exists>s' P'. balloc 1 s = Inr (of_nat b, s') \<and> open_tx k P' p s' \<and>
     (\<forall>c<block_size s. used s' c \<longleftrightarrow> used s c \<or> c = b) \<and> blk s' (of_nat b) = replicate 1024 0 \<and>
     (\<forall>n. n \<noteq> of_nat b \<longrightarrow> n \<noteq> bmap_block s b \<longrightarrow> blk s' n = blk s n) \<and> inodes s' = inodes s"
  using balloc_ok [OF assms] lframe_fs unfolding allocated_def by blast

text \<open>C22: \<^verbatim>\<open>bfree\<close> inside a transaction clears the mark of exactly the given block and changes no block but that of
  the bitmap; freeing a block that is not in use panics.\<close>

theorem bfree_frees_one:
  fixes s :: "'a fstab_scheme"
  assumes "open_tx (Suc k) P p s" "outside_log s (bmap_block s (unat b))"
  shows "if used s (unat b)
     then \<exists>s' P'. bfree 1 b s = Inr ((), s') \<and> open_tx k P' p s' \<and> (\<forall>c<2 ^ 32. used s' c \<longleftrightarrow> used s c \<and> c \<noteq> unat b) \<and>
        (\<forall>n. n \<noteq> bmap_block s (unat b) \<longrightarrow> blk s' n = blk s n) \<and> inodes s' = inodes s
     else bfree 1 b s = Inl (Panic ''freeing free block'')"
proof (cases "used s (unat b)")
  case True
  then obtain s' P' where "bfree 1 b s = Inr ((), s')" "open_tx k P' p s'" "\<forall>c<2 ^ 32. used s' c \<longleftrightarrow> used s c \<and> c \<noteq> unat b"
    "\<forall>n. n \<noteq> bmap_block s (unat b) \<longrightarrow> blk s' n = blk s n" and f: "lframe s s'" using bfree_ok(1) [OF assms] by blast
  then show ?thesis using True lframe_fs [OF f] by auto
qed (simp add: bfree_ok(2) [OF assms])

text \<open>C19: what \<^verbatim>\<open>iupdate\<close> writes \<^verbatim>\<open>ilock\<close> reads.  \<^verbatim>\<open>iupdate\<close> returns, changes only the slot of its inode in the inode's
  block, and in every later state in which the kernel still sees that block, \<^verbatim>\<open>ilock\<close> of any entry of the table
  for the same inode returns with the type, the device numbers, the links, the size and the addresses that were written.\<close>

theorem ilock_reads_iupdate:
  fixes s :: "'a fstab_scheme"
  assumes "open_tx (Suc k) P p s" "outside_log s (ino_block s ip)" "i_dev (inodes s ip) = 1" "i_type (inodes s ip) \<noteq> 0"
  shows "\<exists>s' P'. iupdate ip s = Inr ((), s') \<and> open_tx k P' p s' \<and> (\<forall>n. n \<noteq> ino_block s ip \<longrightarrow> blk s' n = blk s n) \<and>
     (\<forall>j<16. j \<noteq> ino_slot s ip \<longrightarrow> dinode (blk s' (ino_block s ip)) j = dinode (blk s (ino_block s ip)) j) \<and>
     (\<forall>(t :: 'a fstab_scheme) Q q jp. loginv {} Q t \<and> runs q t \<and> blk t (ino_block s ip) = blk s' (ino_block s ip) \<and> fs_sb t = fs_sb s \<and>
        i_dev (inodes t jp) = 1 \<and> i_inum (inodes t jp) = i_inum (inodes s ip) \<and> 1 \<le> i_ref (inodes t jp) \<and> \<not> i_valid (inodes t jp) \<and> \<not> sl_locked (sls t (Inode_sl jp)) \<longrightarrow>
        (\<exists>t'. ilock (Some jp) t = Inr ((), t') \<and> idata_of (inodes t' jp) = idata_of (inodes s ip) \<and> i_valid (inodes t' jp)))"
proof -
  obtain s' P' where 1: "iupdate ip s = Inr ((), s')" "open_tx k P' p s'" "lframe s s'"
    "blk s' = (blk s)(ino_block s ip := put_dinode (blk s (ino_block s ip)) (ino_slot s ip) (inodes s ip))"
    by (rule iupdate_ok [OF assms(1-3)])
  have k: "ino_slot s ip < 16" by (simp add: ino_slot_def)
  have d: "dinode (blk s' (ino_block s ip)) (ino_slot s ip) = idata_of (inodes s ip)" using dinode_put [OF k k] by (simp add: 1(4))
  have later: "\<exists>t'. ilock (Some jp) t = Inr ((), t') \<and> idata_of (inodes t' jp) = idata_of (inodes s ip) \<and> i_valid (inodes t' jp)"
    if t: "loginv {} Q t" "runs q t" "blk t (ino_block s ip) = blk s' (ino_block s ip)" "fs_sb t = fs_sb s" "i_dev (inodes t jp) = 1"
      "i_inum (inodes t jp) = i_inum (inodes s ip)" "1 \<le> i_ref (inodes t jp)" "\<not> i_valid (inodes t jp)" "\<not> sl_locked (sls t (Inode_sl jp))"
    for t :: "'a fstab_scheme" and Q q jp
  proof -
    have "ino_block t jp = ino_block s ip" "ino_slot t jp = ino_slot s ip" using t(4,6) by (simp_all add: ino_block_def ino_slot_def)
    then have "dinode (blk t (ino_block t jp)) (ino_slot t jp) = idata_of (inodes s ip)" using d t(3) by simp
    then show ?thesis using ilock_ok [OF t(1,2,5,7,8,9) _ assms(4)] by blast
  qed
  have "\<forall>j<16. j \<noteq> ino_slot s ip \<longrightarrow> dinode (blk s' (ino_block s ip)) j = dinode (blk s (ino_block s ip)) j"
    "\<forall>n. n \<noteq> ino_block s ip \<longrightarrow> blk s' n = blk s n" using dinode_put [OF k] by (simp_all add: 1(4))
  then show ?thesis by (intro exI [of _ s'] exI [of _ P'] conjI 1(1,2)) (use later in blast)+
qed


section \<open>A small file system\<close>

definition inode1 :: inode where
  "inode1 = \<lparr>i_dev = 1, i_inum = 1, i_ref = 1, i_valid = True, i_type = 1, i_major = 0, i_minor = 0, i_nlink = 1, i_size = 0, i_addrs = (\<lambda>_. 0)\<rparr>"

definition small_disk :: "uint32 \<Rightarrow> block" where
  "small_disk n = (if n = 45 then replicate 8 255 @ replicate 1016 0 else replicate 1024 0)"

definition fs0 :: fstab where
  "fs0 = (xlog0 {} small_disk 0 \<lparr>fs_sb = super0\<lparr>sb_size := 70\<rparr>, inodes = (\<lambda>_. inode1\<lparr>i_ref := 0\<rparr>)(0 := inode1), lvar_at = (\<lambda>_. 0)\<rparr>)\<lparr>l_outstanding := 1\<rparr>"

lemma fs0_blk: "blk fs0 n = small_disk n"
  by (rule trans [OF blk_uncached]) (simp_all add: fs0_def xlog0_def caches_def ring_bufs_def)

lemma binv_outstanding: "binv H P (s\<lparr>l_outstanding := n\<rparr>) = binv H P s"
  by (simp add: binv_def)

lemma fs0_tx: "open_tx 2 {} 0 fs0" "open_tx (Suc 0) {} 0 fs0" "open_tx (Suc (Suc 0)) {} 0 fs0"
proof -
  have b: "binv {} {} fs0" unfolding fs0_def binv_outstanding by (rule xlog0_binv) (simp_all add: small_disk_def)
  have "hdr_n (small_disk 2) = 0" using blank_hdr by (simp add: small_disk_def blank_disk_def)
  then have l: "loginv {} {} fs0" using b unfolding loginv_def by (simp add: log_layout_def fs0_def)
  have "runs 0 fs0" using xlog0_runs by (simp add: fs0_def runs_def)
  then show "open_tx 2 {} 0 fs0" "open_tx (Suc 0) {} 0 fs0" "open_tx (Suc (Suc 0)) {} 0 fs0" using l by (simp_all add: open_tx_def fs0_def)
qed

lemma fs0_bmap: "b < 70 \<Longrightarrow> bmap_block fs0 b = 45" "block_size fs0 = 70"
proof -
  show "block_size fs0 = 70" by (simp add: fs0_def block_size_def xlog0_def)
  assume "b < 70"
  then have "(of_nat b :: uint32) div 8192 = 0" by (intro word_unat_eq_iff [THEN iffD2]) (simp add: unat_div unat_of_nat)
  then show "bmap_block fs0 b = 45" by (simp add: bmap_block_def BBLOCK_def fs0_def super0_def xlog0_def)
qed

lemma fs0_used: "b < 70 \<Longrightarrow> used fs0 b \<longleftrightarrow> b < 64"
proof -
  assume b: "b < 70"
  have "(255 :: uint8) = - 1" by simp
  then have "bit (255 :: uint8) (b mod 8)" by (simp only: bit_minus_1_iff) simp
  then show ?thesis using b div_less_iff_less_mult [of 8 b 8] by (simp add: used_def fs0_bmap fs0_blk small_disk_def nth_append)
qed

lemma fs0_layout: "fs_layout fs0"
proof -
  have "\<not> in_log 2 30 45" "64 \<le> b \<Longrightarrow> b < 70 \<Longrightarrow> \<not> in_log 2 30 (of_nat b) \<and> of_nat b \<noteq> (45 :: uint32)" for b
    by (auto simp: in_log_def unat_of_nat dest!: arg_cong [where f = unat])
  then show ?thesis using fs0_bmap fs0_used by (auto simp: fs_layout_def) (auto simp: fs0_def)
qed

theorem balloc_takes_first_free_witness:
  "\<exists>s'. balloc 1 fs0 = Inr (64, s') \<and> used s' 64 \<and> \<not> used s' 65"
  using balloc_takes_first_free [OF fs0_tx(3) fs0_layout, of 64] by (auto simp: fs0_used fs0_bmap)

theorem bfree_frees_one_witness:
  "\<exists>s'. bfree 1 63 fs0 = Inr ((), s') \<and> \<not> used s' 63 \<and> used s' 62"
proof -
  have "outside_log fs0 (bmap_block fs0 (unat (63 :: uint32)))" using fs0_layout fs0_bmap(2) by (simp add: fs_layout_def)
  from bfree_frees_one [OF fs0_tx(2) this] show ?thesis by (auto simp: fs0_used)
qed

theorem ilock_reads_iupdate_witness:
  "\<exists>s'. iupdate 0 fs0 = Inr ((), s') \<and> dinode (blk s' 32) 2 = dinode (blk fs0 32) 2"
proof -
  have n: "ino_block fs0 0 = 32" "ino_slot fs0 0 = 1" "inodes fs0 0 = inode1"
    by (simp_all add: ino_block_def ino_slot_def IBLOCK_def fs0_def super0_def inode1_def xlog0_def)
  have "outside_log fs0 (ino_block fs0 0)" by (simp add: n in_log_def) (simp add: fs0_def)
  from ilock_reads_iupdate [OF fs0_tx(2) this] show ?thesis by (auto simp: n inode1_def)
qed


section \<open>The size of the log\<close>

text \<open>C23: \<^verbatim>\<open>begin_op\<close> admits more than the log holds.  On an empty log it admits three operations, each with a budget
  of ten blocks; but in a log of \<^verbatim>\<open>LOGSIZE\<close> blocks, as \<^verbatim>\<open>mkfs\<close> makes it, one block is the header, and \<^verbatim>\<open>log_write\<close>
  panics at the thirtieth block.\<close>

theorem begin_op_overcommits:
  assumes "runs p s" "\<not> l_committing s" "lh_n s = 0" "l_outstanding s = 0"
  shows "(\<exists>s'. kseq begin_op (kseq begin_op begin_op) s = Inr ((), s') \<and> l_outstanding s' * 10 = 30) \<and>
     (\<forall>q t b. runs q t \<and> lh_n t = 29 \<and> l_size t = 30 \<longrightarrow> log_write b t = Inl (Panic ''too big a transaction''))"
proof
  have a: "irq_ok (mach s)" "lk_free (mach s) l" for l using assms(1) by (auto simp: runs_def)
  show "\<exists>s'. kseq begin_op (kseq begin_op begin_op) s = Inr ((), s') \<and> l_outstanding s' * 10 = 30"
    using assms a by (simp add: begin_op_def kmonad locking)
  show "\<forall>q t b. runs q t \<and> lh_n t = 29 \<and> l_size t = 30 \<longrightarrow> log_write b t = Inl (Panic ''too big a transaction'')"
    by (auto simp: log_write_def kmonad locking runs_def)
qed

theorem begin_op_overcommits_witness:
  "\<exists>s'. kseq begin_op (kseq begin_op begin_op) (xlog0 {} blank_disk 0 ()) = Inr ((), s') \<and> l_outstanding s' * 10 = 30"
proof -
  let ?s = "xlog0 {} blank_disk 0 ()"
  have "\<not> l_committing ?s" "lh_n ?s = 0" "l_outstanding ?s = 0" by (simp_all add: xlog0_def)
  from begin_op_overcommits [OF xlog0_runs this] show ?thesis by blast
qed

end
