(* ===== verification/Pathops.thy ===== *)
theory Pathops
  imports Fs
begin

text \<open>
  Path names: \<^verbatim>\<open>skipelem\<close> takes a path apart at its slashes, one component in each call.
\<close>

section \<open>Components\<close>

primrec split_slash :: "uint8 list \<Rightarrow> uint8 list list" where
  "split_slash [] = [[]]"
| "split_slash (c # cs) = (if c = slash then [] # split_slash cs else (c # hd (split_slash cs)) # tl (split_slash cs))"

definition components :: "uint8 list \<Rightarrow> uint8 list list" where
  "components cs = filter (\<lambda>x. x \<noteq> []) (split_slash cs)"

lemma split_slash_ne [simp]: "split_slash cs \<noteq> []"
  by (induction cs) auto

lemma split_slash_append: "slash \<notin> set e \<Longrightarrow> split_slash (e @ cs) = (e @ hd (split_slash cs)) # tl (split_slash cs)"
  by (induction e) auto

lemma components_drop: "components (dropWhile (\<lambda>c. c = slash) cs) = components cs"
  by (induction cs) (simp_all add: components_def)

lemma components_first:
  assumes "slash \<notin> set e" "e \<noteq> []" "cs = [] \<or> hd cs = slash"
  shows "components (e @ cs) = e # components cs"
  using assms split_slash_append [OF assms(1), of "[]"] by (cases cs) (auto simp: components_def split_slash_append)

lemma components_step:
  assumes ds: "ds = dropWhile (\<lambda>c. c = slash) cs" "ds \<noteq> []"
  shows "components cs = takeWhile (\<lambda>c. c \<noteq> slash) ds # components (dropWhile (\<lambda>c. c = slash) (dropWhile (\<lambda>c. c \<noteq> slash) ds))"
proof -
  let ?e = "takeWhile (\<lambda>c. c \<noteq> slash) ds" and ?r = "dropWhile (\<lambda>c. c \<noteq> slash) ds"
  have "hd ds \<noteq> slash" using ds hd_dropWhile [of "\<lambda>c. c = slash" cs] by auto
  then have "?e \<noteq> []" using ds(2) by (cases ds) auto
  moreover have "slash \<notin> set ?e" using set_takeWhileD by fastforce
  moreover have "?r = [] \<or> hd ?r = slash" using hd_dropWhile [of "\<lambda>c. c \<noteq> slash" ds] by auto
  ultimately have "components (?e @ ?r) = ?e # components ?r" by (intro components_first)
  then show ?thesis using components_drop [of cs] components_drop [of ?r] ds(1) by simp
qed

section \<open>Strings in memory\<close>

primrec str_at :: "ram \<Rightarrow> addr \<Rightarrow> uint8 list \<Rightarrow> bool" where
  "str_at m p [] \<longleftrightarrow> m p = 0"
| "str_at m p (c # cs) \<longleftrightarrow> m p = c \<and> c \<noteq> 0 \<and> str_at m (p + 1) cs"

lemma str_at_nth: "str_at m p cs \<Longrightarrow> i < length cs \<Longrightarrow> m (p + of_nat i) = cs ! i"
proof (induction cs arbitrary: p i)
  case (Cons c cs)
  then show ?case using Cons.IH [of "p + 1" "i - 1"] by (cases i) (simp_all add: add.assoc)
qed simp

lemma str_at_cong: "(\<And>i. i \<le> length cs \<Longrightarrow> m' (p + of_nat i) = m (p + of_nat i)) \<Longrightarrow> str_at m' p cs = str_at m p cs"
proof (induction cs arbitrary: p)
  case Nil
  then show ?case using Nil [of 0] by simp
next
  case (Cons c cs)
  have "m' p = m p" using Cons.prems [of 0] by simp
  moreover have "str_at m' (p + 1) cs = str_at m (p + 1) cs" by (rule Cons.IH) (use Cons.prems [of "Suc _"] in \<open>simp add: add.assoc\<close>)
  ultimately show ?case by simp
qed

lemma skip_while_str:
  assumes "str_at m p cs" "\<not> P 0" "length cs \<le> k"
  shows "skip_while P m k p = p + of_nat (length (takeWhile P cs))" "str_at m (p + of_nat (length (takeWhile P cs))) (dropWhile P cs)"
proof -
  show "skip_while P m k p = p + of_nat (length (takeWhile P cs))" using assms
  proof (induction cs arbitrary: p k)
    case Nil
    then show ?case by (cases k) simp_all
  next
    case (Cons c cs)
    then show ?case using Cons.IH [of "p + 1" "k - 1"] by (cases k) (simp_all add: add.assoc)
  qed
  show "str_at m (p + of_nat (length (takeWhile P cs))) (dropWhile P cs)" using assms(1)
  proof (induction cs arbitrary: p)
    case (Cons c cs)
    then show ?case using Cons.IH [of "p + 1"] by (simp add: add.assoc)
  qed simp
qed

lemma str_at_end: "str_at m p cs \<Longrightarrow> m p = 0 \<longleftrightarrow> cs = []"
  by (cases cs) auto

lemma takeWhile_str: "str_at m p cs \<Longrightarrow> takeWhile (\<lambda>c. c \<noteq> slash \<and> c \<noteq> 0) cs = takeWhile (\<lambda>c. c \<noteq> slash) cs"
    "str_at m p cs \<Longrightarrow> dropWhile (\<lambda>c. c \<noteq> slash \<and> c \<noteq> 0) cs = dropWhile (\<lambda>c. c \<noteq> slash) cs"
  by (induction cs arbitrary: p) auto

text \<open>The copy of one component into the field of \<^verbatim>\<open>DIRSIZ\<close> bytes.\<close>

definition put_name :: "ram \<Rightarrow> addr \<Rightarrow> addr \<Rightarrow> addr \<Rightarrow> ram" where
  "put_name m name s len = (if len \<ge> 14 then memmove m name s 14 else (memmove m name s (ucast len))(name + len := 0))"

lemma put_name_ok:
  assumes "len = of_nat n" "n < 128" "unat name + 14 < 2 ^ 64" "unat s + 128 < 2 ^ 64" "\<And>i. i < n \<Longrightarrow> m (s + of_nat i) = e ! i"
  shows "i < min 14 n \<Longrightarrow> put_name m name s len (name + of_nat i) = e ! i" "n < 14 \<Longrightarrow> put_name m name s len (name + of_nat n) = 0"
    "\<forall>j<14. x \<noteq> name + of_nat j \<Longrightarrow> put_name m name s len x = m x"
proof -
  have ul: "unat len = n" using assms(1,2) by (simp add: unat_of_nat)
  have c: "len \<ge> 14 \<longleftrightarrow> 14 \<le> n" by (simp add: word_le_nat_alt ul)
  have u32: "unat (ucast len :: uint32) = n" using assms(2) ul by (simp add: unsigned_ucast_eq take_bit_eq_mod)
  have m14: "memmove m name s 14 = Ram.copied m name s 14" using memmove_eq [of name 14 s m] assms(3,4) by simp
  have mn: "memmove m name s (ucast len) = Ram.copied m name s n" if "n < 14" using memmove_eq [of name "ucast len" s m] assms(3,4) that u32 by simp
  have at: "unat ((name + of_nat i) - name) = i" if "i < 14" for i using that by (simp add: unat_of_nat)
  show "put_name m name s len (name + of_nat i) = e ! i" if i: "i < min 14 n"
  proof (cases "14 \<le> n")
    case True
    then show ?thesis using i assms(5) at [of i] by (simp add: put_name_def c m14 Ram.copied_def)
  next
    case False
    have "name + of_nat i \<noteq> name + len" using i assms(1,2) False by (auto simp: unat_of_nat dest!: arg_cong [where f = unat])
    then show ?thesis using i False assms(5) at [of i] by (simp add: put_name_def c mn Ram.copied_def)
  qed
  show "put_name m name s len (name + of_nat n) = 0" if "n < 14" using that c by (simp add: put_name_def assms(1) [symmetric])
  assume x: "\<forall>j<14. x \<noteq> name + of_nat j"
  have "x = name + of_nat (unat (x - name))" by simp
  then have "\<not> unat (x - name) < 14" using x by blast
  moreover have "x \<noteq> name + len" if "n < 14" using x that assms(1) by simp
  ultimately show "put_name m name s len x = m x" by (cases "14 \<le> n") (auto simp: put_name_def c m14 mn Ram.copied_def)
qed

section \<open>Property\<close>

text \<open>C21: \<^verbatim>\<open>skipelem\<close> takes a path apart.  For a path of at most 127 characters, apart from the name field, it
  returns 0 exactly if the path has no component, and nothing is written.  Otherwise the name field holds the first
  component, cut to 14 characters and terminated if it is shorter, the result points to a string whose
  components are the remaining ones, and no other byte of memory has changed.\<close>

theorem skipelem_splits_path:
  assumes str: "str_at m p cs" "length cs < 128" and lim: "unat p + 256 < 2 ^ 64" "unat name + 14 < 2 ^ 64"
    and apart: "\<forall>i\<le>length cs. \<forall>j<14. p + of_nat i \<noteq> name + of_nat j"
  shows "case components cs of
     [] \<Rightarrow> skipelem p name m = (None, m)
   | e # es \<Rightarrow> \<exists>k rest m'. skipelem p name m = (Some (p + of_nat k), m') \<and> k \<le> length cs \<and>
       str_at m' (p + of_nat k) rest \<and> components rest = es \<and>
       (\<forall>i<min 14 (length e). m' (name + of_nat i) = e ! i) \<and> (length e < 14 \<longrightarrow> m' (name + of_nat (length e)) = 0) \<and>
       (\<forall>x. (\<forall>j<14. x \<noteq> name + of_nat j) \<longrightarrow> m' x = m x)"
proof -
  let ?sl = "\<lambda>c :: uint8. c = slash" and ?el = "\<lambda>c :: uint8. c \<noteq> slash \<and> c \<noteq> 0"
  define ds where "ds = dropWhile ?sl cs"
  define a where "a = length (takeWhile ?sl cs)"
  have la: "a + length ds = length cs" unfolding a_def ds_def by (metis length_append takeWhile_dropWhile_id)
  have 1: "skip_while ?sl m 128 p = p + of_nat a" "str_at m (p + of_nat a) ds"
    using skip_while_str [OF str(1), of ?sl 128] str(2) by (simp_all add: a_def ds_def)
  show ?thesis
  proof (cases "ds = []")
    case True
    have "components ds = []" using True by (simp add: components_def)
    then have "components cs = []" using components_drop [of cs] by (simp only: ds_def)
    then show ?thesis using 1 True by (simp add: skipelem_def)
  next
    case False
    define e where "e = takeWhile (\<lambda>c. c \<noteq> slash) ds"
    define r where "r = dropWhile (\<lambda>c. c \<noteq> slash) ds"
    let ?s = "p + of_nat a" and ?n = "of_nat (length e) :: addr"
    have le: "length e + length r = length ds" unfolding e_def r_def by (metis length_append takeWhile_dropWhile_id)
    have 2: "skip_while ?el m 128 ?s = ?s + ?n" "str_at m (?s + ?n) r"
      using skip_while_str [OF 1(2), of ?el 128] takeWhile_str [OF 1(2)] la str(2) by (simp_all add: e_def r_def)
    let ?m = "put_name m name ?s ?n"
    have us: "unat ?s + 128 < 2 ^ 64" using lim(1) la str(2) by (subst unat_add_lt) (simp_all add: unat_of_nat)
    have el: "length e < 128" using le la str(2) by simp
    have ds: "m (?s + of_nat i) = e ! i" if "i < length e" for i
      using str_at_nth [OF 1(2), of i] le that by (simp add: e_def takeWhile_nth)
    note pn = put_name_ok [OF refl el lim(2) us ds]
    have un: "?m (p + of_nat i) = m (p + of_nat i)" if "i \<le> length cs" for i using pn(3) [of "p + of_nat i"] apart that by blast
    have idx: "?s + ?n + of_nat i = p + of_nat (a + length e + i)" for i by (simp add: add.assoc)
    have "str_at ?m (?s + ?n) r = str_at m (?s + ?n) r"
      by (rule str_at_cong) (unfold idx, rule un, use le la in simp)
    then have 3: "skip_while ?sl ?m 128 (?s + ?n) = ?s + ?n + of_nat (length (takeWhile ?sl r))" "str_at ?m (?s + ?n + of_nat (length (takeWhile ?sl r))) (dropWhile ?sl r)"
      using 2(2) skip_while_str [of ?m "?s + ?n" r ?sl 128] le la str(2) by simp_all
    let ?k = "a + length e + length (takeWhile ?sl r)"
    have run: "skipelem p name m = (Some (p + of_nat ?k), ?m)"
      using 1 2(1) 3(1) False str_at_end [OF 1(2)] by (simp add: skipelem_def put_name_def [symmetric] Let_def add.assoc)
    have cc: "components cs = e # components (dropWhile ?sl r)" using components_step [OF ds_def False] by (simp add: e_def r_def)
    have kl: "?k \<le> length cs" using le la length_takeWhile_le [of ?sl r] by simp
    have st: "str_at ?m (p + of_nat ?k) (dropWhile ?sl r)" using 3(2) by (simp add: add.assoc)
    show ?thesis unfolding cc list.case
      by (intro exI [of _ ?k] exI [of _ "dropWhile ?sl r"] exI [of _ ?m] conjI run kl st refl) (use pn in auto)
  qed
qed

text \<open>The path \<^verbatim>\<open>/a//b\<close>.\<close>

definition path_ram :: ram where
  "path_ram = (\<lambda>_. 0)(0x1000 := 47, 0x1001 := 97, 0x1002 := 47, 0x1003 := 47, 0x1004 := 98)"

theorem skipelem_splits_path_witness:
  "\<exists>k m'. skipelem 0x1000 0x2000 path_ram = (Some (0x1000 + of_nat k), m') \<and> m' 0x2000 = 97 \<and> m' 0x2001 = 0"
proof -
  have s: "str_at path_ram 0x1000 [47, 97, 47, 47, 98]" by (simp add: path_ram_def)
  have c: "components [47, 97, 47, 47, 98] = [[97], [98]]" by (simp add: components_def)
  have "\<forall>i\<le>5. \<forall>j<14. (0x1000 :: addr) + of_nat i \<noteq> 0x2000 + of_nat j"
    by (auto simp: unat_word_ariths unat_of_nat dest!: arg_cong [where f = unat])
  then show ?thesis using skipelem_splits_path [OF s, of "0x2000"] by (auto simp: c)
qed

end
