(* ===== verification/Spec2Isabelle.thy ===== *)
theory Spec2Isabelle
  imports Aspace Grep Uprogs Sh Sleepwake Vring Trapops Fsops Pathops
begin

text \<open>
  \<^bold>\<open>Verification of an xv6 kernel with copy-on-write fork\<close>

  The program is a small Unix kernel for RISC-V, written in C (\<^verbatim>\<open>src/kernel\<close>), with its user programs
  (\<^verbatim>\<open>src/user\<close>).  Its \<^verbatim>\<open>fork\<close> shares the pages of the parent read-only and copies a page at the first store to it;
  the page allocator counts the references to each page.

  \<^bold>\<open>How the program is modelled.\<close>  A kernel function is a state transformer (\<open>km\<close> in theory \<open>Prelude\<close>):
  it returns a value and a state, or ends with an outcome of type \<open>kerr\<close>: \<open>Panic\<close>, \<open>Asleep\<close> on a channel,
  \<open>Spinning\<close> on a lock, or \<open>Out_of_fuel\<close>.  Integers of C are words of their width.  Memory is a map from addresses to bytes,
  and whatever the kernel links through memory is there: the free list, page tables, trap frames, pipes, and the data of the
  block buffers.  The other global variables are fields of a record that each component extends: \<open>pmem\<close> (allocator
  and locks), \<open>ptable\<close> (processes), \<open>sltable\<close> (sleep locks), \<open>bcache\<close> (buffers and disk), \<open>vdisk\<close> (disk driver), \<open>xlog\<close> (log),
  \<open>fstab\<close> (inodes), \<open>contab\<close> (console), \<open>filetab\<close> (open files), \<open>ktab\<close> (control registers and symbols).  A function that calls
  \<^verbatim>\<open>swtch\<close> is split there into the half before it (\<open>_out\<close>) and the half after it (\<open>_in\<close>).  A user program is a function on
  the world its system calls show it (theory \<open>Uenv\<close>).

  \<^bold>\<open>The parts, their theories and what is shown.\<close>

  \<^item> Basics.  \<open>Prelude\<close>: the monad, words, locks and channels.  \<open>Layout\<close>: \<^verbatim>\<open>riscv.h\<close>, \<^verbatim>\<open>memlayout.h\<close>.  \<open>Ram\<close>: loads,
    stores and \<^verbatim>\<open>string.c\<close>; \<^verbatim>\<open>memmove\<close> is right for every overlap.

  \<^item> Spinlocks (\<open>Spinlock\<close>; \<^verbatim>\<open>spinlock.c\<close>): the functions on one hart, and the interleavings of several harts
    on one lock word as the step relation \<open>lstep\<close>; mutual exclusion.

  \<^item> Page allocator (\<open>Kalloc\<close>; \<^verbatim>\<open>kalloc.c\<close>): the invariant \<open>kinv\<close> of free list and counts, established by \<^verbatim>\<open>kinit\<close>.  The
    interface is the locale \<open>page_alloc\<close>, interpreted on \<open>kalloc\<close>, \<open>krefinc\<close> and \<open>kfree\<close>.

  \<^item> Virtual memory (\<^verbatim>\<open>vm.c\<close>).  \<open>Pagetable\<close> and \<open>Vm\<close>: the operations; \<open>Freewalk\<close>: release of a table; \<open>Uspace\<close>: the invariant \<open>vinv\<close> of
    a set of page tables that may share pages, and the view \<open>uview\<close>, the memory a process sees; \<open>Uops\<close>, \<open>Cow\<close>, \<open>Copy\<close>: the effect of
    each operation on the views; \<open>Aspace\<close>: the properties.  Copy-on-write has the effect of an eager copy, and processes stay
    isolated.

  \<^item> Processes (\<open>Proc\<close>, \<open>Procs\<close>; \<^verbatim>\<open>proc.c\<close>): process table, scheduler, \<^verbatim>\<open>sleep\<close>, \<^verbatim>\<open>wakeup\<close>, \<^verbatim>\<open>fork\<close>, \<^verbatim>\<open>exit\<close>, \<^verbatim>\<open>wait\<close>.  \<open>Sleepwake\<close>: the protocol
    of a sleeper and a waker as a step relation; no wakeup is lost and every run ends.  \<open>Sleeplock\<close>: \<^verbatim>\<open>sleeplock.c\<close>.

  \<^item> Disk.  \<open>Bio\<close>: \<^verbatim>\<open>bio.c\<close> over the one-step transfer \<open>disk_rw\<close>; \<open>Bring\<close> and \<open>Bcoh\<close>: the ring of buffers and
    the coherence of cache and disk.  \<open>Virtio\<close>: \<^verbatim>\<open>virtio_disk.c\<close>; \<open>Vring\<close>: a request from its submission through \<^verbatim>\<open>sleep\<close>, the
    device, the interrupt and the scheduler to its end refines \<open>disk_rw\<close>.  The device is a parameter with the behaviour that the virtio
    specification documents (\<open>blk_device\<close>); \<open>dev0\<close> is an instance.

  \<^item> Log.  \<open>Blockenc\<close>: integers in blocks; \<open>Log\<close>: \<^verbatim>\<open>log.c\<close>; \<open>Crash\<close>: disk images cut off anywhere; \<open>Logops\<close> and \<open>Txn\<close>: a commit is
    atomic under crashes, and recovery implements its abstract form.

  \<^item> File system (\<open>Fs\<close>; \<^verbatim>\<open>fs.c\<close>).  \<open>Fsops\<close>: allocation of blocks, inodes on disk and in the table, and the admission of operations to the
    log.  \<open>Pathops\<close>: \<^verbatim>\<open>skipelem\<close> against a split at the slashes.

  \<^item> Console and UART (\<open>Uart\<close>, \<open>File\<close>; \<^verbatim>\<open>uart.c\<close>, \<^verbatim>\<open>printf.c\<close>, \<^verbatim>\<open>console.c\<close>), pipes and open files (\<open>File\<close>; \<^verbatim>\<open>pipe.c\<close>, \<^verbatim>\<open>file.c\<close>).  \<open>Bytering\<close>:
    circular byte buffers, as the locale \<open>byte_ring\<close> interpreted at the three sizes of the sources.  \<open>Consops\<close>: the interrupt handler edits lines as an
    abstract editor, the output keeps its order.  \<open>Pipeops\<close>: a pipe is a queue between two address spaces.

  \<^item> System calls and traps.  \<open>Syscall\<close>: \<^verbatim>\<open>syscall.c\<close>, \<^verbatim>\<open>sysproc.c\<close>, \<^verbatim>\<open>exec.c\<close>; \<open>Sysfile\<close>: \<^verbatim>\<open>sysfile.c\<close>; \<open>Trap\<close>: \<^verbatim>\<open>plic.c\<close>, \<^verbatim>\<open>trap.c\<close>, \<^verbatim>\<open>main.c\<close>.
    \<open>Trapops\<close>: a store fault resumes the process with a page of its own, or kills it, and changes no view.

  \<^item> User programs.  \<open>Ulib\<close>: \<^verbatim>\<open>ulib.c\<close>; \<open>Uprintf\<close>: \<^verbatim>\<open>printf.c\<close>; \<open>Grep\<close>: the matcher against the language of the pattern, and the loop
    over lines; \<open>Uprogs\<close>: \<^verbatim>\<open>cat\<close>, \<^verbatim>\<open>wc\<close>, \<^verbatim>\<open>echo\<close>, \<^verbatim>\<open>kill\<close>, \<^verbatim>\<open>ln\<close>, \<^verbatim>\<open>mkdir\<close>, \<^verbatim>\<open>rm\<close>; \<open>Sh\<close>: the shell's parser and
    interpreter.

  \<^bold>\<open>Bounds and fuel.\<close>  A loop over an array is a recursion over its indexes.  Where a loop follows links or
  a condition, the number of turns is an argument, and running out of it is the outcome \<open>Out_of_fuel\<close>, which is not a return: the
  properties state what is returned.  The searches of \<^verbatim>\<open>bget\<close> have \<open>NBUF + 1\<close> turns, the ring has \<open>NBUF\<close> buffers;
  \<^verbatim>\<open>freewalk\<close> has the three levels of a table; \<^verbatim>\<open>readi\<close> and \<^verbatim>\<open>writei\<close> have one turn more than bytes, each turn moves one byte
  at least; a path has at most \<open>MAXPATH\<close> characters; \<^verbatim>\<open>free_chain\<close> frees one of \<open>NUM\<close> descriptors in each turn; \<^verbatim>\<open>virtio_disk_intr\<close> and
  \<^verbatim>\<open>uartstart\<close> have as many turns as their two indexes are apart; the shell's parser consumes input in each cycle of its
  mutual recursion.

  \<^bold>\<open>Concurrency.\<close>  A kernel function runs on one hart, with the locks it takes free at its start; what several harts do to
  one spinlock, and to a sleeper and its waker, is modelled by interleaving (\<open>Spinlock\<close>, \<open>Sleepwake\<close>).  Both are
  sequentially consistent: the fences of the source have no counterpart.

  \<^bold>\<open>Not modelled.\<close>  \<^verbatim>\<open>start.c\<close> and the assembly files (\<^verbatim>\<open>entry.S\<close>, \<^verbatim>\<open>kernelvec.S\<close>, \<^verbatim>\<open>swtch.S\<close>, \<^verbatim>\<open>trampoline.S\<close>, \<^verbatim>\<open>initcode.S\<close>):
  machine-mode registers and instructions below the level of C.  \<^verbatim>\<open>ramdisk.c\<close>: not in the build.  \<^verbatim>\<open>umalloc.c\<close>: the shell, its one user
  among the modelled programs, is modelled with its command nodes as values.  \<^verbatim>\<open>mkfs.c\<close>: a program of the host.  Of \<^verbatim>\<open>ls.c\<close> only the name
  formatting; \<^verbatim>\<open>init.c\<close> and \<^verbatim>\<open>zombie.c\<close>, which only make system calls; and the test programs.  The TLB has no counterpart:
  \<^verbatim>\<open>sfence_vma\<close> is the identity.
\<close>

end
